(* ===== verification/Kernel_Prelude.thy ===== *)
theory Kernel_Prelude
  imports Main "HOL-Library.Word"
begin

text \<open>
  Shared vocabulary of the development: the C integer types as words of fixed
  width, the outcome type of a kernel routine, sequencing of outcomes, and the
  generic lemmas on lists, intervals and words that the components use.
\<close>

unbundle bit_operations_syntax

section \<open>C integer types\<close>

type_synonym u8 = "8 word"
type_synonym u16 = "16 word"
type_synonym u32 = "32 word"
type_synonym u64 = "64 word"

text \<open>A pointer is its 64-bit address; the null pointer is address 0.\<close>

abbreviation NULL :: u64 where
  "NULL \<equiv> 0"

section \<open>Outcomes of a kernel routine\<close>

text \<open>
  A routine returns a value and the new state (\<open>Ret\<close>); or it reaches one of the
  kernel's halting loops \<open>for(;;) asm volatile("hlt")\<close> with the state it leaves
  behind (\<open>Halt\<close>); or it spins in a loop that never ends (\<open>Hang\<close>); or it touches
  memory that holds no object of the expected type, where C gives no meaning
  (\<open>Fault\<close>).
\<close>

datatype ('s, 'a) outcome = Ret 'a 's | Halt 's | Hang | Fault

fun obind :: "('s, 'a) outcome \<Rightarrow> ('a \<Rightarrow> 's \<Rightarrow> ('s, 'b) outcome) \<Rightarrow> ('s, 'b) outcome" where
  "obind (Ret x s) f = f x s"
| "obind (Halt s) f = Halt s"
| "obind Hang f = Hang"
| "obind Fault f = Fault"

text \<open>A loop that may run forever is an option; \<open>None\<close> is the run that never returns.\<close>

fun of_loop :: "('s, 'a) outcome option \<Rightarrow> ('s, 'a) outcome" where
  "of_loop None = Hang"
| "of_loop (Some r) = r"

lemma obind_assoc: "obind (obind m f) g = obind m (\<lambda>x s. obind (f x s) g)"
  by (cases m) auto

lemma obind_Ret_right [simp]: "obind m Ret = m"
  by (cases m) auto

lemma obind_eq_Ret:
  "obind m f = Ret y t \<longleftrightarrow> (\<exists>x s. m = Ret x s \<and> f x s = Ret y t)"
  by (cases m) auto

lemma obind_cong [fundef_cong]:
  "m = m' \<Longrightarrow> (\<And>x s. m' = Ret x s \<Longrightarrow> f x s = f' x s) \<Longrightarrow> obind m f = obind m' f'"
  by (cases m') auto

text \<open>A counted loop \<open>for (i = a; i < a + n; i++) body\<close> over an outcome state.\<close>

primrec for_loop :: "nat \<Rightarrow> nat \<Rightarrow> (nat \<Rightarrow> 's \<Rightarrow> ('s, unit) outcome) \<Rightarrow> 's \<Rightarrow> ('s, unit) outcome" where
  "for_loop 0 i body s = Ret () s"
| "for_loop (Suc n) i body s = obind (body i s) (\<lambda>_ t. for_loop n (Suc i) body t)"

text \<open>The loop rule: an invariant indexed by the loop counter, with total correctness.\<close>

lemma for_loop_rule:
  assumes "P i s"
    and "\<And>j t. i \<le> j \<Longrightarrow> j < i + n \<Longrightarrow> P j t \<Longrightarrow> \<exists>t'. body j t = Ret () t' \<and> P (Suc j) t'"
  shows "\<exists>t. for_loop n i body s = Ret () t \<and> P (i + n) t"
  using assms
proof (induction n arbitrary: i s)
  case 0
  then show ?case by simp
next
  case (Suc n)
  obtain t' where t': "body i s = Ret () t'" "P (Suc i) t'"
    using Suc.prems(1) Suc.prems(2) [of i s] by auto
  have "\<exists>t. for_loop n (Suc i) body t' = Ret () t \<and> P (Suc i + n) t"
    by (rule Suc.IH [OF t'(2)]) (use Suc.prems(2) in auto)
  with t'(1) show ?case by auto
qed

text \<open>The same counted loop when the body is a plain state update.\<close>

primrec for_upd :: "nat \<Rightarrow> nat \<Rightarrow> (nat \<Rightarrow> 's \<Rightarrow> 's) \<Rightarrow> 's \<Rightarrow> 's" where
  "for_upd 0 i f s = s"
| "for_upd (Suc n) i f s = for_upd n (Suc i) f (f i s)"

lemma for_upd_rule:
  assumes "P i s" and "\<And>j t. i \<le> j \<Longrightarrow> j < i + n \<Longrightarrow> P j t \<Longrightarrow> P (Suc j) (f j t)"
  shows "P (i + n) (for_upd n i f s)"
  using assms
proof (induction n arbitrary: i s)
  case 0
  then show ?case by simp
next
  case (Suc n)
  have "P (Suc i + n) (for_upd n (Suc i) f (f i s))"
    by (rule Suc.IH) (use Suc.prems in auto)
  then show ?case by simp
qed

lemma for_upd_Suc_last: "for_upd (Suc n) i f s = f (i + n) (for_upd n i f s)"
  by (induction n arbitrary: i s) auto

text \<open>An outcome whose result, if there is one, has a property; and the rules that carry it through loops.\<close>

fun yields :: "('a \<Rightarrow> 's \<Rightarrow> bool) \<Rightarrow> ('s, 'a) outcome \<Rightarrow> bool" where
  "yields P (Ret x s) \<longleftrightarrow> P x s"
| "yields P (Halt s) \<longleftrightarrow> True"
| "yields P Hang \<longleftrightarrow> True"
| "yields P Fault \<longleftrightarrow> True"

lemma yields_obind [simp]: "yields P (obind m f) \<longleftrightarrow> yields (\<lambda>x t. yields P (f x t)) m"
  by (cases m) auto

lemma yields_mono: "yields P m \<Longrightarrow> (\<And>x t. P x t \<Longrightarrow> Q x t) \<Longrightarrow> yields Q m"
  by (cases m) auto

lemma yieldsD: "yields P m \<Longrightarrow> m = Ret x t \<Longrightarrow> P x t"
  by simp

lemma yields_for_loop:
  "K s \<Longrightarrow> (\<And>i t. K t \<Longrightarrow> yields (\<lambda>_. K) (body i t)) \<Longrightarrow> yields (\<lambda>_. K) (for_loop n i body s)"
proof (induction n arbitrary: i s)
  case (Suc n)
  have "yields (\<lambda>_ t. yields (\<lambda>_. K) (for_loop n (Suc i) body t)) (body i s)"
    by (rule yields_mono [OF Suc.prems(2) [OF Suc.prems(1)]], rule Suc.IH) (use Suc.prems(2) in auto)
  then show ?case by simp
qed simp

lemma yields_of_loop: "(\<And>r. m = Some r \<Longrightarrow> yields P r) \<Longrightarrow> yields P (of_loop m)"
  by (cases m) auto

section \<open>Words\<close>

lemma unat_of_nat_small: "n < 2 ^ LENGTH('a) \<Longrightarrow> unat (of_nat n :: 'a::len word) = n"
  by (simp add: unat_of_nat)

text \<open>The simplifier writes a shifted one as a power of two.\<close>

lemma bit_two_power [simp]:
  "bit ((2::'a::len word) ^ n) m \<longleftrightarrow> m = n \<and> n < LENGTH('a)"
  by (auto simp: bit_exp_iff)

lemma and_single_bit:
  "k < LENGTH('a) \<Longrightarrow> (x::'a::len word) AND 2 ^ k = 0 \<longleftrightarrow> \<not> bit x k"
proof
  assume "k < LENGTH('a)" and "x AND 2 ^ k = 0"
  then show "\<not> bit x k" using bit_and_iff [of x "2 ^ k" k] by auto
next
  assume "\<not> bit x k"
  then show "x AND 2 ^ k = 0" by (intro bit_word_eqI) (auto simp: bit_and_iff)
qed

lemma and_mask_eq_mod: "(w :: 'a::len word) AND mask n = word_of_int (uint w mod 2 ^ n)"
  by (simp add: and_mask_bintr take_bit_eq_mod)

text \<open>The two's complement reading of a 64-bit word, and the negation C's unary minus computes.\<close>

lemma sint_u64: "sint (v::u64) = (if uint v < 2^63 then uint v else uint v - 2^64)"
proof -
  have b: "0 \<le> uint v" "uint v < 2^64" using unsigned_less [where ?'a = int, of v] by auto
  have "sint v = (uint v + 2^63) mod 2^64 - 2^63"
    by (simp add: sint_uint signed_take_bit_eq_take_bit_shift take_bit_eq_mod)
  moreover have "(uint v + 2^63) mod 2^64 = (if uint v < 2^63 then uint v + 2^63 else uint v - 2^63)"
    using b by (auto simp: mod_pos_pos_trivial intro!: int_mod_pos_eq [where q = 1])
  ultimately show ?thesis by auto
qed

lemma sint_u32: "sint (v::u32) = (if uint v < 2^31 then uint v else uint v - 2^32)"
proof -
  have b: "0 \<le> uint v" "uint v < 2^32" using unsigned_less [where ?'a = int, of v] by auto
  have "sint v = (uint v + 2^31) mod 2^32 - 2^31"
    by (simp add: sint_uint signed_take_bit_eq_take_bit_shift take_bit_eq_mod)
  moreover have "(uint v + 2^31) mod 2^32 = (if uint v < 2^31 then uint v + 2^31 else uint v - 2^31)"
    using b by (auto simp: mod_pos_pos_trivial intro!: int_mod_pos_eq [where q = 1])
  ultimately show ?thesis by auto
qed

lemma uint_neg_u64: "sint (v::u64) < 0 \<Longrightarrow> int (unat (- v)) = - sint v"
proof -
  assume n: "sint v < 0"
  have b: "0 \<le> uint v" "uint v < 2^64" using unsigned_less [where ?'a = int, of v] by auto
  then have "0 < uint v" using n by (auto simp: sint_u64 split: if_splits)
  have "uint (- v) = (- uint v) mod 2 ^ 64" by (simp add: uint_word_ariths)
  also have "... = 2^64 - uint v" using b \<open>0 < uint v\<close> by (simp add: zmod_zminus1_eq_if)
  finally show ?thesis using n by (auto simp: sint_u64 split: if_splits)
qed

text \<open>A field of \<open>w\<close> bits cut out at \<open>k\<close> and put back there.\<close>

lemma bit_field:
  fixes v :: "'a::len word"
  assumes "w \<le> LENGTH('b)" and "n < LENGTH('c)"
  shows "bit (push_bit k (ucast (ucast (drop_bit k v AND mask w) :: 'b::len word) :: 'c::len word)) n \<longleftrightarrow>
    k \<le> n \<and> n < k + w \<and> bit v n"
proof (cases "k \<le> n")
  case True
  then obtain j where j: "n = k + j" using le_Suc_ex by blast
  have "bit v (k + j) \<Longrightarrow> k + j < LENGTH('a)" by (rule bit_imp_le_length)
  then show ?thesis using assms
    by (auto simp: j bit_push_bit_iff bit_ucast_iff bit_and_iff bit_mask_iff bit_drop_bit_eq)
qed (simp add: bit_push_bit_iff)

lemma bit_chunk:
  fixes v :: "'a::len word"
  assumes "n < LENGTH('c)"
  shows "bit (push_bit k (ucast (ucast (drop_bit k v) :: 'b::len word) :: 'c::len word)) n \<longleftrightarrow>
    k \<le> n \<and> n < k + LENGTH('b) \<and> bit v n"
proof (cases "k \<le> n")
  case True
  then obtain j where j: "n = k + j" using le_Suc_ex by blast
  have "bit v (k + j) \<Longrightarrow> k + j < LENGTH('a)" by (rule bit_imp_le_length)
  then show ?thesis using assms
    by (auto simp: j bit_push_bit_iff bit_ucast_iff bit_drop_bit_eq)
qed (simp add: bit_push_bit_iff)

lemma bit_low_field:
  fixes v :: "'a::len word"
  assumes "w \<le> LENGTH('b)" and "n < LENGTH('c)"
  shows "bit (ucast (ucast (v AND mask w) :: 'b::len word) :: 'c::len word) n \<longleftrightarrow> n < w \<and> bit v n"
  using bit_field [OF assms, of 0 v] by simp

lemma mask_numerals:
  "(0xF::'a::len word) = mask 4" "(0xFF::'a::len word) = mask 8" "(0xFFFF::'a::len word) = mask 16"
  "(0xFFFFF::'a::len word) = mask 20" "(0xFFFFFFFF::'a::len word) = mask 32"
  by (simp_all add: mask_eq_exp_minus_1)

end
