(* ===== verification/Port_Io.thy ===== *)
theory Port_Io
  imports Kernel_Prelude
begin

text \<open>
  Port-mapped input and output, as the drivers' inline \<open>outb\<close> and \<open>inb\<close> perform it.
  The machine keeps the history of port accesses. What a device answers on a read
  is not kernel code: it is the parameter \<open>port_dev\<close>, a function of the whole
  history and the port, carried unchanged in the state. Facts about a device (the
  UART becomes ready, an interrupt mask register reads back what was written) are
  named predicates on that parameter.
\<close>

datatype port_event = PortOut u16 u8 | PortIn u16

record io_state =
  port_log :: "port_event list"
  port_dev :: "port_event list \<Rightarrow> u16 \<Rightarrow> u8"

definition outb :: "u16 \<Rightarrow> u8 \<Rightarrow> 'a io_state_scheme \<Rightarrow> 'a io_state_scheme" where
  "outb port val s = s\<lparr>port_log := port_log s @ [PortOut port val]\<rparr>"

definition inb :: "u16 \<Rightarrow> 'a io_state_scheme \<Rightarrow> u8 \<times> 'a io_state_scheme" where
  "inb port s = (port_dev s (port_log s) port, s\<lparr>port_log := port_log s @ [PortIn port]\<rparr>)"

lemma outb_simps [simp]:
  "port_log (outb p v s) = port_log s @ [PortOut p v]"
  "port_dev (outb p v s) = port_dev s"
  by (simp_all add: outb_def)

lemma inb_simps [simp]:
  "fst (inb p s) = port_dev s (port_log s) p"
  "port_log (snd (inb p s)) = port_log s @ [PortIn p]"
  "port_dev (snd (inb p s)) = port_dev s"
  by (simp_all add: inb_def)

text \<open>The bytes a driver has written to one port, in order.\<close>

fun sent_to :: "u16 \<Rightarrow> port_event list \<Rightarrow> u8 list" where
  "sent_to p [] = []"
| "sent_to p (PortOut q v # es) = (if p = q then v # sent_to p es else sent_to p es)"
| "sent_to p (PortIn q # es) = sent_to p es"

lemma sent_to_append [simp]: "sent_to p (xs @ ys) = sent_to p xs @ sent_to p ys"
  by (induction p xs rule: sent_to.induct) auto

section \<open>C strings\<close>

text \<open>A string literal as the bytes of its characters (the terminating NUL left off).\<close>

definition str :: "string \<Rightarrow> u8 list" where
  "str cs = map of_char cs"

lemma str_simps [simp]: "str [] = []" "str (c # cs) = of_char c # str cs"
  by (simp_all add: str_def)

lemma str_append [simp]: "str (xs @ ys) = str xs @ str ys"
  by (simp add: str_def)

section \<open>Digits\<close>

text \<open>
  \<open>'0' + nibble\<close> below ten and \<open>'A' + nibble - 10\<close> from ten on: the character of a
  digit, as \<open>vga_print_hex\<close> and \<open>serial_print_hex\<close> compute it in bytes.
\<close>

definition digit_char :: "u8 \<Rightarrow> u8" where
  "digit_char n = (if n < 10 then 0x30 + n else 0x41 + n - 10)"

text \<open>The reader's side: the value of a digit character and of a digit string.\<close>

definition digit_value :: "u8 \<Rightarrow> nat" where
  "digit_value c = (if c < 0x41 then unat c - 48 else unat c - 55)"

fun digits_value :: "nat \<Rightarrow> u8 list \<Rightarrow> nat" where
  "digits_value b [] = 0"
| "digits_value b (c # cs) = digit_value c * b ^ length cs + digits_value b cs"

lemma digits_value_append:
  "digits_value b (xs @ ys) = digits_value b xs * b ^ length ys + digits_value b ys"
  by (induction xs) (auto simp: algebra_simps power_add)

lemma unat_digit_char:
  "unat n < 16 \<Longrightarrow> unat (digit_char n) = (if unat n < 10 then 48 + unat n else 55 + unat n)"
  by (auto simp: digit_char_def word_less_nat_alt unat_word_ariths)

lemma digit_value_char: "unat n < 16 \<Longrightarrow> digit_value (digit_char n) = unat n"
  by (auto simp: digit_value_def word_less_nat_alt unat_digit_char)

lemma digit_char_nonzero [simp]: "unat n < 16 \<Longrightarrow> digit_char n \<noteq> 0"
  by (drule unat_digit_char) (auto split: if_splits)

end
