(* ===== verification/Vga.thy ===== *)
theory Vga
  imports Port_Io
begin

text \<open>
  The text console of \<open>src/drivers/vga.c\<close>: an 80 by 25 array of character cells, a
  cursor and a colour attribute. The cells are the memory-mapped buffer at 0xB8000,
  kept as a list of 2000 words; the cursor coordinates only ever count up from 0 or
  are reset, so they are natural numbers.
\<close>

section \<open>State and operations\<close>

definition VGA_COLS :: nat where
  "VGA_COLS = 80"

definition VGA_ROWS :: nat where
  "VGA_ROWS = 25"

datatype vga_colour =
    VGA_BLACK | VGA_BLUE | VGA_GREEN | VGA_CYAN | VGA_RED | VGA_MAGENTA | VGA_BROWN
  | VGA_LIGHT_GREY | VGA_DARK_GREY | VGA_LIGHT_BLUE | VGA_LIGHT_GREEN | VGA_LIGHT_CYAN
  | VGA_LIGHT_RED | VGA_LIGHT_MAGENTA | VGA_YELLOW | VGA_WHITE

primrec colour_code :: "vga_colour \<Rightarrow> u8" where
  "colour_code VGA_BLACK = 0" | "colour_code VGA_BLUE = 1"
| "colour_code VGA_GREEN = 2" | "colour_code VGA_CYAN = 3"
| "colour_code VGA_RED = 4" | "colour_code VGA_MAGENTA = 5"
| "colour_code VGA_BROWN = 6" | "colour_code VGA_LIGHT_GREY = 7"
| "colour_code VGA_DARK_GREY = 8" | "colour_code VGA_LIGHT_BLUE = 9"
| "colour_code VGA_LIGHT_GREEN = 10" | "colour_code VGA_LIGHT_CYAN = 11"
| "colour_code VGA_LIGHT_RED = 12" | "colour_code VGA_LIGHT_MAGENTA = 13"
| "colour_code VGA_YELLOW = 14" | "colour_code VGA_WHITE = 15"

record vga_state = io_state +
  vga_buf :: "u16 list"
  cursor_x :: nat
  cursor_y :: nat
  current_colour :: u8

text \<open>\<open>char\<close> is signed on x86, so the conversion to \<open>uint16_t\<close> extends the sign bit.\<close>

definition vga_entry :: "u8 \<Rightarrow> u8 \<Rightarrow> u16" where
  "vga_entry c colour = scast c OR push_bit 8 (ucast colour)"

definition vga_clear :: "'a vga_state_scheme \<Rightarrow> 'a vga_state_scheme" where
  "vga_clear s = for_upd (VGA_ROWS * VGA_COLS) 0
     (\<lambda>i t. t\<lparr>vga_buf := (vga_buf t)[i := vga_entry 0x20 (current_colour t)]\<rparr>) s"

definition vga_set_colour :: "vga_colour \<Rightarrow> vga_colour \<Rightarrow> 'a vga_state_scheme \<Rightarrow> 'a vga_state_scheme" where
  "vga_set_colour fg bg s = s\<lparr>current_colour := push_bit 4 (colour_code bg) OR colour_code fg\<rparr>"

definition vga_scroll :: "'a vga_state_scheme \<Rightarrow> 'a vga_state_scheme" where
  "vga_scroll s =
     (let s1 = for_upd (VGA_ROWS - 1) 0
                 (\<lambda>y t. for_upd VGA_COLS 0
                    (\<lambda>x u. u\<lparr>vga_buf := (vga_buf u)[y * VGA_COLS + x := vga_buf u ! ((y + 1) * VGA_COLS + x)]\<rparr>) t) s;
          s2 = for_upd VGA_COLS 0
                 (\<lambda>x t. t\<lparr>vga_buf := (vga_buf t)[(VGA_ROWS - 1) * VGA_COLS + x
                                                  := vga_entry 0x20 (current_colour t)]\<rparr>) s1
      in s2\<lparr>cursor_y := VGA_ROWS - 1\<rparr>)"

definition vga_putchar :: "u8 \<Rightarrow> 'a vga_state_scheme \<Rightarrow> 'a vga_state_scheme" where
  "vga_putchar c s =
     (let s1 = (if c = 0x0A then s\<lparr>cursor_x := 0, cursor_y := cursor_y s + 1\<rparr>
                else (let t = s\<lparr>vga_buf := (vga_buf s)[cursor_y s * VGA_COLS + cursor_x s
                                                     := vga_entry c (current_colour s)],
                              cursor_x := cursor_x s + 1\<rparr>
                      in if cursor_x t \<ge> VGA_COLS
                         then t\<lparr>cursor_x := 0, cursor_y := cursor_y t + 1\<rparr> else t))
      in if cursor_y s1 \<ge> VGA_ROWS then vga_scroll s1 else s1)"

fun vga_print :: "u8 list \<Rightarrow> 'a vga_state_scheme \<Rightarrow> 'a vga_state_scheme" where
  "vga_print [] s = s"
| "vga_print (c # cs) s = (if c = 0 then s else vga_print cs (vga_putchar c s))"

text \<open>The digit loop of \<open>vga_print_hex\<close>: the buffer holds the digits least significant first.\<close>

function vga_hex_loop :: "u64 \<Rightarrow> u8 list \<Rightarrow> u8 list" where
  "vga_hex_loop val buf =
     (if val = 0 then buf
      else vga_hex_loop (drop_bit 4 val) (buf @ [digit_char (ucast (val AND 0xF))]))"
  by pat_completeness auto
termination
  by (relation "measure (\<lambda>(val, buf). unat val)")
    (auto simp: drop_bit_eq_div unat_div word_neq_0_conv word_less_nat_alt)

definition vga_print_hex :: "u64 \<Rightarrow> 'a vga_state_scheme \<Rightarrow> 'a vga_state_scheme" where
  "vga_print_hex val s =
     (let s1 = vga_print (str ''0x'') s
      in if val = 0 then vga_print (str ''0'') s1
         else fold vga_putchar (rev (vga_hex_loop val [])) s1)"

text \<open>The digit loop of \<open>vga_print_uint\<close> fills its buffer from the end towards the front.\<close>

function vga_uint_loop :: "u64 \<Rightarrow> u8 list \<Rightarrow> u8 list" where
  "vga_uint_loop val buf =
     (if 0 < val then vga_uint_loop (val div 10) ((0x30 + ucast (val mod 10)) # buf) else buf)"
  by pat_completeness auto
termination
  by (relation "measure (\<lambda>(val, buf). unat val)") (auto simp: unat_div word_less_nat_alt)

definition vga_print_uint :: "u64 \<Rightarrow> 'a vga_state_scheme \<Rightarrow> 'a vga_state_scheme" where
  "vga_print_uint val s =
     (if val = 0 then vga_putchar 0x30 s else vga_print (vga_uint_loop val []) s)"

definition vga_print_int :: "u64 \<Rightarrow> 'a vga_state_scheme \<Rightarrow> 'a vga_state_scheme" where
  "vga_print_int val s =
     (if sint val < 0 then vga_print_uint (- val) (vga_putchar 0x2D s) else vga_print_uint val s)"

definition vga_init :: "'a vga_state_scheme \<Rightarrow> 'a vga_state_scheme" where
  "vga_init s = vga_clear (vga_set_colour VGA_WHITE VGA_BLUE s)"

declare vga_hex_loop.simps [simp del] vga_uint_loop.simps [simp del]

section \<open>The console invariant\<close>

text \<open>The buffer has its 2000 cells and the cursor stands on one of them.\<close>

definition vga_inv :: "'a vga_state_scheme \<Rightarrow> bool" where
  "vga_inv s \<longleftrightarrow> length (vga_buf s) = VGA_ROWS * VGA_COLS \<and> cursor_x s < VGA_COLS \<and> cursor_y s < VGA_ROWS"

lemma vga_inv_index:
  "vga_inv s \<Longrightarrow> cursor_y s * VGA_COLS + cursor_x s < length (vga_buf s)"
  by (auto simp: vga_inv_def VGA_ROWS_def VGA_COLS_def)

text \<open>A loop that only rewrites cells keeps everything but the cells, and their number.\<close>

lemma for_upd_buf:
  "for_upd n i (\<lambda>j t. t\<lparr>vga_buf := g j (current_colour t) (vga_buf t)\<rparr>) s =
   s\<lparr>vga_buf := for_upd n i (\<lambda>j b. g j (current_colour s) b) (vga_buf s)\<rparr>"
  by (induction n arbitrary: i s) auto

lemma length_for_upd:
  "(\<And>j b. length (g j b) = length b) \<Longrightarrow> length (for_upd n i g b) = length b"
  by (induction n arbitrary: i b) auto

definition scroll_cells :: "u8 \<Rightarrow> u16 list \<Rightarrow> u16 list" where
  "scroll_cells col b =
     for_upd VGA_COLS 0 (\<lambda>x c. c[(VGA_ROWS - 1) * VGA_COLS + x := vga_entry 0x20 col])
       (for_upd (VGA_ROWS - 1) 0
          (\<lambda>y c. for_upd VGA_COLS 0 (\<lambda>x d. d[y * VGA_COLS + x := d ! ((y + 1) * VGA_COLS + x)]) c) b)"

lemma vga_scroll_cells:
  "vga_scroll s = s\<lparr>vga_buf := scroll_cells (current_colour s) (vga_buf s), cursor_y := VGA_ROWS - 1\<rparr>"
proof -
  have row: "for_upd VGA_COLS 0
      (\<lambda>x u. u\<lparr>vga_buf := (vga_buf u)[y * VGA_COLS + x := vga_buf u ! ((y + 1) * VGA_COLS + x)]\<rparr>) t =
    t\<lparr>vga_buf := for_upd VGA_COLS 0 (\<lambda>x d. d[y * VGA_COLS + x := d ! ((y + 1) * VGA_COLS + x)]) (vga_buf t)\<rparr>"
    for y and t :: "'a vga_state_scheme"
    by (rule for_upd_buf [where g = "\<lambda>x col d. d[y * VGA_COLS + x := d ! ((y + 1) * VGA_COLS + x)]"])
  show ?thesis
    unfolding vga_scroll_def Let_def row scroll_cells_def
    by (subst for_upd_buf [where g = "\<lambda>y col c. for_upd VGA_COLS 0
          (\<lambda>x d. d[y * VGA_COLS + x := d ! ((y + 1) * VGA_COLS + x)]) c"],
        subst for_upd_buf [where g = "\<lambda>x col c. c[(VGA_ROWS - 1) * VGA_COLS + x := vga_entry 0x20 col]"])
      simp
qed

lemma length_scroll_cells [simp]: "length (scroll_cells col b) = length b"
  by (simp add: scroll_cells_def length_for_upd)

lemma vga_putchar_inv: "vga_inv s \<Longrightarrow> vga_inv (vga_putchar c s)"
  by (auto simp: vga_inv_def vga_putchar_def vga_scroll_cells Let_def VGA_ROWS_def VGA_COLS_def)

lemma vga_print_inv: "vga_inv s \<Longrightarrow> vga_inv (vga_print cs s)"
  by (induction cs s rule: vga_print.induct) (auto simp: vga_putchar_inv)

lemma fold_putchar_inv: "vga_inv s \<Longrightarrow> vga_inv (fold vga_putchar cs s)"
  by (induction cs arbitrary: s) (auto simp: vga_putchar_inv)

lemma vga_clear_cells:
  "vga_clear s = s\<lparr>vga_buf := for_upd (VGA_ROWS * VGA_COLS) 0
     (\<lambda>i b. b[i := vga_entry 0x20 (current_colour s)]) (vga_buf s)\<rparr>"
  unfolding vga_clear_def
  by (rule for_upd_buf [where g = "\<lambda>i col b. b[i := vga_entry 0x20 col]"])

lemma vga_clear_inv: "vga_inv s \<Longrightarrow> vga_inv (vga_clear s)"
  by (simp add: vga_inv_def vga_clear_cells length_for_upd)

text \<open>Every driver entry point that writes the screen, as a command.\<close>

datatype vga_op =
    PutChar u8 | Print "u8 list" | PrintHex u64 | PrintUint u64 | PrintInt u64
  | Clear | SetColour vga_colour vga_colour | InitVga

fun vga_exec :: "vga_op \<Rightarrow> 'a vga_state_scheme \<Rightarrow> 'a vga_state_scheme" where
  "vga_exec (PutChar c) s = vga_putchar c s"
| "vga_exec (Print cs) s = vga_print cs s"
| "vga_exec (PrintHex v) s = vga_print_hex v s"
| "vga_exec (PrintUint v) s = vga_print_uint v s"
| "vga_exec (PrintInt v) s = vga_print_int v s"
| "vga_exec Clear s = vga_clear s"
| "vga_exec (SetColour fg bg) s = vga_set_colour fg bg s"
| "vga_exec InitVga s = vga_init s"

lemma vga_exec_inv: "vga_inv s \<Longrightarrow> vga_inv (vga_exec op s)"
  by (cases op)
    (auto simp: vga_putchar_inv vga_print_inv vga_clear_inv fold_putchar_inv vga_print_hex_def
      vga_print_uint_def vga_print_int_def vga_init_def vga_set_colour_def Let_def
      intro!: vga_clear_inv, auto simp: vga_inv_def)

lemma vga_exec_all_inv: "vga_inv s \<Longrightarrow> vga_inv (fold vga_exec ops s)"
  by (induction ops arbitrary: s) (auto simp: vga_exec_inv)

section \<open>Scrolling\<close>

lemma row_copy_nth:
  assumes "n \<le> off" and "base + off + n \<le> length b"
  shows "length (for_upd n 0 (\<lambda>x d. d[base + x := d ! (base + off + x)]) b) = length b \<and>
    (\<forall>j < length b. for_upd n 0 (\<lambda>x d. d[base + x := d ! (base + off + x)]) b ! j =
       (if base \<le> j \<and> j < base + n then b ! (j + off) else b ! j))"
proof -
  let ?P = "\<lambda>k d. length d = length b \<and> (\<forall>j < length b. d ! j =
       (if base \<le> j \<and> j < base + k then b ! (j + off) else b ! j))"
  have "?P (0 + n) (for_upd n 0 (\<lambda>x d. d[base + x := d ! (base + off + x)]) b)"
  proof (rule for_upd_rule [where P = ?P])
    fix k d assume "k < 0 + n" and "?P k d"
    then show "?P (Suc k) (d[base + k := d ! (base + off + k)])"
      using assms by (auto simp: nth_list_update less_Suc_eq add_ac)
  qed auto
  then show ?thesis by simp
qed

lemma rows_copy_nth:
  assumes "(m + 1) * w \<le> length b"
  shows "length (for_upd m 0 (\<lambda>y c. for_upd w 0 (\<lambda>x d. d[y * w + x := d ! ((y + 1) * w + x)]) c) b) = length b \<and>
    (\<forall>j < length b. for_upd m 0 (\<lambda>y c. for_upd w 0 (\<lambda>x d. d[y * w + x := d ! ((y + 1) * w + x)]) c) b ! j =
       (if j < m * w then b ! (j + w) else b ! j))"
proof -
  let ?P = "\<lambda>k d. length d = length b \<and>
    (\<forall>j < length b. d ! j = (if j < k * w then b ! (j + w) else b ! j))"
  have "?P (0 + m) (for_upd m 0 (\<lambda>y c. for_upd w 0 (\<lambda>x d. d[y * w + x := d ! ((y + 1) * w + x)]) c) b)"
  proof (rule for_upd_rule [where P = ?P])
    fix k d assume k: "k < 0 + m" and P: "?P k d"
    have "(k + 2) * w \<le> (m + 1) * w" using k by (intro mult_le_mono1) simp
    then have "k * w + w + w \<le> length d" using assms P by (simp add: algebra_simps)
    from row_copy_nth [OF le_refl this] P
    show "?P (Suc k) (for_upd w 0 (\<lambda>x d. d[k * w + x := d ! ((k + 1) * w + x)]) d)"
      using \<open>k * w + w + w \<le> length d\<close> by (auto simp: algebra_simps)
  qed simp
  then show ?thesis by simp
qed

lemma fill_nth:
  assumes "base + n \<le> length b"
  shows "for_upd n 0 (\<lambda>x c. c[base + x := v]) b = take base b @ replicate n v @ drop (base + n) b"
proof -
  let ?P = "\<lambda>k c. c = take base b @ replicate k v @ drop (base + k) b"
  have "?P (0 + n) (for_upd n 0 (\<lambda>x c. c[base + x := v]) b)"
  proof (rule for_upd_rule [where P = ?P])
    fix k c assume k: "k < 0 + n" and c: "c = take base b @ replicate k v @ drop (base + k) b"
    then have "drop (base + k) b = b ! (base + k) # drop (base + Suc k) b"
      using assms by (simp add: Cons_nth_drop_Suc)
    with c k assms show "c[base + k := v] = take base b @ replicate (Suc k) v @ drop (base + Suc k) b"
      by (simp add: list_update_append replicate_append_same)
  qed simp
  then show ?thesis by simp
qed

lemma scroll_cells_shift:
  assumes "length b = VGA_ROWS * VGA_COLS"
  shows "scroll_cells col b = drop VGA_COLS b @ replicate VGA_COLS (vga_entry 0x20 col)"
proof -
  let ?c = "for_upd (VGA_ROWS - 1) 0
          (\<lambda>y c. for_upd VGA_COLS 0 (\<lambda>x d. d[y * VGA_COLS + x := d ! ((y + 1) * VGA_COLS + x)]) c) b"
  have c: "length ?c = length b \<and>
      (\<forall>j < length b. ?c ! j = (if j < (VGA_ROWS - 1) * VGA_COLS then b ! (j + VGA_COLS) else b ! j))"
    by (rule rows_copy_nth) (simp add: assms VGA_ROWS_def VGA_COLS_def)
  have "take ((VGA_ROWS - 1) * VGA_COLS) ?c = drop VGA_COLS b"
    by (rule nth_equalityI) (use c assms in \<open>auto simp: VGA_ROWS_def VGA_COLS_def add.commute\<close>)
  then show ?thesis
    unfolding scroll_cells_def
    by (subst fill_nth) (use c assms in \<open>auto simp: VGA_ROWS_def VGA_COLS_def\<close>)
qed

section \<open>Printing numbers\<close>

lemma and_15_mod: "(v::u64) AND 0xF = v mod 16"
  using and_mask_eq_mod [of v 4]
  by (simp add: mask_eq_exp_minus_1 word_mod_def)

lemma digit_step: "b ^ n * (a mod b) + b * (b ^ n * (a div b)) = (a::nat) * b ^ n"
  by (metis add_mult_distrib2 mod_mult_div_eq mult.commute mult.left_commute)

lemma unat_drop4: "unat (drop_bit 4 v :: u64) = unat v div 16"
  by (simp add: drop_bit_eq_div unat_div)

lemma unat_div10: "unat (v div 10 :: u64) = unat v div 10"
  by (simp add: unat_div)

lemma unat_nibble: "unat (ucast (v AND 0xF :: u64) :: u8) = unat v mod 16"
  by (simp add: and_15_mod unsigned_ucast_eq unat_mod take_bit_eq_mod)

lemma vga_hex_loop_value:
  "digits_value 16 (rev (vga_hex_loop v buf)) = unat v * 16 ^ length buf + digits_value 16 (rev buf)"
proof (induction v buf rule: vga_hex_loop.induct)
  case (1 v buf)
  show ?case
  proof (cases "v = 0")
    case True then show ?thesis by (simp add: vga_hex_loop.simps)
  next
    case False
    have "digit_value (digit_char (ucast (v AND 0xF))) = unat v mod 16"
      by (subst digit_value_char) (simp_all add: unat_nibble)
    with 1 [OF False] False show ?thesis
      by (subst vga_hex_loop.simps)
        (simp add: unat_drop4 digits_value_append digit_step algebra_simps)
  qed
qed

lemma vga_hex_loop_length: "unat v < 16 ^ k \<Longrightarrow> length (vga_hex_loop v buf) \<le> length buf + k"
proof (induction k arbitrary: v buf)
  case 0
  then show ?case by (subst vga_hex_loop.simps) (simp add: unat_eq_0)
next
  case (Suc k)
  have "unat (drop_bit 4 v) < 16 ^ k"
    using Suc.prems by (simp add: drop_bit_eq_div unat_div less_mult_imp_div_less mult.commute)
  from Suc.IH [OF this, of "buf @ [digit_char (ucast (v AND 0xF))]"] show ?case
    by (subst vga_hex_loop.simps) simp
qed

lemma vga_hex_loop_nonzero: "0 \<notin> set buf \<Longrightarrow> 0 \<notin> set (vga_hex_loop v buf)"
proof (induction v buf rule: vga_hex_loop.induct)
  case (1 v buf)
  have "digit_char (ucast (v AND 0xF)) \<noteq> 0"
    by (rule digit_char_nonzero) (simp add: unat_nibble)
  with 1 show ?case by (subst vga_hex_loop.simps) auto
qed

lemma vga_print_fold: "0 \<notin> set cs \<Longrightarrow> vga_print cs s = fold vga_putchar cs s"
  by (induction cs arbitrary: s) auto

lemma dec_digit: "0x30 + ucast (v mod 10 :: u64) = digit_char (ucast (v mod 10))"
proof -
  have "unat (ucast (v mod 10) :: u8) < 10"
    by (simp add: unsigned_ucast_eq unat_mod take_bit_eq_mod)
  then show ?thesis by (simp add: digit_char_def word_less_nat_alt)
qed

lemma unat_dec_digit: "unat (ucast (v mod 10 :: u64) :: u8) = unat v mod 10"
  by (simp add: unsigned_ucast_eq unat_mod take_bit_eq_mod)

lemma vga_uint_loop_value:
  "digits_value 10 (vga_uint_loop v buf) = unat v * 10 ^ length buf + digits_value 10 buf"
proof (induction v buf rule: vga_uint_loop.induct)
  case (1 v buf)
  show ?case
  proof (cases "0 < v")
    case False then show ?thesis by (simp add: vga_uint_loop.simps word_less_nat_alt)
  next
    case True
    have "digit_value (digit_char (ucast (v mod 10))) = unat v mod 10"
      by (subst digit_value_char) (simp_all add: unat_dec_digit)
    with 1 [OF True] True show ?thesis
      by (subst vga_uint_loop.simps)
        (simp add: unat_div10 dec_digit digit_step algebra_simps)
  qed
qed

lemma vga_uint_loop_length: "unat v < 10 ^ k \<Longrightarrow> length (vga_uint_loop v buf) \<le> length buf + k"
proof (induction k arbitrary: v buf)
  case 0
  then show ?case by (subst vga_uint_loop.simps) (simp add: unat_eq_0)
next
  case (Suc k)
  have "unat (v div 10) < 10 ^ k"
    using Suc.prems by (simp add: unat_div less_mult_imp_div_less mult.commute)
  from Suc.IH [OF this, of "(0x30 + ucast (v mod 10)) # buf"] show ?case
    by (subst vga_uint_loop.simps) simp
qed

lemma vga_uint_loop_nonzero: "0 \<notin> set buf \<Longrightarrow> 0 \<notin> set (vga_uint_loop v buf)"
proof (induction v buf rule: vga_uint_loop.induct)
  case (1 v buf)
  have "digit_char (ucast (v mod 10)) \<noteq> 0"
    by (rule digit_char_nonzero) (simp add: unat_dec_digit)
  with 1 show ?case by (subst vga_uint_loop.simps) (auto simp: dec_digit)
qed

lemma unat_less_u64: "unat (v::u64) < 16 ^ 16"
  using unsigned_less [where ?'a = nat, of v] by simp

lemma vga_print_uint_digits:
  "\<exists>ds. vga_print_uint v s = fold vga_putchar ds s \<and> digits_value 10 ds = unat v \<and>
     ds \<noteq> [] \<and> length ds \<le> 20"
proof (cases "v = 0")
  case True
  then show ?thesis
    by (intro exI [of _ "[0x30]"]) (simp add: vga_print_uint_def digit_value_def)
next
  case False
  have "unat v < 10 ^ 20" using unsigned_less [where ?'a = nat, of v] by simp
  then have len: "length (vga_uint_loop v []) \<le> 20"
    using vga_uint_loop_length [of v 20 "[]"] by simp
  have val: "digits_value 10 (vga_uint_loop v []) = unat v"
    using vga_uint_loop_value [of v "[]"] by simp
  then have "vga_uint_loop v [] \<noteq> []" using False by (auto simp: unat_eq_0)
  with False len val show ?thesis
    by (intro exI [of _ "vga_uint_loop v []"])
      (simp add: vga_print_uint_def vga_print_fold vga_uint_loop_nonzero)
qed

text \<open>What printing may change: the cells, the cursor and the colour, and nothing else of the machine.\<close>

definition console_only :: "'a vga_state_scheme \<Rightarrow> 'a vga_state_scheme \<Rightarrow> bool" where
  "console_only s t \<longleftrightarrow> (\<exists>b x y c. t = s\<lparr>vga_buf := b, cursor_x := x, cursor_y := y, current_colour := c\<rparr>)"

lemma console_only_refl [simp]: "console_only s s"
  unfolding console_only_def
  by (rule exI [of _ "vga_buf s"], rule exI [of _ "cursor_x s"], rule exI [of _ "cursor_y s"],
      rule exI [of _ "current_colour s"]) simp

lemma console_only_trans: "console_only s t \<Longrightarrow> console_only t u \<Longrightarrow> console_only s u"
  unfolding console_only_def by (elim exE) (simp, blast)

lemma console_only_putchar1: "console_only s (vga_putchar c s)"
proof -
  have "\<exists>b x y. vga_putchar c s = s\<lparr>vga_buf := b, cursor_x := x, cursor_y := y\<rparr>"
    unfolding vga_putchar_def Let_def vga_scroll_cells
    by (rule exI [of _ "vga_buf (vga_putchar c s)"], rule exI [of _ "cursor_x (vga_putchar c s)"],
        rule exI [of _ "cursor_y (vga_putchar c s)"])
      (simp add: vga_putchar_def Let_def vga_scroll_cells)
  then obtain b x y where "vga_putchar c s = s\<lparr>vga_buf := b, cursor_x := x, cursor_y := y\<rparr>" by blast
  then have "vga_putchar c s =
      s\<lparr>vga_buf := b, cursor_x := x, cursor_y := y, current_colour := current_colour s\<rparr>" by simp
  then show ?thesis unfolding console_only_def by blast
qed

lemma console_only_putchar [simp]: "console_only s t \<Longrightarrow> console_only s (vga_putchar c t)"
  by (rule console_only_trans [OF _ console_only_putchar1])

lemma console_only_print [simp]: "console_only s t \<Longrightarrow> console_only s (vga_print cs t)"
  by (induction cs t rule: vga_print.induct) auto

lemma console_only_fold [simp]: "console_only s t \<Longrightarrow> console_only s (fold vga_putchar cs t)"
  by (induction cs arbitrary: t) auto

lemma console_only_numbers [simp]:
  "console_only s t \<Longrightarrow> console_only s (vga_print_hex n t)"
  "console_only s t \<Longrightarrow> console_only s (vga_print_uint n t)"
  "console_only s t \<Longrightarrow> console_only s (vga_print_int n t)"
  by (simp_all add: vga_print_hex_def vga_print_uint_def vga_print_int_def Let_def)

section \<open>Properties\<close>

text \<open>C39. Whatever sequence of screen operations the kernel performs, the cursor stays
  on the screen and the buffer keeps its 2000 cells, so \<open>vga_putchar\<close> never writes
  outside the text buffer.\<close>

theorem vga_ops_keep_inv: "vga_inv s \<Longrightarrow> vga_inv (fold vga_exec ops s)"
  by (rule vga_exec_all_inv)

definition vga_blank :: "vga_state" where
  "vga_blank = \<lparr>port_log = [], port_dev = (\<lambda>_ _. 0), vga_buf = replicate 2000 0,
     cursor_x = 0, cursor_y = 0, current_colour = 0\<rparr>"

lemma vga_blank_inv: "vga_inv vga_blank"
  by (simp add: vga_inv_def vga_blank_def VGA_ROWS_def VGA_COLS_def)

theorem vga_ops_keep_inv_witness:
  "vga_inv (fold vga_exec [InitVga, Print (str ''Kernel Booting...''), PutChar 0x0A, PrintHex 0xB8000] vga_blank)"
  by (rule vga_ops_keep_inv [OF vga_blank_inv])

text \<open>\<open>vga_scroll\<close>'s three nested loops of single-cell copies move every row up by
  one, blank the last row in the current colour and leave the cursor on the last row.\<close>

theorem vga_scroll_moves_rows_up:
  assumes "vga_inv s"
  shows "vga_scroll s = s\<lparr>vga_buf := drop VGA_COLS (vga_buf s) @
       replicate VGA_COLS (vga_entry 0x20 (current_colour s)), cursor_y := VGA_ROWS - 1\<rparr>"
  using assms by (simp add: vga_scroll_cells scroll_cells_shift vga_inv_def)

theorem vga_scroll_moves_rows_up_witness:
  "vga_scroll vga_blank = vga_blank\<lparr>vga_buf := drop VGA_COLS (vga_buf vga_blank) @
       replicate VGA_COLS (vga_entry 0x20 0), cursor_y := VGA_ROWS - 1\<rparr>"
  using vga_scroll_moves_rows_up [OF vga_blank_inv] by (simp add: vga_blank_def)

text \<open>\<open>vga_print_hex\<close> writes \<open>0x\<close> followed by one to sixteen hexadecimal digits (its
  17-byte buffer is large enough), and reading those digits back gives the value.\<close>

theorem vga_print_hex_readback:
  "\<exists>ds. vga_print_hex v s = fold vga_putchar (str ''0x'' @ ds) s \<and>
     digits_value 16 ds = unat v \<and> ds \<noteq> [] \<and> length ds \<le> 16"
proof (cases "v = 0")
  case True
  then show ?thesis
    by (intro exI [of _ "str ''0''"]) (simp add: vga_print_hex_def digit_value_def)
next
  case False
  have val: "digits_value 16 (rev (vga_hex_loop v [])) = unat v"
    using vga_hex_loop_value [of v "[]"] by simp
  then have "vga_hex_loop v [] \<noteq> []" using False by (auto simp: unat_eq_0)
  moreover have "length (vga_hex_loop v []) \<le> 16"
    using vga_hex_loop_length [OF unat_less_u64, of v "[]"] by simp
  ultimately show ?thesis
    using False val by (intro exI [of _ "rev (vga_hex_loop v [])"]) (simp add: vga_print_hex_def)
qed

text \<open>\<open>vga_print_int\<close> writes a minus sign exactly for negative arguments and then the
  decimal digits of the absolute value, at most twenty of them (its buffer holds 21
  bytes); this includes the most negative 64-bit value, whose negation wraps around.\<close>

theorem vga_print_int_readback:
  "\<exists>ds. vga_print_int v s = fold vga_putchar ((if sint v < 0 then [0x2D] else []) @ ds) s \<and>
     int (digits_value 10 ds) = \<bar>sint v\<bar> \<and> ds \<noteq> [] \<and> length ds \<le> 20"
proof (cases "sint v < 0")
  case True
  from uint_neg_u64 [OF True] True vga_print_uint_digits [of "- v" "vga_putchar 0x2D s"] show ?thesis
    by (auto simp: vga_print_int_def)
next
  case False
  then have "int (unat v) = sint v"
    using unsigned_less [where ?'a = int, of v] by (auto simp: sint_u64 split: if_splits)
  moreover obtain ds where "vga_print_uint v s = fold vga_putchar ds s"
      "digits_value 10 ds = unat v" "ds \<noteq> []" "length ds \<le> 20"
    using vga_print_uint_digits [of v s] by blast
  ultimately show ?thesis
    using False by (intro exI [of _ ds]) (simp only: vga_print_int_def if_False append_Nil, simp)
qed

end
