(* ===== verification/Pmm.thy ===== *)
theory Pmm
  imports Vga
begin

text \<open>
  The physical memory manager of \<open>src/memory/pmm.c\<close>: a bitmap with one bit per 4 KB
  frame of the 256 MB of RAM, and a counter of free frames. The interface its
  clients rely on is the locale \<open>frame_allocator\<close>; it is interpreted on the bitmap
  code at the end.
\<close>

section \<open>State and operations\<close>

abbreviation PAGE_SIZE :: u64 where
  "PAGE_SIZE \<equiv> 4096"

definition TOTAL_FRAMES :: nat where
  "TOTAL_FRAMES = 65536"

definition BITMAP_SIZE :: nat where
  "BITMAP_SIZE = 8192"

record pmm_state = vga_state +
  bitmap :: "u8 list"
  free_frame_count :: u64

definition bitmap_set :: "nat \<Rightarrow> 'a pmm_state_scheme \<Rightarrow> 'a pmm_state_scheme" where
  "bitmap_set frame s =
     s\<lparr>bitmap := (bitmap s)[frame div 8 := bitmap s ! (frame div 8) OR push_bit (frame mod 8) 1]\<rparr>"

definition bitmap_clear :: "nat \<Rightarrow> 'a pmm_state_scheme \<Rightarrow> 'a pmm_state_scheme" where
  "bitmap_clear frame s =
     s\<lparr>bitmap := (bitmap s)[frame div 8 := bitmap s ! (frame div 8) AND NOT (push_bit (frame mod 8) 1)]\<rparr>"

definition bitmap_test :: "nat \<Rightarrow> 'a pmm_state_scheme \<Rightarrow> u8" where
  "bitmap_test frame s = bitmap s ! (frame div 8) AND push_bit (frame mod 8) 1"

text \<open>
  \<open>kernel_start\<close> and \<open>kernel_end\<close> are addresses the linker script provides. The
  reserving loop counts in 32 bits and indexes the bitmap with whatever the
  addresses give; an index beyond the bitmap is a \<open>Fault\<close>.
\<close>

definition pmm_reserve :: "nat \<Rightarrow> 'a pmm_state_scheme \<Rightarrow> ('a pmm_state_scheme, unit) outcome" where
  "pmm_reserve i s =
     (if i < TOTAL_FRAMES
      then (let t = bitmap_set i s in Ret () (t\<lparr>free_frame_count := free_frame_count t - 1\<rparr>))
      else Fault)"

definition pmm_init :: "u64 \<Rightarrow> u64 \<Rightarrow> 'a pmm_state_scheme \<Rightarrow> ('a pmm_state_scheme, unit) outcome" where
  "pmm_init kernel_start kernel_end s =
     (let s1 = for_upd BITMAP_SIZE 0 (\<lambda>i t. t\<lparr>bitmap := (bitmap t)[i := 0xFF]\<rparr>) s;
          start_frame = (1 * 1024 * 1024) div 4096;
          s2 = for_upd (TOTAL_FRAMES - start_frame) start_frame
                 (\<lambda>i t. let u = bitmap_clear i t in u\<lparr>free_frame_count := free_frame_count u + 1\<rparr>) s1;
          k_start_frame = kernel_start div PAGE_SIZE;
          k_end_frame = (kernel_end + PAGE_SIZE - 1) div PAGE_SIZE;
          i0 = unat (ucast k_start_frame :: u32)
      in for_loop (unat k_end_frame - i0) i0 pmm_reserve s2)"

text \<open>The scan of \<open>pmm_alloc\<close> from frame \<open>i\<close> on; the answer is the frame's address, 0 for none.\<close>

function pmm_scan :: "nat \<Rightarrow> 'a pmm_state_scheme \<Rightarrow> u64 \<times> 'a pmm_state_scheme" where
  "pmm_scan i s =
     (if i < TOTAL_FRAMES
      then (if bitmap_test i s = 0
            then (let t = bitmap_set i s
                  in (of_nat i * PAGE_SIZE, t\<lparr>free_frame_count := free_frame_count t - 1\<rparr>))
            else pmm_scan (Suc i) s)
      else (NULL, s))"
  by pat_completeness auto
termination
  by (relation "measure (\<lambda>(i, s). TOTAL_FRAMES - i)") auto

declare pmm_scan.simps [simp del]

definition pmm_alloc :: "'a pmm_state_scheme \<Rightarrow> u64 \<times> 'a pmm_state_scheme" where
  "pmm_alloc s = pmm_scan 0 s"

definition pmm_free :: "u64 \<Rightarrow> 'a pmm_state_scheme \<Rightarrow> ('a pmm_state_scheme, unit) outcome" where
  "pmm_free frame s =
     (let idx = unat (ucast (frame div PAGE_SIZE) :: u32)
      in if idx < TOTAL_FRAMES
         then (let t = bitmap_clear idx s in Ret () (t\<lparr>free_frame_count := free_frame_count t + 1\<rparr>))
         else Fault)"

definition pmm_free_frames :: "'a pmm_state_scheme \<Rightarrow> u64" where
  "pmm_free_frames s = free_frame_count s"

section \<open>The bitmap as a set of free frames\<close>

definition free_set :: "'a pmm_state_scheme \<Rightarrow> nat set" where
  "free_set s = {i. i < TOTAL_FRAMES \<and> bitmap_test i s = 0}"

text \<open>
  The allocator's invariant: the bitmap has its full length, the counter counts the
  clear bits, and frame 0 is never free (its address could not be told from a failed
  allocation).
\<close>

definition pmm_inv :: "'a pmm_state_scheme \<Rightarrow> bool" where
  "pmm_inv s \<longleftrightarrow> length (bitmap s) = BITMAP_SIZE \<and>
     unat (free_frame_count s) = card (free_set s) \<and> 0 \<notin> free_set s"

lemma finite_free_set [simp]: "finite (free_set s)"
  by (rule finite_subset [of _ "{..<TOTAL_FRAMES}"]) (auto simp: free_set_def)

lemma card_free_set: "card (free_set s) \<le> TOTAL_FRAMES"
  using card_mono [of "{..<TOTAL_FRAMES}" "free_set s"] by (auto simp: free_set_def)

lemma test_bit:
  "bitmap_test i s = 0 \<longleftrightarrow> \<not> bit (bitmap s ! (i div 8)) (i mod 8)"
  by (simp add: bitmap_test_def and_single_bit)

lemma frame_byte: "length (bitmap s) = BITMAP_SIZE \<Longrightarrow> i < TOTAL_FRAMES \<Longrightarrow> i div 8 < length (bitmap s)"
  by (simp add: BITMAP_SIZE_def TOTAL_FRAMES_def)

lemma same_frame: "(i::nat) div 8 = j div 8 \<Longrightarrow> i mod 8 = j mod 8 \<Longrightarrow> i = j"
  by (metis div_mult_mod_eq)

lemma test_set:
  assumes "length (bitmap s) = BITMAP_SIZE" and "i < TOTAL_FRAMES"
  shows "bitmap_test j (bitmap_set i s) = 0 \<longleftrightarrow> j \<noteq> i \<and> bitmap_test j s = 0"
  using frame_byte [OF assms] same_frame [of i j]
  by (auto simp: test_bit bitmap_set_def nth_list_update bit_or_iff)

lemma test_clear:
  assumes "length (bitmap s) = BITMAP_SIZE" and "i < TOTAL_FRAMES"
  shows "bitmap_test j (bitmap_clear i s) = 0 \<longleftrightarrow> j = i \<or> bitmap_test j s = 0"
  using frame_byte [OF assms] same_frame [of i j]
  by (auto simp: test_bit bitmap_clear_def nth_list_update bit_and_iff bit_not_iff)

lemma bitmap_test_more [simp]:
  "bitmap_test i (s\<lparr>free_frame_count := n\<rparr>) = bitmap_test i s"
  by (simp add: bitmap_test_def)

lemma free_set_count [simp]: "free_set (s\<lparr>free_frame_count := n\<rparr>) = free_set s"
  by (simp add: free_set_def)

lemma length_bitmap_set [simp]: "length (bitmap (bitmap_set i s)) = length (bitmap s)"
  by (simp add: bitmap_set_def)

lemma length_bitmap_clear [simp]: "length (bitmap (bitmap_clear i s)) = length (bitmap s)"
  by (simp add: bitmap_clear_def)

lemma count_set [simp]: "free_frame_count (bitmap_set i s) = free_frame_count s"
  by (simp add: bitmap_set_def)

lemma count_clear [simp]: "free_frame_count (bitmap_clear i s) = free_frame_count s"
  by (simp add: bitmap_clear_def)

lemma free_set_set:
  "length (bitmap s) = BITMAP_SIZE \<Longrightarrow> i < TOTAL_FRAMES \<Longrightarrow> free_set (bitmap_set i s) = free_set s - {i}"
  by (auto simp: free_set_def test_set)

lemma free_set_clear:
  "length (bitmap s) = BITMAP_SIZE \<Longrightarrow> i < TOTAL_FRAMES \<Longrightarrow> free_set (bitmap_clear i s) = insert i (free_set s)"
  by (auto simp: free_set_def test_clear)

text \<open>Counting in 64 bits is exact: there are far fewer frames than the counter can hold.\<close>

lemma unat_pred: "0 < unat (n::u64) \<Longrightarrow> unat (n - 1) = unat n - 1"
  by (simp add: unat_sub word_le_nat_alt)

lemma unat_succ: "unat (n::u64) < TOTAL_FRAMES \<Longrightarrow> unat (n + 1) = unat n + 1"
  by (simp add: unat_word_ariths TOTAL_FRAMES_def)

definition take_frame :: "nat \<Rightarrow> 'a pmm_state_scheme \<Rightarrow> 'a pmm_state_scheme" where
  "take_frame i s = (bitmap_set i s)\<lparr>free_frame_count := free_frame_count s - 1\<rparr>"

definition give_frame :: "nat \<Rightarrow> 'a pmm_state_scheme \<Rightarrow> 'a pmm_state_scheme" where
  "give_frame i s = (bitmap_clear i s)\<lparr>free_frame_count := free_frame_count s + 1\<rparr>"

lemma take_frame_inv:
  assumes "pmm_inv s" and "i \<in> free_set s"
  shows "pmm_inv (take_frame i s)" and "free_set (take_frame i s) = free_set s - {i}"
proof -
  have i: "i < TOTAL_FRAMES" and len: "length (bitmap s) = BITMAP_SIZE"
    and n: "unat (free_frame_count s) = card (free_set s)" and z: "0 \<notin> free_set s"
    using assms by (auto simp: free_set_def pmm_inv_def)
  show fs: "free_set (take_frame i s) = free_set s - {i}"
    by (simp add: take_frame_def free_set_set [OF len i])
  have "0 < card (free_set s)" using assms(2) by (auto simp: card_gt_0_iff)
  then have "unat (free_frame_count s - 1) = card (free_set s - {i})"
    using n assms(2) by (subst unat_pred) auto
  with fs len z show "pmm_inv (take_frame i s)"
    by (simp add: pmm_inv_def) (simp add: take_frame_def)
qed

lemma give_frame_inv:
  assumes "pmm_inv s" and "i \<notin> free_set s" and "i < TOTAL_FRAMES" and "i \<noteq> 0"
  shows "pmm_inv (give_frame i s)" and "free_set (give_frame i s) = insert i (free_set s)"
proof -
  have len: "length (bitmap s) = BITMAP_SIZE" and n: "unat (free_frame_count s) = card (free_set s)"
    and z: "0 \<notin> free_set s"
    using assms(1) by (auto simp: pmm_inv_def)
  show fs: "free_set (give_frame i s) = insert i (free_set s)"
    by (simp add: give_frame_def free_set_clear [OF len assms(3)])
  have "insert i (free_set s) \<subseteq> {..<TOTAL_FRAMES} - {0}"
    using z assms by (auto simp: free_set_def)
  then have "card (insert i (free_set s)) \<le> card ({..<TOTAL_FRAMES} - {0})"
    by (intro card_mono) auto
  then have "card (free_set s) < TOTAL_FRAMES"
    using assms(2) by (simp add: TOTAL_FRAMES_def)
  then have "unat (free_frame_count s + 1) = card (insert i (free_set s))"
    using n assms(2) by (subst unat_succ) auto
  with fs len z assms(4) show "pmm_inv (give_frame i s)"
    by (simp add: pmm_inv_def) (simp add: give_frame_def)
qed

section \<open>Allocation and release\<close>

lemma pmm_scan_least:
  "pmm_scan i s =
     (if \<exists>j. i \<le> j \<and> j \<in> free_set s
      then (let j = (LEAST j. i \<le> j \<and> j \<in> free_set s) in (of_nat j * PAGE_SIZE, take_frame j s))
      else (NULL, s))"
proof (induction i s rule: pmm_scan.induct)
  case (1 i s)
  consider (out) "\<not> i < TOTAL_FRAMES" | (hit) "i \<in> free_set s" | (miss) "i < TOTAL_FRAMES" "i \<notin> free_set s"
    by blast
  then show ?case
  proof cases
    case out
    then show ?thesis by (subst pmm_scan.simps) (auto simp: free_set_def)
  next
    case hit
    then have "(LEAST j. i \<le> j \<and> j \<in> free_set s) = i" by (intro Least_equality) auto
    with hit show ?thesis
      by (subst pmm_scan.simps) (auto simp: free_set_def take_frame_def)
  next
    case miss
    then have skip: "i \<le> j \<and> j \<in> free_set s \<longleftrightarrow> Suc i \<le> j \<and> j \<in> free_set s" for j
      by (metis Suc_leD Suc_leI le_neq_implies_less)
    from miss have "bitmap_test i s \<noteq> 0" by (simp add: free_set_def)
    with miss 1 show ?thesis unfolding skip by (subst pmm_scan.simps) simp
  qed
qed

lemma pmm_alloc_some:
  assumes "free_set s \<noteq> {}"
  shows "pmm_alloc s = (of_nat (Min (free_set s)) * PAGE_SIZE, take_frame (Min (free_set s)) s)"
proof -
  have "(LEAST j. j \<in> free_set s) = Min (free_set s)"
    by (rule Least_equality) (use assms in auto)
  with assms show ?thesis
    by (auto simp: pmm_alloc_def pmm_scan_least [of 0] Let_def)
qed

lemma pmm_alloc_none: "free_set s = {} \<Longrightarrow> pmm_alloc s = (NULL, s)"
  by (simp add: pmm_alloc_def pmm_scan_least)

text \<open>Frame numbers and frame addresses.\<close>

definition frame_addr :: "nat \<Rightarrow> u64" where
  "frame_addr i = of_nat i * PAGE_SIZE"

lemma unat_frame_addr: "i < TOTAL_FRAMES \<Longrightarrow> unat (frame_addr i) = i * 4096"
proof -
  assume "i < TOTAL_FRAMES"
  then have "i * 4096 < 2 ^ LENGTH(64)" by (simp add: TOTAL_FRAMES_def)
  moreover have "frame_addr i = of_nat (i * 4096)" by (simp add: frame_addr_def)
  ultimately show ?thesis by (simp only: unat_of_nat_small)
qed

lemma frame_addr_inject: "i < TOTAL_FRAMES \<Longrightarrow> j < TOTAL_FRAMES \<Longrightarrow> frame_addr i = frame_addr j \<longleftrightarrow> i = j"
  by (metis mult_right_cancel unat_frame_addr zero_neq_numeral)

lemma frame_addr_index: "i < TOTAL_FRAMES \<Longrightarrow> unat (ucast (frame_addr i div PAGE_SIZE) :: u32) = i"
proof -
  assume i: "i < TOTAL_FRAMES"
  then have "unat (frame_addr i div PAGE_SIZE) = i" by (simp add: unat_div unat_frame_addr)
  with i show ?thesis by (simp add: unsigned_ucast_eq take_bit_eq_mod TOTAL_FRAMES_def)
qed

definition avail :: "'a pmm_state_scheme \<Rightarrow> u64 set" where
  "avail s = frame_addr ` free_set s"

lemma inj_frame_addr: "inj_on frame_addr (free_set s)"
  by (auto simp: inj_on_def frame_addr_inject free_set_def)

lemma avail_take: "i \<in> free_set s \<Longrightarrow> pmm_inv s \<Longrightarrow> avail (take_frame i s) = avail s - {frame_addr i}"
  unfolding avail_def by (auto simp: take_frame_inv dest: inj_onD [OF inj_frame_addr])

lemma pmm_free_give: "i < TOTAL_FRAMES \<Longrightarrow> pmm_free (frame_addr i) s = Ret () (give_frame i s)"
  by (simp add: pmm_free_def frame_addr_index give_frame_def)

text \<open>Taking a frame and giving it back leaves the very same state.\<close>

lemma give_take:
  assumes "pmm_inv s" and "i \<in> free_set s"
  shows "give_frame i (take_frame i s) = s"
proof -
  have len: "length (bitmap s) = BITMAP_SIZE" and i: "i < TOTAL_FRAMES" and f: "\<not> bit (bitmap s ! (i div 8)) (i mod 8)"
    using assms by (auto simp: pmm_inv_def free_set_def test_bit)
  have b: "i div 8 < length (bitmap s)" by (rule frame_byte [OF len i])
  have "(bitmap s ! (i div 8) OR 2 ^ (i mod 8)) AND NOT (2 ^ (i mod 8)) = bitmap s ! (i div 8)"
    by (rule bit_word_eqI) (use f in \<open>auto simp: bit_or_iff bit_and_iff bit_not_iff\<close>)
  with b show ?thesis
    by (simp add: give_frame_def take_frame_def bitmap_set_def bitmap_clear_def)
qed

section \<open>Initialisation\<close>

lemma for_upd_bitmap:
  "for_upd n i (\<lambda>j t. t\<lparr>bitmap := (bitmap t)[j := v]\<rparr>) s =
   s\<lparr>bitmap := for_upd n i (\<lambda>j b. b[j := v]) (bitmap s)\<rparr>"
  by (induction n arbitrary: i s) auto

lemma pmm_init_all_used:
  assumes "length (bitmap s) = BITMAP_SIZE"
  shows "for_upd BITMAP_SIZE 0 (\<lambda>i t. t\<lparr>bitmap := (bitmap t)[i := 0xFF]\<rparr>) s =
    s\<lparr>bitmap := replicate BITMAP_SIZE 0xFF\<rparr>"
  using fill_nth [of 0 BITMAP_SIZE "bitmap s" "0xFF"] assms by (simp add: for_upd_bitmap)

lemma u8_ones: "(0xFF::u8) = - 1"
  by simp

lemma free_set_all_used: "free_set (s\<lparr>bitmap := replicate BITMAP_SIZE 0xFF\<rparr>) = {}"
proof -
  have "bit (0xFF::u8) k" if "k < 8" for k
    using that by (simp only: u8_ones bit_minus_1_iff) simp
  then show ?thesis
    by (auto simp: free_set_def test_bit BITMAP_SIZE_def TOTAL_FRAMES_def)
qed

lemma pmm_release_loop:
  assumes "length (bitmap s) = BITMAP_SIZE" and "free_set s = {}" and "free_frame_count s = 0"
    and "0 < a" and "a + n \<le> TOTAL_FRAMES"
  shows "let t = for_upd n a (\<lambda>i t. let u = bitmap_clear i t in u\<lparr>free_frame_count := free_frame_count u + 1\<rparr>) s
    in pmm_inv t \<and> free_set t = {a..<a + n}"
proof -
  let ?body = "\<lambda>i t. let u = bitmap_clear i t in u\<lparr>free_frame_count := free_frame_count u + 1\<rparr>"
  have "pmm_inv (for_upd n a ?body s) \<and> free_set (for_upd n a ?body s) = {a..<a + n}"
  proof (rule for_upd_rule [where P = "\<lambda>k t. pmm_inv t \<and> free_set t = {a..<k}"])
    show "pmm_inv s \<and> free_set s = {a..<a}" using assms by (simp add: pmm_inv_def)
  next
    fix j t assume j: "a \<le> j" "j < a + n" and t: "pmm_inv t \<and> free_set t = {a..<j}"
    then have "j \<notin> free_set t" "j < TOTAL_FRAMES" "j \<noteq> 0" using assms by auto
    from give_frame_inv [OF _ this] t j show "pmm_inv (?body j t) \<and> free_set (?body j t) = {a..<Suc j}"
      by (auto simp: give_frame_def)
  qed
  then show ?thesis by (simp add: Let_def)
qed

lemma pmm_reserve_loop:
  assumes "pmm_inv s" and "{a..<a + n} \<subseteq> free_set s"
  shows "\<exists>t. for_loop n a pmm_reserve s = Ret () t \<and> pmm_inv t \<and> free_set t = free_set s - {a..<a + n}"
proof -
  have "\<exists>t. for_loop n a pmm_reserve s = Ret () t \<and> (pmm_inv t \<and> free_set t = free_set s - {a..<a + n})"
  proof (rule for_loop_rule [where P = "\<lambda>k t. pmm_inv t \<and> free_set t = free_set s - {a..<k}"])
    show "pmm_inv s \<and> free_set s = free_set s - {a..<a}" using assms by simp
  next
    fix j t assume j: "a \<le> j" "j < a + n" and t: "pmm_inv t \<and> free_set t = free_set s - {a..<j}"
    then have "j \<in> free_set t" using assms by auto
    moreover from this have "pmm_reserve j t = Ret () (take_frame j t)"
      by (simp add: pmm_reserve_def take_frame_def free_set_def)
    moreover have "free_set s - {a..<j} - {j} = free_set s - {a..<Suc j}"
      using j by (auto simp: less_Suc_eq)
    ultimately show "\<exists>t'. pmm_reserve j t = Ret () t' \<and> (pmm_inv t' \<and> free_set t' = free_set s - {a..<Suc j})"
      using t take_frame_inv [of t j] by simp
  qed
  then show ?thesis by simp
qed

lemma pmm_init_frames:
  assumes "length (bitmap s) = BITMAP_SIZE" and "free_frame_count s = 0"
    and "0x100000 \<le> ks" and "ks \<le> ke" and "ke \<le> 0x10000000"
  shows "\<exists>t. pmm_init ks ke s = Ret () t \<and> pmm_inv t \<and>
    free_set t = {256..<TOTAL_FRAMES} - {unat ks div 4096..<(unat ke + 4095) div 4096}"
proof -
  have ks: "1048576 \<le> unat ks" and ke: "unat ke \<le> 268435456" and kk: "unat ks \<le> unat ke"
    using assms(3-5) by (simp_all add: word_le_nat_alt)
  have "unat (4095 + ke) = unat ke + 4095"
    using ke by (simp add: unat_word_ariths)
  then have e: "unat ((4095 + ke) div PAGE_SIZE) = (unat ke + 4095) div 4096"
    by (simp only: unat_div) simp
  have i0: "unat (ucast (ks div PAGE_SIZE) :: u32) = unat ks div 4096"
    using ks ke kk by (simp add: unsigned_ucast_eq take_bit_eq_mod unat_div)
  let ?s1 = "s\<lparr>bitmap := replicate BITMAP_SIZE 0xFF\<rparr>"
  let ?s2 = "for_upd (TOTAL_FRAMES - 256) 256
    (\<lambda>i t. let u = bitmap_clear i t in u\<lparr>free_frame_count := free_frame_count u + 1\<rparr>) ?s1"
  have s2: "pmm_inv ?s2 \<and> free_set ?s2 = {256..<256 + (TOTAL_FRAMES - 256)}"
    using pmm_release_loop [of ?s1 256 "TOTAL_FRAMES - 256"] assms
    by (simp add: free_set_all_used Let_def) (simp add: TOTAL_FRAMES_def)
  let ?a = "unat ks div 4096" and ?e = "(unat ke + 4095) div 4096"
  have "?a \<le> ?e" using kk by (intro div_le_mono) simp
  have "{?a..<?a + (?e - ?a)} \<subseteq> free_set ?s2"
    using s2 ks ke \<open>?a \<le> ?e\<close> by (auto simp: TOTAL_FRAMES_def)
  from pmm_reserve_loop [OF conjunct1 [OF s2] this] s2 \<open>?a \<le> ?e\<close> show ?thesis
    by (simp add: pmm_init_def pmm_init_all_used [OF assms(1)] e i0 Let_def TOTAL_FRAMES_def)
qed

section \<open>The interface of a frame allocator\<close>

text \<open>
  What the page tables, the heap and the loader rely on: a set of available frame
  addresses, none of them null and all of them page aligned; allocation hands out
  one of them, or null when there is none; release puts a frame back.
\<close>

primrec alloc_frames :: "('s \<Rightarrow> u64 \<times> 's) \<Rightarrow> nat \<Rightarrow> 's \<Rightarrow> u64 list \<times> 's" where
  "alloc_frames alloc 0 s = ([], s)"
| "alloc_frames alloc (Suc n) s =
     (let (f, t) = alloc s; (fs, u) = alloc_frames alloc n t in (f # fs, u))"

locale frame_allocator =
  fixes alloc :: "'s \<Rightarrow> u64 \<times> 's"
    and release :: "u64 \<Rightarrow> 's \<Rightarrow> ('s, unit) outcome"
    and frames :: "'s \<Rightarrow> u64 set"
    and ok :: "'s \<Rightarrow> bool"
  assumes frames_finite: "ok s \<Longrightarrow> finite (frames s)"
    and frames_page: "ok s \<Longrightarrow> f \<in> frames s \<Longrightarrow> f \<noteq> NULL \<and> f AND 0xFFF = 0 \<and> f < 0x10000000"
    and alloc_take: "ok s \<Longrightarrow> frames s \<noteq> {} \<Longrightarrow>
      \<exists>f t. alloc s = (f, t) \<and> f \<in> frames s \<and> frames t = frames s - {f} \<and> ok t"
    and alloc_empty: "ok s \<Longrightarrow> frames s = {} \<Longrightarrow> alloc s = (NULL, s)"
    and release_put: "ok s \<Longrightarrow> f \<notin> frames s \<Longrightarrow> f \<noteq> NULL \<Longrightarrow> f AND 0xFFF = 0 \<Longrightarrow> f < 0x10000000 \<Longrightarrow>
      \<exists>t. release f s = Ret () t \<and> frames t = insert f (frames s) \<and> ok t"
begin

lemma alloc_null_iff: "ok s \<Longrightarrow> fst (alloc s) = NULL \<longleftrightarrow> frames s = {}"
proof (cases "frames s = {}")
  case True
  then show "ok s \<Longrightarrow> ?thesis" by (simp add: alloc_empty)
next
  case False
  assume "ok s"
  then obtain f t where "alloc s = (f, t)" "f \<in> frames s" using alloc_take [OF _ False] by blast
  with \<open>ok s\<close> False show ?thesis using frames_page [of s f] by simp
qed

lemma alloc_frames_distinct:
  assumes "ok s" and "n \<le> card (frames s)"
  shows "let (fs, t) = alloc_frames alloc n s in
    length fs = n \<and> distinct fs \<and> set fs \<subseteq> frames s \<and> frames t = frames s - set fs \<and> ok t"
  using assms
proof (induction n arbitrary: s)
  case 0
  then show ?case by simp
next
  case (Suc n)
  then obtain f t where ft: "alloc s = (f, t)" "f \<in> frames s" "frames t = frames s - {f}" "ok t"
    using alloc_take [of s] by (cases "frames s = {}") auto
  then have "n \<le> card (frames t)"
    using Suc.prems frames_finite [of s] by simp
  from Suc.IH [OF ft(4) this] ft show ?case by (auto split: prod.splits)
qed

lemma alloc_release:
  assumes "ok s" and "alloc s = (f, t)" and "f \<noteq> NULL"
  shows "\<exists>u. release f t = Ret () u \<and> frames u = frames s \<and> ok u"
proof -
  have "frames s \<noteq> {}" using assms alloc_empty by fastforce
  with assms alloc_take [of s] have "f \<in> frames s" "frames t = frames s - {f}" "ok t" by auto
  with frames_page [of s f] assms(1) release_put [of t f] show ?thesis by auto
qed

end

lemma low12_mod: "(x::u64) AND 0xFFF = x mod 4096"
  using and_mask_eq_mod [of x 12] by (simp add: mask_eq_exp_minus_1 word_mod_def)

lemma frame_addr_page:
  "i < TOTAL_FRAMES \<Longrightarrow> i \<noteq> 0 \<Longrightarrow> frame_addr i \<noteq> NULL \<and> frame_addr i AND 0xFFF = 0 \<and> frame_addr i < 0x10000000"
  using unat_frame_addr [of i]
  by (auto simp: low12_mod word_less_nat_alt unat_mod TOTAL_FRAMES_def simp flip: unat_eq_0)

lemma frame_addr_of_page:
  assumes "f \<noteq> NULL" and "f AND 0xFFF = 0" and "f < 0x10000000"
  shows "\<exists>i. i < TOTAL_FRAMES \<and> i \<noteq> 0 \<and> f = frame_addr i"
proof -
  have f: "unat f mod 4096 = 0" "unat f < 268435456" "unat f \<noteq> 0"
    using assms by (simp_all add: low12_mod word_less_nat_alt unat_mod unat_eq_0 flip: unat_eq_0)
  then have i: "unat f div 4096 < TOTAL_FRAMES" "unat f div 4096 \<noteq> 0" by (auto simp: TOTAL_FRAMES_def)
  moreover have "f = frame_addr (unat f div 4096)"
    using f(1) unat_frame_addr [OF i(1)] by (auto simp: word_unat_eq_iff)
  ultimately show ?thesis by blast
qed

interpretation bitmap_pmm: frame_allocator pmm_alloc pmm_free avail pmm_inv
proof (unfold_locales, goal_cases)
  case (1 s)
  then show ?case by (simp add: avail_def)
next
  case (2 s f)
  then obtain i where i: "i \<in> free_set s" "f = frame_addr i" by (auto simp: avail_def)
  with 2 have "i < TOTAL_FRAMES" "i \<noteq> 0" by (auto simp: free_set_def pmm_inv_def intro: ccontr)
  from frame_addr_page [OF this] show ?case unfolding i(2) .
next
  case (3 s)
  then have ne: "free_set s \<noteq> {}" by (simp add: avail_def)
  then have m: "Min (free_set s) \<in> free_set s" by simp
  have "pmm_alloc s = (frame_addr (Min (free_set s)), take_frame (Min (free_set s)) s)"
    using ne by (simp add: pmm_alloc_some frame_addr_def)
  moreover have "frame_addr (Min (free_set s)) \<in> avail s" using m by (simp add: avail_def)
  ultimately show ?case
    using 3(1) m avail_take take_frame_inv(1) by blast
next
  case (4 s)
  then show ?case by (simp add: avail_def pmm_alloc_none)
next
  case (5 s f)
  then obtain i where i: "i < TOTAL_FRAMES" "i \<noteq> 0" "f = frame_addr i"
    using frame_addr_of_page by blast
  with 5 have "i \<notin> free_set s" by (auto simp: avail_def)
  with i 5 show ?case by (auto simp: pmm_free_give give_frame_inv avail_def)
qed

lemma card_avail: "card (avail s) = card (free_set s)"
  by (simp add: avail_def card_image inj_frame_addr)

section \<open>Properties\<close>

text \<open>A machine with no free frame, and one whose frames 256 and 257 are free.\<close>

definition pmm_full :: pmm_state where
  "pmm_full = vga_state.extend vga_blank
     \<lparr>bitmap = replicate BITMAP_SIZE 0xFF, free_frame_count = 0\<rparr>"

definition pmm_two :: pmm_state where
  "pmm_two = give_frame 256 (give_frame 257 pmm_full)"

lemma pmm_full_inv: "pmm_inv pmm_full" "free_set pmm_full = {}"
proof -
  show "free_set pmm_full = {}"
    using free_set_all_used [of pmm_full] by (simp add: pmm_full_def vga_state.defs)
  then show "pmm_inv pmm_full"
    by (simp add: pmm_inv_def) (simp add: pmm_full_def vga_state.defs)
qed

lemma pmm_two_inv: "pmm_inv pmm_two" "free_set pmm_two = {256, 257}"
proof -
  have f: "pmm_inv (give_frame 257 pmm_full)" "free_set (give_frame 257 pmm_full) = {257}"
    using give_frame_inv [OF pmm_full_inv(1), of 257] by (simp_all add: pmm_full_inv TOTAL_FRAMES_def)
  show "pmm_inv pmm_two" "free_set pmm_two = {256, 257}"
    using give_frame_inv [OF f(1), of 256] by (simp_all add: f pmm_two_def TOTAL_FRAMES_def)
qed

text \<open>\<open>pmm_init\<close>, run once at boot for a kernel image between 1 MB and 256 MB, returns
  with exactly the frames above 1 MB free that no byte of the kernel image occupies,
  and with a counter that agrees with the bitmap.\<close>

theorem pmm_init_frees_unused_ram:
  assumes "length (bitmap s) = BITMAP_SIZE" and "free_frame_count s = 0"
    and "0x100000 \<le> ks" and "ks \<le> ke" and "ke \<le> 0x10000000"
  shows "\<exists>t. pmm_init ks ke s = Ret () t \<and> pmm_inv t \<and>
    free_set t = {256..<TOTAL_FRAMES} - {unat ks div 4096..<(unat ke + 4095) div 4096}"
  using assms by (rule pmm_init_frames)

theorem pmm_init_frees_unused_ram_witness:
  "\<exists>t. pmm_init 0x100000 0x1F0800 pmm_full = Ret () t \<and> pmm_inv t \<and>
    free_set t = {256..<TOTAL_FRAMES} - {256..<497}"
  using pmm_init_frees_unused_ram [of pmm_full "0x100000" "0x1F0800"]
  by (simp add: pmm_full_def vga_state.defs)

text \<open>C35. \<open>pmm_alloc\<close> hands out the lowest free frame: a page-aligned, non-null address below
  256 MB whose bit was clear; afterwards exactly that bit is set and the counter is
  one lower. With no free frame it returns null and changes nothing.\<close>

theorem pmm_alloc_lowest_frame:
  assumes "pmm_inv s"
  shows "if free_set s = {} then pmm_alloc s = (NULL, s)
    else \<exists>t. pmm_alloc s = (frame_addr (Min (free_set s)), t) \<and> pmm_inv t \<and>
      free_set t = free_set s - {Min (free_set s)} \<and>
      pmm_free_frames t = pmm_free_frames s - 1 \<and>
      frame_addr (Min (free_set s)) \<noteq> NULL \<and> frame_addr (Min (free_set s)) AND 0xFFF = 0 \<and>
      frame_addr (Min (free_set s)) < 0x10000000"
proof (cases "free_set s = {}")
  case True
  then show ?thesis by (simp add: pmm_alloc_none)
next
  case False
  then have m: "Min (free_set s) \<in> free_set s" by simp
  then have "frame_addr (Min (free_set s)) \<in> avail s" by (simp add: avail_def)
  from bitmap_pmm.frames_page [OF assms this] take_frame_inv [OF assms m] False show ?thesis
    by (simp add: pmm_alloc_some frame_addr_def) (simp add: pmm_free_frames_def take_frame_def)
qed

theorem pmm_alloc_lowest_frame_witness:
  "\<exists>t. pmm_alloc pmm_two = (frame_addr 256, t) \<and> free_set t = {257}"
proof -
  have "Min (free_set pmm_two) = 256" by (simp add: pmm_two_inv)
  with pmm_alloc_lowest_frame [OF pmm_two_inv(1)] show ?thesis by (auto simp: pmm_two_inv)
qed

text \<open>Freeing the frame that the last allocation returned restores the allocator state
  exactly: every bitmap byte and the counter.\<close>

theorem pmm_free_undoes_alloc:
  assumes "pmm_inv s" and "pmm_alloc s = (f, t)" and "f \<noteq> NULL"
  shows "pmm_free f t = Ret () s"
proof -
  have ne: "free_set s \<noteq> {}" using assms(2,3) by (auto simp: pmm_alloc_none)
  then have m: "Min (free_set s) \<in> free_set s" by simp
  then have lt: "Min (free_set s) < TOTAL_FRAMES" by (simp add: free_set_def)
  from assms(2) ne have "f = frame_addr (Min (free_set s))" "t = take_frame (Min (free_set s)) s"
    by (simp_all add: pmm_alloc_some frame_addr_def)
  then show ?thesis by (simp add: pmm_free_give [OF lt] give_take [OF assms(1) m])
qed

theorem pmm_free_undoes_alloc_witness:
  "pmm_free (frame_addr 256) (take_frame 256 pmm_two) = Ret () pmm_two"
proof (rule pmm_free_undoes_alloc [OF pmm_two_inv(1)])
  show "pmm_alloc pmm_two = (frame_addr 256, take_frame 256 pmm_two)"
    by (simp add: pmm_alloc_some pmm_two_inv frame_addr_def)
  show "frame_addr 256 \<noteq> NULL" using frame_addr_page [of 256] by (simp add: TOTAL_FRAMES_def)
qed

text \<open>C36. As long as the counter says there are \<open>n\<close> free frames, \<open>n\<close> allocations in a row
  succeed and hand out pairwise distinct frames that were free before; the counter
  then reads \<open>n\<close> less.\<close>

theorem pmm_allocs_distinct:
  assumes "pmm_inv s" and "n \<le> unat (pmm_free_frames s)"
  shows "let (fs, t) = alloc_frames pmm_alloc n s in
    length fs = n \<and> distinct fs \<and> set fs \<subseteq> avail s \<and> NULL \<notin> set fs \<and>
    avail t = avail s - set fs \<and> unat (pmm_free_frames t) = unat (pmm_free_frames s) - n"
proof -
  obtain fs t where e: "alloc_frames pmm_alloc n s = (fs, t)" by (cases "alloc_frames pmm_alloc n s")
  have "n \<le> card (avail s)" using assms by (simp add: card_avail pmm_inv_def pmm_free_frames_def)
  from bitmap_pmm.alloc_frames_distinct [OF assms(1) this] e
  have r: "length fs = n" "distinct fs" "set fs \<subseteq> avail s" "avail t = avail s - set fs" "pmm_inv t"
    by simp_all
  have "card (free_set t) = card (free_set s) - n"
    using r bitmap_pmm.frames_finite [OF assms(1)]
    by (simp add: card_Diff_subset distinct_card flip: card_avail)
  moreover have "NULL \<notin> set fs" using r(3) bitmap_pmm.frames_page [OF assms(1)] by blast
  ultimately show ?thesis using e r assms(1) by (simp add: pmm_inv_def pmm_free_frames_def)
qed

theorem pmm_allocs_distinct_witness:
  "let (fs, t) = alloc_frames pmm_alloc 2 pmm_two in
    length fs = 2 \<and> distinct fs \<and> unat (pmm_free_frames t) = 0"
proof -
  have "unat (pmm_free_frames pmm_two) = 2"
    using pmm_two_inv by (simp add: pmm_inv_def pmm_free_frames_def)
  with pmm_allocs_distinct [OF pmm_two_inv(1), of 2] show ?thesis by auto
qed

text \<open>Nothing stops a double free: freeing a frame that is already free leaves the
  bitmap as it was but counts the frame a second time, so the counter no longer
  agrees with the bitmap.\<close>

theorem pmm_double_free_miscounts:
  assumes "pmm_inv s" and "i \<in> free_set s"
  shows "\<exists>t. pmm_free (frame_addr i) s = Ret () t \<and> free_set t = free_set s \<and>
    pmm_free_frames t = pmm_free_frames s + 1 \<and> \<not> pmm_inv t"
proof -
  have i: "i < TOTAL_FRAMES" and len: "length (bitmap s) = BITMAP_SIZE"
    using assms by (auto simp: free_set_def pmm_inv_def)
  have fs: "free_set (give_frame i s) = free_set s"
    using assms(2) by (auto simp: give_frame_def free_set_clear [OF len i])
  moreover have "free_frame_count (give_frame i s) \<noteq> free_frame_count s"
    by (simp add: give_frame_def)
  then have "\<not> pmm_inv (give_frame i s)"
    using assms(1) fs by (auto simp: pmm_inv_def word_unat_eq_iff)
  ultimately show ?thesis
    by (auto simp: pmm_free_give [OF i] pmm_free_frames_def) (simp add: give_frame_def)
qed

theorem pmm_double_free_miscounts_witness:
  "\<exists>t. pmm_free (frame_addr 257) pmm_two = Ret () t \<and> \<not> pmm_inv t"
  using pmm_double_free_miscounts [OF pmm_two_inv(1), of 257] pmm_two_inv(2) by auto

end
