(* ===== verification/Machine_Memory.thy ===== *)
theory Machine_Memory
  imports Pmm
begin

text \<open>
  The memory the kernel's own code addresses: a byte per 64-bit linear address. The
  first gigabyte is mapped one to one (the boot code and \<open>vmm_init\<close> see to that), so
  a page table or a frame returned by \<open>pmm_alloc\<close> is read and written at its physical
  address. A 64-bit C object is eight bytes, least significant first. What the page
  tables need of such a memory is the locale \<open>qword_memory\<close>.
\<close>

section \<open>Words of memory\<close>

type_synonym memory = "u64 \<Rightarrow> u8"

definition load64 :: "memory \<Rightarrow> u64 \<Rightarrow> u64" where
  "load64 m a = ucast (m a) OR push_bit 8 (ucast (m (a + 1))) OR push_bit 16 (ucast (m (a + 2))) OR
     push_bit 24 (ucast (m (a + 3))) OR push_bit 32 (ucast (m (a + 4))) OR push_bit 40 (ucast (m (a + 5))) OR
     push_bit 48 (ucast (m (a + 6))) OR push_bit 56 (ucast (m (a + 7)))"

definition store64 :: "memory \<Rightarrow> u64 \<Rightarrow> u64 \<Rightarrow> memory" where
  "store64 m a v = m(a := ucast v, a + 1 := ucast (drop_bit 8 v), a + 2 := ucast (drop_bit 16 v),
     a + 3 := ucast (drop_bit 24 v), a + 4 := ucast (drop_bit 32 v), a + 5 := ucast (drop_bit 40 v),
     a + 6 := ucast (drop_bit 48 v), a + 7 := ucast (drop_bit 56 v))"

text \<open>A C \<open>int\<close> is four bytes.\<close>

definition load32 :: "memory \<Rightarrow> u64 \<Rightarrow> u32" where
  "load32 m a = ucast (m a) OR push_bit 8 (ucast (m (a + 1))) OR push_bit 16 (ucast (m (a + 2))) OR
     push_bit 24 (ucast (m (a + 3)))"

definition store32 :: "memory \<Rightarrow> u64 \<Rightarrow> u32 \<Rightarrow> memory" where
  "store32 m a v = m(a := ucast v, a + 1 := ucast (drop_bit 8 v), a + 2 := ucast (drop_bit 16 v),
     a + 3 := ucast (drop_bit 24 v))"

lemma bit_byte_of:
  fixes v :: u64
  assumes "n < 64"
  shows "bit (push_bit k (ucast (ucast (drop_bit k v) :: u8) :: u64)) n \<longleftrightarrow> k \<le> n \<and> n < k + 8 \<and> bit v n"
  using assms by (auto simp: bit_push_bit_iff bit_ucast_iff bit_drop_bit_eq)

lemma word_of_bytes:
  fixes v :: u64
  shows "ucast (ucast v :: u8) OR push_bit 8 (ucast (ucast (drop_bit 8 v) :: u8)) OR
     push_bit 16 (ucast (ucast (drop_bit 16 v) :: u8)) OR push_bit 24 (ucast (ucast (drop_bit 24 v) :: u8)) OR
     push_bit 32 (ucast (ucast (drop_bit 32 v) :: u8)) OR push_bit 40 (ucast (ucast (drop_bit 40 v) :: u8)) OR
     push_bit 48 (ucast (ucast (drop_bit 48 v) :: u8)) OR push_bit 56 (ucast (ucast (drop_bit 56 v) :: u8)) = v"
    (is "?w = v")
proof (rule bit_word_eqI)
  fix n assume "n < LENGTH(64)"
  then have n: "n < 64" by simp
  note b = bit_byte_of [OF n, of 8 v] bit_byte_of [OF n, of 16 v] bit_byte_of [OF n, of 24 v]
    bit_byte_of [OF n, of 32 v] bit_byte_of [OF n, of 40 v] bit_byte_of [OF n, of 48 v] bit_byte_of [OF n, of 56 v]
  have "bit (ucast (ucast v :: u8) :: u64) n \<longleftrightarrow> n < 8 \<and> bit v n"
    using bit_byte_of [OF n, of 0 v] by simp
  then have "bit ?w n \<longleftrightarrow> (n < 8 \<or> 8 \<le> n \<and> n < 8 + 8 \<or> 16 \<le> n \<and> n < 16 + 8 \<or> 24 \<le> n \<and> n < 24 + 8 \<or>
      32 \<le> n \<and> n < 32 + 8 \<or> 40 \<le> n \<and> n < 40 + 8 \<or> 48 \<le> n \<and> n < 48 + 8 \<or> 56 \<le> n \<and> n < 56 + 8) \<and> bit v n"
    unfolding bit_or_iff b by blast
  moreover have "n < 8 \<or> 8 \<le> n \<and> n < 8 + 8 \<or> 16 \<le> n \<and> n < 16 + 8 \<or> 24 \<le> n \<and> n < 24 + 8 \<or>
      32 \<le> n \<and> n < 32 + 8 \<or> 40 \<le> n \<and> n < 40 + 8 \<or> 48 \<le> n \<and> n < 48 + 8 \<or> 56 \<le> n \<and> n < 56 + 8"
    using n by arith
  ultimately show "bit ?w n \<longleftrightarrow> bit v n" by blast
qed

lemma load_store_same: "load64 (store64 m a v) a = v"
  using word_of_bytes [of v] by (simp add: load64_def store64_def)

text \<open>An aligned address plus an offset below the alignment stays below the next aligned address.\<close>

lemma unat_add_below:
  assumes "unat (a::u64) mod 2 ^ k = 0" and "unat i < 2 ^ k" and "k \<le> 64"
  shows "unat (a + i) = unat a + unat i"
proof -
  obtain q where q: "unat a = 2 ^ k * q" using assms(1) by auto
  have p: "(2::nat) ^ 64 = 2 ^ k * 2 ^ (64 - k)" using assms(3) by (simp flip: power_add)
  have "unat a < 2 ^ 64" using unsigned_less [where ?'a = nat, of a] by simp
  then have "2 ^ k * q < 2 ^ k * 2 ^ (64 - k)" unfolding q p .
  then have "Suc q \<le> 2 ^ (64 - k)" by simp
  then have "2 ^ k * Suc q \<le> 2 ^ 64" unfolding p by (rule mult_le_mono2)
  then have "unat a + unat i < 2 ^ 64" using assms(2) by (simp add: q)
  then show ?thesis by (simp add: unat_word_ariths)
qed

lemma aligned_sum_inject:
  fixes a b :: nat
  assumes "a mod c = 0" and "b mod c = 0" and "x < c" and "y < c" and "a + x = b + y"
  shows "a = b \<and> x = y"
proof -
  obtain q where q: "a = c * q" using assms(1) by auto
  obtain r where r: "b = c * r" using assms(2) by auto
  have "q = (c * q + x) div c" "r = (c * r + y) div c" using assms(3,4) by simp_all
  then have "q = r" using assms(5) unfolding q r by simp
  then show ?thesis using assms(5) by (simp add: q r)
qed

lemma aligned_bytes_disjoint:
  assumes "unat (a::u64) mod 8 = 0" and "unat b mod 8 = 0" and "a \<noteq> b" and "unat i < 8" and "unat j < 8"
  shows "a + i \<noteq> b + j"
proof
  assume "a + i = b + j"
  then have "unat a + unat i = unat b + unat j"
    using unat_add_below [of a 3 i] unat_add_below [of b 3 j] assms by simp
  then have "unat a = unat b"
    using aligned_sum_inject [OF assms(1,2,4,5)] by simp
  with assms(3) show False by (simp add: word_unat_eq_iff)
qed

lemma store64_outside:
  assumes "\<And>i. unat i < 8 \<Longrightarrow> b \<noteq> a + i"
  shows "store64 m a v b = m b"
  using assms [of 0] assms [of 1] assms [of 2] assms [of 3] assms [of 4] assms [of 5] assms [of 6] assms [of 7]
  by (simp add: store64_def)

lemma load_store_other:
  assumes "unat a mod 8 = 0" and "unat b mod 8 = 0" and "a \<noteq> b"
  shows "load64 (store64 m a v) b = load64 m b"
proof -
  have out: "store64 m a v (b + j) = m (b + j)" if "unat j < 8" for j
    by (rule store64_outside) (use aligned_bytes_disjoint [OF assms(2,1) assms(3) [symmetric] that] in blast)
  show ?thesis
    using out [of 0] out [of 1] out [of 2] out [of 3] out [of 4] out [of 5] out [of 6] out [of 7]
    by (simp add: load64_def)
qed

lemma bit_byte_of32:
  fixes v :: u32
  assumes "n < 32"
  shows "bit (push_bit k (ucast (ucast (drop_bit k v) :: u8) :: u32)) n \<longleftrightarrow> k \<le> n \<and> n < k + 8 \<and> bit v n"
  using assms by (auto simp: bit_push_bit_iff bit_ucast_iff bit_drop_bit_eq)

lemma load32_store32_same: "load32 (store32 m a v) a = v"
proof (rule bit_word_eqI)
  fix n assume "n < LENGTH(32)"
  then have n: "n < 32" by simp
  have b0: "bit (ucast (ucast v :: u8) :: u32) n \<longleftrightarrow> n < 8 \<and> bit v n"
    using bit_byte_of32 [OF n, of 0 v] by simp
  have "n < 8 \<or> 8 \<le> n \<and> n < 8 + 8 \<or> 16 \<le> n \<and> n < 16 + 8 \<or> 24 \<le> n \<and> n < 24 + 8" using n by arith
  moreover have "load32 (store32 m a v) a = ucast (ucast v :: u8) OR push_bit 8 (ucast (ucast (drop_bit 8 v) :: u8)) OR
      push_bit 16 (ucast (ucast (drop_bit 16 v) :: u8)) OR push_bit 24 (ucast (ucast (drop_bit 24 v) :: u8))"
    by (simp add: load32_def store32_def)
  ultimately show "bit (load32 (store32 m a v) a) n \<longleftrightarrow> bit v n"
    unfolding bit_or_iff bit_byte_of32 [OF n] b0 by (simp only: bit_or_iff bit_byte_of32 [OF n] b0) blast
qed

text \<open>
  Accesses inside the address space, in terms of byte positions: an object of \<open>n\<close>
  bytes at \<open>a\<close> occupies the positions from \<open>unat a\<close> on.
\<close>

lemma unat_byte: "unat (a::u64) + n \<le> 2 ^ 64 \<Longrightarrow> unat i < n \<Longrightarrow> unat (a + i) = unat a + unat i"
  by (simp add: unat_word_ariths)

lemma store64_frame:
  assumes "unat a + 8 \<le> 2 ^ 64" and "unat y < unat a \<or> unat a + 8 \<le> unat y"
  shows "store64 m a v y = m y"
  by (rule store64_outside) (use assms unat_byte [OF assms(1)] in auto)

lemma store32_frame:
  assumes "unat a + 4 \<le> 2 ^ 64" and "unat y < unat a \<or> unat a + 4 \<le> unat y"
  shows "store32 m a v y = m y"
proof -
  have "y \<noteq> a + i" if "unat i < 4" for i using assms unat_byte [OF assms(1) that] that by auto
  from this [of 0] this [of 1] this [of 2] this [of 3] show ?thesis by (simp add: store32_def)
qed

definition same_on :: "memory \<Rightarrow> memory \<Rightarrow> nat \<Rightarrow> nat \<Rightarrow> bool" where
  "same_on m m' lo hi \<longleftrightarrow> (\<forall>y. lo \<le> unat y \<longrightarrow> unat y < hi \<longrightarrow> m' y = m y)"

lemma same_onI: "(\<And>y. lo \<le> unat y \<Longrightarrow> unat y < hi \<Longrightarrow> m' y = m y) \<Longrightarrow> same_on m m' lo hi"
  by (simp add: same_on_def)

lemma same_onD: "same_on m m' lo hi \<Longrightarrow> lo \<le> unat y \<Longrightarrow> unat y < hi \<Longrightarrow> m' y = m y"
  by (simp add: same_on_def)

lemma same_on_refl [simp]: "same_on m m lo hi"
  by (simp add: same_on_def)

lemma same_on_trans: "same_on m m1 lo hi \<Longrightarrow> same_on m1 m2 lo hi \<Longrightarrow> same_on m m2 lo hi"
  by (simp add: same_on_def)

lemma same_on_mono: "same_on m m' lo hi \<Longrightarrow> lo \<le> lo' \<Longrightarrow> hi' \<le> hi \<Longrightarrow> same_on m m' lo' hi'"
  by (auto simp: same_on_def)

lemma same_on_store64:
  "unat a + 8 \<le> 2 ^ 64 \<Longrightarrow> unat a + 8 \<le> lo \<or> hi \<le> unat a \<Longrightarrow> same_on m (store64 m a v) lo hi"
  by (rule same_onI, rule store64_frame) auto

lemma same_on_store32:
  "unat a + 4 \<le> 2 ^ 64 \<Longrightarrow> unat a + 4 \<le> lo \<or> hi \<le> unat a \<Longrightarrow> same_on m (store32 m a v) lo hi"
  by (rule same_onI, rule store32_frame) auto

lemma load64_same:
  assumes "same_on m m' (unat a) (unat a + 8)" and "unat a + 8 \<le> 2 ^ 64"
  shows "load64 m' a = load64 m a"
proof -
  have "m' (a + i) = m (a + i)" if "unat i < 8" for i
    by (rule same_onD [OF assms(1)]) (use unat_byte [OF assms(2) that] that in auto)
  from this [of 0] this [of 1] this [of 2] this [of 3] this [of 4] this [of 5] this [of 6] this [of 7]
  show ?thesis by (simp add: load64_def)
qed

lemma load32_same:
  assumes "same_on m m' (unat a) (unat a + 4)" and "unat a + 4 \<le> 2 ^ 64"
  shows "load32 m' a = load32 m a"
proof -
  have "m' (a + i) = m (a + i)" if "unat i < 4" for i
    by (rule same_onD [OF assms(1)]) (use unat_byte [OF assms(2) that] that in auto)
  from this [of 0] this [of 1] this [of 2] this [of 3]
  show ?thesis by (simp add: load32_def)
qed

section \<open>The interface the page tables use\<close>

text \<open>Entry \<open>i\<close> of the 512-entry table at page address \<open>t\<close>.\<close>

definition entry_addr :: "u64 \<Rightarrow> u64 \<Rightarrow> u64" where
  "entry_addr t i = t + 8 * i"

definition page_aligned :: "u64 \<Rightarrow> bool" where
  "page_aligned t \<longleftrightarrow> unat t mod 4096 = 0"

lemma unat_entry_addr:
  assumes "page_aligned t" and "unat i < 512"
  shows "unat (entry_addr t i) = unat t + 8 * unat i"
proof -
  have "unat (8 * i) = 8 * unat i" using assms(2) by (simp add: unat_word_ariths)
  with assms unat_add_below [of t 12 "8 * i"] show ?thesis
    by (simp add: entry_addr_def page_aligned_def)
qed

lemma entry_addr_aligned: "page_aligned t \<Longrightarrow> unat i < 512 \<Longrightarrow> unat (entry_addr t i) mod 8 = 0"
proof -
  assume "page_aligned t" and i: "unat i < 512"
  then obtain q where "unat t = 4096 * q" by (auto simp: page_aligned_def)
  with unat_entry_addr [OF \<open>page_aligned t\<close> i] have "unat (entry_addr t i) = 8 * (512 * q + unat i)" by simp
  then show ?thesis by (simp only: mod_mult_self1_is_0)
qed

lemma entry_addr_inject:
  assumes "page_aligned t" "unat i < 512" "page_aligned t'" "unat i' < 512"
  shows "entry_addr t i = entry_addr t' i' \<longleftrightarrow> t = t' \<and> i = i'"
proof
  assume "entry_addr t i = entry_addr t' i'"
  then have e: "unat t + 8 * unat i = unat t' + 8 * unat i'"
    using unat_entry_addr [OF assms(1,2)] unat_entry_addr [OF assms(3,4)] by simp
  have "unat t = unat t' \<and> 8 * unat i = 8 * unat i'"
    by (rule aligned_sum_inject [of _ 4096]) (use assms e in \<open>auto simp: page_aligned_def\<close>)
  then show "t = t' \<and> i = i'" by (simp add: word_unat_eq_iff)
qed simp

locale qword_memory =
  fixes ld :: "'m \<Rightarrow> u64 \<Rightarrow> u64"
    and st :: "'m \<Rightarrow> u64 \<Rightarrow> u64 \<Rightarrow> 'm"
  assumes ld_st_same: "ld (st m a v) a = v"
    and ld_st_other: "unat a mod 8 = 0 \<Longrightarrow> unat b mod 8 = 0 \<Longrightarrow> a \<noteq> b \<Longrightarrow> ld (st m a v) b = ld m b"
begin

lemma ld_st_entry:
  assumes "page_aligned t" "unat i < 512" "page_aligned t'" "unat i' < 512"
  shows "ld (st m (entry_addr t i) v) (entry_addr t' i') =
    (if t = t' \<and> i = i' then v else ld m (entry_addr t' i'))"
  using assms by (auto simp: ld_st_same entry_addr_inject ld_st_other entry_addr_aligned)

text \<open>
  A loop over the 512 entries of one table, each entry set from the memory at that
  moment: the table's entries get their new values, every other table is untouched.
\<close>

lemma ld_table_loop:
  assumes "page_aligned t" and "n \<le> 512"
    and "\<And>k m m'. k < n \<Longrightarrow> (\<And>t' i'. page_aligned t' \<Longrightarrow> unat i' < 512 \<Longrightarrow> t' \<noteq> t \<Longrightarrow>
           ld m (entry_addr t' i') = ld m' (entry_addr t' i')) \<Longrightarrow>
         ld m (entry_addr t (of_nat k)) = ld m' (entry_addr t (of_nat k)) \<Longrightarrow> g k m = g k m'"
    and "page_aligned t'" and "unat i' < 512"
  shows "ld (for_upd n 0 (\<lambda>k m. st m (entry_addr t (of_nat k)) (g k m)) m) (entry_addr t' i') =
    (if t' = t \<and> unat i' < n then g (unat i') m else ld m (entry_addr t' i'))"
proof -
  let ?f = "\<lambda>k m. st m (entry_addr t (of_nat k)) (g k m)"
  let ?P = "\<lambda>k m'. \<forall>u j. page_aligned u \<longrightarrow> unat j < 512 \<longrightarrow> ld m' (entry_addr u j) =
    (if u = t \<and> unat j < k then g (unat j) m else ld m (entry_addr u j))"
  have "?P (0 + n) (for_upd n 0 ?f m)"
  proof (rule for_upd_rule [where P = ?P])
    show "?P 0 m" by simp
  next
    fix k m' assume k: "k < 0 + n" and P: "?P k m'"
    have uk: "unat (of_nat k :: u64) = k" using k assms(2) by (intro unat_of_nat_small) simp
    have gk: "g k m' = g k m"
      by (rule assms(3)) (use P uk k assms(1,2) in auto)
    show "?P (Suc k) (?f k m')"
    proof (intro allI impI)
      fix u j assume "page_aligned u" "unat (j::u64) < 512"
      moreover have "of_nat k = j \<longleftrightarrow> unat j = k" using uk by (metis of_nat_unat ucast_id)
      ultimately show "ld (?f k m') (entry_addr u j) =
          (if u = t \<and> unat j < Suc k then g (unat j) m else ld m (entry_addr u j))"
        using P uk k assms(1,2) gk by (auto simp: ld_st_entry less_Suc_eq)
    qed
  qed
  with assms(4,5) show ?thesis by auto
qed

end

interpretation byte_memory: qword_memory load64 store64
  by unfold_locales (simp_all add: load_store_same load_store_other)

end
