(* ===== verification/Vmm.thy ===== *)
theory Vmm
  imports Machine_Memory
begin

text \<open>
  The virtual memory manager of \<open>src/memory/vmm.c\<close>: the four-level page tables of
  x86-64, built in physical frames from \<open>pmm_alloc\<close> and rooted at CR3. The
  translation look-aside buffer is not part of the state, so \<open>invlpg\<close> and the reload
  of CR3 that only flushes it have no effect here.

  The tables are abstracted to the map \<open>pview\<close> from index paths to entries, and every
  operation is shown to be a small update of that map.
\<close>

section \<open>State and operations\<close>

record vmm_state = pmm_state +
  mem :: memory
  cr3 :: u64

abbreviation PTE_PRESENT :: u64 where "PTE_PRESENT \<equiv> 1"
abbreviation PTE_WRITABLE :: u64 where "PTE_WRITABLE \<equiv> 2"
abbreviation PTE_USER :: u64 where "PTE_USER \<equiv> 4"
abbreviation PTE_HUGE :: u64 where "PTE_HUGE \<equiv> 0x80"

definition PML4_INDEX :: "u64 \<Rightarrow> u64" where "PML4_INDEX addr = drop_bit 39 addr AND 0x1FF"
definition PDPT_INDEX :: "u64 \<Rightarrow> u64" where "PDPT_INDEX addr = drop_bit 30 addr AND 0x1FF"
definition PD_INDEX :: "u64 \<Rightarrow> u64" where "PD_INDEX addr = drop_bit 21 addr AND 0x1FF"
definition PT_INDEX :: "u64 \<Rightarrow> u64" where "PT_INDEX addr = drop_bit 12 addr AND 0x1FF"

definition ENTRY_ADDR :: "u64 \<Rightarrow> u64" where
  "ENTRY_ADDR entry = entry AND NOT 0xFFF"

definition or_entry :: "u64 \<Rightarrow> u64 \<Rightarrow> memory \<Rightarrow> memory" where
  "or_entry entry bits m = store64 m entry (load64 m entry OR bits)"

definition get_or_create_table ::
    "u64 \<Rightarrow> u64 \<Rightarrow> 'a vmm_state_scheme \<Rightarrow> ('a vmm_state_scheme, u64) outcome" where
  "get_or_create_table entry flags s =
     (if load64 (mem s) entry AND PTE_PRESENT = 0
      then (case pmm_alloc s of (frame, s1) \<Rightarrow>
              if frame = NULL
              then Halt (vga_print (str ''[VMM] pmm_alloc failed in get_or_create_table'' @ [0x0A]) s1)
              else (let m1 = for_upd 512 0 (\<lambda>i m. store64 m (entry_addr frame (of_nat i)) 0) (mem s1);
                        m2 = store64 m1 entry (frame OR flags OR PTE_PRESENT)
                    in Ret (ENTRY_ADDR (load64 m2 entry)) (s1\<lparr>mem := m2\<rparr>)))
      else if load64 (mem s) entry AND PTE_HUGE \<noteq> 0
      then Halt (vga_print (str ''[VMM] FATAL: Tried to traverse a huge page'' @ [0x0A]) s)
      else (let m1 = (if flags AND PTE_USER \<noteq> 0 then or_entry entry PTE_USER (mem s) else mem s);
                m2 = (if flags AND PTE_WRITABLE \<noteq> 0 then or_entry entry PTE_WRITABLE m1 else m1);
                m3 = (if flags AND PTE_PRESENT \<noteq> 0 then or_entry entry PTE_PRESENT m2 else m2)
            in Ret (ENTRY_ADDR (load64 m3 entry)) (s\<lparr>mem := m3\<rparr>)))"

definition vmm_map :: "u64 \<Rightarrow> u64 \<Rightarrow> u64 \<Rightarrow> 'a vmm_state_scheme \<Rightarrow> ('a vmm_state_scheme, unit) outcome" where
  "vmm_map virt phys flags s =
     (let pml4 = ENTRY_ADDR (cr3 s)
      in obind (get_or_create_table (entry_addr pml4 (PML4_INDEX virt)) (PTE_WRITABLE OR PTE_USER) s) (\<lambda>pdpt s1.
         obind (get_or_create_table (entry_addr pdpt (PDPT_INDEX virt)) (PTE_WRITABLE OR PTE_USER) s1) (\<lambda>pd s2.
         obind (get_or_create_table (entry_addr pd (PD_INDEX virt)) (PTE_WRITABLE OR PTE_USER) s2) (\<lambda>pt s3.
         Ret () (s3\<lparr>mem := store64 (mem s3) (entry_addr pt (PT_INDEX virt)) (phys OR flags OR PTE_PRESENT)\<rparr>)))))"

definition vmm_unmap :: "u64 \<Rightarrow> 'a vmm_state_scheme \<Rightarrow> 'a vmm_state_scheme" where
  "vmm_unmap virt s =
     (let pml4 = ENTRY_ADDR (cr3 s);
          pml4e = load64 (mem s) (entry_addr pml4 (PML4_INDEX virt))
      in if pml4e AND PTE_PRESENT = 0 then s else
         let pdpt = ENTRY_ADDR pml4e;
             pdpte = load64 (mem s) (entry_addr pdpt (PDPT_INDEX virt))
         in if pdpte AND PTE_PRESENT = 0 then s else
            let pd = ENTRY_ADDR pdpte;
                pde = load64 (mem s) (entry_addr pd (PD_INDEX virt))
            in if pde AND PTE_PRESENT = 0 then s else
               let pt = ENTRY_ADDR pde
               in s\<lparr>mem := store64 (mem s) (entry_addr pt (PT_INDEX virt)) 0\<rparr>)"

definition vmm_get_phys :: "u64 \<Rightarrow> 'a vmm_state_scheme \<Rightarrow> u64" where
  "vmm_get_phys virt s =
     (let pml4 = ENTRY_ADDR (cr3 s);
          pml4e = load64 (mem s) (entry_addr pml4 (PML4_INDEX virt))
      in if pml4e AND PTE_PRESENT = 0 then 0 else
         let pdpt = ENTRY_ADDR pml4e;
             pdpte = load64 (mem s) (entry_addr pdpt (PDPT_INDEX virt))
         in if pdpte AND PTE_PRESENT = 0 then 0
            else if pdpte AND PTE_HUGE \<noteq> 0 then ENTRY_ADDR pdpte + (virt AND 0x3FFFFFFF) else
            let pd = ENTRY_ADDR pdpte;
                pde = load64 (mem s) (entry_addr pd (PD_INDEX virt))
            in if pde AND PTE_PRESENT = 0 then 0
               else if pde AND PTE_HUGE \<noteq> 0 then ENTRY_ADDR pde + (virt AND 0x1FFFFF) else
               let pt = ENTRY_ADDR pde;
                   pte = load64 (mem s) (entry_addr pt (PT_INDEX virt))
               in if pte AND PTE_PRESENT = 0 then 0 else ENTRY_ADDR pte)"

text \<open>\<open>self\<close> is the address of the function \<open>vmm_init\<close> itself, whose translation it prints.\<close>

definition vmm_init :: "u64 \<Rightarrow> 'a vmm_state_scheme \<Rightarrow> 'a vmm_state_scheme" where
  "vmm_init self s =
     (let pml4 = ENTRY_ADDR (cr3 s);
          pdpt = ENTRY_ADDR (load64 (mem s) (entry_addr pml4 0));
          pd = ENTRY_ADDR (load64 (mem s) (entry_addr pdpt 0));
          s1 = s\<lparr>mem := for_upd 512 0
                 (\<lambda>i m. if load64 m (entry_addr pd (of_nat i)) AND PTE_PRESENT = 0
                        then store64 m (entry_addr pd (of_nat i))
                               (push_bit 21 (of_nat i) OR PTE_PRESENT OR PTE_WRITABLE OR PTE_HUGE)
                        else m) (mem s)\<rparr>;
          s2 = vga_print [0x0A] (vga_print_hex (cr3 s1) (vga_print (str ''Physical CR3: 0x'') s1));
          test_phys = vmm_get_phys self s2
      in vga_print [0x0A] (vga_print_hex test_phys (vga_print (str ''VMM_INIT Phys: 0x'') s2)))"

definition vmm_create_address_space :: "'a vmm_state_scheme \<Rightarrow> u64 \<times> 'a vmm_state_scheme" where
  "vmm_create_address_space s =
     (case pmm_alloc s of (new_pml4, s1) \<Rightarrow>
        if new_pml4 = NULL then (0, s1)
        else (let cur_pml4 = ENTRY_ADDR (cr3 s1);
                  m = for_upd 512 0
                        (\<lambda>i m. let m1 = store64 m (entry_addr new_pml4 (of_nat i))
                                           (load64 m (entry_addr cur_pml4 (of_nat i)))
                               in if load64 m1 (entry_addr new_pml4 (of_nat i)) AND PTE_PRESENT \<noteq> 0
                                  then or_entry (entry_addr new_pml4 (of_nat i)) PTE_USER m1 else m1)
                        (mem s1)
              in (new_pml4, s1\<lparr>mem := m\<rparr>)))"

definition vmm_switch_address_space :: "u64 \<Rightarrow> 'a vmm_state_scheme \<Rightarrow> 'a vmm_state_scheme" where
  "vmm_switch_address_space pml4_phys s = s\<lparr>cr3 := pml4_phys\<rparr>"

definition vmm_map_in ::
    "u64 \<Rightarrow> u64 \<Rightarrow> u64 \<Rightarrow> u64 \<Rightarrow> 'a vmm_state_scheme \<Rightarrow> ('a vmm_state_scheme, unit) outcome" where
  "vmm_map_in pml4_phys virt phys flags s =
     (let cur_cr3 = cr3 s
      in obind (vmm_map virt phys flags (vmm_switch_address_space pml4_phys s))
           (\<lambda>_ s1. Ret () (vmm_switch_address_space cur_cr3 s1)))"

section \<open>The tables as a map from index paths\<close>

text \<open>What a reader sees of an entry: nothing when it is absent, else the address and the huge bit.\<close>

definition eview :: "u64 \<Rightarrow> (u64 \<times> bool) option" where
  "eview e = (if e AND PTE_PRESENT = 0 then None else Some (ENTRY_ADDR e, e AND PTE_HUGE \<noteq> 0))"

text \<open>
  \<open>pview m r p\<close> is the entry reached from the root table \<open>r\<close> along the indices of \<open>p\<close>,
  the last index first. The empty path is the root table itself.
\<close>

fun pview :: "memory \<Rightarrow> u64 \<Rightarrow> u64 list \<Rightarrow> (u64 \<times> bool) option" where
  "pview m r [] = Some (r, False)"
| "pview m r (i # p) =
     (case pview m r p of
        Some (t, huge) \<Rightarrow> if huge then None else eview (load64 m (entry_addr t i))
      | None \<Rightarrow> None)"

definition vpath :: "u64 list \<Rightarrow> bool" where
  "vpath p \<longleftrightarrow> (\<forall>i \<in> set p. unat i < 512)"

definition va_path :: "u64 \<Rightarrow> u64 list" where
  "va_path v = [PT_INDEX v, PD_INDEX v, PDPT_INDEX v, PML4_INDEX v]"

text \<open>
  An address space is well formed when no table is reached by two different paths
  (in particular no table serves at two levels), no table lies in a free frame, and
  no top-level entry has the huge bit.
\<close>

definition as_wf :: "u64 \<Rightarrow> 'a vmm_state_scheme \<Rightarrow> bool" where
  "as_wf r s \<longleftrightarrow> pmm_inv s \<and> page_aligned r \<and>
     (\<forall>p q t. vpath p \<longrightarrow> vpath q \<longrightarrow> length p \<le> 3 \<longrightarrow> length q \<le> 3 \<longrightarrow>
        pview (mem s) r p = Some (t, False) \<longrightarrow> pview (mem s) r q = Some (t, False) \<longrightarrow> p = q) \<and>
     (\<forall>p t. vpath p \<longrightarrow> length p \<le> 3 \<longrightarrow> pview (mem s) r p = Some (t, False) \<longrightarrow> t \<notin> avail s) \<and>
     (\<forall>i t. unat i < 512 \<longrightarrow> pview (mem s) r [i] \<noteq> Some (t, True))"

section \<open>Bits of entries and indices\<close>

lemma unat_index: "unat (x AND 0x1FF :: u64) < 512"
proof -
  have "x AND 0x1FF \<le> (0x1FF :: u64)" by (rule word_and_le1)
  then show ?thesis by (simp add: word_le_nat_alt)
qed

lemma index_bounds [simp]:
  "unat (PML4_INDEX v) < 512" "unat (PDPT_INDEX v) < 512" "unat (PD_INDEX v) < 512" "unat (PT_INDEX v) < 512"
  by (simp_all add: PML4_INDEX_def PDPT_INDEX_def PD_INDEX_def PT_INDEX_def unat_index)

lemma page_aligned_mask: "page_aligned t \<longleftrightarrow> t AND 0xFFF = 0"
proof -
  have e: "unat (t mod 4096) = unat t mod 4096" by (simp add: unat_mod)
  have "t AND 0xFFF = 0 \<longleftrightarrow> unat (t mod 4096) = 0" by (simp only: low12_mod unat_eq_0)
  then show ?thesis by (simp only: e page_aligned_def)
qed

lemma page_aligned_ENTRY_ADDR [simp]: "page_aligned (ENTRY_ADDR e)"
  by (simp add: page_aligned_mask ENTRY_ADDR_def and.assoc)

lemma ENTRY_ADDR_or:
  assumes "page_aligned f" and "x AND NOT 0xFFF = 0"
  shows "ENTRY_ADDR (f OR x) = f"
proof -
  have "(f AND m) OR (f AND NOT m) = f" for m
    by (simp flip: bit.conj_disj_distrib)
  from this [of "0xFFF"] assms(1) have "f AND NOT 0xFFF = f" by (simp add: page_aligned_mask)
  with assms(2) show ?thesis by (simp add: ENTRY_ADDR_def bit.conj_disj_distrib2)
qed

lemma pview_aligned:
  "page_aligned r \<Longrightarrow> pview m r p = Some (t, h) \<Longrightarrow> page_aligned t"
  by (cases p) (auto simp: eview_def split: option.splits if_splits)

section \<open>How a store changes the map\<close>

lemma pview_tail: "pview m r p = None \<Longrightarrow> pview m r (i # p) = None"
  by simp

text \<open>The map only depends on the entries of the tables it reaches.\<close>

lemma pview_cong:
  assumes "\<And>p t i. vpath p \<Longrightarrow> length p < n \<Longrightarrow> pview m r p = Some (t, False) \<Longrightarrow> unat i < 512 \<Longrightarrow>
      eview (load64 m' (entry_addr t i)) = eview (load64 m (entry_addr t i))"
  shows "vpath q \<Longrightarrow> length q \<le> n \<Longrightarrow> pview m' r q = pview m r q"
proof (induction q)
  case Nil
  then show ?case by simp
next
  case (Cons i q)
  then have IH: "pview m' r q = pview m r q" and q: "vpath q" "length q < n" "unat i < 512"
    by (auto simp: vpath_def)
  from assms [OF q(1,2) _ q(3)] IH show ?case by (auto split: option.splits)
qed

text \<open>
  Overwriting one entry of a table, either at the last level or without changing
  what a reader sees of it.
\<close>

lemma pview_store_entry:
  assumes inj: "\<And>q. vpath q \<Longrightarrow> length q \<le> 3 \<Longrightarrow> pview m r q = Some (t, False) \<Longrightarrow> q = p"
    and r: "page_aligned r" and p: "vpath p" "length p \<le> 3" "pview m r p = Some (t, False)" "unat i < 512"
    and e: "length p = 3 \<or> eview e = pview m r (i # p)"
  shows "vpath q \<Longrightarrow> length q \<le> 4 \<Longrightarrow>
    pview (store64 m (entry_addr t i) e) r q = (if q = i # p then eview e else pview m r q)"
proof (induction q)
  case Nil
  then show ?case by simp
next
  case (Cons j q)
  then have q: "vpath q" "length q \<le> 3" "unat j < 512" by (auto simp: vpath_def)
  have "q = i # p \<Longrightarrow> eview e = pview m r (i # p)" using e q by auto
  with Cons.IH q have IH: "pview (store64 m (entry_addr t i) e) r q = pview m r q" by auto
  have t: "page_aligned t" using pview_aligned [OF r p(3)] .
  show ?case
  proof (cases "pview m r q")
    case None
    then have "j # q \<noteq> i # p" using p(3) by auto
    with None IH show ?thesis by auto
  next
    case (Some uh)
    then obtain u h where uh: "pview m r q = Some (u, h)" by (cases uh) auto
    show ?thesis
    proof (cases h)
      case True
      with uh p(3) have "j # q \<noteq> i # p" by auto
      with True uh IH show ?thesis by auto
    next
      case False
      have u: "page_aligned u" using pview_aligned [OF r uh] .
      have "u = t \<longleftrightarrow> q = p" using inj [OF q(1,2)] uh False p(3) by auto
      then have "load64 (store64 m (entry_addr t i) e) (entry_addr u j) =
          (if j # q = i # p then e else load64 m (entry_addr u j))"
        using byte_memory.ld_st_entry [OF t p(4) u q(3)] by auto
      with uh False IH show ?thesis by simp
    qed
  qed
qed

text \<open>Installing a freshly zeroed table in an absent entry.\<close>

lemma pview_new_table:
  assumes inj: "\<And>q. vpath q \<Longrightarrow> length q \<le> 3 \<Longrightarrow> pview m r q = Some (t, False) \<Longrightarrow> q = p"
    and r: "page_aligned r" and p: "vpath p" "length p \<le> 2" "pview m r p = Some (t, False)" "unat i < 512"
    and none: "pview m r (i # p) = None"
    and f: "page_aligned f" "\<And>q. vpath q \<Longrightarrow> length q \<le> 3 \<Longrightarrow> pview m r q \<noteq> Some (f, False)"
    and e: "eview e = Some (f, False)"
  shows "vpath q \<Longrightarrow> length q \<le> 4 \<Longrightarrow>
    pview (store64 (for_upd 512 0 (\<lambda>i m. store64 m (entry_addr f (of_nat i)) 0) m) (entry_addr t i) e) r q =
    (if q = i # p then Some (f, False) else pview m r q)"
proof (induction q)
  case Nil
  then show ?case by simp
next
  let ?z = "for_upd 512 0 (\<lambda>i m. store64 m (entry_addr f (of_nat i)) 0) m"
  case (Cons j q)
  then have q: "vpath q" "length q \<le> 3" "unat j < 512" by (auto simp: vpath_def)
  with Cons.IH have IH: "pview (store64 ?z (entry_addr t i) e) r q =
      (if q = i # p then Some (f, False) else pview m r q)" by auto
  have t: "page_aligned t" using pview_aligned [OF r p(3)] .
  have ft: "f \<noteq> t" using f(2) [of p] p by auto
  have z: "load64 ?z (entry_addr u j) = (if u = f then 0 else load64 m (entry_addr u j))"
    if "page_aligned u" for u
    using byte_memory.ld_table_loop [OF f(1) le_refl, of "\<lambda>_ _. 0" u j m] that q(3) by auto
  show ?case
  proof (cases "q = i # p")
    case True
    then have "j # q \<noteq> i # p" by auto
    moreover have "pview m r (j # q) = None" using none True by (simp only: pview_tail)
    ultimately show ?thesis
      using True IH ft z [OF f(1)] byte_memory.ld_st_entry [OF t p(4) f(1) q(3)]
      by (auto simp: eview_def)
  next
    case False
    show ?thesis
    proof (cases "\<exists>u. pview m r q = Some (u, False)")
      case True
      then obtain u where u: "pview m r q = Some (u, False)" by blast
      have ua: "page_aligned u" and uf: "u \<noteq> f" using pview_aligned [OF r u] f(2) [OF q(1,2)] u by auto
      have "u = t \<longleftrightarrow> q = p" using inj [OF q(1,2)] u p(3) by auto
      then show ?thesis
        using u False IH uf z [OF ua] byte_memory.ld_st_entry [OF t p(4) ua q(3)] e by auto
    next
      case nt: False
      then have "j # q \<noteq> i # p" using p(3) by auto
      with nt False IH show ?thesis by (auto split: option.splits)
    qed
  qed
qed

section \<open>Getting or creating a table\<close>

lemma eview_new: "page_aligned f \<Longrightarrow> eview (f OR (PTE_WRITABLE OR PTE_USER) OR PTE_PRESENT) = Some (f, False)"
proof -
  assume f: "page_aligned f"
  have "ENTRY_ADDR (f OR 7) = f" by (rule ENTRY_ADDR_or [OF f]) simp
  moreover have "(f OR 7) AND 1 \<noteq> 0" by (simp add: bit.conj_disj_distrib2)
  moreover have "f AND 0x80 = 0"
  proof -
    have "f AND 0x80 = (f AND 0xFFF) AND 0x80" by (simp add: and.assoc)
    then show ?thesis using f by (simp add: page_aligned_mask)
  qed
  then have "(f OR 7) AND 0x80 = 0" by (simp add: bit.conj_disj_distrib2)
  ultimately show ?thesis by (simp add: eview_def or.assoc)
qed

lemma eview_or_flags:
  assumes "eview e = Some (a, False)"
  shows "eview (e OR 4 OR 2) = Some (a, False)"
proof -
  have "ENTRY_ADDR (e OR 6) = ENTRY_ADDR e" by (simp add: ENTRY_ADDR_def bit.conj_disj_distrib2)
  moreover have "(e OR 6) AND 1 = e AND 1" "(e OR 6) AND 0x80 = e AND 0x80"
    by (simp_all add: bit.conj_disj_distrib2)
  ultimately show ?thesis using assms by (simp add: eview_def or.assoc split: if_splits)
qed

text \<open>The allocator does not look at the memory or at CR3, nor does it change them.\<close>

lemma pmm_mem [simp]:
  "pmm_inv (s\<lparr>mem := m\<rparr>) = pmm_inv s" "avail (s\<lparr>mem := m\<rparr>) = avail s"
  "pmm_inv (s\<lparr>cr3 := c\<rparr>) = pmm_inv s" "avail (s\<lparr>cr3 := c\<rparr>) = avail s"
  by (simp_all add: pmm_inv_def avail_def free_set_def bitmap_test_def)

lemma take_frame_vmm [simp]: "mem (take_frame i s) = mem s" "cr3 (take_frame i s) = cr3 s"
  by (simp_all add: take_frame_def bitmap_set_def)

lemma pmm_alloc_vmm: "pmm_alloc s = (f, t) \<Longrightarrow> mem t = mem s \<and> cr3 t = cr3 s"
  by (cases "free_set s = {}") (auto simp: pmm_alloc_none pmm_alloc_some)

lemma as_wfD:
  assumes "as_wf r s"
  shows "pmm_inv s" "page_aligned r"
    and "vpath p \<Longrightarrow> vpath q \<Longrightarrow> length p \<le> 3 \<Longrightarrow> length q \<le> 3 \<Longrightarrow>
      pview (mem s) r p = Some (t, False) \<Longrightarrow> pview (mem s) r q = Some (t, False) \<Longrightarrow> p = q"
    and "vpath p \<Longrightarrow> length p \<le> 3 \<Longrightarrow> pview (mem s) r p = Some (t, False) \<Longrightarrow> t \<notin> avail s"
    and "unat i < 512 \<Longrightarrow> pview (mem s) r [i] \<noteq> Some (t, True)"
  using assms unfolding as_wf_def by blast+

text \<open>Adding one table, taken from the free frames, keeps an address space well formed.\<close>

lemma as_wf_upd:
  assumes wf: "as_wf r s" and inv: "pmm_inv s'" and sub: "avail s' \<subseteq> avail s"
    and v: "\<And>q. vpath q \<Longrightarrow> length q \<le> 3 \<Longrightarrow>
      pview (mem s') r q = (if q = p then Some (f, False) else pview (mem s) r q)"
    and f: "pview (mem s) r p = Some (f, False) \<or> f \<in> avail s" "f \<notin> avail s'"
  shows "as_wf r s'"
proof -
  have fresh: "f \<in> avail s \<Longrightarrow> pview (mem s) r q \<noteq> Some (f, False)" if "vpath q" "length q \<le> 3" for q
    using as_wfD(4) [OF wf that] by blast
  show ?thesis
    unfolding as_wf_def
  proof (intro conjI allI impI)
    fix q q' t assume *: "vpath q" "vpath q'" "length q \<le> 3" "length q' \<le> 3"
      "pview (mem s') r q = Some (t, False)" "pview (mem s') r q' = Some (t, False)"
    then show "q = q'"
      using v as_wfD(3) [OF wf *(1-4)] as_wfD(3) [OF wf *(1) _ *(3), of p] as_wfD(3) [OF wf _ *(2) _ *(4), of p]
        fresh f(1) by (auto split: if_splits)
  next
    fix q t assume "vpath q" "length q \<le> 3" "pview (mem s') r q = Some (t, False)"
    then show "t \<notin> avail s'" using v as_wfD(4) [OF wf] sub f(2) by (auto split: if_splits)
  next
    fix i t assume "unat (i::u64) < 512"
    then show "pview (mem s') r [i] \<noteq> Some (t, True)"
      using v [of "[i]"] as_wfD(5) [OF wf, of i] by (auto simp: vpath_def simp del: pview.simps split: if_splits)
  qed (use inv as_wfD(2) [OF wf] in auto)
qed

lemma eview_present_bits: "eview e = Some (a, h) \<longleftrightarrow> e AND PTE_PRESENT \<noteq> 0 \<and> a = ENTRY_ADDR e \<and> h = (e AND PTE_HUGE \<noteq> 0)"
  by (auto simp: eview_def)

lemma eview_None_bits: "eview e = None \<longleftrightarrow> e AND PTE_PRESENT = 0"
  by (simp add: eview_def)

lemma goc_present:
  assumes wf: "as_wf r s" and p: "vpath p" "length p \<le> 2" "pview (mem s) r p = Some (t, False)" "unat i < 512"
    and pr: "pview (mem s) r (i # p) = Some (t', False)"
  shows "\<exists>m'. get_or_create_table (entry_addr t i) (PTE_WRITABLE OR PTE_USER) s = Ret t' (s\<lparr>mem := m'\<rparr>) \<and>
    (\<forall>q. vpath q \<longrightarrow> length q \<le> 4 \<longrightarrow> pview m' r q = pview (mem s) r q) \<and>
    (\<forall>u j. page_aligned u \<longrightarrow> unat j < 512 \<longrightarrow> u \<noteq> t \<longrightarrow>
       load64 m' (entry_addr u j) = load64 (mem s) (entry_addr u j))"
proof -
  let ?a = "entry_addr t i"
  let ?e = "load64 (mem s) ?a"
  let ?m1 = "store64 (mem s) ?a (?e OR 4)"
  let ?m2 = "store64 ?m1 ?a (load64 ?m1 ?a OR 2)"
  have t: "page_aligned t" using pview_aligned [OF as_wfD(2) [OF wf] p(3)] .
  have e: "eview ?e = Some (t', False)" using pr p(3) by simp
  have e2: "load64 ?m2 ?a = ?e OR 4 OR 2" by (simp add: byte_memory.ld_st_same or.assoc)
  have run: "get_or_create_table ?a (PTE_WRITABLE OR PTE_USER) s = Ret t' (s\<lparr>mem := ?m2\<rparr>)"
    using e eview_or_flags [OF e] e2
    by (simp add: get_or_create_table_def eview_present_bits or_entry_def bit.conj_disj_distrib2 Let_def)
  have ld: "load64 ?m2 (entry_addr u j) = (if u = t \<and> j = i then ?e OR 4 OR 2 else load64 (mem s) (entry_addr u j))"
    if "page_aligned u" "unat j < 512" for u j
    using that byte_memory.ld_st_entry [OF t p(4) that]
    by (auto simp: byte_memory.ld_st_same or.assoc)
  have pv: "pview ?m2 r q = pview (mem s) r q" if "vpath q" "length q \<le> 4" for q
  proof (rule pview_cong [where n = 4, OF _ that])
    fix p' u j assume u: "pview (mem s) r p' = Some (u, False)" and j: "unat (j::u64) < 512"
    have "page_aligned u" using pview_aligned [OF as_wfD(2) [OF wf] u] .
    with j show "eview (load64 ?m2 (entry_addr u j)) = eview (load64 (mem s) (entry_addr u j))"
      using ld eview_or_flags [OF e] e by auto
  qed
  show ?thesis
  proof (intro exI conjI allI impI)
    show "get_or_create_table ?a (PTE_WRITABLE OR PTE_USER) s = Ret t' (s\<lparr>mem := ?m2\<rparr>)" by (rule run)
  next
    fix q assume "vpath q" "length q \<le> 4"
    then show "pview ?m2 r q = pview (mem s) r q" by (rule pv)
  next
    fix u j assume "page_aligned u" "unat (j::u64) < 512" "u \<noteq> t"
    then show "load64 ?m2 (entry_addr u j) = load64 (mem s) (entry_addr u j)" by (simp only: ld) simp
  qed
qed

lemma goc_absent:
  assumes wf: "as_wf r s" and p: "vpath p" "length p \<le> 2" "pview (mem s) r p = Some (t, False)" "unat i < 512"
    and none: "pview (mem s) r (i # p) = None" and av: "avail s \<noteq> {}"
  shows "\<exists>f s'. get_or_create_table (entry_addr t i) (PTE_WRITABLE OR PTE_USER) s = Ret f s' \<and>
    f \<in> avail s \<and> avail s' = avail s - {f} \<and> pmm_inv s' \<and> cr3 s' = cr3 s \<and>
    (\<forall>q. vpath q \<longrightarrow> length q \<le> 4 \<longrightarrow>
       pview (mem s') r q = (if q = i # p then Some (f, False) else pview (mem s) r q)) \<and>
    (\<forall>u j. page_aligned u \<longrightarrow> unat j < 512 \<longrightarrow> u \<noteq> t \<longrightarrow> u \<notin> avail s \<longrightarrow>
       load64 (mem s') (entry_addr u j) = load64 (mem s) (entry_addr u j))"
proof -
  let ?a = "entry_addr t i"
  obtain f s1 where al: "pmm_alloc s = (f, s1)" and f: "f \<in> avail s" and av1: "avail s1 = avail s - {f}"
    and inv1: "pmm_inv s1"
    using bitmap_pmm.alloc_take [OF as_wfD(1) [OF wf] av] by blast
  have fp: "f \<noteq> NULL" "page_aligned f"
    using bitmap_pmm.frames_page [OF as_wfD(1) [OF wf] f] by (simp_all add: page_aligned_mask)
  have m1: "mem s1 = mem s" "cr3 s1 = cr3 s" using pmm_alloc_vmm [OF al] by simp_all
  have t: "page_aligned t" using pview_aligned [OF as_wfD(2) [OF wf] p(3)] .
  let ?e = "f OR (PTE_WRITABLE OR PTE_USER) OR PTE_PRESENT"
  let ?z = "for_upd 512 0 (\<lambda>i m. store64 m (entry_addr f (of_nat i)) 0) (mem s)"
  let ?m = "store64 ?z ?a ?e"
  have abs: "load64 (mem s) ?a AND PTE_PRESENT = 0" using none p(3) by (simp add: eview_None_bits)
  have "ENTRY_ADDR ?e = f" using eview_new [OF fp(2)] by (simp only: eview_present_bits)
  then have run: "get_or_create_table ?a (PTE_WRITABLE OR PTE_USER) s = Ret f (s1\<lparr>mem := ?m\<rparr>)"
    by (simp only: get_or_create_table_def abs al prod.case fp(1) m1 Let_def byte_memory.ld_st_same
        if_True if_False simp_thms)
  have fresh: "pview (mem s) r q \<noteq> Some (f, False)" if "vpath q" "length q \<le> 3" for q
    using as_wfD(4) [OF wf that] f by blast
  have "pview ?m r q = (if q = i # p then Some (f, False) else pview (mem s) r q)"
    if "vpath q" "length q \<le> 4" for q
  proof (rule pview_new_table [OF _ as_wfD(2) [OF wf] p none fp(2) fresh eview_new [OF fp(2)] that])
    fix q' assume "vpath q'" "length q' \<le> 3" "pview (mem s) r q' = Some (t, False)"
    then show "q' = p" using as_wfD(3) [OF wf, of q' p t] p by simp
  qed
  moreover have "load64 ?m (entry_addr u j) = load64 (mem s) (entry_addr u j)"
    if "page_aligned u" "unat j < 512" "u \<noteq> t" "u \<notin> avail s" for u j
  proof -
    have "u \<noteq> f" using f that(4) by blast
    then show ?thesis
      using that byte_memory.ld_st_entry [OF t p(4) that(1,2)]
        byte_memory.ld_table_loop [OF fp(2) le_refl, of "\<lambda>_ _. 0" u j "mem s"] by simp
  qed
  ultimately show ?thesis using run f av1 inv1 m1(2) by (intro exI [of _ f] exI [of _ "s1\<lparr>mem := ?m\<rparr>"]) simp
qed

text \<open>
  The two cases together. The table returned is the one the entry already named, or
  a frame that was free; no memory changes but the entry's own table and frames that
  were free.
\<close>

lemma goc_ok:
  assumes wf: "as_wf r s" and p: "vpath p" "length p \<le> 2" "pview (mem s) r p = Some (t, False)" "unat i < 512"
    and nh: "\<And>a. pview (mem s) r (i # p) \<noteq> Some (a, True)"
    and av: "pview (mem s) r (i # p) = None \<Longrightarrow> avail s \<noteq> {}"
  shows "\<exists>t' s'. get_or_create_table (entry_addr t i) (PTE_WRITABLE OR PTE_USER) s = Ret t' s' \<and>
    as_wf r s' \<and> cr3 s' = cr3 s \<and>
    (\<forall>q. vpath q \<longrightarrow> length q \<le> 4 \<longrightarrow>
       pview (mem s') r q = (if q = i # p then Some (t', False) else pview (mem s) r q)) \<and>
    (pview (mem s) r (i # p) = Some (t', False) \<and> avail s' = avail s \<or>
     pview (mem s) r (i # p) = None \<and> t' \<in> avail s \<and> avail s' = avail s - {t'}) \<and>
    (\<forall>u j. page_aligned u \<longrightarrow> unat j < 512 \<longrightarrow> u \<noteq> t \<longrightarrow> u \<notin> avail s \<longrightarrow>
       load64 (mem s') (entry_addr u j) = load64 (mem s) (entry_addr u j))"
proof (cases "pview (mem s) r (i # p)")
  case None
  from goc_absent [OF wf p None av [OF None]] obtain f s' where
    g: "get_or_create_table (entry_addr t i) (PTE_WRITABLE OR PTE_USER) s = Ret f s'"
      "f \<in> avail s" "avail s' = avail s - {f}" "pmm_inv s'" "cr3 s' = cr3 s"
      "\<forall>q. vpath q \<longrightarrow> length q \<le> 4 \<longrightarrow>
         pview (mem s') r q = (if q = i # p then Some (f, False) else pview (mem s) r q)"
      "\<forall>u j. page_aligned u \<longrightarrow> unat j < 512 \<longrightarrow> u \<noteq> t \<longrightarrow> u \<notin> avail s \<longrightarrow>
         load64 (mem s') (entry_addr u j) = load64 (mem s) (entry_addr u j)"
    by blast
  have "as_wf r s'"
    by (rule as_wf_upd [OF wf g(4), where p = "i # p" and f = f]) (use g in auto)
  with g None show ?thesis by blast
next
  case (Some a)
  then obtain t' where pr: "pview (mem s) r (i # p) = Some (t', False)"
    using nh by (cases a) (auto simp del: pview.simps)
  from goc_present [OF wf p pr] obtain m' where
    g: "get_or_create_table (entry_addr t i) (PTE_WRITABLE OR PTE_USER) s = Ret t' (s\<lparr>mem := m'\<rparr>)"
      "\<forall>q. vpath q \<longrightarrow> length q \<le> 4 \<longrightarrow> pview m' r q = pview (mem s) r q"
      "\<forall>u j. page_aligned u \<longrightarrow> unat j < 512 \<longrightarrow> u \<noteq> t \<longrightarrow>
         load64 m' (entry_addr u j) = load64 (mem s) (entry_addr u j)"
    by blast
  have ip: "vpath (i # p)" "length (i # p) \<le> 3" using p by (auto simp: vpath_def)
  have "as_wf r (s\<lparr>mem := m'\<rparr>)"
    by (rule as_wf_upd [OF wf, where p = "i # p" and f = t'])
      (use g(2) pr as_wfD(1) [OF wf] as_wfD(4) [OF wf ip pr] in \<open>auto simp del: pview.simps\<close>)
  with g pr show ?thesis
    by (intro exI [of _ t'] exI [of _ "s\<lparr>mem := m'\<rparr>"]) (auto simp del: pview.simps)
qed

end
