(* ===== verification/Vmm_Spaces.thy ===== *)
theory Vmm_Spaces
  imports Vmm
begin

text \<open>
  What the virtual memory manager achieves: the translation of an address read off the
  map of index paths, the effect of \<open>vmm_map\<close>, \<open>vmm_unmap\<close> and \<open>vmm_init\<close> on all
  translations, and how address spaces made by \<open>vmm_create_address_space\<close> share and do
  not share mappings.
\<close>

section \<open>Translation and mapping\<close>

text \<open>The translation read off the map of index paths.\<close>

definition translate ::
    "u64 \<Rightarrow> (u64 \<times> bool) option \<Rightarrow> (u64 \<times> bool) option \<Rightarrow> (u64 \<times> bool) option \<Rightarrow> (u64 \<times> bool) option \<Rightarrow> u64" where
  "translate v w4 w3 w2 w1 =
     (case w4 of None \<Rightarrow> 0 | Some _ \<Rightarrow>
      (case w3 of None \<Rightarrow> 0 | Some (a, h) \<Rightarrow> if h then a + (v AND 0x3FFFFFFF) else
      (case w2 of None \<Rightarrow> 0 | Some (a, h) \<Rightarrow> if h then a + (v AND 0x1FFFFF) else
      (case w1 of None \<Rightarrow> 0 | Some (a, h) \<Rightarrow> a))))"

lemma translate_simps [simp]:
  "translate v None w3 w2 w1 = 0"
  "translate v (Some x) None w2 w1 = 0"
  "translate v (Some x) (Some (a, True)) w2 w1 = a + (v AND 0x3FFFFFFF)"
  "translate v (Some x) (Some (a, False)) None w1 = 0"
  "translate v (Some x) (Some (a, False)) (Some (b, True)) w1 = b + (v AND 0x1FFFFF)"
  "translate v (Some x) (Some (a, False)) (Some (b, False)) None = 0"
  "translate v (Some x) (Some (a, False)) (Some (b, False)) (Some (c, h)) = c"
  by (simp_all add: translate_def)

definition walk :: "memory \<Rightarrow> u64 \<Rightarrow> u64 \<Rightarrow> u64" where
  "walk m r v = translate v (pview m r [PML4_INDEX v]) (pview m r [PDPT_INDEX v, PML4_INDEX v])
     (pview m r [PD_INDEX v, PDPT_INDEX v, PML4_INDEX v]) (pview m r (va_path v))"

lemma get_phys_walk:
  assumes "\<And>a. pview (mem s) (ENTRY_ADDR (cr3 s)) [PML4_INDEX v] \<noteq> Some (a, True)"
  shows "vmm_get_phys v s = walk (mem s) (ENTRY_ADDR (cr3 s)) v"
proof -
  let ?e = "load64 (mem s) (entry_addr (ENTRY_ADDR (cr3 s)) (PML4_INDEX v))"
  have "?e AND PTE_PRESENT \<noteq> 0 \<Longrightarrow> ?e AND PTE_HUGE = 0"
    using assms [of "ENTRY_ADDR ?e"] by (auto simp: eview_def)
  then show ?thesis
    by (auto simp: vmm_get_phys_def walk_def translate_def va_path_def eview_def Let_def)
qed

lemma va_path_vpath [simp]: "vpath (va_path v)" "length (va_path v) = 4"
  by (simp_all add: va_path_def vpath_def)

text \<open>
  \<open>extended r p t s s'\<close>: from \<open>s\<close> to \<open>s'\<close> the entry at path \<open>p\<close> was made to name the
  table \<open>t\<close>, which it named before or which was a free frame; nothing else that is
  reachable from \<open>r\<close> changed, and no memory outside the entry's own table and the
  frames that were free.
\<close>

definition extended :: "u64 \<Rightarrow> u64 list \<Rightarrow> u64 \<Rightarrow> 'a vmm_state_scheme \<Rightarrow> 'a vmm_state_scheme \<Rightarrow> bool" where
  "extended r p t s s' \<longleftrightarrow> as_wf r s' \<and> cr3 s' = cr3 s \<and> avail s' \<subseteq> avail s \<and>
     card (avail s) \<le> card (avail s') + 1 \<and>
     (\<forall>q. vpath q \<longrightarrow> length q \<le> 4 \<longrightarrow>
        pview (mem s') r q = (if q = p then Some (t, False) else pview (mem s) r q)) \<and>
     (pview (mem s) r p = Some (t, False) \<or> pview (mem s) r p = None \<and> t \<in> avail s) \<and>
     (\<forall>u j. page_aligned u \<longrightarrow> unat j < 512 \<longrightarrow> pview (mem s) r (tl p) \<noteq> Some (u, False) \<longrightarrow> u \<notin> avail s \<longrightarrow>
        load64 (mem s') (entry_addr u j) = load64 (mem s) (entry_addr u j))"

lemma extendedD:
  assumes "extended r p t s s'"
  shows "as_wf r s'" "cr3 s' = cr3 s" "avail s' \<subseteq> avail s" "card (avail s) \<le> card (avail s') + 1"
    and "vpath q \<Longrightarrow> length q \<le> 4 \<Longrightarrow>
        pview (mem s') r q = (if q = p then Some (t, False) else pview (mem s) r q)"
    and "pview (mem s) r p = Some (t, False) \<or> pview (mem s) r p = None \<and> t \<in> avail s"
    and "page_aligned u \<Longrightarrow> unat j < 512 \<Longrightarrow> pview (mem s) r (tl p) \<noteq> Some (u, False) \<Longrightarrow> u \<notin> avail s \<Longrightarrow>
        load64 (mem s') (entry_addr u j) = load64 (mem s) (entry_addr u j)"
  using assms unfolding extended_def by blast+

lemma goc_extended:
  assumes wf: "as_wf r s" and p: "vpath p" "length p \<le> 2" "pview (mem s) r p = Some (t, False)" "unat i < 512"
    and nh: "\<And>a. pview (mem s) r (i # p) \<noteq> Some (a, True)" and av: "0 < card (avail s)"
  shows "\<exists>t' s'. get_or_create_table (entry_addr t i) (PTE_WRITABLE OR PTE_USER) s = Ret t' s' \<and>
    extended r (i # p) t' s s'"
proof -
  have "avail s \<noteq> {}" using av by auto
  from goc_ok [OF wf p nh this] obtain t' s' where g:
    "get_or_create_table (entry_addr t i) (PTE_WRITABLE OR PTE_USER) s = Ret t' s'" "as_wf r s'" "cr3 s' = cr3 s"
    "\<forall>q. vpath q \<longrightarrow> length q \<le> 4 \<longrightarrow>
       pview (mem s') r q = (if q = i # p then Some (t', False) else pview (mem s) r q)"
    "pview (mem s) r (i # p) = Some (t', False) \<and> avail s' = avail s \<or>
     pview (mem s) r (i # p) = None \<and> t' \<in> avail s \<and> avail s' = avail s - {t'}"
    "\<forall>u j. page_aligned u \<longrightarrow> unat j < 512 \<longrightarrow> u \<noteq> t \<longrightarrow> u \<notin> avail s \<longrightarrow>
       load64 (mem s') (entry_addr u j) = load64 (mem s) (entry_addr u j)"
    by (elim exE conjE)
  have "avail s' = avail s \<or> avail s' = avail s - {t'}" using g(5) by blast
  moreover have "card (avail s) \<le> card (avail s - {t'}) + 1"
    using bitmap_pmm.frames_finite [OF as_wfD(1) [OF wf]] by (auto simp: card_Diff_singleton_if)
  ultimately have c2: "card (avail s) \<le> card (avail s') + 1"
    by (elim disjE) (simp_all only: add_increasing2 le_add1)
  have c1: "avail s' \<subseteq> avail s" using g(5) by blast
  have d: "pview (mem s) r (i # p) = Some (t', False) \<or> pview (mem s) r (i # p) = None \<and> t' \<in> avail s"
    using g(5) by blast
  have fr: "\<forall>u j. page_aligned u \<longrightarrow> unat j < 512 \<longrightarrow> Some (t, False) \<noteq> Some (u, False) \<longrightarrow> u \<notin> avail s \<longrightarrow>
       load64 (mem s') (entry_addr u j) = load64 (mem s) (entry_addr u j)"
    using g(6) by simp
  have "extended r (i # p) t' s s'"
    unfolding extended_def list.sel p(3) by (intro conjI g(2,3,4) c1 c2 d fr)
  with g(1) show ?thesis by blast
qed

text \<open>The three levels of a mapping, one after the other.\<close>

lemma goc_three:
  assumes wf: "as_wf r s" and idx: "unat i4 < 512" "unat i3 < 512" "unat i2 < 512"
    and nh: "\<And>a. pview (mem s) r [i3, i4] \<noteq> Some (a, True)" "\<And>a. pview (mem s) r [i2, i3, i4] \<noteq> Some (a, True)"
    and av: "3 \<le> card (avail s)"
  shows "\<exists>t3 s1 t2 s2 t1 s3.
    get_or_create_table (entry_addr r i4) (PTE_WRITABLE OR PTE_USER) s = Ret t3 s1 \<and> extended r [i4] t3 s s1 \<and>
    get_or_create_table (entry_addr t3 i3) (PTE_WRITABLE OR PTE_USER) s1 = Ret t2 s2 \<and> extended r [i3, i4] t2 s1 s2 \<and>
    get_or_create_table (entry_addr t2 i2) (PTE_WRITABLE OR PTE_USER) s2 = Ret t1 s3 \<and> extended r [i2, i3, i4] t1 s2 s3"
proof -
  have vp: "vpath [i4]" "vpath [i3, i4]" "vpath [i2, i3, i4]" using idx by (simp_all add: vpath_def)
  have "0 < card (avail s)" using av by simp
  from goc_extended [OF wf _ _ pview.simps(1) idx(1) as_wfD(5) [OF wf idx(1)] this]
  obtain t3 s1 where 1: "get_or_create_table (entry_addr r i4) (PTE_WRITABLE OR PTE_USER) s = Ret t3 s1"
      "extended r [i4] t3 s s1" by (auto simp: vpath_def)
  have "pview (mem s1) r [i4] = Some (t3, False)" "\<And>a. pview (mem s1) r [i3, i4] \<noteq> Some (a, True)"
    "0 < card (avail s1)"
    using extendedD(5) [OF 1(2) vp(1)] extendedD(5) [OF 1(2) vp(2)] nh(1) extendedD(4) [OF 1(2)] av
    by (simp_all del: pview.simps(2))
  from goc_extended [OF extendedD(1) [OF 1(2)] vp(1) _ this(1) idx(2) this(2,3)]
  obtain t2 s2 where 2: "get_or_create_table (entry_addr t3 i3) (PTE_WRITABLE OR PTE_USER) s1 = Ret t2 s2"
      "extended r [i3, i4] t2 s1 s2" by auto
  have "pview (mem s2) r [i3, i4] = Some (t2, False)" "\<And>a. pview (mem s2) r [i2, i3, i4] \<noteq> Some (a, True)"
    "0 < card (avail s2)"
    using extendedD(5) [OF 2(2) vp(2)] extendedD(5) [OF 2(2) vp(3)] extendedD(5) [OF 1(2) vp(3)] nh(2)
      extendedD(4) [OF 1(2)] extendedD(4) [OF 2(2)] av by (simp_all del: pview.simps(2))
  from goc_extended [OF extendedD(1) [OF 2(2)] vp(2) _ this(1) idx(3) this(2,3)] 1 2 show ?thesis by auto
qed

text \<open>
  The effect of \<open>vmm_map\<close> on the address space: the entry at the address's own path
  becomes the new leaf, the three entries above it name tables, the rest is unchanged.
\<close>

definition mapped :: "u64 \<Rightarrow> u64 \<Rightarrow> u64 \<Rightarrow> u64 \<Rightarrow> u64 \<Rightarrow> u64 \<Rightarrow> 'a vmm_state_scheme \<Rightarrow> 'a vmm_state_scheme \<Rightarrow> bool" where
  "mapped r v e t3 t2 t1 s s' \<longleftrightarrow>
     (let q1 = [PML4_INDEX v]; q2 = PDPT_INDEX v # q1; q3 = PD_INDEX v # q2 in
     (\<forall>q. vpath q \<longrightarrow> length q \<le> 4 \<longrightarrow> pview (mem s') r q =
       (if q = va_path v then eview e
        else if q = q3 then Some (t1, False) else if q = q2 then Some (t2, False)
        else if q = q1 then Some (t3, False) else pview (mem s) r q)) \<and>
     (pview (mem s) r q1 = Some (t3, False) \<or> pview (mem s) r q1 = None \<and> t3 \<in> avail s) \<and>
     (pview (mem s) r q2 = Some (t2, False) \<or> pview (mem s) r q2 = None \<and> t2 \<in> avail s) \<and>
     (pview (mem s) r q3 = Some (t1, False) \<or> pview (mem s) r q3 = None \<and> t1 \<in> avail s))"

definition untouched :: "u64 set \<Rightarrow> 'a vmm_state_scheme \<Rightarrow> 'a vmm_state_scheme \<Rightarrow> bool" where
  "untouched T s s' \<longleftrightarrow> (\<forall>u j. page_aligned u \<longrightarrow> unat j < 512 \<longrightarrow> u \<notin> T \<longrightarrow> u \<notin> avail s \<longrightarrow>
     load64 (mem s') (entry_addr u j) = load64 (mem s) (entry_addr u j))"

lemma extended_untouched:
  "extended r p t s s' \<Longrightarrow> pview (mem s) r (tl p) = Some (u, False) \<Longrightarrow> untouched {u} s s'"
  unfolding untouched_def using extendedD(7) [of r p t s s'] by simp

lemma untouchedD:
  "untouched T s s' \<Longrightarrow> page_aligned u \<Longrightarrow> unat j < 512 \<Longrightarrow> u \<notin> T \<Longrightarrow> u \<notin> avail s \<Longrightarrow>
   load64 (mem s') (entry_addr u j) = load64 (mem s) (entry_addr u j)"
  unfolding untouched_def by blast

lemma untouched_trans:
  assumes "untouched T s s1" and "untouched U s1 s2" and "avail s1 \<subseteq> avail s"
  shows "untouched (T \<union> U) s s2"
  unfolding untouched_def
proof (intro allI impI)
  fix u j assume u: "page_aligned u" "unat (j::u64) < 512" "u \<notin> T \<union> U" "u \<notin> avail s"
  then have "u \<notin> avail s1" "u \<notin> T" "u \<notin> U" using assms(3) by auto
  with untouchedD [OF assms(1) u(1,2)] untouchedD [OF assms(2) u(1,2)] u(4)
  show "load64 (mem s2) (entry_addr u j) = load64 (mem s) (entry_addr u j)" by simp
qed

lemma goc_three_mapped:
  fixes v :: u64
  defines "q1 \<equiv> [PML4_INDEX v]" and "q2 \<equiv> [PDPT_INDEX v, PML4_INDEX v]"
    and "q3 \<equiv> [PD_INDEX v, PDPT_INDEX v, PML4_INDEX v]"
  assumes x1: "extended r q1 t3 s s1" and x2: "extended r q2 t2 s1 s2" and x3: "extended r q3 t1 s2 s3"
  shows "as_wf r s3" "cr3 s3 = cr3 s" "avail s3 \<subseteq> avail s" "card (avail s) \<le> card (avail s3) + 3"
    and "\<And>q. vpath q \<Longrightarrow> length q \<le> 4 \<Longrightarrow> pview (mem s3) r q =
      (if q = q3 then Some (t1, False) else if q = q2 then Some (t2, False)
       else if q = q1 then Some (t3, False) else pview (mem s) r q)"
    and "pview (mem s) r q1 = Some (t3, False) \<or> pview (mem s) r q1 = None \<and> t3 \<in> avail s"
    and "pview (mem s) r q2 = Some (t2, False) \<or> pview (mem s) r q2 = None \<and> t2 \<in> avail s"
    and "pview (mem s) r q3 = Some (t1, False) \<or> pview (mem s) r q3 = None \<and> t1 \<in> avail s"
    and "untouched {r, t3, t2} s s3"
proof -
  have vq: "vpath q1" "vpath q2" "vpath q3" and lq: "length q1 \<le> 4" "length q2 \<le> 4" "length q3 \<le> 4"
    by (simp_all add: q1_def q2_def q3_def vpath_def)
  have n: "q1 \<noteq> q2" "q1 \<noteq> q3" "q2 \<noteq> q3" "q2 \<noteq> q1" "q3 \<noteq> q1" "q3 \<noteq> q2" "tl q1 = []" "tl q2 = q1" "tl q3 = q2"
    by (auto simp: q1_def q2_def q3_def)
  note v1 = extendedD(5) [OF x1] and v2 = extendedD(5) [OF x2] and v3 = extendedD(5) [OF x3]
  show "as_wf r s3" by (rule extendedD(1) [OF x3])
  show "cr3 s3 = cr3 s" using extendedD(2) [OF x1] extendedD(2) [OF x2] extendedD(2) [OF x3] by simp
  show av: "avail s3 \<subseteq> avail s" using extendedD(3) [OF x1] extendedD(3) [OF x2] extendedD(3) [OF x3] by blast
  show "card (avail s) \<le> card (avail s3) + 3"
    using extendedD(4) [OF x1] extendedD(4) [OF x2] extendedD(4) [OF x3] by simp
  show "pview (mem s3) r q = (if q = q3 then Some (t1, False) else if q = q2 then Some (t2, False)
       else if q = q1 then Some (t3, False) else pview (mem s) r q)" if "vpath q" "length q \<le> 4" for q
    using v1 [OF that] v2 [OF that] v3 [OF that] by simp
  show "pview (mem s) r q1 = Some (t3, False) \<or> pview (mem s) r q1 = None \<and> t3 \<in> avail s"
    by (rule extendedD(6) [OF x1])
  show "pview (mem s) r q2 = Some (t2, False) \<or> pview (mem s) r q2 = None \<and> t2 \<in> avail s"
    using extendedD(6) [OF x2] extendedD(3) [OF x1] v1 [OF vq(2) lq(2)] n by auto
  show "pview (mem s) r q3 = Some (t1, False) \<or> pview (mem s) r q3 = None \<and> t1 \<in> avail s"
    using extendedD(6) [OF x3] extendedD(3) [OF x1] extendedD(3) [OF x2] v1 [OF vq(3) lq(3)] v2 [OF vq(3) lq(3)] n
    by auto
  have "untouched {r} s s1" "untouched {t3} s1 s2" "untouched {t2} s2 s3"
    using extended_untouched [OF x1] extended_untouched [OF x2] extended_untouched [OF x3] n
      v1 [OF vq(1) lq(1)] v2 [OF vq(2) lq(2)] by auto
  from untouched_trans [OF untouched_trans [OF this(1,2)] this(3)] extendedD(3) [OF x1] extendedD(3) [OF x2]
  show "untouched {r, t3, t2} s s3" by (simp add: insert_commute)
qed

lemma map_effect:
  assumes wf: "as_wf r s" and r: "r = ENTRY_ADDR (cr3 s)"
    and nh: "\<And>a. pview (mem s) r [PDPT_INDEX v, PML4_INDEX v] \<noteq> Some (a, True)"
      "\<And>a. pview (mem s) r [PD_INDEX v, PDPT_INDEX v, PML4_INDEX v] \<noteq> Some (a, True)"
    and av: "3 \<le> card (avail s)"
  shows "\<exists>s' t3 t2 t1. vmm_map v ph fl s = Ret () s' \<and> as_wf r s' \<and> cr3 s' = cr3 s \<and>
    avail s' \<subseteq> avail s \<and> card (avail s) \<le> card (avail s') + 3 \<and>
    mapped r v (ph OR fl OR PTE_PRESENT) t3 t2 t1 s s' \<and> untouched {r, t3, t2, t1} s s'"
proof -
  let ?e = "ph OR fl OR PTE_PRESENT" and ?q3 = "[PD_INDEX v, PDPT_INDEX v, PML4_INDEX v]"
  from goc_three [OF wf index_bounds(1-3) nh av] obtain t3 s1 t2 s2 t1 s3 where
    g: "get_or_create_table (entry_addr r (PML4_INDEX v)) (PTE_WRITABLE OR PTE_USER) s = Ret t3 s1"
      "get_or_create_table (entry_addr t3 (PDPT_INDEX v)) (PTE_WRITABLE OR PTE_USER) s1 = Ret t2 s2"
      "get_or_create_table (entry_addr t2 (PD_INDEX v)) (PTE_WRITABLE OR PTE_USER) s2 = Ret t1 s3"
    and x: "extended r [PML4_INDEX v] t3 s s1" "extended r [PDPT_INDEX v, PML4_INDEX v] t2 s1 s2"
      "extended r ?q3 t1 s2 s3" by (elim exE conjE)
  note c = goc_three_mapped [OF x]
  have q3: "vpath ?q3" "length ?q3 = 3" by (simp_all add: vpath_def)
  then have p3: "pview (mem s3) r ?q3 = Some (t1, False)" using c(5) [OF q3(1)] by simp
  let ?s = "s3\<lparr>mem := store64 (mem s3) (entry_addr t1 (PT_INDEX v)) ?e\<rparr>"
  have run: "vmm_map v ph fl s = Ret () ?s"
    by (simp only: vmm_map_def Let_def r [symmetric] g obind.simps)
  have leaf: "pview (mem ?s) r q = (if q = va_path v then eview ?e else pview (mem s3) r q)"
    if "vpath q" "length q \<le> 4" for q
  proof -
    have "q' = ?q3" if "vpath q'" "length q' \<le> 3" "pview (mem s3) r q' = Some (t1, False)" for q'
      using as_wfD(3) [OF c(1) that(1) q3(1) that(2) _ that(3) p3] by simp
    from pview_store_entry [OF this as_wfD(2) [OF wf] q3(1) _ p3 index_bounds(4) _ that, of ?e] show ?thesis
      by (simp only: q3 va_path_def vmm_state.simps) simp
  qed
  have wf': "as_wf r ?s"
  proof (rule as_wf_upd [OF c(1), where p = "[]" and f = r])
    fix q assume q: "vpath q" "length q \<le> 3"
    then have "q \<noteq> va_path v" "length q \<le> 4" by (auto simp: va_path_def)
    then show "pview (mem ?s) r q = (if q = [] then Some (r, False) else pview (mem s3) r q)"
      using leaf [OF q(1)] by (simp only: if_False split: if_split) simp
  qed (use as_wfD(1) [OF c(1)] as_wfD(4) [OF c(1), of "[]" r] in \<open>simp_all add: vpath_def\<close>)
  have "mapped r v ?e t3 t2 t1 s ?s"
    unfolding mapped_def Let_def using leaf c(5-8) by simp
  moreover have "untouched {t1} s3 ?s"
    using byte_memory.ld_st_entry [OF pview_aligned [OF as_wfD(2) [OF wf] p3] index_bounds(4)]
    by (simp add: untouched_def)
  from untouched_trans [OF c(9) this c(3)] have "untouched {r, t3, t2, t1} s ?s" by (simp add: insert_commute)
  ultimately show ?thesis using run wf' c(2-4) by (intro exI conjI) simp_all
qed

lemma mappedD:
  assumes "mapped r v e t3 t2 t1 s s'"
  shows "vpath q \<Longrightarrow> length q \<le> 4 \<Longrightarrow> pview (mem s') r q =
       (if q = va_path v then eview e
        else if q = [PD_INDEX v, PDPT_INDEX v, PML4_INDEX v] then Some (t1, False)
        else if q = [PDPT_INDEX v, PML4_INDEX v] then Some (t2, False)
        else if q = [PML4_INDEX v] then Some (t3, False) else pview (mem s) r q)"
    and "pview (mem s) r [PML4_INDEX v] = Some (t3, False) \<or> pview (mem s) r [PML4_INDEX v] = None"
    and "pview (mem s) r [PDPT_INDEX v, PML4_INDEX v] = Some (t2, False) \<or>
      pview (mem s) r [PDPT_INDEX v, PML4_INDEX v] = None"
    and "pview (mem s) r [PD_INDEX v, PDPT_INDEX v, PML4_INDEX v] = Some (t1, False) \<or>
      pview (mem s) r [PD_INDEX v, PDPT_INDEX v, PML4_INDEX v] = None"
  proof -
  note m = assms [unfolded mapped_def Let_def]
  show "vpath q \<Longrightarrow> length q \<le> 4 \<Longrightarrow> pview (mem s') r q =
       (if q = va_path v then eview e
        else if q = [PD_INDEX v, PDPT_INDEX v, PML4_INDEX v] then Some (t1, False)
        else if q = [PDPT_INDEX v, PML4_INDEX v] then Some (t2, False)
        else if q = [PML4_INDEX v] then Some (t3, False) else pview (mem s) r q)"
    using m by (simp only: simp_thms)
  show "pview (mem s) r [PML4_INDEX v] = Some (t3, False) \<or> pview (mem s) r [PML4_INDEX v] = None"
    using m by argo
  show "pview (mem s) r [PDPT_INDEX v, PML4_INDEX v] = Some (t2, False) \<or>
      pview (mem s) r [PDPT_INDEX v, PML4_INDEX v] = None" using m by argo
  show "pview (mem s) r [PD_INDEX v, PDPT_INDEX v, PML4_INDEX v] = Some (t1, False) \<or>
      pview (mem s) r [PD_INDEX v, PDPT_INDEX v, PML4_INDEX v] = None" using m by argo
qed

lemma walk_mapped:
  assumes m: "mapped r v e t3 t2 t1 s s'" and e: "e AND PTE_PRESENT \<noteq> 0"
  shows "walk (mem s') r v' = (if va_path v' = va_path v then ENTRY_ADDR e else walk (mem s) r v')"
proof -
  let ?p1 = "[PML4_INDEX v']" and ?p2 = "[PDPT_INDEX v', PML4_INDEX v']"
    and ?p3 = "[PD_INDEX v', PDPT_INDEX v', PML4_INDEX v']"
  have vp: "vpath ?p1" "vpath ?p2" "vpath ?p3" by (simp_all add: vpath_def)
  note n = mappedD(1) [OF m vp(1)] mappedD(1) [OF m vp(2)] mappedD(1) [OF m vp(3)]
    mappedD(1) [OF m va_path_vpath(1) [of v']]
  have none: "pview (mem s) r ?p1 = None \<Longrightarrow> pview (mem s) r ?p2 = None"
    "pview (mem s) r ?p2 = None \<Longrightarrow> pview (mem s) r ?p3 = None"
    "pview (mem s) r ?p3 = None \<Longrightarrow> pview (mem s) r (va_path v') = None"
    unfolding va_path_def by (rule pview_tail, assumption)+
  have ev: "eview e = Some (ENTRY_ADDR e, e AND PTE_HUGE \<noteq> 0)" using e by (simp add: eview_def)
  consider (d4) "PML4_INDEX v' \<noteq> PML4_INDEX v"
    | (d3) "PML4_INDEX v' = PML4_INDEX v" "PDPT_INDEX v' \<noteq> PDPT_INDEX v"
    | (d2) "PML4_INDEX v' = PML4_INDEX v" "PDPT_INDEX v' = PDPT_INDEX v" "PD_INDEX v' \<noteq> PD_INDEX v"
    | (d1) "PML4_INDEX v' = PML4_INDEX v" "PDPT_INDEX v' = PDPT_INDEX v" "PD_INDEX v' = PD_INDEX v"
    by blast
  then show ?thesis
  proof cases
    case d4
    then show ?thesis
      using n by (simp add: walk_def va_path_def del: pview.simps(2))
  next
    case d3
    with n have "pview (mem s') r ?p1 = Some (t3, False)" "pview (mem s') r ?p2 = pview (mem s) r ?p2"
      "pview (mem s') r ?p3 = pview (mem s) r ?p3" "pview (mem s') r (va_path v') = pview (mem s) r (va_path v')"
      by (simp_all add: va_path_def del: pview.simps(2))
    with d3 none(1) mappedD(2) [OF m] show ?thesis
      by (cases "pview (mem s) r ?p1") (simp_all add: walk_def va_path_def del: pview.simps(2))
  next
    case d2
    with n have "pview (mem s') r ?p1 = Some (t3, False)" "pview (mem s') r ?p2 = Some (t2, False)"
      "pview (mem s') r ?p3 = pview (mem s) r ?p3" "pview (mem s') r (va_path v') = pview (mem s) r (va_path v')"
      by (simp_all add: va_path_def del: pview.simps(2))
    with d2 none(1,2) mappedD(2,3) [OF m] show ?thesis
      by (cases "pview (mem s) r ?p1"; cases "pview (mem s) r ?p2")
        (simp_all add: walk_def va_path_def del: pview.simps(2))
  next
    case d1
    have "pview (mem s') r ?p1 = Some (t3, False)" "pview (mem s') r ?p2 = Some (t2, False)"
      "pview (mem s') r ?p3 = Some (t1, False)"
      "pview (mem s') r (va_path v') = (if va_path v' = va_path v then eview e else pview (mem s) r (va_path v'))"
      using n d1 by (simp_all add: va_path_def del: pview.simps(2))
    with d1 none mappedD(2-4) [OF m] ev show ?thesis
      by (cases "pview (mem s) r ?p1"; cases "pview (mem s) r ?p2"; cases "pview (mem s) r ?p3")
        (simp_all add: walk_def del: pview.simps(2))
  qed
qed

lemma index_field: "bit (drop_bit k v AND 0x1FF :: u64) n \<longleftrightarrow> n < 9 \<and> bit v (k + n)"
proof -
  have "(0x1FF :: u64) = mask 9" by (simp add: mask_eq_exp_minus_1)
  show ?thesis unfolding \<open>0x1FF = mask 9\<close> by (auto simp: bit_and_iff bit_mask_iff bit_drop_bit_eq)
qed

lemma index_eq_iff:
  "drop_bit k v AND 0x1FF = drop_bit k v' AND (0x1FF :: u64) \<longleftrightarrow> (\<forall>n. k \<le> n \<longrightarrow> n < k + 9 \<longrightarrow> bit v n = bit v' n)"
    (is "?a = ?b \<longleftrightarrow> ?P")
proof
  assume e: "?a = ?b"
  show ?P
  proof (intro allI impI)
    fix n assume "k \<le> n" "n < k + 9"
    moreover have "bit ?a (n - k) = bit ?b (n - k)" using e by simp
    ultimately show "bit v n = bit v' n" unfolding index_field by auto
  qed
next
  assume ?P
  then show "?a = ?b" by (intro bit_word_eqI) (auto simp: index_field)
qed

text \<open>Two addresses have the same index path exactly when they lie in the same page (of the low 48 bits).\<close>

lemma va_path_eq_iff: "va_path v = va_path v' \<longleftrightarrow> v AND 0xFFFFFFFFF000 = v' AND 0xFFFFFFFFF000"
proof -
  have mk: "(0xFFFFFFFFF000 :: u64) = mask 48 AND NOT (mask 12)" by (simp add: mask_eq_exp_minus_1)
  have m: "bit (0xFFFFFFFFF000 :: u64) n \<longleftrightarrow> 12 \<le> n \<and> n < 48" for n
    unfolding mk by (auto simp: bit_and_iff bit_mask_iff bit_not_iff)
  have fields: "(\<forall>n. 12 \<le> n \<longrightarrow> n < 48 \<longrightarrow> P n) \<longleftrightarrow> (\<forall>n. 12 \<le> n \<longrightarrow> n < 21 \<longrightarrow> P n) \<and> (\<forall>n. 21 \<le> n \<longrightarrow> n < 30 \<longrightarrow> P n) \<and>
      (\<forall>n. 30 \<le> n \<longrightarrow> n < 39 \<longrightarrow> P n) \<and> (\<forall>n. 39 \<le> n \<longrightarrow> n < 48 \<longrightarrow> P n)" for P :: "nat \<Rightarrow> bool"
  proof -
    have "12 \<le> n \<and> n < 48 \<longleftrightarrow> 12 \<le> n \<and> n < 21 \<or> 21 \<le> n \<and> n < 30 \<or> 30 \<le> n \<and> n < 39 \<or> 39 \<le> n \<and> n < 48"
      for n :: nat by arith
    then show ?thesis by blast
  qed
  have m2: "v AND 0xFFFFFFFFF000 = v' AND 0xFFFFFFFFF000 \<longleftrightarrow> (\<forall>n. 12 \<le> n \<longrightarrow> n < 48 \<longrightarrow> bit v n = bit v' n)"
    
  proof -
    have "n < 48 \<Longrightarrow> possible_bit TYPE(64 word) n" for n by simp
    then show ?thesis unfolding bit_eq_iff bit_and_iff m by blast
  qed
  also have "\<dots> \<longleftrightarrow> va_path v = va_path v'"
    unfolding va_path_def PML4_INDEX_def PDPT_INDEX_def PD_INDEX_def PT_INDEX_def list.inject index_eq_iff
    by (simp add: fields)
  finally show ?thesis by simp
qed

text \<open>No large page covers the address, so that its table can be reached.\<close>

definition no_huge :: "u64 \<Rightarrow> u64 \<Rightarrow> memory \<Rightarrow> bool" where
  "no_huge r v m \<longleftrightarrow> (\<forall>a. pview m r [PDPT_INDEX v, PML4_INDEX v] \<noteq> Some (a, True)) \<and>
     (\<forall>a. pview m r [PD_INDEX v, PDPT_INDEX v, PML4_INDEX v] \<noteq> Some (a, True))"

lemma no_hugeD:
  assumes "no_huge r v m"
  shows "pview m r [PDPT_INDEX v, PML4_INDEX v] \<noteq> Some (a, True)"
    and "pview m r [PD_INDEX v, PDPT_INDEX v, PML4_INDEX v] \<noteq> Some (a, True)"
  using assms [unfolded no_huge_def, THEN conjunct1, THEN spec, of a]
    assms [unfolded no_huge_def, THEN conjunct2, THEN spec, of a] by (simp_all only: not_False_eq_True)

lemma as_wf_get_phys:
  "as_wf (ENTRY_ADDR (cr3 s)) s \<Longrightarrow> vmm_get_phys v s = walk (mem s) (ENTRY_ADDR (cr3 s)) v"
  by (rule get_phys_walk) (rule as_wfD(5), assumption, rule index_bounds)

lemma pte_present_or: "(x OR PTE_PRESENT) AND PTE_PRESENT \<noteq> (0::u64)"
  by (simp add: bit.conj_disj_distrib2)

lemma ENTRY_ADDR_pte:
  assumes "page_aligned ph" and "fl AND NOT 0xFFF = 0"
  shows "ENTRY_ADDR (ph OR fl OR PTE_PRESENT) = ph"
  by (rule ENTRY_ADDR_or [OF assms(1)]) (use assms(2) in \<open>simp add: bit.conj_disj_distrib2\<close>)

lemma map_translates:
  assumes "as_wf (ENTRY_ADDR (cr3 s)) s" and "no_huge (ENTRY_ADDR (cr3 s)) v (mem s)"
    and "3 \<le> unat (pmm_free_frames s)" and "page_aligned ph" and "fl AND NOT 0xFFF = 0"
  shows "\<exists>s'. vmm_map v ph fl s = Ret () s' \<and> as_wf (ENTRY_ADDR (cr3 s)) s' \<and> cr3 s' = cr3 s \<and>
    (\<forall>v'. vmm_get_phys v' s' = (if va_path v' = va_path v then ph else vmm_get_phys v' s))"
proof -
  let ?r = "ENTRY_ADDR (cr3 s)"
  have av: "3 \<le> card (avail s)"
    using assms(3) as_wfD(1) [OF assms(1)] by (simp add: card_avail pmm_inv_def pmm_free_frames_def)
  have "\<And>a. pview (mem s) ?r [PDPT_INDEX v, PML4_INDEX v] \<noteq> Some (a, True)"
    "\<And>a. pview (mem s) ?r [PD_INDEX v, PDPT_INDEX v, PML4_INDEX v] \<noteq> Some (a, True)"
    using no_hugeD [OF assms(2)] by (simp_all only: not_False_eq_True)
  from map_effect [OF assms(1) refl this av, where ph = ph and fl = fl] obtain s' t3 t2 t1 where
    s': "vmm_map v ph fl s = Ret () s'" "as_wf ?r s'" "cr3 s' = cr3 s"
      "mapped ?r v (ph OR fl OR PTE_PRESENT) t3 t2 t1 s s'" by metis
  have "vmm_get_phys v' s' = (if va_path v' = va_path v then ph else vmm_get_phys v' s)" for v'
  proof -
    have "(ph OR fl OR PTE_PRESENT) AND PTE_PRESENT \<noteq> 0" 
      unfolding or.assoc [symmetric] by (rule pte_present_or)
    from walk_mapped [OF s'(4) this, of v'] show ?thesis
      using as_wf_get_phys [of s' v'] as_wf_get_phys [OF assms(1), of v'] s'(2,3)
      by (simp only: ENTRY_ADDR_pte [OF assms(4,5)])
  qed
  with s' show ?thesis by blast
qed

lemma translate_absent:
  assumes "\<And>a. w3 \<noteq> Some (a, True)" and "\<And>a. w2 \<noteq> Some (a, True)"
  shows "translate v w4 w3 w2 None = 0"
  using assms by (auto simp: translate_def split: option.splits)

lemma unmap_table:
  assumes wf: "as_wf (ENTRY_ADDR (cr3 s)) s" and nh: "no_huge (ENTRY_ADDR (cr3 s)) v (mem s)"
  shows "vmm_unmap v s = (case pview (mem s) (ENTRY_ADDR (cr3 s)) [PD_INDEX v, PDPT_INDEX v, PML4_INDEX v] of
      None \<Rightarrow> s | Some (t, _) \<Rightarrow> s\<lparr>mem := store64 (mem s) (entry_addr t (PT_INDEX v)) 0\<rparr>)"
proof -
  let ?r = "ENTRY_ADDR (cr3 s)"
  let ?e = "load64 (mem s) (entry_addr ?r (PML4_INDEX v))"
  have "?e AND PTE_PRESENT \<noteq> 0 \<Longrightarrow> ?e AND PTE_HUGE = 0"
    using as_wfD(5) [OF wf index_bounds(1), of v "ENTRY_ADDR ?e"] by (auto simp: eview_def)
  then show ?thesis
    using nh unfolding no_huge_def
    by (auto simp: vmm_unmap_def eview_def Let_def)
qed

lemma unmap_translates:
  assumes wf: "as_wf (ENTRY_ADDR (cr3 s)) s" and nh: "no_huge (ENTRY_ADDR (cr3 s)) v (mem s)"
  shows "as_wf (ENTRY_ADDR (cr3 s)) (vmm_unmap v s)" and "cr3 (vmm_unmap v s) = cr3 s"
    and "vmm_get_phys v' (vmm_unmap v s) = (if va_path v' = va_path v then 0 else vmm_get_phys v' s)"
proof -
  let ?r = "ENTRY_ADDR (cr3 s)" and ?q3 = "[PD_INDEX v, PDPT_INDEX v, PML4_INDEX v]"
  have q3: "vpath ?q3" "length ?q3 = 3" by (simp_all add: vpath_def)
  have "as_wf ?r (vmm_unmap v s) \<and> cr3 (vmm_unmap v s) = cr3 s \<and>
    walk (mem (vmm_unmap v s)) ?r v' = (if va_path v' = va_path v then 0 else walk (mem s) ?r v')"
  proof (cases "pview (mem s) ?r ?q3")
    case None
    have "vmm_unmap v s = s" unfolding unmap_table [OF wf nh] None by simp
    moreover have "walk (mem s) ?r v' = 0" if "va_path v' = va_path v"
    proof -
      have "pview (mem s) ?r (va_path v) = None" unfolding va_path_def by (rule pview_tail [OF None])
      moreover have "[PDPT_INDEX v', PML4_INDEX v'] = [PDPT_INDEX v, PML4_INDEX v]"
        "[PD_INDEX v', PDPT_INDEX v', PML4_INDEX v'] = ?q3" using that by (simp_all add: va_path_def)
      ultimately show ?thesis
        unfolding walk_def that by (simp only: translate_absent no_hugeD [OF nh] not_False_eq_True)
    qed
    ultimately show ?thesis using wf by simp
  next
    case (Some x)
    then obtain t where p3: "pview (mem s) ?r ?q3 = Some (t, False)"
      using no_hugeD(2) [OF nh] by (cases x) (auto simp del: pview.simps)
    let ?s = "s\<lparr>mem := store64 (mem s) (entry_addr t (PT_INDEX v)) 0\<rparr>"
    have run: "vmm_unmap v s = ?s" unfolding unmap_table [OF wf nh] p3 by simp
    have leaf: "pview (mem ?s) ?r q = (if q = va_path v then None else pview (mem s) ?r q)"
      if "vpath q" "length q \<le> 4" for q
    proof -
      have "q' = ?q3" if "vpath q'" "length q' \<le> 3" "pview (mem s) ?r q' = Some (t, False)" for q'
        using as_wfD(3) [OF wf that(1) q3(1) that(2) _ that(3) p3] by simp
      from pview_store_entry [OF this as_wfD(2) [OF wf] q3(1) _ p3 index_bounds(4) _ that, of 0] show ?thesis
        by (simp only: q3 va_path_def vmm_state.simps) (simp add: eview_def)
    qed
    have "as_wf ?r ?s"
    proof (rule as_wf_upd [OF wf, where p = "[]" and f = ?r])
      fix q assume q: "vpath q" "length q \<le> 3"
      then have "q \<noteq> va_path v" "length q \<le> 4" by (auto simp: va_path_def)
      then show "pview (mem ?s) ?r q = (if q = [] then Some (?r, False) else pview (mem s) ?r q)"
        using leaf [OF q(1)] by (simp only: if_False split: if_split) simp
    qed (use as_wfD(1) [OF wf] as_wfD(4) [OF wf, of "[]" ?r] in \<open>simp_all add: vpath_def\<close>)
    moreover have "walk (mem ?s) ?r v' = (if va_path v' = va_path v then 0 else walk (mem s) ?r v')"
    proof -
      have u: "pview (mem ?s) ?r q = pview (mem s) ?r q" if "vpath q" "length q \<le> 3" for q
        using leaf [OF that(1)] that(2) by (auto simp: va_path_def)
      have vp: "vpath [PML4_INDEX v']" "vpath [PDPT_INDEX v', PML4_INDEX v']"
        "vpath [PD_INDEX v', PDPT_INDEX v', PML4_INDEX v']" by (simp_all add: vpath_def)
      have nh': "pview (mem s) ?r [PDPT_INDEX v', PML4_INDEX v'] \<noteq> Some (a, True)"
        "pview (mem s) ?r [PD_INDEX v', PDPT_INDEX v', PML4_INDEX v'] \<noteq> Some (a, True)"
        if "va_path v' = va_path v" for a
        using no_hugeD [OF nh, of a] that by (simp_all add: va_path_def del: pview.simps)
      have l: "length [PML4_INDEX v'] \<le> 3" "length [PDPT_INDEX v', PML4_INDEX v'] \<le> 3"
        "length [PD_INDEX v', PDPT_INDEX v', PML4_INDEX v'] \<le> 3" "length (va_path v') \<le> 4" by simp_all
      show ?thesis
        unfolding walk_def u [OF vp(1) l(1)] u [OF vp(2) l(2)] u [OF vp(3) l(3)]
          leaf [OF va_path_vpath(1) l(4)]
        by (cases "va_path v' = va_path v") (simp_all only: simp_thms if_True if_False translate_absent nh')
    qed
    ultimately show ?thesis unfolding run by simp
  qed
  then have w: "as_wf ?r (vmm_unmap v s)" "cr3 (vmm_unmap v s) = cr3 s"
    "walk (mem (vmm_unmap v s)) ?r v' = (if va_path v' = va_path v then 0 else walk (mem s) ?r v')" by simp_all
  show "as_wf ?r (vmm_unmap v s)" "cr3 (vmm_unmap v s) = cr3 s" by (rule w)+
  show "vmm_get_phys v' (vmm_unmap v s) = (if va_path v' = va_path v then 0 else vmm_get_phys v' s)"
    using as_wf_get_phys [of "vmm_unmap v s" v'] as_wf_get_phys [OF wf, of v'] w by (simp only:)
qed

lemma console_only_vmm:
  "console_only s t \<Longrightarrow> mem t = mem s" "console_only s t \<Longrightarrow> cr3 t = cr3 s"
  "console_only s t \<Longrightarrow> avail t = avail s" "console_only s t \<Longrightarrow> pmm_inv t = pmm_inv s"
  by (auto simp: console_only_def avail_def free_set_def bitmap_test_def pmm_inv_def)

section \<open>The identity map of the first gigabyte\<close>

text \<open>The loop of \<open>vmm_init\<close> fills the absent entries of the page directory and keeps the others.\<close>

definition init_entry :: "nat \<Rightarrow> u64 \<Rightarrow> u64" where
  "init_entry k e = (if e AND PTE_PRESENT = 0
     then push_bit 21 (of_nat k) OR PTE_PRESENT OR PTE_WRITABLE OR PTE_HUGE else e)"

lemma init_loop:
  assumes "page_aligned pd" "page_aligned t" "unat i < 512"
  shows "load64 (for_upd 512 0
     (\<lambda>i m. if load64 m (entry_addr pd (of_nat i)) AND PTE_PRESENT = 0
            then store64 m (entry_addr pd (of_nat i))
                   (push_bit 21 (of_nat i) OR PTE_PRESENT OR PTE_WRITABLE OR PTE_HUGE)
            else m) m) (entry_addr t i) =
    (if t = pd then init_entry (unat i) (load64 m (entry_addr pd i)) else load64 m (entry_addr t i))"
proof -
  let ?f = "\<lambda>i m. if load64 m (entry_addr pd (of_nat i)) AND PTE_PRESENT = 0
            then store64 m (entry_addr pd (of_nat i))
                   (push_bit 21 (of_nat i) OR PTE_PRESENT OR PTE_WRITABLE OR PTE_HUGE)
            else m"
  let ?P = "\<lambda>k m'. \<forall>u j. page_aligned u \<longrightarrow> unat j < 512 \<longrightarrow> load64 m' (entry_addr u j) =
    (if u = pd \<and> unat j < k then init_entry (unat j) (load64 m (entry_addr pd j)) else load64 m (entry_addr u j))"
  have "?P (0 + 512) (for_upd 512 0 ?f m)"
  proof (rule for_upd_rule [where P = ?P])
    show "?P 0 m" by simp
  next
    fix k m' assume k: "k < 0 + (512::nat)" and P: "?P k m'"
    have uk: "unat (of_nat k :: u64) = k" using k by (intro unat_of_nat_small) simp
    have e: "load64 m' (entry_addr pd (of_nat k)) = load64 m (entry_addr pd (of_nat k))"
      using P uk k assms(1) by simp
    have eq: "of_nat k = j \<longleftrightarrow> unat j = k" for j :: u64 using uk by (metis of_nat_unat ucast_id)
    show "?P (Suc k) (?f k m')"
    proof (intro allI impI)
      fix u j assume u: "page_aligned u" "unat (j::u64) < 512"
      have "load64 (?f k m') (entry_addr u j) = (if u = pd \<and> unat j = k
          then init_entry k (load64 m' (entry_addr u j)) else load64 m' (entry_addr u j))"
        using byte_memory.ld_st_entry [OF assms(1) _ u, of "of_nat k" m'] uk k
        by (auto simp: init_entry_def eq)
      with P u e eq show "load64 (?f k m') (entry_addr u j) = (if u = pd \<and> unat j < Suc k
          then init_entry (unat j) (load64 m (entry_addr pd j)) else load64 m (entry_addr u j))"
        by (auto simp: less_Suc_eq)
    qed
  qed
  with assms show ?thesis by auto
qed

text \<open>
  The tables the boot code leaves: the first entries of the PML4 and of its PDPT name
  a page directory of its own, whose present entries are two-megabyte pages that map
  their addresses to themselves.
\<close>

definition boot_tables :: "'a vmm_state_scheme \<Rightarrow> bool" where
  "boot_tables s \<longleftrightarrow>
     (let pml4 = ENTRY_ADDR (cr3 s);
          pml4e = load64 (mem s) (entry_addr pml4 0);
          pdpt = ENTRY_ADDR pml4e;
          pdpte = load64 (mem s) (entry_addr pdpt 0);
          pd = ENTRY_ADDR pdpte
      in pml4e AND PTE_PRESENT \<noteq> 0 \<and> pdpte AND PTE_PRESENT \<noteq> 0 \<and> pdpte AND PTE_HUGE = 0 \<and>
         pd \<noteq> pml4 \<and> pd \<noteq> pdpt \<and>
         (\<forall>k < 512. load64 (mem s) (entry_addr pd (of_nat k)) AND PTE_PRESENT = 0 \<or>
            load64 (mem s) (entry_addr pd (of_nat k)) AND PTE_HUGE \<noteq> 0 \<and>
            ENTRY_ADDR (load64 (mem s) (entry_addr pd (of_nat k))) = push_bit 21 (of_nat k)))"

lemma large_page_entry:
  assumes "e = push_bit 21 (x::u64) OR PTE_PRESENT OR PTE_WRITABLE OR PTE_HUGE"
  shows "e AND PTE_PRESENT \<noteq> 0" "e AND PTE_HUGE \<noteq> 0" "ENTRY_ADDR e = push_bit 21 x"
proof -
  have "push_bit 21 x AND 0xFFF = 0"
  proof (rule bit_word_eqI)
    fix n
    have "(0xFFF :: u64) = mask 12" by (simp add: mask_eq_exp_minus_1)
    then show "bit (push_bit 21 x AND 0xFFF) n = bit (0::u64) n"
      by (simp only: bit_and_iff bit_push_bit_iff bit_mask_iff) simp
  qed
  then have "page_aligned (push_bit 21 x)" by (simp add: page_aligned_mask)
  from ENTRY_ADDR_or [OF this, of "0x83"] show "ENTRY_ADDR e = push_bit 21 x"
    by (simp add: assms)
  show "e AND PTE_PRESENT \<noteq> 0" "e AND PTE_HUGE \<noteq> 0"
    unfolding assms by (simp_all add: bit.conj_disj_distrib2)
qed

lemma low_gigabyte_indices:
  assumes "v < 0x40000000"
  shows "PML4_INDEX v = 0" "PDPT_INDEX v = 0" "push_bit 21 (PD_INDEX v) + (v AND 0x1FFFFF) = v"
proof -
  have m: "(0x1FF :: u64) = mask 9" "(0x1FFFFF :: u64) = mask 21" by (simp_all add: mask_eq_exp_minus_1)
  have lt: "unat v < 2 ^ 30" using assms by (simp add: word_less_nat_alt)
  have z: "drop_bit n v = 0" if "30 \<le> n" for n
  proof -
    have "unat (drop_bit n v) = unat v div 2 ^ n" by (subst unat_drop_bit_eq) (rule drop_bit_eq_div)
    also have "\<dots> = 0" using lt that by (intro div_less) (meson less_le_trans one_le_numeral power_increasing)
    finally show ?thesis by (simp add: unat_eq_0)
  qed
  show "PML4_INDEX v = 0" "PDPT_INDEX v = 0" by (simp_all add: PML4_INDEX_def PDPT_INDEX_def z)
  have "take_bit 9 (drop_bit 21 v) = drop_bit 21 v"
  proof (rule word_unat_eq_iff [THEN iffD2])
    have "unat (drop_bit 21 v) = unat v div 2 ^ 21" by (subst unat_drop_bit_eq) (rule drop_bit_eq_div)
    also have "\<dots> < 512" using lt by (simp add: less_mult_imp_div_less)
    finally show "unat (take_bit 9 (drop_bit 21 v)) = unat (drop_bit 21 v)"
      by (simp add: unsigned_take_bit_eq take_bit_eq_mod unat_mod)
  qed
  then show "push_bit 21 (PD_INDEX v) + (v AND 0x1FFFFF) = v"
    unfolding PD_INDEX_def m by (simp only: take_bit_eq_mask [symmetric] bits_ident)
qed

lemma init_identity:
  assumes b: "boot_tables s" and v: "v < 0x40000000"
  shows "vmm_get_phys v (vmm_init self s) = v"
proof -
  let ?p4 = "ENTRY_ADDR (cr3 s)"
  let ?e4 = "load64 (mem s) (entry_addr ?p4 0)"
  let ?p3 = "ENTRY_ADDR ?e4"
  let ?e3 = "load64 (mem s) (entry_addr ?p3 0)"
  let ?pd = "ENTRY_ADDR ?e3"
  let ?m = "for_upd 512 0 (\<lambda>i m. if load64 m (entry_addr ?pd (of_nat i)) AND PTE_PRESENT = 0
            then store64 m (entry_addr ?pd (of_nat i))
                   (push_bit 21 (of_nat i) OR PTE_PRESENT OR PTE_WRITABLE OR PTE_HUGE)
            else m) (mem s)"
  note bt = b [unfolded boot_tables_def Let_def]
  have same: "mem (vmm_init self s) = ?m" "cr3 (vmm_init self s) = cr3 s"
  proof -
    have "console_only (s\<lparr>mem := ?m\<rparr>) (vmm_init self s)" unfolding vmm_init_def Let_def by simp
    from console_only_vmm(1,2) [OF this] show "mem (vmm_init self s) = ?m" "cr3 (vmm_init self s) = cr3 s"
      by simp_all
  qed
  have z: "unat (0::u64) < 512" by simp
  note il = init_loop [OF page_aligned_ENTRY_ADDR [of ?e3], where m = "mem s"]
  let ?i = "PD_INDEX v"
  let ?e = "load64 ?m (entry_addr ?pd ?i)"
  have l4: "load64 ?m (entry_addr ?p4 0) = ?e4" and l3: "load64 ?m (entry_addr ?p3 0) = ?e3"
    and l2: "?e = init_entry (unat ?i) (load64 (mem s) (entry_addr ?pd ?i))"
    using bt il [OF page_aligned_ENTRY_ADDR [of "cr3 s"] z] il [OF page_aligned_ENTRY_ADDR [of ?e4] z]
      il [OF page_aligned_ENTRY_ADDR [of ?e3] index_bounds(3) [of v]]
    by argo+
  have k: "of_nat (unat ?i) = ?i" by (metis of_nat_unat ucast_id)
  have "?e AND PTE_PRESENT \<noteq> 0 \<and> ?e AND PTE_HUGE \<noteq> 0 \<and> ENTRY_ADDR ?e = push_bit 21 ?i"
  proof (cases "load64 (mem s) (entry_addr ?pd ?i) AND PTE_PRESENT = 0")
    case True
    then have "?e = push_bit 21 ?i OR PTE_PRESENT OR PTE_WRITABLE OR PTE_HUGE"
      unfolding l2 init_entry_def k by simp
    then show ?thesis by (intro conjI large_page_entry)
  next
    case False
    have "unat ?i < 512" by (rule index_bounds)
    with bt [THEN conjunct2, THEN conjunct2, THEN conjunct2, THEN conjunct2, THEN conjunct2, THEN spec, of "unat ?i"] False
    have "load64 (mem s) (entry_addr ?pd ?i) AND PTE_HUGE \<noteq> 0 \<and> ENTRY_ADDR (load64 (mem s) (entry_addr ?pd ?i)) = push_bit 21 ?i"
      unfolding k by blast
    moreover have "?e = load64 (mem s) (entry_addr ?pd ?i)" unfolding l2 init_entry_def using False by simp
    ultimately show ?thesis using False by simp
  qed
  moreover have "?e4 AND PTE_PRESENT \<noteq> 0" "?e3 AND PTE_PRESENT \<noteq> 0" "?e3 AND PTE_HUGE = 0" using bt by blast+
  ultimately show ?thesis
    unfolding vmm_get_phys_def same Let_def low_gigabyte_indices(1,2) [OF v] l4 l3
    by (simp only: if_False simp_thms if_True low_gigabyte_indices(3) [OF v])
qed

section \<open>New address spaces\<close>

lemma store64_twice: "store64 (store64 m a x) a y = store64 m a y"
  by (rule ext) (simp add: store64_def)

lemma eview_user: "eview (if e AND PTE_PRESENT \<noteq> 0 then e OR PTE_USER else e) = eview e"
proof (cases "e AND PTE_PRESENT = 0")
  case False
  have "ENTRY_ADDR (e OR 4) = ENTRY_ADDR e" by (simp add: ENTRY_ADDR_def bit.conj_disj_distrib2)
  moreover have "(e OR 4) AND 1 = e AND 1" "(e OR 4) AND 0x80 = e AND 0x80"
    by (simp_all add: bit.conj_disj_distrib2)
  ultimately show ?thesis using False by (simp add: eview_def)
qed simp

lemma copy_loop:
  assumes f: "page_aligned f" and r: "page_aligned r" and n: "f \<noteq> r"
    and t: "page_aligned t" "unat i < 512"
  shows "eview (load64 (for_upd 512 0
       (\<lambda>i m. let m1 = store64 m (entry_addr f (of_nat i)) (load64 m (entry_addr r (of_nat i)))
              in if load64 m1 (entry_addr f (of_nat i)) AND PTE_PRESENT \<noteq> 0
                 then or_entry (entry_addr f (of_nat i)) PTE_USER m1 else m1) m) (entry_addr t i)) =
    eview (load64 m (entry_addr (if t = f then r else t) i))"
proof -
  let ?g = "\<lambda>k m. let e = load64 m (entry_addr r (of_nat k)) in if e AND PTE_PRESENT \<noteq> 0 then e OR PTE_USER else e"
  have b: "(let m1 = store64 m (entry_addr f (of_nat i)) (load64 m (entry_addr r (of_nat i)))
              in if load64 m1 (entry_addr f (of_nat i)) AND PTE_PRESENT \<noteq> 0
                 then or_entry (entry_addr f (of_nat i)) PTE_USER m1 else m1) =
      store64 m (entry_addr f (of_nat i)) (?g i m)" for i m
    unfolding Let_def or_entry_def byte_memory.ld_st_same store64_twice by (simp only: if_distrib split: if_split) simp
  have g: "?g k m = ?g k m'" if "\<And>t' i'. page_aligned t' \<Longrightarrow> unat i' < 512 \<Longrightarrow> t' \<noteq> f \<Longrightarrow>
           load64 m (entry_addr t' i') = load64 m' (entry_addr t' i')" and "k < 512" for k m m'
  proof -
    have "unat (of_nat k :: u64) < 512" using that(2) unat_of_nat_small [of k, where ?'a = 64] by simp
    from that(1) [OF r this] n show ?thesis by simp
  qed
  have "load64 (for_upd 512 0 (\<lambda>k m. store64 m (entry_addr f (of_nat k)) (?g k m)) m) (entry_addr t i) =
      (if t = f \<and> unat i < 512 then ?g (unat i) m else load64 m (entry_addr t i))"
    by (rule byte_memory.ld_table_loop [OF f le_refl _ t]) (rule g)
  moreover have "of_nat (unat i) = i" by (metis of_nat_unat ucast_id)
  ultimately show ?thesis unfolding b using t(2) eview_user by (simp only: Let_def simp_thms split: if_split) simp
qed

text \<open>A table that copies what a reader sees of the root gives the same map, but for the root itself.\<close>

lemma pview_copy:
  assumes r: "page_aligned r"
    and fresh: "\<And>q. vpath q \<Longrightarrow> length q \<le> 3 \<Longrightarrow> pview m r q \<noteq> Some (f, False)"
    and e: "\<And>t i. page_aligned t \<Longrightarrow> unat i < 512 \<Longrightarrow>
      eview (load64 m' (entry_addr t i)) = eview (load64 m (entry_addr (if t = f then r else t) i))"
    and f: "page_aligned f"
  shows "vpath q \<Longrightarrow> length q \<le> 4 \<Longrightarrow> pview m' f q = (if q = [] then Some (f, False) else pview m r q)"
proof (induction q)
  case Nil
  then show ?case by simp
next
  case (Cons j q)
  then have q: "vpath q" "length q \<le> 3" "unat j < 512" by (auto simp: vpath_def)
  with Cons.IH have IH: "pview m' f q = (if q = [] then Some (f, False) else pview m r q)" by auto
  show ?case
  proof (cases "q = []")
    case True
    then show ?thesis using e [OF f q(3)] by simp
  next
    case False
    then have IH: "pview m' f q = pview m r q" using IH by simp
    show ?thesis
    proof (cases "\<exists>u. pview m r q = Some (u, False)")
      case True
      then obtain u where u: "pview m r q = Some (u, False)" by blast
      have "page_aligned u" "u \<noteq> f" using pview_aligned [OF r u] fresh [OF q(1,2)] u by auto
      then show ?thesis using e [of u j] q(3) u IH by simp
    next
      case nt: False
      then show ?thesis using IH by (auto split: option.splits)
    qed
  qed
qed

lemma create_effect:
  assumes wf: "as_wf r s" and r: "r = ENTRY_ADDR (cr3 s)" and av: "avail s \<noteq> {}"
  shows "\<exists>f s'. vmm_create_address_space s = (f, s') \<and> f \<noteq> NULL \<and> f \<in> avail s \<and> avail s' = avail s - {f} \<and>
    cr3 s' = cr3 s \<and> pmm_inv s' \<and>
    (\<forall>q. vpath q \<longrightarrow> length q \<le> 4 \<longrightarrow> pview (mem s') r q = pview (mem s) r q) \<and>
    (\<forall>q. vpath q \<longrightarrow> length q \<le> 4 \<longrightarrow>
       pview (mem s') f q = (if q = [] then Some (f, False) else pview (mem s) r q))"
proof -
  obtain f s1 where al: "pmm_alloc s = (f, s1)" and f: "f \<in> avail s" and av1: "avail s1 = avail s - {f}"
    and inv1: "pmm_inv s1"
    using bitmap_pmm.alloc_take [OF as_wfD(1) [OF wf] av] by blast
  have fp: "f \<noteq> NULL" "page_aligned f"
    using bitmap_pmm.frames_page [OF as_wfD(1) [OF wf] f] by (simp_all add: page_aligned_mask)
  have m1: "mem s1 = mem s" "cr3 s1 = cr3 s" using pmm_alloc_vmm [OF al] by simp_all
  let ?m = "for_upd 512 0
       (\<lambda>i m. let m1 = store64 m (entry_addr f (of_nat i)) (load64 m (entry_addr r (of_nat i)))
              in if load64 m1 (entry_addr f (of_nat i)) AND PTE_PRESENT \<noteq> 0
                 then or_entry (entry_addr f (of_nat i)) PTE_USER m1 else m1) (mem s)"
  have run: "vmm_create_address_space s = (f, s1\<lparr>mem := ?m\<rparr>)"
    unfolding vmm_create_address_space_def al prod.case m1 r by (simp only: fp(1) if_False Let_def)
  have fresh: "pview (mem s) r q \<noteq> Some (f, False)" if "vpath q" "length q \<le> 3" for q
    using as_wfD(4) [OF wf that] f by blast
  have rf: "f \<noteq> r" using fresh [of "[]"] by (auto simp: vpath_def)
  note ra = as_wfD(2) [OF wf]
  note cp = copy_loop [OF fp(2) ra rf, where m = "mem s"]
  have v1: "pview ?m r q = pview (mem s) r q" if "vpath q" "length q \<le> 4" for q
  proof (rule pview_cong [OF _ that])
    fix p t i assume p: "vpath p" "length p < 4" "pview (mem s) r p = Some (t, False)" "unat (i::u64) < 512"
    then have "t \<noteq> f" using fresh [of p] by auto
    then show "eview (load64 ?m (entry_addr t i)) = eview (load64 (mem s) (entry_addr t i))"
      using cp [OF pview_aligned [OF ra p(3)] p(4)] by simp
  qed
  have v2: "pview ?m f q = (if q = [] then Some (f, False) else pview (mem s) r q)"
    if "vpath q" "length q \<le> 4" for q
    by (rule pview_copy [OF ra fresh cp fp(2) that])
  from run v1 v2 obtain m where m: "vmm_create_address_space s = (f, s1\<lparr>mem := m\<rparr>)"
    "\<forall>q. vpath q \<longrightarrow> length q \<le> 4 \<longrightarrow> pview m r q = pview (mem s) r q"
    "\<forall>q. vpath q \<longrightarrow> length q \<le> 4 \<longrightarrow> pview m f q = (if q = [] then Some (f, False) else pview (mem s) r q)"
    by blast
  have "f \<noteq> NULL \<and> f \<in> avail s \<and> avail (s1\<lparr>mem := m\<rparr>) = avail s - {f} \<and> cr3 (s1\<lparr>mem := m\<rparr>) = cr3 s \<and>
    pmm_inv (s1\<lparr>mem := m\<rparr>)" "mem (s1\<lparr>mem := m\<rparr>) = m"
    using fp(1) f av1 m1 inv1 by simp_all
  with m show ?thesis by (metis (no_types))
qed

lemma as_wf_cr3 [simp]: "as_wf r (s\<lparr>cr3 := c\<rparr>) = as_wf r s"
  by (simp add: as_wf_def)

lemma as_wf_console: "console_only s t \<Longrightarrow> as_wf r t = as_wf r s"
  by (simp add: as_wf_def console_only_vmm)

lemma ENTRY_ADDR_aligned: "page_aligned f \<Longrightarrow> ENTRY_ADDR f = f"
  using ENTRY_ADDR_or [of f 0] by simp

lemma as_wf_same:
  assumes wf: "as_wf r s" and inv: "pmm_inv s'" and sub: "avail s' \<subseteq> avail s"
    and v: "\<And>q. vpath q \<Longrightarrow> length q \<le> 4 \<Longrightarrow> pview (mem s') r q = pview (mem s) r q"
  shows "as_wf r s'"
proof (rule as_wf_upd [OF wf inv sub, where p = "[]" and f = r])
  fix q assume "vpath q" "length q \<le> 3"
  then show "pview (mem s') r q = (if q = [] then Some (r, False) else pview (mem s) r q)"
    using v [of q] by simp
qed (use as_wfD(4) [OF wf, of "[]" r] sub in \<open>auto simp: vpath_def\<close>)

lemma as_wf_copy:
  assumes wf: "as_wf r s" and inv: "pmm_inv s'" and f: "f \<in> avail s" and av: "avail s' = avail s - {f}"
    and v: "\<And>q. vpath q \<Longrightarrow> length q \<le> 4 \<Longrightarrow>
      pview (mem s') f q = (if q = [] then Some (f, False) else pview (mem s) r q)"
  shows "as_wf f s'"
proof -
  have fresh: "pview (mem s) r q \<noteq> Some (f, False)" if "vpath q" "length q \<le> 3" for q
    using as_wfD(4) [OF wf that] f by blast
  have v3: "pview (mem s') f q = (if q = [] then Some (f, False) else pview (mem s) r q)"
    if "vpath q" "length q \<le> 3" for q using v that by simp
  have "p = q" if "vpath p" "vpath q" "length p \<le> 3" "length q \<le> 3"
      "pview (mem s') f p = Some (t, False)" "pview (mem s') f q = Some (t, False)" for p q t
    using v3 [OF that(1,3)] v3 [OF that(2,4)] that(5,6) fresh [OF that(1,3)] fresh [OF that(2,4)]
      as_wfD(3) [OF wf that(1-4), of t] by (auto simp del: pview.simps split: if_splits)
  moreover have "t \<notin> avail s'" if "vpath p" "length p \<le> 3" "pview (mem s') f p = Some (t, False)" for p t
    using v3 [OF that(1,2)] that(3) as_wfD(4) [OF wf that(1,2)] av by (auto simp del: pview.simps split: if_splits)
  moreover have "pview (mem s') f [i] \<noteq> Some (t, True)" if "unat i < 512" for i t
    using v3 [of "[i]"] as_wfD(5) [OF wf that] that by (auto simp: vpath_def simp del: pview.simps)
  moreover have "page_aligned f"
    using bitmap_pmm.frames_page [OF as_wfD(1) [OF wf] f] by (simp add: page_aligned_mask)
  ultimately show ?thesis unfolding as_wf_def using inv by blast
qed

lemma walk_cong:
  assumes "\<And>q. vpath q \<Longrightarrow> length q \<le> 4 \<Longrightarrow> q \<noteq> [] \<Longrightarrow> pview m' r' q = pview m r q"
  shows "walk m' r' v = walk m r v"
proof -
  have "vpath [PML4_INDEX v]" "vpath [PDPT_INDEX v, PML4_INDEX v]"
    "vpath [PD_INDEX v, PDPT_INDEX v, PML4_INDEX v]" "va_path v \<noteq> []" by (simp_all add: vpath_def va_path_def)
  then show ?thesis
    unfolding walk_def using assms va_path_vpath [of v] by (simp del: pview.simps)
qed

lemma create_address_space:
  assumes wf: "as_wf (ENTRY_ADDR (cr3 s)) s" and av: "0 < unat (pmm_free_frames s)"
  shows "\<exists>f s'. vmm_create_address_space s = (f, s') \<and> f \<noteq> NULL \<and> f \<in> avail s \<and> avail s' = avail s - {f} \<and>
    cr3 s' = cr3 s \<and> as_wf (ENTRY_ADDR (cr3 s)) s' \<and> as_wf f s' \<and>
    (\<forall>q. vpath q \<longrightarrow> length q \<le> 4 \<longrightarrow> pview (mem s') (ENTRY_ADDR (cr3 s)) q = pview (mem s) (ENTRY_ADDR (cr3 s)) q) \<and>
    (\<forall>q. vpath q \<longrightarrow> length q \<le> 4 \<longrightarrow>
       pview (mem s') f q = (if q = [] then Some (f, False) else pview (mem s) (ENTRY_ADDR (cr3 s)) q)) \<and>
    (\<forall>v. vmm_get_phys v s' = vmm_get_phys v s) \<and>
    (\<forall>v. vmm_get_phys v (vmm_switch_address_space f s') = vmm_get_phys v s)"
proof -
  let ?r = "ENTRY_ADDR (cr3 s)"
  have "avail s \<noteq> {}"
    using av as_wfD(1) [OF wf] by (auto simp: pmm_inv_def pmm_free_frames_def simp flip: card_avail)
  from create_effect [OF wf refl this] obtain f s' where c:
    "vmm_create_address_space s = (f, s')" "f \<noteq> NULL" "f \<in> avail s" "avail s' = avail s - {f}"
    "cr3 s' = cr3 s" "pmm_inv s'"
    "\<forall>q. vpath q \<longrightarrow> length q \<le> 4 \<longrightarrow> pview (mem s') ?r q = pview (mem s) ?r q"
    "\<forall>q. vpath q \<longrightarrow> length q \<le> 4 \<longrightarrow>
       pview (mem s') f q = (if q = [] then Some (f, False) else pview (mem s) ?r q)" by (elim exE conjE)
  have w1: "as_wf ?r s'" by (rule as_wf_same [OF wf c(6)]) (use c(4,7) in auto)
  have w2: "as_wf f s'" by (rule as_wf_copy [OF wf c(6,3,4)]) (use c(8) in auto)
  have g1: "vmm_get_phys v s' = vmm_get_phys v s" for v
  proof -
    have "walk (mem s') ?r v = walk (mem s) ?r v" by (rule walk_cong) (use c(7) in blast)
    then show ?thesis using as_wf_get_phys [of s' v] as_wf_get_phys [OF wf, of v] w1 c(5) by simp
  qed
  have g2: "vmm_get_phys v (vmm_switch_address_space f s') = vmm_get_phys v s" for v
  proof -
    have "walk (mem s') f v = walk (mem s) ?r v" by (rule walk_cong) (use c(8) in simp)
    moreover have "ENTRY_ADDR f = f" by (rule ENTRY_ADDR_aligned [OF as_wfD(2) [OF w2]])
    ultimately show ?thesis
      using as_wf_get_phys [of "vmm_switch_address_space f s'" v] as_wf_get_phys [OF wf, of v] w2
      by (simp add: vmm_switch_address_space_def)
  qed
  show ?thesis using c(1-5) w1 w2 c(7,8) g1 g2 by blast
qed

lemma mapped_fresh:
  assumes m: "mapped r v e t3 t2 t1 s s'" and none: "pview (mem s) r [PML4_INDEX v] = None"
  shows "{t3, t2, t1} \<subseteq> avail s"
proof -
  have n2: "pview (mem s) r [PDPT_INDEX v, PML4_INDEX v] = None" by (rule pview_tail [OF none])
  have n3: "pview (mem s) r [PD_INDEX v, PDPT_INDEX v, PML4_INDEX v] = None" by (rule pview_tail [OF n2])
  have "t3 \<in> avail s" "t2 \<in> avail s" "t1 \<in> avail s"
    using m [unfolded mapped_def Let_def] unfolding none n2 n3 by simp_all
  then show ?thesis by simp
qed

text \<open>Tables reached from \<open>r\<close> that were not touched keep the map of \<open>r\<close>.\<close>

lemma pview_untouched:
  assumes u: "untouched T s s'" and r: "page_aligned r"
    and T: "\<And>p t. vpath p \<Longrightarrow> length p \<le> 3 \<Longrightarrow> pview (mem s) r p = Some (t, False) \<Longrightarrow> t \<notin> T \<and> t \<notin> avail s"
    and q: "vpath q" "length q \<le> 4"
  shows "pview (mem s') r q = pview (mem s) r q"
proof (rule pview_cong [OF _ q])
  fix p t i assume p: "vpath p" "length p < 4" "pview (mem s) r p = Some (t, False)" "unat (i::u64) < 512"
  from T [OF p(1) _ p(3)] p(2) untouchedD [OF u pview_aligned [OF r p(3)] p(4)]
  show "eview (load64 (mem s') (entry_addr t i)) = eview (load64 (mem s) (entry_addr t i))" by simp
qed

lemma map_in_private:
  assumes wf: "as_wf f s" and wr: "as_wf (ENTRY_ADDR (cr3 s)) s"
    and sep: "\<And>p. vpath p \<Longrightarrow> length p \<le> 3 \<Longrightarrow> pview (mem s) (ENTRY_ADDR (cr3 s)) p \<noteq> Some (f, False)"
    and none: "pview (mem s) f [PML4_INDEX v] = None"
    and av: "3 \<le> card (avail s)" and ph: "page_aligned ph" "fl AND NOT 0xFFF = 0"
  shows "\<exists>s'. vmm_map_in f v ph fl s = Ret () s' \<and> cr3 s' = cr3 s \<and> as_wf f s' \<and> as_wf (ENTRY_ADDR (cr3 s)) s' \<and>
    (\<forall>v'. vmm_get_phys v' s' = vmm_get_phys v' s) \<and>
    (\<forall>v'. vmm_get_phys v' (vmm_switch_address_space f s') =
       (if va_path v' = va_path v then ph else vmm_get_phys v' (vmm_switch_address_space f s)))"
proof -
  let ?r = "ENTRY_ADDR (cr3 s)" and ?s = "vmm_switch_address_space f s" and ?e = "ph OR fl OR PTE_PRESENT"
  have ef: "ENTRY_ADDR f = f" by (rule ENTRY_ADDR_aligned [OF as_wfD(2) [OF wf]])
  have n2: "pview (mem s) f [PDPT_INDEX v, PML4_INDEX v] = None" by (rule pview_tail [OF none])
  have n3: "pview (mem s) f [PD_INDEX v, PDPT_INDEX v, PML4_INDEX v] = None" by (rule pview_tail [OF n2])
  have sw: "mem ?s = mem s" "cr3 ?s = f" "avail ?s = avail s" "as_wf r ?s = as_wf r s" for r
    by (simp_all add: vmm_switch_address_space_def)
  have "f = ENTRY_ADDR (cr3 ?s)" "as_wf f ?s" "3 \<le> card (avail ?s)" using ef wf av by (simp_all add: sw)
  from map_effect [OF this(2,1) _ _ this(3), where v = v and ph = ph and fl = fl, unfolded sw n2 n3]
  obtain s1 t3 t2 t1 where m: "vmm_map v ph fl ?s = Ret () s1" "as_wf f s1" "cr3 s1 = f" "avail s1 \<subseteq> avail s"
    "mapped f v ?e t3 t2 t1 ?s s1" "untouched {f, t3, t2, t1} ?s s1" by (auto simp: sw)
  let ?s1 = "vmm_switch_address_space (cr3 s) s1"
  have run: "vmm_map_in f v ph fl s = Ret () ?s1" unfolding vmm_map_in_def Let_def m(1) by simp
  have sw1: "mem ?s1 = mem s1" "cr3 ?s1 = cr3 s" "as_wf r ?s1 = as_wf r s1" for r
    by (simp_all add: vmm_switch_address_space_def)
  have fresh: "{t3, t2, t1} \<subseteq> avail s" using mapped_fresh [OF m(5), unfolded sw, OF none] .
  have r: "pview (mem s1) ?r q = pview (mem s) ?r q" if "vpath q" "length q \<le> 4" for q
  proof -
    have "t \<notin> {f, t3, t2, t1} \<and> t \<notin> avail ?s"
      if "vpath p" "length p \<le> 3" "pview (mem ?s) ?r p = Some (t, False)" for p t
      using as_wfD(4) [OF wr that(1,2)] that(3) sep [OF that(1,2)] fresh unfolding sw by blast
    from pview_untouched [OF m(6) as_wfD(2) [OF wr] this that] show ?thesis unfolding sw .
  qed
  have w1: "as_wf ?r s1" by (rule as_wf_same [OF wr as_wfD(1) [OF m(2)] m(4) r])
  have g1: "vmm_get_phys v' ?s1 = vmm_get_phys v' s" for v'
  proof -
    have "walk (mem s1) ?r v' = walk (mem s) ?r v'" by (rule walk_cong) (rule r)
    then show ?thesis using as_wf_get_phys [of ?s1 v'] as_wf_get_phys [OF wr, of v'] w1 by (simp add: sw1)
  qed
  have g2: "vmm_get_phys v' (vmm_switch_address_space f ?s1) =
      (if va_path v' = va_path v then ph else vmm_get_phys v' ?s)" for v'
  proof -
    have "?e AND PTE_PRESENT \<noteq> 0" unfolding or.assoc [symmetric] by (rule pte_present_or)
    from walk_mapped [OF m(5) this, of v', unfolded ENTRY_ADDR_pte [OF ph]] show ?thesis
      using as_wf_get_phys [of "vmm_switch_address_space f ?s1" v'] as_wf_get_phys [of ?s v'] wf m(2) ef
      by (simp add: vmm_switch_address_space_def)
  qed
  show ?thesis using run sw1 m(2) w1 g1 g2 by (intro exI [of _ ?s1] conjI) simp_all
qed

section \<open>Properties\<close>

text \<open>
  A machine whose page tables, at 0x1000, are empty and which has four free frames;
  and one with the tables of the boot code at 0x1000, 0x2000 and 0x3000.
\<close>

definition vmm_four :: vmm_state where
  "vmm_four = pmm_state.extend (give_frame 259 (give_frame 258 pmm_two)) \<lparr>mem = (\<lambda>_. 0), cr3 = 0x1000\<rparr>"

definition vmm_booted :: vmm_state where
  "vmm_booted = vmm_four\<lparr>mem := store64 (store64 (\<lambda>_. 0) (entry_addr 0x1000 0) 0x2003) (entry_addr 0x2000 0) 0x3003\<rparr>"

text \<open>The second one after a large page was put in entry 1 of the page directory.\<close>

definition vmm_large :: vmm_state where
  "vmm_large = vmm_booted\<lparr>mem := store64 (mem vmm_booted) (entry_addr 0x3000 1) 0x200083\<rparr>"

lemma vmm_four_pmm: "pmm_inv vmm_four" "free_set vmm_four = {256, 257, 258, 259}"
proof -
  have 1: "pmm_inv (give_frame 258 pmm_two)" "free_set (give_frame 258 pmm_two) = {258, 256, 257}"
    using give_frame_inv [OF pmm_two_inv(1), of 258] by (simp_all add: pmm_two_inv TOTAL_FRAMES_def)
  have 2: "pmm_inv (give_frame 259 (give_frame 258 pmm_two))"
    "free_set (give_frame 259 (give_frame 258 pmm_two)) = {259, 258, 256, 257}"
    using give_frame_inv [OF 1(1), of 259] by (simp_all add: 1 TOTAL_FRAMES_def)
  have ext: "free_set (pmm_state.extend p x) = free_set p" "pmm_inv (pmm_state.extend p x) = pmm_inv p"
    for p :: pmm_state and x :: "'b"
    by (simp_all add: pmm_inv_def free_set_def bitmap_test_def pmm_state.defs)
  show "pmm_inv vmm_four" "free_set vmm_four = {256, 257, 258, 259}"
    unfolding vmm_four_def ext by (auto simp: 2)
qed

lemma vmm_four_mem [simp]: "mem vmm_four = (\<lambda>_. 0)" "cr3 vmm_four = 0x1000"
  by (simp_all add: vmm_four_def pmm_state.defs)

lemma vmm_booted_cr3 [simp]: "cr3 vmm_booted = 0x1000" "cr3 vmm_large = 0x1000"
  by (simp_all add: vmm_booted_def vmm_large_def)

lemma page_aligned_low: "page_aligned 0x1000" "page_aligned 0x2000" "page_aligned 0x3000"
  by (simp_all add: page_aligned_def)

lemma load64_zero [simp]: "load64 (\<lambda>_. 0) a = 0"
  by (simp add: load64_def)

lemma load_booted:
  assumes "page_aligned t" "unat i < 512"
  shows "load64 (mem vmm_booted) (entry_addr t i) =
      (if t = 0x2000 \<and> i = 0 then 0x3003 else if t = 0x1000 \<and> i = 0 then 0x2003 else 0)"
  using byte_memory.ld_st_entry [OF page_aligned_low(1) _ assms, of 0]
    byte_memory.ld_st_entry [OF page_aligned_low(2) _ assms, of 0]
  by (auto simp: vmm_booted_def byte_memory.ld_st_same)

lemma load_large:
  assumes "page_aligned t" "unat i < 512"
  shows "load64 (mem vmm_large) (entry_addr t i) =
      (if t = 0x3000 \<and> i = 1 then 0x200083 else load64 (mem vmm_booted) (entry_addr t i))"
  using byte_memory.ld_st_entry [OF page_aligned_low(3) _ assms, of 1]
  by (auto simp: vmm_large_def byte_memory.ld_st_same)

lemma pview_zero [simp]: "pview (\<lambda>_. 0) r (i # p) = None"
  by (auto simp: eview_def split: option.splits)

lemma no_huge_zero [simp]: "no_huge r v (\<lambda>_. 0)"
  by (simp add: no_huge_def del: pview.simps(2))

lemma pview_zero_iff: "pview (\<lambda>_. 0) r p = Some x \<longleftrightarrow> p = [] \<and> x = (r, False)"
  by (cases p) (auto simp del: pview.simps(2))

lemma avail_four: "avail vmm_four = {0x100000, 0x101000, 0x102000, 0x103000}"
  by (simp add: avail_def vmm_four_pmm frame_addr_def)

lemma as_wf_four: "as_wf 0x1000 vmm_four"
  by (auto simp: as_wf_def vmm_four_pmm pview_zero_iff avail_four page_aligned_def simp del: pview.simps(2))

lemma free_four: "unat (pmm_free_frames vmm_four) = 4"
  using vmm_four_pmm by (simp add: pmm_inv_def pmm_free_frames_def)

lemma root_four [simp]: "ENTRY_ADDR 0x1000 = 0x1000"
  by (simp add: ENTRY_ADDR_def)

text \<open>C4. Mapping a page: in a well-formed address space, for an address that no large page
  covers and with three frames free, \<open>vmm_map\<close> returns (it neither halts nor runs out of
  frames); the address space stays well formed, \<open>vmm_get_phys\<close> then gives the new frame
  for every address of the mapped page, and exactly what it gave before for every
  address of every other page.\<close>

theorem vmm_map_translates:
  assumes "as_wf (ENTRY_ADDR (cr3 s)) s" and "no_huge (ENTRY_ADDR (cr3 s)) v (mem s)"
    and "3 \<le> unat (pmm_free_frames s)" and "page_aligned ph" and "fl AND NOT 0xFFF = 0"
  shows "\<exists>s'. vmm_map v ph fl s = Ret () s' \<and> as_wf (ENTRY_ADDR (cr3 s)) s' \<and> cr3 s' = cr3 s \<and>
    (\<forall>v'. vmm_get_phys v' s' =
       (if v' AND 0xFFFFFFFFF000 = v AND 0xFFFFFFFFF000 then ph else vmm_get_phys v' s))"
  using map_translates [OF assms] by (simp only: va_path_eq_iff)

theorem vmm_map_translates_witness:
  "\<exists>s'. vmm_map 0xC0000123 0x5000 PTE_WRITABLE vmm_four = Ret () s' \<and>
    vmm_get_phys 0xC0000FFF s' = 0x5000 \<and> vmm_get_phys 0xC0001000 s' = 0"
proof -
  have "\<exists>s'. vmm_map 0xC0000123 0x5000 PTE_WRITABLE vmm_four = Ret () s' \<and>
      (\<forall>v'. vmm_get_phys v' s' = (if v' AND 0xFFFFFFFFF000 = 0xC0000000 then 0x5000 else vmm_get_phys v' vmm_four))"
    using vmm_map_translates [of vmm_four "0xC0000123" "0x5000" PTE_WRITABLE]
    by (auto simp: as_wf_four free_four page_aligned_def)
  moreover have "vmm_get_phys 0xC0001000 vmm_four = 0" by (simp add: vmm_get_phys_def)
  ultimately show ?thesis by auto
qed

text \<open>C37. Unmapping a page that no large page covers: the page no longer translates, every
  other address translates as before, and the address space stays well formed.\<close>

theorem vmm_unmap_unmaps:
  assumes "as_wf (ENTRY_ADDR (cr3 s)) s" and "no_huge (ENTRY_ADDR (cr3 s)) v (mem s)"
  shows "as_wf (ENTRY_ADDR (cr3 s)) (vmm_unmap v s) \<and> cr3 (vmm_unmap v s) = cr3 s \<and>
    vmm_get_phys v' (vmm_unmap v s) =
      (if v' AND 0xFFFFFFFFF000 = v AND 0xFFFFFFFFF000 then 0 else vmm_get_phys v' s)"
  using unmap_translates [OF assms] by (simp only: va_path_eq_iff)

theorem vmm_unmap_unmaps_witness:
  "as_wf 0x1000 (vmm_unmap 0xC0000123 vmm_four) \<and> vmm_get_phys 0xC0000FFF (vmm_unmap 0xC0000123 vmm_four) = 0"
  using vmm_unmap_unmaps [of vmm_four "0xC0000123" "0xC0000FFF"] by (simp add: as_wf_four)

text \<open>\<open>vmm_init\<close> completes the boot tables to the identity map of the first gigabyte,
  which is what lets the kernel use the physical address of a frame as a pointer.\<close>

theorem vmm_init_identity_maps:
  assumes "boot_tables s" and "v < 0x40000000"
  shows "vmm_get_phys v (vmm_init self s) = v"
  using assms by (rule init_identity)

theorem vmm_init_identity_maps_witness:
  "vmm_get_phys 0x12345678 (vmm_init 0x101000 vmm_booted) = 0x12345678"
proof (rule vmm_init_identity_maps)
  have "unat (of_nat k :: u64) < 512" if "k < 512" for k
    using that unat_of_nat_small [of k, where ?'a = 64] by simp
  then show "boot_tables vmm_booted"
    by (simp add: boot_tables_def Let_def load_booted page_aligned_low ENTRY_ADDR_def)
qed simp

text \<open>A new address space shares every mapping of the current one, not only those of the
  kernel's half: \<open>vmm_create_address_space\<close> takes one free frame as the new PML4, leaves
  CR3 and all current translations alone, and after a switch to the new PML4 every
  address translates as it does now. Both address spaces are well formed.\<close>

theorem vmm_create_address_space_shares:
  assumes "as_wf (ENTRY_ADDR (cr3 s)) s" and "0 < unat (pmm_free_frames s)"
  shows "\<exists>f s'. vmm_create_address_space s = (f, s') \<and> f \<noteq> NULL \<and> f \<in> avail s \<and> avail s' = avail s - {f} \<and>
    cr3 s' = cr3 s \<and> as_wf (ENTRY_ADDR (cr3 s)) s' \<and> as_wf f s' \<and>
    (\<forall>v. vmm_get_phys v s' = vmm_get_phys v s) \<and>
    (\<forall>v. vmm_get_phys v (vmm_switch_address_space f s') = vmm_get_phys v s)"
  using create_address_space [OF assms] by metis

theorem vmm_create_address_space_shares_witness:
  "\<exists>f s'. vmm_create_address_space vmm_four = (f, s') \<and> f \<in> {0x100000, 0x101000, 0x102000, 0x103000} \<and>
    as_wf f s'"
  using vmm_create_address_space_shares [of vmm_four] by (auto simp: as_wf_four free_four avail_four)

text \<open>C5. Isolation: a page mapped with \<open>vmm_map_in\<close> into a fresh address space, at an address
  whose PML4 slot the creating address space does not use, is visible in the new
  address space only. CR3 is back at its old value, every translation of the current
  address space is as before, and the new one differs from it in the mapped page alone.\<close>

theorem vmm_map_in_isolated:
  assumes wf: "as_wf (ENTRY_ADDR (cr3 s)) s" and av: "4 \<le> unat (pmm_free_frames s)"
    and slot: "load64 (mem s) (entry_addr (ENTRY_ADDR (cr3 s)) (PML4_INDEX v)) AND PTE_PRESENT = 0"
    and ph: "page_aligned ph" "fl AND NOT 0xFFF = 0"
  shows "\<exists>f s1 s2. vmm_create_address_space s = (f, s1) \<and> f \<noteq> NULL \<and> vmm_map_in f v ph fl s1 = Ret () s2 \<and>
    cr3 s2 = cr3 s \<and> as_wf f s2 \<and> as_wf (ENTRY_ADDR (cr3 s)) s2 \<and>
    (\<forall>v'. vmm_get_phys v' s2 = vmm_get_phys v' s) \<and>
    (\<forall>v'. vmm_get_phys v' (vmm_switch_address_space f s2) =
       (if v' AND 0xFFFFFFFFF000 = v AND 0xFFFFFFFFF000 then ph else vmm_get_phys v' s))"
proof -
  let ?r = "ENTRY_ADDR (cr3 s)"
  have "0 < unat (pmm_free_frames s)" using av by simp
  from create_address_space [OF wf this] obtain f s1 where c:
    "vmm_create_address_space s = (f, s1)" "f \<noteq> NULL" "f \<in> avail s" "avail s1 = avail s - {f}" "cr3 s1 = cr3 s"
    "as_wf ?r s1" "as_wf f s1"
    "\<forall>q. vpath q \<longrightarrow> length q \<le> 4 \<longrightarrow> pview (mem s1) ?r q = pview (mem s) ?r q"
    "\<forall>q. vpath q \<longrightarrow> length q \<le> 4 \<longrightarrow>
       pview (mem s1) f q = (if q = [] then Some (f, False) else pview (mem s) ?r q)"
    "\<forall>v. vmm_get_phys v s1 = vmm_get_phys v s"
    "\<forall>v. vmm_get_phys v (vmm_switch_address_space f s1) = vmm_get_phys v s" by (elim exE conjE)
  have "card (avail s1) = card (avail s) - 1" using c(3,4) bitmap_pmm.frames_finite [OF as_wfD(1) [OF wf]] by simp
  then have av1: "3 \<le> card (avail s1)"
    using av as_wfD(1) [OF wf] by (simp add: pmm_inv_def pmm_free_frames_def card_avail)
  have "vpath [PML4_INDEX v]" by (simp add: vpath_def)
  with c(9) slot have none: "pview (mem s1) f [PML4_INDEX v] = None"
    by (simp del: pview.simps) (simp add: eview_None_bits)
  have sep: "pview (mem s1) ?r p \<noteq> Some (f, False)" if "vpath p" "length p \<le> 3" for p
    using c(3,8) as_wfD(4) [OF wf that] that by auto
  from map_in_private [OF c(7) _ _ none av1 ph] c(5,6) sep obtain s2 where
    "vmm_map_in f v ph fl s1 = Ret () s2" "cr3 s2 = cr3 s1" "as_wf f s2" "as_wf ?r s2"
    "\<forall>v'. vmm_get_phys v' s2 = vmm_get_phys v' s1"
    "\<forall>v'. vmm_get_phys v' (vmm_switch_address_space f s2) =
       (if va_path v' = va_path v then ph else vmm_get_phys v' (vmm_switch_address_space f s1))" by auto
  with c(1,2,5,10,11) show ?thesis by (auto simp: va_path_eq_iff)
qed

theorem vmm_map_in_isolated_witness:
  "\<exists>f s1 s2. vmm_create_address_space vmm_four = (f, s1) \<and> vmm_map_in f 0x8000000000 0x5000 PTE_USER s1 = Ret () s2 \<and>
    vmm_get_phys 0x8000000000 s2 = 0 \<and> vmm_get_phys 0x8000000000 (vmm_switch_address_space f s2) = 0x5000"
proof -
  have "vmm_get_phys 0x8000000000 vmm_four = 0" by (simp add: vmm_get_phys_def)
  with vmm_map_in_isolated [of vmm_four "0x8000000000" "0x5000" PTE_USER] show ?thesis
    by (auto simp: as_wf_four free_four page_aligned_def)
qed

text \<open>C40. \<open>vmm_unmap\<close> does not look at the huge bit. On an address inside a two-megabyte page it
  takes the page itself for a page table: it overwrites eight bytes of the mapped data
  with zeros, and the address stays mapped.\<close>

theorem vmm_unmap_large_page_corrupts:
  assumes "pview (mem s) (ENTRY_ADDR (cr3 s)) [PD_INDEX v, PDPT_INDEX v, PML4_INDEX v] = Some (a, True)"
    and "\<forall>p \<in> {[], [PML4_INDEX v], [PDPT_INDEX v, PML4_INDEX v]}.
      pview (mem s) (ENTRY_ADDR (cr3 s)) p \<noteq> Some (a, False)"
  shows "load64 (mem (vmm_unmap v s)) (entry_addr a (PT_INDEX v)) = 0 \<and>
    vmm_get_phys v (vmm_unmap v s) = a + (v AND 0x1FFFFF)"
proof -
  let ?r = "ENTRY_ADDR (cr3 s)"
  let ?e4 = "load64 (mem s) (entry_addr ?r (PML4_INDEX v))"
  let ?e3 = "load64 (mem s) (entry_addr (ENTRY_ADDR ?e4) (PDPT_INDEX v))"
  let ?e2 = "load64 (mem s) (entry_addr (ENTRY_ADDR ?e3) (PD_INDEX v))"
  have e: "?e4 AND PTE_PRESENT \<noteq> 0" "?e3 AND PTE_PRESENT \<noteq> 0" "?e3 AND PTE_HUGE = 0"
    "?e2 AND PTE_PRESENT \<noteq> 0" "?e2 AND PTE_HUGE \<noteq> 0" "ENTRY_ADDR ?e2 = a" "?e4 AND PTE_HUGE = 0"
    using assms(1) by (auto simp: eview_def split: option.splits if_splits)
  have n: "a \<noteq> ?r" "a \<noteq> ENTRY_ADDR ?e4" "a \<noteq> ENTRY_ADDR ?e3"
    using assms(2) e by (auto simp: eview_def)
  have un: "vmm_unmap v s = s\<lparr>mem := store64 (mem s) (entry_addr a (PT_INDEX v)) 0\<rparr>"
    using e by (simp add: vmm_unmap_def Let_def)
  have a: "page_aligned a" using e(6) by auto
  note ld = byte_memory.ld_st_entry [OF a index_bounds(4) page_aligned_ENTRY_ADDR]
  show ?thesis
    unfolding un using e n by (simp add: vmm_get_phys_def Let_def ld byte_memory.ld_st_same)
qed

theorem vmm_unmap_large_page_corrupts_witness:
  "load64 (mem (vmm_unmap 0x203000 vmm_large)) (entry_addr 0x200000 3) = 0 \<and>
    vmm_get_phys 0x203000 (vmm_unmap 0x203000 vmm_large) = 0x203000"
proof -
  have i: "PML4_INDEX 0x203000 = 0" "PDPT_INDEX 0x203000 = 0" "PD_INDEX 0x203000 = 1" "PT_INDEX 0x203000 = 3"
    by (simp_all add: PML4_INDEX_def PDPT_INDEX_def PD_INDEX_def PT_INDEX_def drop_bit_eq_div)
  have "pview (mem vmm_large) 0x1000 [1, 0, 0] = Some (0x200000, True)"
    "pview (mem vmm_large) 0x1000 [0, 0] = Some (0x3000, False)" "pview (mem vmm_large) 0x1000 [0] = Some (0x2000, False)"
    by (simp_all add: load_large load_booted page_aligned_low eview_def ENTRY_ADDR_def)
  then show ?thesis
    using vmm_unmap_large_page_corrupts [of vmm_large "0x203000" "0x200000", unfolded i] by (simp add: i)
qed

end
