(* ===== verification/Kheap.thy ===== *)
theory Kheap
  imports Vmm_Spaces
begin

text \<open>
  The kernel heap of \<open>src/memory/heap.c\<close>: a first-fit allocator over a singly linked
  list of headers that lie in the heap's own memory, in front of each data area. The
  headers are read and written as bytes of the machine memory, field by field, so the
  heap and its clients' data share one memory as they do in the kernel.

  The list is abstracted to the sizes and free flags of its blocks, which tile the
  four megabytes from \<open>HEAP_START\<close>; \<open>kmalloc\<close> and \<open>kfree\<close> are shown to implement first
  fit with splitting and marking with full coalescing on that abstraction.
\<close>

section \<open>State and operations\<close>

definition HEAP_START :: u64 where
  "HEAP_START = 0xC0000000"

definition HEAP_PAGES :: nat where
  "HEAP_PAGES = 1024"

text \<open>A \<open>block_header_t\<close> is 24 bytes: \<open>size\<close> at 0, \<open>free\<close> (an \<open>int\<close>) at 8, \<open>next\<close> at 16.\<close>

definition hdr_size :: "memory \<Rightarrow> u64 \<Rightarrow> u64" where
  "hdr_size m b = load64 m b"

definition hdr_free :: "memory \<Rightarrow> u64 \<Rightarrow> u32" where
  "hdr_free m b = load32 m (b + 8)"

definition hdr_next :: "memory \<Rightarrow> u64 \<Rightarrow> u64" where
  "hdr_next m b = load64 m (b + 16)"

definition set_hdr_size :: "u64 \<Rightarrow> u64 \<Rightarrow> memory \<Rightarrow> memory" where
  "set_hdr_size b v m = store64 m b v"

definition set_hdr_free :: "u64 \<Rightarrow> u32 \<Rightarrow> memory \<Rightarrow> memory" where
  "set_hdr_free b v m = store32 m (b + 8) v"

definition set_hdr_next :: "u64 \<Rightarrow> u64 \<Rightarrow> memory \<Rightarrow> memory" where
  "set_hdr_next b v m = store64 m (b + 16) v"

record heap_state = vmm_state +
  heap_head :: u64

definition heap_init :: "'a heap_state_scheme \<Rightarrow> ('a heap_state_scheme, unit) outcome" where
  "heap_init s =
     obind (for_loop HEAP_PAGES 0
       (\<lambda>i t. case pmm_alloc t of (frame, t1) \<Rightarrow>
          if frame = NULL then Halt (vga_print (str ''Invalid frame'' @ [0x0A]) t1)
          else vmm_map (HEAP_START + of_nat i * PAGE_SIZE) frame 0x03 t1) s)
     (\<lambda>_ t. let t1 = t\<lparr>heap_head := HEAP_START\<rparr>
            in Ret () (t1\<lparr>mem := set_hdr_next HEAP_START NULL
                         (set_hdr_free HEAP_START 1
                         (set_hdr_size HEAP_START (of_nat HEAP_PAGES * PAGE_SIZE - 24) (mem t1)))\<rparr>))"

text \<open>
  The walks along the list follow whatever the memory holds; on a cyclic list they
  never return, which is the value \<open>None\<close>.
\<close>

definition kmalloc_split :: "u64 \<Rightarrow> u64 \<Rightarrow> memory \<Rightarrow> memory" where
  "kmalloc_split sz cur m =
     (if sz + 24 + 8 < hdr_size m cur
      then (let split = cur + 24 + sz;
                m1 = set_hdr_size split (hdr_size m cur - sz - 24) m;
                m2 = set_hdr_free split 1 m1;
                m3 = set_hdr_next split (hdr_next m2 cur) m2;
                m4 = set_hdr_next cur split m3
            in set_hdr_size cur sz m4)
      else m)"

partial_function (option) kmalloc_loop :: "u64 \<Rightarrow> u64 \<Rightarrow> memory \<Rightarrow> (u64 \<times> memory) option" where
  "kmalloc_loop sz cur m =
     (if cur = NULL then Some (NULL, m)
      else if hdr_free m cur \<noteq> 0 \<and> sz \<le> hdr_size m cur
      then Some (cur + 24, set_hdr_free cur 0 (kmalloc_split sz cur m))
      else kmalloc_loop sz (hdr_next m cur) m)"

definition kmalloc :: "u64 \<Rightarrow> 'a heap_state_scheme \<Rightarrow> ('a heap_state_scheme, u64) outcome" where
  "kmalloc sz s =
     (if sz = 0 then Ret NULL s
      else (let sz = (sz + 7) AND NOT 7
            in of_loop (map_option (\<lambda>(p, m). Ret p (s\<lparr>mem := m\<rparr>)) (kmalloc_loop sz (heap_head s) (mem s)))))"

definition kcalloc :: "u64 \<Rightarrow> u64 \<Rightarrow> 'a heap_state_scheme \<Rightarrow> ('a heap_state_scheme, u64) outcome" where
  "kcalloc n sz s =
     obind (kmalloc (n * sz) s) (\<lambda>ptr t.
       if ptr \<noteq> NULL
       then Ret ptr (t\<lparr>mem := for_upd (unat (n * sz)) 0 (\<lambda>i m. m(ptr + of_nat i := 0)) (mem t)\<rparr>)
       else Ret ptr t)"

partial_function (option) kfree_loop :: "u64 \<Rightarrow> memory \<Rightarrow> memory option" where
  "kfree_loop cur m =
     (if cur = NULL \<or> hdr_next m cur = NULL then Some m
      else if hdr_free m cur \<noteq> 0 \<and> hdr_free m (hdr_next m cur) \<noteq> 0
      then (let m1 = set_hdr_size cur (hdr_size m cur + (24 + hdr_size m (hdr_next m cur))) m;
                m2 = set_hdr_next cur (hdr_next m1 (hdr_next m1 cur)) m1
            in kfree_loop cur m2)
      else kfree_loop (hdr_next m cur) m)"

definition kfree :: "u64 \<Rightarrow> 'a heap_state_scheme \<Rightarrow> ('a heap_state_scheme, unit) outcome" where
  "kfree ptr s =
     (if ptr = NULL then Ret () s
      else (let header = ptr - 24;
                m = set_hdr_free header 1 (mem s)
            in of_loop (map_option (\<lambda>m. Ret () (s\<lparr>mem := m\<rparr>)) (kfree_loop (heap_head s) m))))"

section \<open>The list of blocks\<close>

text \<open>A block is its data size and whether it is free; its header precedes the data.\<close>

type_synonym blk = "nat \<times> bool"

primrec span :: "blk list \<Rightarrow> nat" where
  "span [] = 0"
| "span (b # bs) = 24 + fst b + span bs"

text \<open>\<open>rep m a bs\<close>: the headers of \<open>bs\<close> lie one after the other from byte \<open>a\<close> on, linked in this order.\<close>

fun rep :: "memory \<Rightarrow> nat \<Rightarrow> blk list \<Rightarrow> bool" where
  "rep m a [] = True"
| "rep m a ((n, f) # bs) =
     (hdr_size m (of_nat a) = of_nat n \<and> (hdr_free m (of_nat a) \<noteq> 0) = f \<and>
      hdr_next m (of_nat a) = (if bs = [] then NULL else of_nat (a + 24 + n)) \<and> n mod 8 = 0 \<and>
      rep m (a + 24 + n) bs)"

definition HEAP_BYTES :: nat where
  "HEAP_BYTES = HEAP_PAGES * 4096"

definition HEAP_BASE :: nat where
  "HEAP_BASE = unat HEAP_START"

text \<open>The heap invariant, with the list of blocks as its abstraction.\<close>

definition heap_rep :: "'a heap_state_scheme \<Rightarrow> blk list \<Rightarrow> bool" where
  "heap_rep s bs \<longleftrightarrow> heap_head s = HEAP_START \<and> bs \<noteq> [] \<and> span bs = HEAP_BYTES \<and> rep (mem s) HEAP_BASE bs"

text \<open>The abstract operations: first fit with splitting, and marking with coalescing.\<close>

fun fit :: "nat \<Rightarrow> blk list \<Rightarrow> (nat \<times> blk list) option" where
  "fit k [] = None"
| "fit k ((n, f) # bs) =
     (if f \<and> k \<le> n
      then Some (0, if k + 32 < n then (k, False) # (n - k - 24, True) # bs else (n, False) # bs)
      else (case fit k bs of None \<Rightarrow> None | Some (d, cs) \<Rightarrow> Some (24 + n + d, (n, f) # cs)))"

fun mark :: "nat \<Rightarrow> blk list \<Rightarrow> blk list" where
  "mark d [] = []"
| "mark d ((n, f) # bs) = (if d = 0 then (n, True) # bs else (n, f) # mark (d - (24 + n)) bs)"

fun coalesce :: "blk list \<Rightarrow> blk list" where
  "coalesce ((n, f) # (n', f') # bs) =
     (if f \<and> f' then coalesce ((n + (24 + n'), True) # bs) else (n, f) # coalesce ((n', f') # bs))"
| "coalesce bs = bs"

text \<open>The data areas in use: offset from the start of the list and size.\<close>

fun used :: "nat \<Rightarrow> blk list \<Rightarrow> (nat \<times> nat) set" where
  "used a [] = {}"
| "used a ((n, f) # bs) = (if f then {} else {(a + 24, n)}) \<union> used (a + 24 + n) bs"

section \<open>Headers as objects\<close>

lemma unat_addr [simp]: "a < 2 ^ 64 \<Longrightarrow> unat (of_nat a :: u64) = a"
  by (simp add: unat_of_nat_small)

lemma of_nat_addr: "(of_nat a :: u64) + numeral k = of_nat (a + numeral k)"
  by simp

lemma hdr_same:
  assumes "same_on m m' a (a + 24)" and "a + 24 < 2 ^ 64"
  shows "hdr_size m' (of_nat a) = hdr_size m (of_nat a)" "hdr_free m' (of_nat a) = hdr_free m (of_nat a)"
    "hdr_next m' (of_nat a) = hdr_next m (of_nat a)"
proof -
  have u: "unat (of_nat a :: u64) = a" "unat (of_nat (a + 8) :: u64) = a + 8" "unat (of_nat (a + 16) :: u64) = a + 16"
    using assms(2) by (intro unat_addr; simp)+
  show "hdr_size m' (of_nat a) = hdr_size m (of_nat a)" "hdr_free m' (of_nat a) = hdr_free m (of_nat a)"
    "hdr_next m' (of_nat a) = hdr_next m (of_nat a)"
    unfolding hdr_size_def hdr_free_def hdr_next_def of_nat_addr
    by (rule load64_same load32_same; unfold u; (rule same_on_mono [OF assms(1)])?; use assms(2) in simp)+
qed

lemma same_on_set_hdr:
  assumes "h + 24 \<le> lo \<or> hi \<le> h" and "h + 24 < 2 ^ 64"
  shows "same_on m (set_hdr_size (of_nat h) v m) lo hi" "same_on m (set_hdr_free (of_nat h) w m) lo hi"
    "same_on m (set_hdr_next (of_nat h) v m) lo hi"
proof -
  have u: "unat (of_nat h :: u64) = h" "unat (of_nat (h + 8) :: u64) = h + 8" "unat (of_nat (h + 16) :: u64) = h + 16"
    using assms(2) by (intro unat_addr; simp)+
  show "same_on m (set_hdr_size (of_nat h) v m) lo hi" "same_on m (set_hdr_free (of_nat h) w m) lo hi"
    "same_on m (set_hdr_next (of_nat h) v m) lo hi"
    unfolding set_hdr_size_def set_hdr_free_def set_hdr_next_def of_nat_addr
    by (rule same_on_store64 same_on_store32; unfold u; use assms in linarith)+
qed

lemma hdr_set_other:
  assumes "a + 24 \<le> h \<or> h + 24 \<le> a" and "a + 24 < 2 ^ 64" and "h + 24 < 2 ^ 64"
  shows "hdr_size (set_hdr_size (of_nat h) v m) (of_nat a) = hdr_size m (of_nat a)"
    "hdr_free (set_hdr_size (of_nat h) v m) (of_nat a) = hdr_free m (of_nat a)"
    "hdr_next (set_hdr_size (of_nat h) v m) (of_nat a) = hdr_next m (of_nat a)"
    "hdr_size (set_hdr_free (of_nat h) w m) (of_nat a) = hdr_size m (of_nat a)"
    "hdr_free (set_hdr_free (of_nat h) w m) (of_nat a) = hdr_free m (of_nat a)"
    "hdr_next (set_hdr_free (of_nat h) w m) (of_nat a) = hdr_next m (of_nat a)"
    "hdr_size (set_hdr_next (of_nat h) v m) (of_nat a) = hdr_size m (of_nat a)"
    "hdr_free (set_hdr_next (of_nat h) v m) (of_nat a) = hdr_free m (of_nat a)"
    "hdr_next (set_hdr_next (of_nat h) v m) (of_nat a) = hdr_next m (of_nat a)"
  by (rule hdr_same [OF same_on_set_hdr(1)] hdr_same [OF same_on_set_hdr(2)] hdr_same [OF same_on_set_hdr(3)];
      use assms in linarith)+

lemma hdr_set_same:
  assumes "a + 24 < 2 ^ 64"
  shows "hdr_size (set_hdr_size (of_nat a) v m) (of_nat a) = v"
    "hdr_free (set_hdr_size (of_nat a) v m) (of_nat a) = hdr_free m (of_nat a)"
    "hdr_next (set_hdr_size (of_nat a) v m) (of_nat a) = hdr_next m (of_nat a)"
    "hdr_size (set_hdr_free (of_nat a) w m) (of_nat a) = hdr_size m (of_nat a)"
    "hdr_free (set_hdr_free (of_nat a) w m) (of_nat a) = w"
    "hdr_next (set_hdr_free (of_nat a) w m) (of_nat a) = hdr_next m (of_nat a)"
    "hdr_size (set_hdr_next (of_nat a) v m) (of_nat a) = hdr_size m (of_nat a)"
    "hdr_free (set_hdr_next (of_nat a) v m) (of_nat a) = hdr_free m (of_nat a)"
    "hdr_next (set_hdr_next (of_nat a) v m) (of_nat a) = v"
proof -
  have u: "unat (of_nat a :: u64) = a" "unat (of_nat (a + 8) :: u64) = a + 8" "unat (of_nat (a + 16) :: u64) = a + 16"
    using assms by (intro unat_addr; simp)+
  note d = hdr_size_def hdr_free_def hdr_next_def set_hdr_size_def set_hdr_free_def set_hdr_next_def
    of_nat_addr
  show "hdr_size (set_hdr_size (of_nat a) v m) (of_nat a) = v"
    "hdr_free (set_hdr_free (of_nat a) w m) (of_nat a) = w"
    "hdr_next (set_hdr_next (of_nat a) v m) (of_nat a) = v"
    unfolding d by (rule byte_memory.ld_st_same load32_store32_same)+
  show "hdr_free (set_hdr_size (of_nat a) v m) (of_nat a) = hdr_free m (of_nat a)"
    "hdr_next (set_hdr_size (of_nat a) v m) (of_nat a) = hdr_next m (of_nat a)"
    "hdr_size (set_hdr_free (of_nat a) w m) (of_nat a) = hdr_size m (of_nat a)"
    "hdr_next (set_hdr_free (of_nat a) w m) (of_nat a) = hdr_next m (of_nat a)"
    "hdr_size (set_hdr_next (of_nat a) v m) (of_nat a) = hdr_size m (of_nat a)"
    "hdr_free (set_hdr_next (of_nat a) v m) (of_nat a) = hdr_free m (of_nat a)"
    unfolding d
    by (rule load64_same load32_same; (rule same_on_store64 same_on_store32)?; unfold u; use assms in linarith)+
qed

lemmas hdr_simps = hdr_set_same hdr_set_other

lemma span_append [simp]: "span (bs @ cs) = span bs + span cs"
  by (induction bs) auto

text \<open>The headers of a list, by position.\<close>

primrec hdrs :: "nat \<Rightarrow> blk list \<Rightarrow> nat list" where
  "hdrs a [] = []"
| "hdrs a (b # bs) = a # hdrs (a + 24 + fst b) bs"

lemma hdrs_bounds: "h \<in> set (hdrs a bs) \<Longrightarrow> a \<le> h \<and> h + 24 \<le> a + span bs"
  by (induction bs arbitrary: a) fastforce+

text \<open>The list only depends on its headers; in particular clients may write their data.\<close>

lemma rep_same:
  assumes "\<And>h. h \<in> set (hdrs a bs) \<Longrightarrow> same_on m m' h (h + 24)" and "a + span bs < 2 ^ 64"
  shows "rep m' a bs = rep m a bs"
  using assms
proof (induction bs arbitrary: a)
  case Nil
  then show ?case by simp
next
  case (Cons b bs)
  obtain n f where b: "b = (n, f)" by (cases b)
  have s: "same_on m m' a (a + 24)" and lt: "a + 24 < 2 ^ 64" using Cons.prems by auto
  have "rep m' (a + 24 + n) bs = rep m (a + 24 + n) bs"
    by (rule Cons.IH) (use Cons.prems b in auto)
  then show ?case unfolding b by (simp add: hdr_same [OF s lt])
qed

lemma rep_same_range:
  "same_on m m' a (a + span bs) \<Longrightarrow> a + span bs < 2 ^ 64 \<Longrightarrow> rep m' a bs = rep m a bs"
  by (rule rep_same) (use hdrs_bounds in \<open>fastforce elim: same_on_mono\<close>)+

section \<open>Allocation\<close>

text \<open>
  What an operation on the list may change: nothing outside the list's own bytes, and
  no byte of a data area in use.
\<close>

definition heap_frame :: "memory \<Rightarrow> memory \<Rightarrow> nat \<Rightarrow> blk list \<Rightarrow> bool" where
  "heap_frame m m' a bs \<longleftrightarrow> (\<forall>(b, n) \<in> used a bs. same_on m m' b (b + n)) \<and>
     same_on m m' 0 a \<and> same_on m m' (a + span bs) (2 ^ 64)"

lemma heap_frame_refl [simp]: "heap_frame m m a bs"
  by (simp add: heap_frame_def)

lemma heap_frame_cons:
  assumes "heap_frame m m' (a + 24 + n) bs"
  shows "heap_frame m m' a ((n, f) # bs)" "same_on m m' a (a + 24)"
  using assms by (auto simp: heap_frame_def ac_simps elim: same_on_mono)

lemma used_bounds: "(b, n) \<in> used a bs \<Longrightarrow> a + 24 \<le> b \<and> b + n \<le> a + span bs"
  by (induction bs arbitrary: a) (fastforce split: if_splits)+

lemma heap_frame_range:
  assumes "same_on m m' 0 a" and "same_on m m' (a + 24 + n) (2 ^ 64)" and "a + 24 + n + span bs < 2 ^ 64"
  shows "heap_frame m m' a ((n, True) # bs)"
  using assms used_bounds [of _ _ "a + 24 + n" bs]
  by (fastforce simp: heap_frame_def ac_simps elim: same_on_mono)

lemma of_nat_less_u64: "a < 2 ^ 64 \<Longrightarrow> b < 2 ^ 64 \<Longrightarrow> (of_nat a :: u64) < of_nat b \<longleftrightarrow> a < b"
  by (simp add: word_less_nat_alt)

lemma of_nat_le_u64: "a < 2 ^ 64 \<Longrightarrow> b < 2 ^ 64 \<Longrightarrow> (of_nat a :: u64) \<le> of_nat b \<longleftrightarrow> a \<le> b"
  by (simp add: word_le_nat_alt)

lemma of_nat_eq_0_u64: "a < 2 ^ 64 \<Longrightarrow> (of_nat a :: u64) = 0 \<longleftrightarrow> a = 0"
  by (subst unat_eq_0 [symmetric]) (simp only: unat_addr)

lemma split_effect:
  assumes r: "rep m a ((n, True) # bs)" and k: "k mod 8 = 0" "k + 32 < n" and lt: "a + 24 + n + span bs < 2 ^ 63"
  defines "m' \<equiv> set_hdr_free (of_nat a) 0 (kmalloc_split (of_nat k) (of_nat a) m)"
  shows "rep m' a ((k, False) # (n - k - 24, True) # bs)" and "heap_frame m m' a ((n, True) # bs)"
proof -
  let ?h = "a + 24 + k" and ?nx = "hdr_next m (of_nat a)"
  have lt': "a + 24 < 2 ^ 64" "?h + 24 < 2 ^ 64" "a + 24 \<le> ?h" "k < 2 ^ 64" "n < 2 ^ 64" using lt k by simp_all
  note hs = hdr_set_same [OF lt'(1)] hdr_set_same [OF lt'(2)]
    hdr_set_other [OF disjI1 [OF lt'(3)] lt'(1,2)] hdr_set_other [OF disjI2 [OF lt'(3)] lt'(2,1)]
  have size: "hdr_size m (of_nat a) = of_nat n" using r by simp
  have w: "of_nat k + 24 + 8 < (of_nat n :: u64)"
    unfolding of_nat_addr using of_nat_less_u64 [of "k + 24 + 8" n] k(2) lt by simp
  have h: "of_nat a + 24 + of_nat k = (of_nat ?h :: u64)" by simp
  have sz: "of_nat n - of_nat k - 24 = (of_nat (n - k - 24) :: u64)" using k by (simp add: of_nat_diff)
  have m': "m' = set_hdr_free (of_nat a) 0 (set_hdr_size (of_nat a) (of_nat k) (set_hdr_next (of_nat a) (of_nat ?h)
      (set_hdr_next (of_nat ?h) ?nx (set_hdr_free (of_nat ?h) 1 (set_hdr_size (of_nat ?h) (of_nat (n - k - 24)) m)))))"
    unfolding m'_def kmalloc_split_def size Let_def h sz using w hs lt' by simp
  have out: "same_on m m' lo hi" if "hi \<le> a \<or> ?h + 24 \<le> lo" for lo hi
  proof -
    have d: "?h + 24 \<le> lo \<or> hi \<le> ?h" "a + 24 \<le> lo \<or> hi \<le> a" using that lt'(3) by linarith+
    note sh = same_on_set_hdr [OF d(1) lt'(2)] and sa = same_on_set_hdr [OF d(2) lt'(1)]
    show ?thesis
      unfolding m' by (rule same_on_trans [OF same_on_trans [OF same_on_trans [OF same_on_trans [OF
            same_on_trans [OF sh(1) sh(2)] sh(3)] sa(3)] sa(1)] sa(2)])
  qed
  have tail: "rep m' (a + 24 + n) bs"
    using r rep_same_range [OF out, of "a + 24 + n" bs] k lt by simp
  have hd: "hdr_size m' (of_nat a) = of_nat k" "hdr_free m' (of_nat a) = 0" "hdr_next m' (of_nat a) = of_nat ?h"
    "hdr_size m' (of_nat ?h) = of_nat (n - k - 24)" "hdr_free m' (of_nat ?h) = 1" "hdr_next m' (of_nat ?h) = ?nx"
    unfolding m' by (simp_all only: hs)
  have "n mod 8 = 0" using r by simp
  then have e: "?h + 24 + (n - k - 24) = a + 24 + n" "(n - k - 24) mod 8 = 0"
    using k by (simp, presburger)
  show "rep m' a ((k, False) # (n - k - 24, True) # bs)"
    using r k(1) hd e tail by (simp add: ac_simps)
  show "heap_frame m m' a ((n, True) # bs)"
    by (rule heap_frame_range; (rule out)?; use k lt in simp)
qed

lemma whole_effect:
  assumes r: "rep m a ((n, True) # bs)" and k: "\<not> k + 32 < n" "k \<le> n" and lt: "a + 24 + n + span bs < 2 ^ 63"
  defines "m' \<equiv> set_hdr_free (of_nat a) 0 (kmalloc_split (of_nat k) (of_nat a) m)"
  shows "rep m' a ((n, False) # bs)" and "heap_frame m m' a ((n, True) # bs)"
proof -
  have lt': "a + 24 < 2 ^ 64" "k < 2 ^ 63" "n < 2 ^ 63" using lt k by simp_all
  have size: "hdr_size m (of_nat a) = of_nat n" using r by simp
  have w: "\<not> of_nat k + 24 + 8 < (of_nat n :: u64)"
    unfolding of_nat_addr using of_nat_less_u64 [of "k + 24 + 8" n] k lt' by simp
  have m': "m' = set_hdr_free (of_nat a) 0 m"
    unfolding m'_def kmalloc_split_def size using w by (simp only: if_False)
  have out: "same_on m m' lo hi" if "hi \<le> a \<or> a + 24 \<le> lo" for lo hi
    unfolding m' by (rule same_on_set_hdr(2) [OF _ lt'(1)]) (use that in linarith)
  have tail: "rep m' (a + 24 + n) bs"
    using r rep_same_range [OF out, of "a + 24 + n" bs] lt by simp
  show "rep m' a ((n, False) # bs)"
    using r tail unfolding m' by (simp add: hdr_set_same [OF lt'(1)])
  show "heap_frame m m' a ((n, True) # bs)"
    by (rule heap_frame_range; (rule out)?; use lt in simp)
qed

text \<open>The loop is first fit on the abstraction; it always returns.\<close>

lemma kmalloc_loop_fit:
  assumes "rep m a bs" and "0 < a" and "a + span bs < 2 ^ 63" and "k mod 8 = 0" and "k < 2 ^ 64"
  shows "case fit k bs of
      None \<Rightarrow> kmalloc_loop (of_nat k) (if bs = [] then NULL else of_nat a) m = Some (NULL, m)
    | Some (d, cs) \<Rightarrow> \<exists>m'. kmalloc_loop (of_nat k) (if bs = [] then NULL else of_nat a) m = Some (of_nat (a + d + 24), m') \<and>
        rep m' a cs \<and> heap_frame m m' a bs"
  using assms
proof (induction bs arbitrary: a)
  case Nil
  then show ?case by (simp add: kmalloc_loop.simps)
next
  case (Cons b bs)
  obtain n f where b: "b = (n, f)" by (cases b)
  have lt: "a + 24 + n + span bs < 2 ^ 63" "a < 2 ^ 64" "n < 2 ^ 64" "k < 2 ^ 64" using Cons.prems(3,5) by (simp_all add: b)
  have a0: "(of_nat a :: u64) \<noteq> NULL" using of_nat_eq_0_u64 [OF lt(2)] Cons.prems(2) by simp
  have r: "hdr_size m (of_nat a) = of_nat n" "(hdr_free m (of_nat a) \<noteq> 0) = f"
    "hdr_next m (of_nat a) = (if bs = [] then NULL else of_nat (a + 24 + n))" "rep m (a + 24 + n) bs"
    using Cons.prems(1) by (simp_all add: b)
  have le: "(of_nat k :: u64) \<le> of_nat n \<longleftrightarrow> k \<le> n" by (rule of_nat_le_u64 [OF lt(4,3)])
  have step: "kmalloc_loop (of_nat k) (of_nat a) m =
      (if f \<and> k \<le> n then Some (of_nat a + 24, set_hdr_free (of_nat a) 0 (kmalloc_split (of_nat k) (of_nat a) m))
       else kmalloc_loop (of_nat k) (if bs = [] then NULL else of_nat (a + 24 + n)) m)"
    by (subst kmalloc_loop.simps) (simp only: a0 if_False r le)
  show ?case
  proof (cases "f \<and> k \<le> n")
    case True
    then have f: "rep m a ((n, True) # bs)" using Cons.prems(1) by (simp add: b)
    show ?thesis
    proof (cases "k + 32 < n")
      case s: True
      from split_effect [OF f Cons.prems(4) s lt(1)] True s show ?thesis
        by (simp add: b step of_nat_addr del: rep.simps of_nat_add)
    next
      case s: False
      from whole_effect [OF f s _ lt(1)] True s show ?thesis
        by (simp add: b step of_nat_addr del: rep.simps of_nat_add)
    qed
  next
    case False
    have IH: "case fit k bs of
        None \<Rightarrow> kmalloc_loop (of_nat k) (if bs = [] then NULL else of_nat (a + 24 + n)) m = Some (NULL, m)
      | Some (d, cs) \<Rightarrow> \<exists>m'. kmalloc_loop (of_nat k) (if bs = [] then NULL else of_nat (a + 24 + n)) m =
            Some (of_nat (a + 24 + n + d + 24), m') \<and> rep m' (a + 24 + n) cs \<and> heap_frame m m' (a + 24 + n) bs"
      by (rule Cons.IH) (use r(4) lt(1) Cons.prems(4,5) in simp_all)
    show ?thesis
    proof (cases "fit k bs")
      case None
      with IH False show ?thesis by (auto simp: b step)
    next
      case (Some x)
      obtain d cs where x: "x = (d, cs)" by (cases x)
      from IH Some x obtain m' where m': "kmalloc_loop (of_nat k) (if bs = [] then NULL else of_nat (a + 24 + n)) m =
            Some (of_nat (a + 24 + n + d + 24), m')" "rep m' (a + 24 + n) cs" "heap_frame m m' (a + 24 + n) bs" by auto
      have "a + 24 < 2 ^ 64" using lt(1) by simp
      note h = hdr_same [OF heap_frame_cons(2) [OF m'(3)] this]
      have "bs \<noteq> []" "cs \<noteq> []" using Some x by (cases bs; auto split: if_splits option.splits)+
      then have "rep m' a ((n, f) # cs)" using m'(2) r h Cons.prems(1) by (simp add: b)
      moreover have "heap_frame m m' a ((n, f) # bs)" by (rule heap_frame_cons(1) [OF m'(3)])
      moreover have "a + (24 + n + d) + 24 = a + 24 + n + d + 24" by simp
      ultimately show ?thesis
        using m'(1) False Some x by (auto simp: b step simp del: rep.simps of_nat_add)
    qed
  qed
qed

section \<open>Release\<close>

lemma heap_frame_trans:
  "heap_frame m m1 a bs \<Longrightarrow> heap_frame m1 m2 a cs \<Longrightarrow> used a cs = used a bs \<Longrightarrow> span cs = span bs \<Longrightarrow> heap_frame m m2 a bs"
  unfolding heap_frame_def by (auto intro: same_on_trans)

lemma coalesce_span [simp]: "span (coalesce bs) = span bs"
  by (induction bs rule: coalesce.induct) auto

lemma coalesce_used [simp]: "used a (coalesce bs) = used a bs"
  by (induction bs arbitrary: a rule: coalesce.induct) (auto simp: ac_simps)

lemma coalesce_Nil [simp]: "coalesce bs = [] \<longleftrightarrow> bs = []"
  by (induction bs rule: coalesce.induct) auto

lemma merge_effect:
  assumes r: "rep m a ((n, True) # (n', True) # bs)" and lt: "a + 24 + n + 24 + n' + span bs < 2 ^ 63"
  defines "m1 \<equiv> set_hdr_size (of_nat a) (hdr_size m (of_nat a) + (24 + hdr_size m (hdr_next m (of_nat a)))) m"
  defines "m2 \<equiv> set_hdr_next (of_nat a) (hdr_next m1 (hdr_next m1 (of_nat a))) m1"
  shows "rep m2 a ((n + (24 + n'), True) # bs)" and "heap_frame m m2 a ((n, True) # (n', True) # bs)"
proof -
  let ?h = "a + 24 + n"
  have lt': "a + 24 < 2 ^ 64" "?h + 24 < 2 ^ 64" "a + 24 \<le> ?h" using lt by simp_all
  note hs = hdr_set_same [OF lt'(1)] hdr_set_other [OF disjI2 [OF lt'(3)] lt'(2,1)]
  have nx: "hdr_next m (of_nat a) = of_nat ?h" and sz: "hdr_size m (of_nat a) = of_nat n"
    "hdr_size m (of_nat ?h) = of_nat n'" using r by simp_all
  have m1: "m1 = set_hdr_size (of_nat a) (of_nat (n + (24 + n'))) m"
    unfolding m1_def nx sz by simp
  have m2: "m2 = set_hdr_next (of_nat a) (hdr_next m (of_nat ?h)) m1"
    unfolding m2_def unfolding m1 hs nx ..
  have out: "same_on m m2 lo hi" if "hi \<le> a \<or> a + 24 \<le> lo" for lo hi
  proof -
    have d: "a + 24 \<le> lo \<or> hi \<le> a" using that by linarith
    note sa = same_on_set_hdr [OF d lt'(1)]
    show ?thesis unfolding m2 m1 by (rule same_on_trans [OF sa(1) sa(3)])
  qed
  have tail: "rep m2 (?h + 24 + n') bs"
    using r rep_same_range [OF out, of "?h + 24 + n'" bs] lt by simp
  have hd: "hdr_size m2 (of_nat a) = of_nat (n + (24 + n'))" "hdr_free m2 (of_nat a) \<noteq> 0"
    "hdr_next m2 (of_nat a) = hdr_next m (of_nat ?h)"
    unfolding m2 m1 hs using r by simp_all
  have "n mod 8 = 0" "n' mod 8 = 0" using r by simp_all
  then have "(n + (24 + n')) mod 8 = 0" by presburger
  with r hd tail show "rep m2 a ((n + (24 + n'), True) # bs)" by (simp add: ac_simps)
  have "heap_frame m m2 a ((n + (24 + n'), True) # bs)"
    by (rule heap_frame_range; (rule out)?; use lt in simp)
  then show "heap_frame m m2 a ((n, True) # (n', True) # bs)" by (simp add: heap_frame_def ac_simps)
qed

text \<open>The loop merges every run of free blocks; it always returns.\<close>

lemma kfree_loop_coalesce:
  assumes "rep m a bs" and "bs \<noteq> []" and "0 < a" and "a + span bs < 2 ^ 63"
  shows "\<exists>m'. kfree_loop (of_nat a) m = Some m' \<and> rep m' a (coalesce bs) \<and> heap_frame m m' a bs"
  using assms
proof (induction bs arbitrary: a m rule: coalesce.induct [case_names pair none one])
  case (pair n f n' f' bs)
  let ?h = "a + 24 + n"
  have lt: "a + 24 + n + 24 + n' + span bs < 2 ^ 63" "a < 2 ^ 64" "?h < 2 ^ 64" using pair by simp_all
  have a0: "(of_nat a :: u64) \<noteq> NULL" "(of_nat ?h :: u64) \<noteq> NULL"
    using of_nat_eq_0_u64 [OF lt(2)] of_nat_eq_0_u64 [OF lt(3)] pair(5) by simp_all
  have nx: "hdr_next m (of_nat a) = of_nat ?h" and fr: "(hdr_free m (of_nat a) \<noteq> 0) = f"
    "(hdr_free m (of_nat ?h) \<noteq> 0) = f'" using pair(3) by simp_all
  show ?case
  proof (cases "f \<and> f'")
    case True
    then have r: "rep m a ((n, True) # (n', True) # bs)" using pair(3) by simp
    define m1 where "m1 = set_hdr_size (of_nat a) (hdr_size m (of_nat a) + (24 + hdr_size m (hdr_next m (of_nat a)))) m"
    define m2 where "m2 = set_hdr_next (of_nat a) (hdr_next m1 (hdr_next m1 (of_nat a))) m1"
    have e: "rep m2 a ((n + (24 + n'), True) # bs)" "heap_frame m m2 a ((n, True) # (n', True) # bs)"
      unfolding m2_def m1_def by (rule merge_effect [OF r lt(1)])+
    have step: "kfree_loop (of_nat a) m = kfree_loop (of_nat a) m2"
      by (subst kfree_loop.simps) (simp only: nx a0 fr True Let_def m2_def m1_def simp_thms if_True if_False)
    have "\<exists>m'. kfree_loop (of_nat a) m2 = Some m' \<and> rep m' a (coalesce ((n + (24 + n'), True) # bs)) \<and>
        heap_frame m2 m' a ((n + (24 + n'), True) # bs)"
      by (rule pair(1) [OF True e(1)]) (use pair(5) lt in simp_all)
    then show ?thesis
      using step True heap_frame_trans [OF e(2)] by (auto simp: ac_simps)
  next
    case False
    have r: "rep m ?h ((n', f') # bs)" using pair(3) by simp
    have step: "kfree_loop (of_nat a) m = kfree_loop (of_nat ?h) m"
      by (subst kfree_loop.simps) (simp only: nx a0 fr False simp_thms if_False)
    have "\<exists>m'. kfree_loop (of_nat ?h) m = Some m' \<and> rep m' ?h (coalesce ((n', f') # bs)) \<and>
        heap_frame m m' ?h ((n', f') # bs)"
      by (rule pair(2) [OF False r]) (use lt in simp_all)
    then obtain m' where m': "kfree_loop (of_nat ?h) m = Some m'" "rep m' ?h (coalesce ((n', f') # bs))"
        "heap_frame m m' ?h ((n', f') # bs)" by blast
    have "a + 24 < 2 ^ 64" using lt(1) by simp
    note h = hdr_same [OF heap_frame_cons(2) [OF m'(3)] this]
    have "rep m' a ((n, f) # coalesce ((n', f') # bs))"
      unfolding rep.simps h using pair(3) m'(2) by (simp del: coalesce.simps)
    moreover have "coalesce ((n, f) # (n', f') # bs) = (n, f) # coalesce ((n', f') # bs)"
      by (subst coalesce.simps(1)) (simp only: False if_False)
    ultimately have "rep m' a (coalesce ((n, f) # (n', f') # bs))" by (simp only:)
    moreover have "heap_frame m m' a ((n, f) # (n', f') # bs)" by (rule heap_frame_cons(1) [OF m'(3)])
    ultimately show ?thesis using step m'(1) by (intro exI [of _ m']) (simp del: coalesce.simps)
  qed
next
  case none
  then show ?case by simp
next
  case (one b)
  obtain n f where b: "b = (n, f)" by (cases b)
  then have "hdr_next m (of_nat a) = NULL" using one(1) by simp
  then have "kfree_loop (of_nat a) m = Some m" by (subst kfree_loop.simps) simp
  then show ?case using one by simp
qed

text \<open>Marking a block free.\<close>

lemma mark_effect:
  assumes "rep m a bs" and "h \<in> set (hdrs a bs)" and "a + span bs < 2 ^ 63"
  shows "rep (set_hdr_free (of_nat h) 1 m) a (mark (h - a) bs)"
  using assms
proof (induction bs arbitrary: a)
  case Nil
  then show ?case by simp
next
  case (Cons b bs)
  obtain n f where b: "b = (n, f)" by (cases b)
  have lt: "a + 24 < 2 ^ 64" using Cons.prems(3) by simp
  let ?m = "set_hdr_free (of_nat h) 1 m"
  show ?case
  proof (cases "h = a")
    case True
    have "same_on m ?m (a + 24 + n) (a + 24 + n + span bs)"
      unfolding True by (rule same_on_set_hdr(2) [OF _ lt]) simp
    then have "rep ?m (a + 24 + n) bs"
      using rep_same_range [of m ?m "a + 24 + n" bs] Cons.prems(1,3) by (simp add: b)
    then show ?thesis using Cons.prems(1) by (simp add: b True hdr_set_same [OF lt])
  next
    case False
    then have h: "h \<in> set (hdrs (a + 24 + n) bs)" using Cons.prems(2) by (simp add: b)
    then have hb: "a + 24 + n \<le> h" "h + 24 \<le> a + 24 + n + span bs" by (simp_all add: hdrs_bounds)
    then have "rep ?m (a + 24 + n) (mark (h - (a + 24 + n)) bs)"
      using Cons.IH [OF _ h] Cons.prems(1,3) by (simp add: b)
    moreover have "hdr_size ?m (of_nat a) = hdr_size m (of_nat a)" "hdr_free ?m (of_nat a) = hdr_free m (of_nat a)"
      "hdr_next ?m (of_nat a) = hdr_next m (of_nat a)"
      by (rule hdr_set_other(4-6) [of a h]; use hb Cons.prems(3) lt in \<open>simp add: b\<close>)+
    moreover have "mark (h - (a + 24 + n)) bs = [] \<longleftrightarrow> bs = []" for h
      by (cases bs) (auto split: if_splits)
    moreover have "h - a - (24 + n) = h - (a + 24 + n)" "h - a \<noteq> 0" using hb by simp_all
    ultimately show ?thesis using Cons.prems(1) by (simp add: b)
  qed
qed

lemma mark_span [simp]: "span (mark d bs) = span bs"
  by (induction d bs rule: mark.induct) auto

lemma mark_Nil [simp]: "mark d bs = [] \<longleftrightarrow> bs = []"
  by (induction d bs rule: mark.induct) auto

lemma used_hdrs: "(b, n) \<in> used a bs \<Longrightarrow> 24 \<le> b \<and> b - 24 \<in> set (hdrs a bs)"
  by (induction bs arbitrary: a) (auto split: if_splits)

lemma mark_used:
  assumes "h \<in> set (hdrs a bs)"
  shows "used a (mark (h - a) bs) = {x \<in> used a bs. fst x \<noteq> h + 24}"
  using assms
proof (induction bs arbitrary: a)
  case Nil
  then show ?case by simp
next
  case (Cons b bs)
  obtain n f where b: "b = (n, f)" by (cases b)
  have "fst x \<noteq> a + 24" if "x \<in> used (a + 24 + n) bs" for x
    using used_bounds [of "fst x" "snd x" "a + 24 + n" bs] that by auto
  moreover have "h - a - (24 + n) = h - (a + 24 + n)" by simp
  ultimately show ?case using Cons hdrs_bounds [of h "a + 24 + n" bs] by (auto simp: b)
qed

text \<open>No header lies in a data area.\<close>

lemma hdrs_used_disjoint:
  "h \<in> set (hdrs a bs) \<Longrightarrow> (b, n) \<in> used a bs \<Longrightarrow> h + 24 \<le> b \<or> b + n \<le> h"
proof (induction bs arbitrary: a)
  case (Cons c bs)
  obtain k f where "c = (k, f)" by (cases c)
  with Cons hdrs_bounds [of h "a + 24 + k" bs] used_bounds [of b n "a + 24 + k" bs] show ?case
    by (auto split: if_splits)
qed simp

lemma mark_frame:
  assumes "h \<in> set (hdrs a bs)" and "a + span bs < 2 ^ 63"
  shows "heap_frame m (set_hdr_free (of_nat h) v m) a bs"
proof -
  note hb = hdrs_bounds [OF assms(1)]
  have lt: "h + 24 < 2 ^ 64" using hb assms(2) by simp
  have "same_on m (set_hdr_free (of_nat h) v m) b (b + n)" if "(b, n) \<in> used a bs" for b n
    by (rule same_on_set_hdr(2) [OF hdrs_used_disjoint [OF assms(1) that] lt])
  moreover have "same_on m (set_hdr_free (of_nat h) v m) 0 a"
    "same_on m (set_hdr_free (of_nat h) v m) (a + span bs) (2 ^ 64)"
    by (rule same_on_set_hdr(2) [OF _ lt]; use hb in simp)+
  ultimately show ?thesis unfolding heap_frame_def by auto
qed

section \<open>First fit on the abstraction\<close>

lemma fit_none: "fit k bs = None \<longleftrightarrow> (\<forall>(n, f) \<in> set bs. f \<longrightarrow> n < k)"
  by (induction k bs rule: fit.induct) (auto split: option.splits)

lemma fit_Nil: "fit k bs = Some (d, cs) \<Longrightarrow> cs \<noteq> []"
  by (cases "(k, bs)" rule: fit.cases) (auto split: if_splits option.splits)

lemma fit_span: "fit k bs = Some (d, cs) \<Longrightarrow> span cs = span bs"
  by (induction k bs arbitrary: d cs rule: fit.induct) (auto split: if_splits option.splits)

lemma fit_hdr: "fit k bs = Some (d, cs) \<Longrightarrow> a + d \<in> set (hdrs a bs)"
proof (induction k bs arbitrary: d cs a rule: fit.induct)
  case (2 k n f bs)
  show ?case
  proof (cases "f \<and> k \<le> n")
    case False
    then obtain d' cs' where f: "fit k bs = Some (d', cs')" and d: "d = 24 + n + d'"
      using 2(2) by (auto split: option.splits)
    have "a + 24 + n + d' \<in> set (hdrs (a + 24 + n) bs)" by (rule 2(1) [OF False f])
    then show ?thesis unfolding d by (simp add: add.assoc)
  qed (use 2(2) in simp)
qed simp

text \<open>The area handed out is big enough, was not in use, and overlaps no area in use.\<close>

lemma fit_used:
  "fit k bs = Some (d, cs) \<Longrightarrow> \<exists>n \<ge> k. used a cs = insert (a + d + 24, n) (used a bs) \<and>
     a + d + 24 + n \<le> a + span bs \<and> (\<forall>(b, j) \<in> used a bs. b + j \<le> a + d \<or> a + d + 24 + n + 24 \<le> b)"
proof (induction k bs arbitrary: d cs a rule: fit.induct)
  case (1 k)
  then show ?case by simp
next
  case (2 k n f bs)
  show ?case
  proof (cases "f \<and> k \<le> n")
    case True
    let ?n = "if k + 32 < n then k else n"
    have cs: "d = 0" "used a cs = insert (a + 24, ?n) (used a ((n, f) # bs))"
      using 2(2) True by (auto simp: ac_simps split: if_splits)
    have "a + 24 + n + 24 \<le> b" if "(b, j) \<in> used a ((n, f) # bs)" for b j
      using used_bounds [of b j "a + 24 + n" bs] that True by auto
    then show ?thesis using cs True by (intro exI [of _ ?n]) force
  next
    case False
    then obtain d' cs' where f: "fit k bs = Some (d', cs')" and d: "d = 24 + n + d'" "cs = (n, f) # cs'"
      using 2(2) by (auto split: option.splits)
    from 2(1) [OF False f, of "a + 24 + n"] obtain l where
      "k \<le> l" "used (a + 24 + n) cs' = insert (a + 24 + n + d' + 24, l) (used (a + 24 + n) bs)"
      "a + 24 + n + d' + 24 + l \<le> a + 24 + n + span bs"
      "\<forall>(b, j) \<in> used (a + 24 + n) bs. b + j \<le> a + 24 + n + d' \<or> a + 24 + n + d' + 24 + l + 24 \<le> b" by auto
    then show ?thesis by (intro exI [of _ l]) (auto simp: d ac_simps)
  qed
qed

lemma used_disjoint:
  "(b, n) \<in> used a bs \<Longrightarrow> (c, k) \<in> used a bs \<Longrightarrow> (b, n) = (c, k) \<or> b + n + 24 \<le> c \<or> c + k + 24 \<le> b"
proof (induction bs arbitrary: a)
  case (Cons x bs)
  obtain l f where "x = (l, f)" by (cases x)
  with Cons used_bounds [of b n "a + 24 + l" bs] used_bounds [of c k "a + 24 + l" bs] show ?case
    by (auto split: if_splits)
qed simp

text \<open>After coalescing no two neighbours are both free.\<close>

fun no_free_pair :: "blk list \<Rightarrow> bool" where
  "no_free_pair ((n, f) # (n', f') # bs) = (\<not> (f \<and> f') \<and> no_free_pair ((n', f') # bs))"
| "no_free_pair bs = True"

lemma coalesce_head: "bs \<noteq> [] \<Longrightarrow> snd (hd (coalesce bs)) = snd (hd bs)"
  by (induction bs rule: coalesce.induct) auto

lemma coalesce_no_free_pair: "no_free_pair (coalesce bs)"
proof (induction bs rule: coalesce.induct)
  case (1 n f n' f' bs)
  show ?case
  proof (cases "f \<and> f'")
    case False
    obtain k g cs where c: "coalesce ((n', f') # bs) = (k, g) # cs"
      by (metis coalesce_Nil list.distinct(1) list.exhaust prod.exhaust)
    then have "g = f'" using coalesce_head [of "(n', f') # bs"] by simp
    with 1(2) [OF False] c False show ?thesis by auto
  qed (use 1 in simp)
qed auto

lemma no_free_pair_all_free:
  "no_free_pair bs \<Longrightarrow> bs \<noteq> [] \<Longrightarrow> used a bs = {} \<Longrightarrow> bs = [(span bs - 24, True)]"
  by (induction bs rule: no_free_pair.induct) (auto split: if_splits)

section \<open>The heap as an allocator\<close>

text \<open>The blocks read off the memory; the fuel is the heap's size, more than there can be headers.\<close>

fun hblocks :: "nat \<Rightarrow> memory \<Rightarrow> u64 \<Rightarrow> blk list" where
  "hblocks 0 m b = []"
| "hblocks (Suc k) m b =
     (if b = NULL then [] else (unat (hdr_size m b), hdr_free m b \<noteq> 0) # hblocks k m (hdr_next m b))"

definition heap_blocks :: "'a heap_state_scheme \<Rightarrow> blk list" where
  "heap_blocks s = hblocks HEAP_BYTES (mem s) (heap_head s)"

definition heap_inv :: "'a heap_state_scheme \<Rightarrow> bool" where
  "heap_inv s \<longleftrightarrow> heap_rep s (heap_blocks s)"

definition live :: "'a heap_state_scheme \<Rightarrow> (nat \<times> nat) set" where
  "live s = used HEAP_BASE (heap_blocks s)"

lemma hblocks_rep:
  assumes "rep m a bs" and "0 < a" and "a + span bs < 2 ^ 63" and "length bs \<le> k"
  shows "hblocks k m (if bs = [] then NULL else of_nat a) = bs"
  using assms
proof (induction bs arbitrary: a k)
  case Nil
  then show ?case by (cases k) simp_all
next
  case (Cons b bs)
  obtain n f where b: "b = (n, f)" by (cases b)
  obtain j where k: "k = Suc j" using Cons.prems(4) by (cases k) auto
  have lt: "a < 2 ^ 64" "n < 2 ^ 64" using Cons.prems(3) by (simp_all add: b)
  have a0: "(of_nat a :: u64) \<noteq> NULL" using of_nat_eq_0_u64 [OF lt(1)] Cons.prems(2) by simp
  have "hblocks j m (if bs = [] then NULL else of_nat (a + 24 + n)) = bs"
    by (rule Cons.IH) (use Cons.prems b k in auto)
  then show ?case using Cons.prems(1) a0 lt(2) by (simp add: b k del: of_nat_add)
qed

lemma length_span: "length bs \<le> span bs"
  by (induction bs) auto

lemma heap_bounds: "0 < HEAP_BASE" "HEAP_BASE + HEAP_BYTES < 2 ^ 63" "HEAP_START = of_nat HEAP_BASE"
  by (simp_all add: HEAP_BASE_def HEAP_BYTES_def HEAP_START_def HEAP_PAGES_def)

lemma heap_rep_blocks: "heap_rep s bs \<Longrightarrow> heap_blocks s = bs"
  using hblocks_rep [of "mem s" HEAP_BASE bs HEAP_BYTES] length_span [of bs] heap_bounds
  by (simp add: heap_rep_def heap_blocks_def)

lemma heap_rep_inv: "heap_rep s bs \<Longrightarrow> heap_inv s"
  by (simp add: heap_inv_def heap_rep_blocks)

text \<open>Rounding up to a multiple of eight, exact as long as the sum does not wrap.\<close>

definition round8 :: "nat \<Rightarrow> nat" where
  "round8 n = 8 * ((n + 7) div 8)"

lemma round8: "round8 n mod 8 = 0" "n \<le> round8 n" "round8 n \<le> n + 7"
  by (simp_all add: round8_def)

lemma and_not7: "unat ((x::u64) AND NOT 7) = 8 * (unat x div 8)"
proof -
  have m: "(7::u64) = mask 3" by (simp add: mask_eq_exp_minus_1)
  have "x AND NOT 7 = push_bit 3 (drop_bit 3 x)"
    unfolding m by (rule bit_word_eqI) (auto simp: bit_and_iff bit_not_iff bit_mask_iff bit_push_bit_iff bit_drop_bit_eq)
  then have d: "x AND NOT 7 = x - x mod 8"
    using bits_ident [of 3 x] by (simp add: eq_diff_eq take_bit_eq_mod)
  have le: "x mod 8 \<le> x" by (simp add: word_le_nat_alt unat_mod)
  have "unat (x AND NOT 7) = unat x - unat x mod 8"
    unfolding d by (simp add: unat_sub [OF le] unat_mod)
  then show ?thesis by (simp add: minus_mod_eq_mult_div)
qed

lemma round8_word: "unat sz + 7 < 2 ^ 64 \<Longrightarrow> (sz + 7) AND NOT 7 = (of_nat (round8 (unat sz)) :: u64)"
proof -
  assume lt: "unat sz + 7 < 2 ^ 64"
  then have u: "unat (sz + 7) = unat sz + 7" by (simp add: unat_word_ariths)
  have "round8 (unat sz) < 2 ^ 64" using lt unfolding round8_def by simp
  then show ?thesis
    by (intro word_unat_eq_iff [THEN iffD2]) (simp only: and_not7 u unat_addr, simp add: round8_def)
qed

lemma kmalloc_fit_rounded:
  assumes inv: "heap_inv s" and sz: "sz \<noteq> 0" "(sz + 7) AND NOT 7 = of_nat k" and k8: "k mod 8 = 0" and k: "k < 2 ^ 64"
  shows "case fit k (heap_blocks s) of
      None \<Rightarrow> kmalloc sz s = Ret NULL s
    | Some (d, cs) \<Rightarrow> \<exists>m'. kmalloc sz s = Ret (of_nat (HEAP_BASE + d + 24)) (s\<lparr>mem := m'\<rparr>) \<and>
        heap_rep (s\<lparr>mem := m'\<rparr>) cs \<and> heap_frame (mem s) m' HEAP_BASE (heap_blocks s)"
proof -
  let ?bs = "heap_blocks s"
  have r: "heap_head s = HEAP_START" "?bs \<noteq> []" "span ?bs = HEAP_BYTES" "rep (mem s) HEAP_BASE ?bs"
    using inv by (simp_all add: heap_inv_def heap_rep_def)
  have lp: "case fit k ?bs of None \<Rightarrow> kmalloc_loop (of_nat k) HEAP_START (mem s) = Some (NULL, mem s)
    | Some (d, cs) \<Rightarrow> \<exists>m'. kmalloc_loop (of_nat k) HEAP_START (mem s) = Some (of_nat (HEAP_BASE + d + 24), m') \<and>
        rep m' HEAP_BASE cs \<and> heap_frame (mem s) m' HEAP_BASE ?bs"
    using kmalloc_loop_fit [OF r(4) heap_bounds(1) _ k8 k, unfolded r(3) if_not_P [OF r(2)], OF heap_bounds(2)]
    unfolding heap_bounds(3) .
  have km: "kmalloc sz s = of_loop (map_option (\<lambda>(p, m). Ret p (s\<lparr>mem := m\<rparr>))
      (kmalloc_loop (of_nat k) HEAP_START (mem s)))"
    unfolding kmalloc_def r(1) Let_def sz(2) by (simp only: sz(1) if_False)
  show ?thesis
  proof (cases "fit k ?bs")
    case None
    with lp show ?thesis by (simp add: km)
  next
    case (Some x)
    obtain d cs where x: "x = (d, cs)" by (cases x)
    with lp Some obtain m' where m': "kmalloc_loop (of_nat k) HEAP_START (mem s) = Some (of_nat (HEAP_BASE + d + 24), m')"
      "rep m' HEAP_BASE cs" "heap_frame (mem s) m' HEAP_BASE ?bs" by auto
    then have "heap_rep (s\<lparr>mem := m'\<rparr>) cs"
      using r Some x fit_Nil fit_span by (auto simp: heap_rep_def)
    with m' Some x km show ?thesis by (auto simp del: of_nat_add)
  qed
qed

lemma kmalloc_fit:
  assumes inv: "heap_inv s" and sz: "sz \<noteq> 0" "unat sz + 7 < 2 ^ 64"
  shows "case fit (round8 (unat sz)) (heap_blocks s) of
      None \<Rightarrow> kmalloc sz s = Ret NULL s
    | Some (d, cs) \<Rightarrow> \<exists>m'. kmalloc sz s = Ret (of_nat (HEAP_BASE + d + 24)) (s\<lparr>mem := m'\<rparr>) \<and>
        heap_rep (s\<lparr>mem := m'\<rparr>) cs \<and> heap_frame (mem s) m' HEAP_BASE (heap_blocks s)"
proof (rule kmalloc_fit_rounded [OF inv sz(1) round8_word [OF sz(2)] round8(1)])
  show "round8 (unat sz) < 2 ^ 64" using round8(3) [of "unat sz"] sz(2) by simp
qed

lemma kfree_mark:
  assumes inv: "heap_inv s" and p: "(unat p, n) \<in> live s"
  shows "\<exists>m'. kfree p s = Ret () (s\<lparr>mem := m'\<rparr>) \<and>
    heap_rep (s\<lparr>mem := m'\<rparr>) (coalesce (mark (unat p - 24 - HEAP_BASE) (heap_blocks s))) \<and>
    heap_frame (mem s) m' HEAP_BASE (mark (unat p - 24 - HEAP_BASE) (heap_blocks s))"
proof -
  let ?bs = "heap_blocks s" and ?h = "unat p - 24"
  let ?cs = "mark (?h - HEAP_BASE) ?bs" and ?m = "set_hdr_free (of_nat ?h) 1 (mem s)"
  have r: "heap_head s = HEAP_START" "?bs \<noteq> []" "span ?bs = HEAP_BYTES" "rep (mem s) HEAP_BASE ?bs"
    using inv by (simp_all add: heap_inv_def heap_rep_def)
  have h: "24 \<le> unat p" "?h \<in> set (hdrs HEAP_BASE ?bs)" using used_hdrs p by (auto simp: live_def)
  have lt: "HEAP_BASE + span ?bs < 2 ^ 63" using r(3) heap_bounds(2) by simp
  have ph: "p - 24 = of_nat ?h" "p \<noteq> NULL"
  proof -
    have "of_nat (unat p - 24) = (of_nat (unat p) - 24 :: u64)" using h(1) by (simp add: of_nat_diff)
    then show "p - 24 = of_nat ?h" by simp
    show "p \<noteq> NULL" using h(1) by auto
  qed
  have "rep ?m HEAP_BASE ?cs" by (rule mark_effect [OF r(4) h(2) lt])
  from kfree_loop_coalesce [OF this _ heap_bounds(1)] r(2) lt obtain m' where
    m': "kfree_loop HEAP_START ?m = Some m'" "rep m' HEAP_BASE (coalesce ?cs)" "heap_frame ?m m' HEAP_BASE ?cs"
    by (auto simp: heap_bounds(3))
  have "heap_frame (mem s) ?m HEAP_BASE ?bs" by (rule mark_frame [OF h(2) lt])
  then have "heap_frame (mem s) ?m HEAP_BASE ?cs"
    using mark_used [OF h(2)] by (auto simp: heap_frame_def)
  from heap_frame_trans [OF this m'(3)] have f: "heap_frame (mem s) m' HEAP_BASE ?cs" by simp
  have "kfree p s = Ret () (s\<lparr>mem := m'\<rparr>)"
    using m'(1) by (simp add: kfree_def ph r(1) Let_def)
  moreover have "heap_rep (s\<lparr>mem := m'\<rparr>) (coalesce ?cs)"
    using r m'(2) by (simp add: heap_rep_def)
  ultimately show ?thesis using f by blast
qed

end
