(* ===== verification/Kheap_Alloc.thy ===== *)
theory Kheap_Alloc
  imports Kheap
begin

text \<open>
  The kernel heap as an allocator: the interface its clients rely on as the locale
  \<open>block_allocator\<close>, interpreted on \<open>kmalloc\<close> and \<open>kfree\<close>; the mapping of the heap's pages
  by \<open>heap_init\<close>; zeroed allocation; and the properties of the heap.
\<close>

section \<open>The interface of a memory allocator\<close>

text \<open>
  What clients of an allocator rely on. \<open>areas s\<close> are the data areas in use, as address
  and size; \<open>byte s\<close> is the memory. Areas in use never overlap; allocation returns null
  and changes nothing, or returns a new area of at least the size asked for; release of
  an area in use removes it. Neither changes a byte of an area that stays in use.
\<close>

primrec malloc_all :: "(u64 \<Rightarrow> 's \<Rightarrow> ('s, u64) outcome) \<Rightarrow> u64 list \<Rightarrow> 's \<Rightarrow> ('s, u64 list) outcome" where
  "malloc_all alloc [] s = Ret [] s"
| "malloc_all alloc (sz # szs) s =
     obind (alloc sz s) (\<lambda>p t. obind (malloc_all alloc szs t) (\<lambda>ps u. Ret (p # ps) u))"

locale block_allocator =
  fixes alloc :: "u64 \<Rightarrow> 's \<Rightarrow> ('s, u64) outcome"
    and release :: "u64 \<Rightarrow> 's \<Rightarrow> ('s, unit) outcome"
    and areas :: "'s \<Rightarrow> (nat \<times> nat) set"
    and byte :: "'s \<Rightarrow> memory"
    and ok :: "'s \<Rightarrow> bool"
  assumes areas_disjoint: "ok s \<Longrightarrow> (b, n) \<in> areas s \<Longrightarrow> (c, k) \<in> areas s \<Longrightarrow>
      (b, n) = (c, k) \<or> b + n < c \<or> c + k < b"
    and areas_pos: "ok s \<Longrightarrow> (b, n) \<in> areas s \<Longrightarrow> 0 < b"
    and alloc_ok: "ok s \<Longrightarrow> sz \<noteq> 0 \<Longrightarrow> unat sz + 7 < 2 ^ 64 \<Longrightarrow>
      \<exists>p s'. alloc sz s = Ret p s' \<and> ok s' \<and>
        (p = NULL \<and> s' = s \<or>
         (\<exists>n \<ge> unat sz. areas s' = insert (unat p, n) (areas s) \<and> (unat p, n) \<notin> areas s) \<and>
         (\<forall>(b, n) \<in> areas s. same_on (byte s) (byte s') b (b + n)))"
    and release_ok: "ok s \<Longrightarrow> (unat p, n) \<in> areas s \<Longrightarrow>
      \<exists>s'. release p s = Ret () s' \<and> ok s' \<and> areas s' = areas s - {(unat p, n)} \<and>
        (\<forall>(b, k) \<in> areas s'. same_on (byte s) (byte s') b (b + k))"
begin

lemma area_of_pointer: "ok s \<Longrightarrow> (b, n) \<in> areas s \<Longrightarrow> (b, k) \<in> areas s \<Longrightarrow> n = k"
  using areas_disjoint [of s b n b k] by auto

text \<open>Any number of requests: all return, the areas they get are in use at the end, and they are pairwise apart.\<close>

lemma malloc_all_disjoint:
  assumes "ok s" and "\<forall>sz \<in> set szs. sz \<noteq> 0 \<and> unat sz + 7 < 2 ^ 64"
  shows "\<exists>ps s'. malloc_all alloc szs s = Ret ps s' \<and> ok s' \<and> length ps = length szs \<and> areas s \<subseteq> areas s' \<and>
    (\<forall>i < length ps. ps ! i \<noteq> NULL \<longrightarrow> (\<exists>n \<ge> unat (szs ! i). (unat (ps ! i), n) \<in> areas s' \<and> (unat (ps ! i), n) \<notin> areas s)) \<and>
    (\<forall>i j. i < j \<longrightarrow> j < length ps \<longrightarrow> ps ! i \<noteq> NULL \<longrightarrow> ps ! i \<noteq> ps ! j) \<and>
    (\<forall>(b, n) \<in> areas s. same_on (byte s) (byte s') b (b + n))"
  using assms
proof (induction szs arbitrary: s)
  case Nil
  then show ?case by auto
next
  case (Cons sz szs)
  obtain p s1 where p: "alloc sz s = Ret p s1" "ok s1" and
    c: "p = NULL \<and> s1 = s \<or> (\<exists>n \<ge> unat sz. areas s1 = insert (unat p, n) (areas s) \<and> (unat p, n) \<notin> areas s) \<and>
         (\<forall>(b, n) \<in> areas s. same_on (byte s) (byte s1) b (b + n))"
    using alloc_ok [OF Cons.prems(1), of sz] Cons.prems(2) by auto
  from Cons.IH [OF p(2)] Cons.prems(2) obtain ps s' where
    i: "malloc_all alloc szs s1 = Ret ps s'" "ok s'" "length ps = length szs" "areas s1 \<subseteq> areas s'"
      "\<forall>i < length ps. ps ! i \<noteq> NULL \<longrightarrow> (\<exists>n \<ge> unat (szs ! i). (unat (ps ! i), n) \<in> areas s' \<and> (unat (ps ! i), n) \<notin> areas s1)"
      "\<forall>i j. i < j \<longrightarrow> j < length ps \<longrightarrow> ps ! i \<noteq> NULL \<longrightarrow> ps ! i \<noteq> ps ! j"
      "\<forall>(b, n) \<in> areas s1. same_on (byte s1) (byte s') b (b + n)" by auto
  have sub: "areas s \<subseteq> areas s1" using c by auto
  have new: "\<exists>n \<ge> unat sz. (unat p, n) \<in> areas s1 \<and> (unat p, n) \<notin> areas s" if "p \<noteq> NULL" using c that by auto
  have apart: "p \<noteq> ps ! j" if pj: "p \<noteq> NULL" "j < length ps" for j
  proof
    assume e: "p = ps ! j"
    with i(5) pj obtain n where "(unat p, n) \<in> areas s'" "(unat p, n) \<notin> areas s1" by blast
    moreover obtain k where "(unat p, k) \<in> areas s1" using new [OF pj(1)] by blast
    ultimately show False using area_of_pointer [OF i(2)] i(4) by blast
  qed
  have bytes: "\<forall>(b, n) \<in> areas s. same_on (byte s) (byte s1) b (b + n)" using c by auto
  have "\<exists>n \<ge> unat ((sz # szs) ! j). (unat ((p # ps) ! j), n) \<in> areas s' \<and> (unat ((p # ps) ! j), n) \<notin> areas s"
    if "j < length (p # ps)" "(p # ps) ! j \<noteq> NULL" for j
    using that new i(4,5) sub by (cases j) (auto, blast+)
  moreover have "(p # ps) ! j \<noteq> (p # ps) ! k" if "j < k" "k < length (p # ps)" "(p # ps) ! j \<noteq> NULL" for j k
    using that apart i(6) by (cases j; cases k) auto
  moreover have "same_on (byte s) (byte s') b (b + n)" if "(b, n) \<in> areas s" for b n
    using same_on_trans [of "byte s" "byte s1" b "b + n" "byte s'"] bytes i(7) that sub by auto
  ultimately show ?case using p(1) i(1,2,3,4) sub by (intro exI [of _ "p # ps"] exI [of _ s']) auto
qed

end

lemma kmalloc_live:
  assumes inv: "heap_inv s" and sz: "sz \<noteq> 0" "unat sz + 7 < 2 ^ 64"
  shows "\<exists>p s'. kmalloc sz s = Ret p s' \<and> heap_inv s' \<and>
    (p = NULL \<and> s' = s \<or>
     (\<exists>n \<ge> unat sz. live s' = insert (unat p, n) (live s) \<and> (unat p, n) \<notin> live s) \<and>
     (\<forall>(b, n) \<in> live s. same_on (mem s) (mem s') b (b + n)))"
proof (cases "fit (round8 (unat sz)) (heap_blocks s)")
  case None
  then show ?thesis using kmalloc_fit [OF assms] inv by simp
next
  case (Some x)
  obtain d cs where x: "x = (d, cs)" by (cases x)
  then obtain m' where m': "kmalloc sz s = Ret (of_nat (HEAP_BASE + d + 24)) (s\<lparr>mem := m'\<rparr>)"
    "heap_rep (s\<lparr>mem := m'\<rparr>) cs" "heap_frame (mem s) m' HEAP_BASE (heap_blocks s)"
    using kmalloc_fit [OF assms] Some by auto
  from fit_used [OF Some [unfolded x], of HEAP_BASE] obtain n where n: "round8 (unat sz) \<le> n"
    "used HEAP_BASE cs = insert (HEAP_BASE + d + 24, n) (used HEAP_BASE (heap_blocks s))"
    "HEAP_BASE + d + 24 + n \<le> HEAP_BASE + span (heap_blocks s)"
    "\<forall>(b, j) \<in> used HEAP_BASE (heap_blocks s). b + j \<le> HEAP_BASE + d \<or> HEAP_BASE + d + 24 + n + 24 \<le> b" by auto
  have sp: "span (heap_blocks s) = HEAP_BYTES" using inv by (simp add: heap_inv_def heap_rep_def)
  have u: "unat (of_nat (HEAP_BASE + d + 24) :: u64) = HEAP_BASE + d + 24"
    by (rule unat_addr) (use n(3) sp heap_bounds(2) in simp)
  have "unat sz \<le> n" using n(1) round8(2) [of "unat sz"] by simp
  moreover have "(HEAP_BASE + d + 24, n) \<notin> live s" using n(4) by (auto simp: live_def)
  moreover have "live (s\<lparr>mem := m'\<rparr>) = insert (HEAP_BASE + d + 24, n) (live s)"
    unfolding live_def heap_rep_blocks [OF m'(2)] by (rule n(2))
  moreover have "\<forall>(b, n) \<in> live s. same_on (mem s) m' b (b + n)"
    using m'(3) by (simp add: heap_frame_def live_def)
  ultimately show ?thesis using m'(1) heap_rep_inv [OF m'(2)] u by (auto simp del: of_nat_add)
qed

lemma kfree_live:
  assumes inv: "heap_inv s" and p: "(unat p, n) \<in> live s"
  shows "\<exists>s'. kfree p s = Ret () s' \<and> heap_inv s' \<and> live s' = live s - {(unat p, n)} \<and>
    (\<forall>(b, k) \<in> live s'. same_on (mem s) (mem s') b (b + k))"
proof -
  let ?h = "unat p - 24" and ?bs = "heap_blocks s"
  from kfree_mark [OF assms] obtain m' where m': "kfree p s = Ret () (s\<lparr>mem := m'\<rparr>)"
    "heap_rep (s\<lparr>mem := m'\<rparr>) (coalesce (mark (?h - HEAP_BASE) ?bs))"
    "heap_frame (mem s) m' HEAP_BASE (mark (?h - HEAP_BASE) ?bs)" by blast
  have h: "24 \<le> unat p" "?h \<in> set (hdrs HEAP_BASE ?bs)" using used_hdrs p by (auto simp: live_def)
  have lv: "live (s\<lparr>mem := m'\<rparr>) = used HEAP_BASE (mark (?h - HEAP_BASE) ?bs)"
    unfolding live_def heap_rep_blocks [OF m'(2)] by simp
  have "fst x \<noteq> unat p \<longleftrightarrow> x \<noteq> (unat p, n)" if "x \<in> live s" for x
    using used_disjoint [of "fst x" "snd x" HEAP_BASE ?bs "unat p" n] p that by (cases x) (auto simp: live_def)
  moreover have "?h + 24 = unat p" using h(1) by simp
  ultimately have "live (s\<lparr>mem := m'\<rparr>) = live s - {(unat p, n)}"
    unfolding lv mark_used [OF h(2)] by (auto simp: live_def)
  with m'(1) heap_rep_inv [OF m'(2)] m'(3) lv show ?thesis by (auto simp: heap_frame_def)
qed

interpretation kernel_heap: block_allocator kmalloc kfree live mem heap_inv
proof (unfold_locales, goal_cases)
  case (1 s b n c k)
  then show ?case using used_disjoint [of b n HEAP_BASE "heap_blocks s" c k] by (auto simp: live_def)
next
  case (2 s b n)
  then show ?case using used_bounds [of b n HEAP_BASE "heap_blocks s"] by (auto simp: live_def)
next
  case (3 s sz)
  then show ?case by (rule kmalloc_live)
next
  case (4 s p n)
  then show ?case by (rule kfree_live)
qed

section \<open>Building the heap\<close>

definition heap_page :: "nat \<Rightarrow> u64" where
  "heap_page i = HEAP_START + of_nat i * PAGE_SIZE"

lemma unat_heap_page: "i < HEAP_PAGES \<Longrightarrow> unat (heap_page i) = 0xC0000000 + i * 4096"
  by (simp add: heap_page_def HEAP_START_def HEAP_PAGES_def unat_word_ariths unat_of_nat_small)

lemma low_page_mask:
  assumes "unat v mod 4096 = 0" and "unat v < 2 ^ 48"
  shows "v AND 0xFFFFFFFFF000 = (v::u64)"
proof -
  have "(0xFFFFFFFFF000 :: u64) = mask 48 AND NOT (mask 12)" by (simp add: mask_eq_exp_minus_1)
  moreover have "take_bit 48 v = v" using assms(2)
    by (intro word_unat_eq_iff [THEN iffD2]) (simp add: unsigned_take_bit_eq take_bit_eq_mod unat_mod)
  moreover have "v AND NOT (mask 12) = v"
    using ENTRY_ADDR_aligned [of v] assms(1) by (simp add: ENTRY_ADDR_def page_aligned_def mask_eq_exp_minus_1)
  ultimately show ?thesis by (simp only: take_bit_eq_mask and.assoc [symmetric]) 
qed

lemma heap_page_distinct:
  assumes "i < HEAP_PAGES" "j < HEAP_PAGES"
  shows "va_path (heap_page i) = va_path (heap_page j) \<longleftrightarrow> i = j"
proof -
  have pg: "unat (heap_page k) mod 4096 = 0" "unat (heap_page k) < 2 ^ 48" if "k < HEAP_PAGES" for k
    using unat_heap_page [OF that] that by (simp_all add: HEAP_PAGES_def)
  have "heap_page k AND 0xFFFFFFFFF000 = heap_page k" if "k < HEAP_PAGES" for k
    by (rule low_page_mask) (simp_all only: pg that)
  then have "va_path (heap_page i) = va_path (heap_page j) \<longleftrightarrow> heap_page i = heap_page j"
    unfolding va_path_eq_iff using assms by simp
  also have "\<dots> \<longleftrightarrow> i = j"
  proof
    assume "heap_page i = heap_page j"
    then have "unat (heap_page i) = unat (heap_page j)" by (rule arg_cong)
    then show "i = j" unfolding unat_heap_page [OF assms(1)] unat_heap_page [OF assms(2)] by linarith
  qed (rule arg_cong)
  finally show ?thesis .
qed

text \<open>The memory of the page tables stays clear of the page that holds the first header.\<close>

definition tables_avoid :: "u64 \<Rightarrow> u64 \<Rightarrow> memory \<Rightarrow> bool" where
  "tables_avoid x r m \<longleftrightarrow> (\<forall>p. vpath p \<longrightarrow> length p \<le> 3 \<longrightarrow> pview m r p \<noteq> Some (x, False))"

lemma mapped_avoid:
  assumes m: "mapped r v e t3 t2 t1 s s'" and x: "tables_avoid x r (mem s)" "x \<notin> avail s"
  shows "tables_avoid x r (mem s')"
proof -
  let ?q1 = "[PML4_INDEX v]" and ?q2 = "[PDPT_INDEX v, PML4_INDEX v]" and ?q3 = "[PD_INDEX v, PDPT_INDEX v, PML4_INDEX v]"
  have vp: "vpath ?q1" "vpath ?q2" "vpath ?q3" by (simp_all add: vpath_def)
  have n: "pview (mem s) r q \<noteq> Some (x, False)" if "vpath q" "length q \<le> 3" for q
    using x(1) that unfolding tables_avoid_def by blast
  note md = m [unfolded mapped_def Let_def]
  have t: "t3 \<noteq> x" "t2 \<noteq> x" "t1 \<noteq> x"
    using md n [OF vp(1)] n [OF vp(2)] n [OF vp(3)] x(2) by (auto simp del: pview.simps)
  have "pview (mem s') r q \<noteq> Some (x, False)" if "vpath q" "length q \<le> 3" for q
  proof -
    have "q \<noteq> va_path v" using that(2) by (auto simp: va_path_def)
    then show ?thesis using mappedD(1) [OF m that(1)] that n [OF that] t by (auto simp del: pview.simps)
  qed
  then show ?thesis unfolding tables_avoid_def by blast
qed

lemma mapped_no_huge:
  assumes m: "mapped r v e t3 t2 t1 s s'" and h: "no_huge r w (mem s)"
  shows "no_huge r w (mem s')"
proof -
  let ?q2 = "[PDPT_INDEX w, PML4_INDEX w]" and ?q3 = "[PD_INDEX w, PDPT_INDEX w, PML4_INDEX w]"
  have vp: "vpath ?q2" "vpath ?q3" "?q2 \<noteq> va_path v" "?q3 \<noteq> va_path v" by (simp_all add: vpath_def va_path_def)
  have "pview (mem s') r ?q2 \<noteq> Some (a, True)" "pview (mem s') r ?q3 \<noteq> Some (a, True)" for a
    using mappedD(1) [OF m vp(1)] mappedD(1) [OF m vp(2)] no_hugeD [OF h, of a] vp(3,4)
    by (auto simp del: pview.simps)
  then show ?thesis unfolding no_huge_def by blast
qed

text \<open>A frame allocated and mapped at one page.\<close>

lemma page_step:
  assumes wf: "as_wf r s" and r: "r = ENTRY_ADDR (cr3 s)" and nh: "no_huge r v (mem s)"
    and av: "4 \<le> card (avail s)" and fl: "fl AND NOT 0xFFF = 0"
  shows "\<exists>f s1 s' t3 t2 t1. pmm_alloc s = (f, s1) \<and> f \<noteq> NULL \<and> f \<in> avail s \<and> mem s1 = mem s \<and> cr3 s1 = cr3 s \<and> avail s1 = avail s - {f} \<and>
    vmm_map v f fl s1 = Ret () s' \<and> as_wf r s' \<and> cr3 s' = cr3 s \<and> avail s' \<subseteq> avail s - {f} \<and> card (avail s) \<le> card (avail s') + 4 \<and>
    mapped r v (f OR fl OR PTE_PRESENT) t3 t2 t1 s1 s' \<and>
    (\<forall>w. vmm_get_phys w s' = (if va_path w = va_path v then f else vmm_get_phys w s))"
proof -
  have ne: "avail s \<noteq> {}" using av by auto
  obtain f s1 where al: "pmm_alloc s = (f, s1)" and f: "f \<in> avail s" and av1: "avail s1 = avail s - {f}"
    and inv1: "pmm_inv s1" using bitmap_pmm.alloc_take [OF as_wfD(1) [OF wf] ne] by blast
  have fp: "f \<noteq> NULL" "page_aligned f"
    using bitmap_pmm.frames_page [OF as_wfD(1) [OF wf] f] by (simp_all add: page_aligned_mask)
  have m1: "mem s1 = mem s" "cr3 s1 = cr3 s" using pmm_alloc_vmm [OF al] by simp_all
  have wf1: "as_wf r s1" by (rule as_wf_same [OF wf inv1]) (use av1 m1 in auto)
  have c1: "card (avail s1) + 1 = card (avail s)"
    using f av1 bitmap_pmm.frames_finite [OF as_wfD(1) [OF wf]] av by simp
  have nh1: "\<And>a. pview (mem s1) r [PDPT_INDEX v, PML4_INDEX v] \<noteq> Some (a, True)"
    "\<And>a. pview (mem s1) r [PD_INDEX v, PDPT_INDEX v, PML4_INDEX v] \<noteq> Some (a, True)"
    unfolding m1 using no_hugeD [OF nh] by (simp_all only: not_False_eq_True)
  have r1: "r = ENTRY_ADDR (cr3 s1)" and av1': "3 \<le> card (avail s1)" using r m1 c1 av by simp_all
  from map_effect [OF wf1 r1 nh1 av1', where ph = f and fl = fl] obtain s' t3 t2 t1 where
    s': "vmm_map v f fl s1 = Ret () s'" "as_wf r s'" "cr3 s' = cr3 s1" "avail s' \<subseteq> avail s1"
      "card (avail s1) \<le> card (avail s') + 3" and
    mp: "mapped r v (f OR fl OR PTE_PRESENT) t3 t2 t1 s1 s'" by metis
  have e: "(f OR fl OR PTE_PRESENT) AND PTE_PRESENT \<noteq> 0" unfolding or.assoc [symmetric] by (rule pte_present_or)
  have "vmm_get_phys w s' = (if va_path w = va_path v then f else vmm_get_phys w s)" for w
  proof -
    have "vmm_get_phys w s' = walk (mem s') r w" "vmm_get_phys w s = walk (mem s) r w"
      using as_wf_get_phys [of s' w] as_wf_get_phys [of s w] s'(2,3) wf r m1 by simp_all
    then show ?thesis using walk_mapped [OF mp e, of w, unfolded ENTRY_ADDR_pte [OF fp(2) fl]] m1(1) by simp
  qed
  then have ph: "\<forall>w. vmm_get_phys w s' = (if va_path w = va_path v then f else vmm_get_phys w s)" by blast
  have c: "cr3 s' = cr3 s" "avail s' \<subseteq> avail s - {f}" "card (avail s) \<le> card (avail s') + 4"
    using s'(3-5) m1(2) c1 av1 by simp_all
  show ?thesis
    by (intro exI [of _ f] exI [of _ s1] exI [of _ s'] exI [of _ t3] exI [of _ t2] exI [of _ t1] conjI al fp(1) f m1 av1 s'(1,2) c mp ph)
qed

text \<open>One round of the loop of \<open>heap_init\<close>.\<close>

lemma heap_page_step:
  assumes wf: "as_wf r s" and r: "r = ENTRY_ADDR (cr3 s)" and nh: "\<And>j. j < HEAP_PAGES \<Longrightarrow> no_huge r (heap_page j) (mem s)"
    and av: "4 \<le> card (avail s)" and x: "tables_avoid x r (mem s)" "x \<notin> avail s" and i: "i < HEAP_PAGES"
  shows "\<exists>f s1 s'. pmm_alloc s = (f, s1) \<and> f \<noteq> NULL \<and> f \<in> avail s \<and> vmm_map (heap_page i) f 0x03 s1 = Ret () s' \<and>
    as_wf r s' \<and> cr3 s' = cr3 s \<and> (\<forall>j < HEAP_PAGES. no_huge r (heap_page j) (mem s')) \<and>
    avail s' \<subseteq> avail s - {f} \<and> card (avail s) \<le> card (avail s') + 4 \<and> tables_avoid x r (mem s') \<and>
    (\<forall>v. vmm_get_phys v s' = (if va_path v = va_path (heap_page i) then f else vmm_get_phys v s))"
proof -
  have fl: "(0x03 :: u64) AND NOT 0xFFF = 0" by simp
  from page_step [OF wf r nh [OF i] av fl] obtain f s1 s' t3 t2 t1 where
    s': "pmm_alloc s = (f, s1)" "f \<noteq> NULL" "f \<in> avail s" "mem s1 = mem s" "avail s1 = avail s - {f}"
      "vmm_map (heap_page i) f 0x03 s1 = Ret () s'" "as_wf r s'" "cr3 s' = cr3 s" "avail s' \<subseteq> avail s - {f}" "card (avail s) \<le> card (avail s') + 4"
      "\<forall>v. vmm_get_phys v s' = (if va_path v = va_path (heap_page i) then f else vmm_get_phys v s)"
    and mp: "mapped r (heap_page i) (f OR 0x03 OR PTE_PRESENT) t3 t2 t1 s1 s'" by (elim exE conjE)
  have x1: "tables_avoid x r (mem s1)" "x \<notin> avail s1" using x s'(4,5) by simp_all
  have "\<forall>j < HEAP_PAGES. no_huge r (heap_page j) (mem s')" using mapped_no_huge [OF mp] nh s'(4) by simp
  then show ?thesis by (intro exI [of _ f] exI [of _ s1] exI [of _ s'] conjI s' mapped_avoid [OF mp x1])
qed

definition write_head :: "memory \<Rightarrow> memory" where
  "write_head m = set_hdr_next HEAP_START NULL
     (set_hdr_free HEAP_START 1 (set_hdr_size HEAP_START (of_nat HEAP_PAGES * PAGE_SIZE - 24) m))"

lemma write_head_rep:
  "rep (write_head m) HEAP_BASE [(HEAP_BYTES - 24, True)]" "span [(HEAP_BYTES - 24, True)] = HEAP_BYTES"
proof -
  have lt: "HEAP_BASE + 24 < 2 ^ 64" using heap_bounds(2) by simp
  have sz: "of_nat HEAP_PAGES * PAGE_SIZE - 24 = (of_nat (HEAP_BYTES - 24) :: u64)"
    by (simp add: HEAP_BYTES_def HEAP_PAGES_def)
  show "rep (write_head m) HEAP_BASE [(HEAP_BYTES - 24, True)]"
    unfolding write_head_def heap_bounds(3) sz
    by (simp add: hdr_set_same [OF lt]) (simp add: HEAP_BYTES_def HEAP_PAGES_def)
  show "span [(HEAP_BYTES - 24, True)] = HEAP_BYTES" by (simp add: HEAP_BYTES_def HEAP_PAGES_def)
qed

lemma write_head_heap:
  "heap_head s = HEAP_START \<Longrightarrow> mem s = write_head m \<Longrightarrow> heap_rep s [(HEAP_BYTES - 24, True)]"
  using write_head_rep by (simp add: heap_rep_def)

lemma write_head_frame: "same_on m (write_head m) 0 HEAP_BASE" "same_on m (write_head m) (HEAP_BASE + 24) (2 ^ 64)"
proof -
  have lt: "HEAP_BASE + 24 < 2 ^ 64" using heap_bounds(2) by simp
  have "same_on m (write_head m) lo hi" if d: "HEAP_BASE + 24 \<le> lo \<or> hi \<le> HEAP_BASE" for lo hi
  proof -
    note s = same_on_set_hdr [OF d lt]
    show ?thesis unfolding write_head_def heap_bounds(3) by (rule same_on_trans [OF same_on_trans [OF s(1) s(2)] s(3)])
  qed
  then show "same_on m (write_head m) 0 HEAP_BASE" "same_on m (write_head m) (HEAP_BASE + 24) (2 ^ 64)" by simp_all
qed

text \<open>A range of memory the tables keep clear of can change without changing the map.\<close>

lemma pview_write_head:
  assumes av: "tables_avoid HEAP_START r m" and r: "page_aligned r" and q: "vpath q" "length q \<le> 4"
  shows "pview (write_head m) r q = pview m r q"
proof (rule pview_cong [OF _ q])
  fix p t i assume p: "vpath p" "length p < 4" "pview m r p = Some (t, False)" "unat (i::u64) < 512"
  have ta: "page_aligned t" by (rule pview_aligned [OF r p(3)])
  have "t \<noteq> HEAP_START" using av p unfolding tables_avoid_def by auto
  then have ne: "unat t \<noteq> HEAP_BASE" unfolding HEAP_BASE_def by (simp add: word_unat_eq_iff)
  obtain k where k: "unat t = 4096 * k" using ta by (auto simp: page_aligned_def)
  have u: "unat (entry_addr t i) = unat t + 8 * unat i" by (rule unat_entry_addr [OF ta p(4)])
  have "unat t + 4096 \<le> HEAP_BASE \<or> HEAP_BASE + 4096 \<le> unat t"
    using ne unfolding k HEAP_BASE_def HEAP_START_def by simp arith
  moreover have "unat t + 4096 \<le> 2 ^ 64"
    using unsigned_less [where ?'a = nat, of t] unfolding k by simp
  ultimately have "same_on m (write_head m) (unat (entry_addr t i)) (unat (entry_addr t i) + 8)"
    unfolding u
  proof (elim disjE)
    assume "unat t + 4096 \<le> HEAP_BASE"
    with p(4) show "same_on m (write_head m) (unat t + 8 * unat i) (unat t + 8 * unat i + 8)"
      by (intro same_on_mono [OF write_head_frame(1)]) simp_all
  next
    assume "HEAP_BASE + 4096 \<le> unat t" "unat t + 4096 \<le> 2 ^ 64"
    with p(4) show "same_on m (write_head m) (unat t + 8 * unat i) (unat t + 8 * unat i + 8)"
      by (intro same_on_mono [OF write_head_frame(2)]) simp_all
  qed
  moreover have "unat (entry_addr t i) + 8 \<le> 2 ^ 64" unfolding u using p(4) \<open>unat t + 4096 \<le> 2 ^ 64\<close> by simp
  ultimately show "eview (load64 (write_head m) (entry_addr t i)) = eview (load64 m (entry_addr t i))"
    by (simp only: load64_same)
qed

lemma heap_init_loop:
  assumes wf: "as_wf r s" and r: "r = ENTRY_ADDR (cr3 s)" and nh: "\<forall>j < HEAP_PAGES. no_huge r (heap_page j) (mem s)"
    and av: "4 * HEAP_PAGES \<le> card (avail s)" and x: "tables_avoid x r (mem s)" "x \<notin> avail s"
  shows "\<exists>s'. for_loop HEAP_PAGES 0
       (\<lambda>i t. case pmm_alloc t of (frame, t1) \<Rightarrow>
          if frame = NULL then Halt (vga_print (str ''Invalid frame'' @ [0x0A]) t1)
          else vmm_map (HEAP_START + of_nat i * PAGE_SIZE) frame 0x03 t1) s = Ret () s' \<and>
    as_wf r s' \<and> cr3 s' = cr3 s \<and> tables_avoid x r (mem s') \<and> card (avail s) \<le> card (avail s') + 4 * HEAP_PAGES \<and>
    (\<exists>fs. length fs = HEAP_PAGES \<and> distinct fs \<and> set fs \<subseteq> avail s - avail s' \<and>
       (\<forall>v. \<forall>j < HEAP_PAGES. va_path v = va_path (heap_page j) \<longrightarrow> vmm_get_phys v s' = fs ! j) \<and>
       (\<forall>v. (\<forall>j < HEAP_PAGES. va_path v \<noteq> va_path (heap_page j)) \<longrightarrow> vmm_get_phys v s' = vmm_get_phys v s))"
proof -
  let ?P = "\<lambda>i t. as_wf r t \<and> cr3 t = cr3 s \<and> (\<forall>j < HEAP_PAGES. no_huge r (heap_page j) (mem t)) \<and>
    card (avail s) \<le> card (avail t) + 4 * i \<and> avail t \<subseteq> avail s \<and> tables_avoid x r (mem t) \<and>
    (\<exists>fs. length fs = i \<and> distinct fs \<and> set fs \<subseteq> avail s - avail t \<and>
       (\<forall>v. \<forall>j < i. va_path v = va_path (heap_page j) \<longrightarrow> vmm_get_phys v t = fs ! j) \<and>
       (\<forall>v. (\<forall>j < i. va_path v \<noteq> va_path (heap_page j)) \<longrightarrow> vmm_get_phys v t = vmm_get_phys v s))"
  have "\<exists>t. for_loop HEAP_PAGES 0
       (\<lambda>i t. case pmm_alloc t of (frame, t1) \<Rightarrow>
          if frame = NULL then Halt (vga_print (str ''Invalid frame'' @ [0x0A]) t1)
          else vmm_map (HEAP_START + of_nat i * PAGE_SIZE) frame 0x03 t1) s = Ret () t \<and> ?P (0 + HEAP_PAGES) t"
  proof (rule for_loop_rule [where P = ?P])
    show "?P 0 s" using wf nh av x by simp
  next
    fix i t assume i: "i < 0 + HEAP_PAGES" and P: "?P i t"
    then obtain fs where fs: "length fs = i" "distinct fs" "set fs \<subseteq> avail s - avail t"
      "\<And>v j. j < i \<Longrightarrow> va_path v = va_path (heap_page j) \<Longrightarrow> vmm_get_phys v t = fs ! j"
      "\<And>v. \<forall>j < i. va_path v \<noteq> va_path (heap_page j) \<Longrightarrow> vmm_get_phys v t = vmm_get_phys v s" by auto
    have "4 \<le> card (avail t)" "x \<notin> avail t" "r = ENTRY_ADDR (cr3 t)" "i < HEAP_PAGES" using P i x r av by auto
    from heap_page_step [OF _ this(3) _ this(1) _ this(2,4)] P obtain f t1 t' where
      st: "pmm_alloc t = (f, t1)" "f \<noteq> NULL" "f \<in> avail t" "vmm_map (heap_page i) f 0x03 t1 = Ret () t'"
        "as_wf r t'" "cr3 t' = cr3 t" "\<forall>j < HEAP_PAGES. no_huge r (heap_page j) (mem t')"
        "avail t' \<subseteq> avail t - {f}" "card (avail t) \<le> card (avail t') + 4" "tables_avoid x r (mem t')"
        "\<forall>v. vmm_get_phys v t' = (if va_path v = va_path (heap_page i) then f else vmm_get_phys v t)" by blast
    have run: "(case pmm_alloc t of (frame, t1) \<Rightarrow>
          if frame = NULL then Halt (vga_print (str ''Invalid frame'' @ [0x0A]) t1)
          else vmm_map (HEAP_START + of_nat i * PAGE_SIZE) frame 0x03 t1) = Ret () t'"
      using st(1,2,4) by (simp add: heap_page_def)
    have "vmm_get_phys v t' = (fs @ [f]) ! j" if j: "j < Suc i" "va_path v = va_path (heap_page j)" for v j
    proof (cases "j = i")
      case True
      then show ?thesis using st(11) j(2) fs(1) by (simp add: nth_append)
    next
      case False
      then have "j < i" using j(1) by simp
      then have "va_path v \<noteq> va_path (heap_page i)" using heap_page_distinct [of j i] i j(2) by simp
      then show ?thesis using st(11) fs(1) fs(4) [OF \<open>j < i\<close> j(2)] \<open>j < i\<close> by (simp add: nth_append)
    qed
    moreover have "vmm_get_phys v t' = vmm_get_phys v s" if "\<forall>j < Suc i. va_path v \<noteq> va_path (heap_page j)" for v
      using st(11) fs(5) [of v] that by simp
    moreover have "distinct (fs @ [f])" "set (fs @ [f]) \<subseteq> avail s - avail t'" "length (fs @ [f]) = Suc i"
      using fs st(3,8) P by auto
    moreover have "card (avail s) \<le> card (avail t') + 4 * Suc i"
    proof -
      have "card (avail s) \<le> card (avail t) + 4 * i" using P by blast
      with st(9) show ?thesis by simp
    qed
    ultimately have "?P (Suc i) t'" using st P by (intro conjI exI [of _ "fs @ [f]"]) auto
    with run show "\<exists>t'. (case pmm_alloc t of (frame, t1) \<Rightarrow>
          if frame = NULL then Halt (vga_print (str ''Invalid frame'' @ [0x0A]) t1)
          else vmm_map (HEAP_START + of_nat i * PAGE_SIZE) frame 0x03 t1) = Ret () t' \<and> ?P (Suc i) t'" by blast
  qed
  then show ?thesis unfolding add_0 by blast
qed

lemma heap_init_effect:
  assumes wf: "as_wf (ENTRY_ADDR (cr3 s)) s" and nh: "\<forall>j < HEAP_PAGES. no_huge (ENTRY_ADDR (cr3 s)) (heap_page j) (mem s)"
    and av: "4 * HEAP_PAGES \<le> unat (pmm_free_frames s)" and x: "tables_avoid HEAP_START (ENTRY_ADDR (cr3 s)) (mem s)"
  shows "\<exists>s'. heap_init s = Ret () s' \<and> as_wf (ENTRY_ADDR (cr3 s)) s' \<and> cr3 s' = cr3 s \<and>
    heap_rep s' [(HEAP_BYTES - 24, True)] \<and> card (avail s) \<le> card (avail s') + 4 * HEAP_PAGES \<and>
    (\<exists>fs. length fs = HEAP_PAGES \<and> distinct fs \<and> set fs \<subseteq> avail s - avail s' \<and>
       (\<forall>v. \<forall>j < HEAP_PAGES. va_path v = va_path (heap_page j) \<longrightarrow> vmm_get_phys v s' = fs ! j) \<and>
       (\<forall>v. (\<forall>j < HEAP_PAGES. va_path v \<noteq> va_path (heap_page j)) \<longrightarrow> vmm_get_phys v s' = vmm_get_phys v s))"
proof -
  let ?r = "ENTRY_ADDR (cr3 s)"
  have inv: "pmm_inv s" by (rule as_wfD(1) [OF wf])
  have "HEAP_START \<notin> avail s"
    using bitmap_pmm.frames_page [OF inv, of HEAP_START] by (auto simp: HEAP_START_def)
  moreover have "4 * HEAP_PAGES \<le> card (avail s)" using av inv by (simp add: card_avail pmm_inv_def pmm_free_frames_def)
  ultimately obtain t fs where t: "for_loop HEAP_PAGES 0
       (\<lambda>i t. case pmm_alloc t of (frame, t1) \<Rightarrow>
          if frame = NULL then Halt (vga_print (str ''Invalid frame'' @ [0x0A]) t1)
          else vmm_map (HEAP_START + of_nat i * PAGE_SIZE) frame 0x03 t1) s = Ret () t"
      "as_wf ?r t" "cr3 t = cr3 s" "tables_avoid HEAP_START ?r (mem t)" "card (avail s) \<le> card (avail t) + 4 * HEAP_PAGES" and
    fs: "length fs = HEAP_PAGES" "distinct fs" "set fs \<subseteq> avail s - avail t"
      "\<forall>v. \<forall>j < HEAP_PAGES. va_path v = va_path (heap_page j) \<longrightarrow> vmm_get_phys v t = fs ! j"
      "\<forall>v. (\<forall>j < HEAP_PAGES. va_path v \<noteq> va_path (heap_page j)) \<longrightarrow> vmm_get_phys v t = vmm_get_phys v s"
    using heap_init_loop [OF wf refl nh _ x] by blast
  let ?s = "t\<lparr>heap_head := HEAP_START, mem := write_head (mem t)\<rparr>"
  have run: "heap_init s = Ret () ?s" unfolding heap_init_def t(1) by (simp add: write_head_def Let_def)
  have pv: "pview (mem ?s) ?r q = pview (mem t) ?r q" if "vpath q" "length q \<le> 4" for q
    using pview_write_head [OF t(4) as_wfD(2) [OF t(2)] that] by simp
  have p: "pmm_inv ?s" "avail ?s = avail t" "cr3 ?s = cr3 s"
    using as_wfD(1) [OF t(2)] t(3) by (simp_all add: pmm_inv_def avail_def free_set_def bitmap_test_def)
  have w: "as_wf ?r ?s" by (rule as_wf_same [OF t(2) p(1) _ pv]) (use p(2) in auto)
  have g: "vmm_get_phys v ?s = vmm_get_phys v t" for v
  proof -
    have "walk (mem ?s) ?r v = walk (mem t) ?r v" by (rule walk_cong) (rule pv)
    then show ?thesis using as_wf_get_phys [of ?s v] as_wf_get_phys [of t v] w t(2,3) p(3) by simp
  qed
  have "heap_rep ?s [(HEAP_BYTES - 24, True)]" by (rule write_head_heap) simp_all
  with run w p g fs t(5) show ?thesis by (intro exI [of _ ?s] conjI exI [of _ fs]) (simp_all only: g p)
qed

section \<open>Zeroed allocation\<close>

lemma zero_loop:
  fixes p :: u64
  assumes "unat p + n \<le> 2 ^ 64"
  shows "for_upd n 0 (\<lambda>i m. m(p + of_nat i := 0)) m y =
    (if unat p \<le> unat y \<and> unat y < unat p + n then 0 else m y)"
  using assms
proof (induction n)
  case 0
  then show ?case by auto
next
  case (Suc n)
  then have "unat (of_nat n :: u64) = n" by (intro unat_of_nat_small) simp
  then have "unat (p + of_nat n) = unat p + n" using Suc.prems by (simp add: unat_word_ariths)
  then have "y = p + of_nat n \<longleftrightarrow> unat y = unat p + n" by (auto simp: word_unat_eq_iff)
  then show ?case using Suc by (auto simp: for_upd_Suc_last simp del: for_upd.simps)
qed

lemma kcalloc_effect:
  assumes inv: "heap_inv s" and nz: "n \<noteq> 0" "sz \<noteq> 0" and lt: "unat n * unat sz + 7 < 2 ^ 64"
  shows "\<exists>p s'. kcalloc n sz s = Ret p s' \<and> heap_inv s' \<and>
    (p = NULL \<and> s' = s \<or>
     (\<exists>k \<ge> unat n * unat sz. live s' = insert (unat p, k) (live s) \<and> (unat p, k) \<notin> live s) \<and>
     (\<forall>y. unat p \<le> unat y \<longrightarrow> unat y < unat p + unat n * unat sz \<longrightarrow> mem s' y = 0) \<and>
     (\<forall>(b, k) \<in> live s. same_on (mem s) (mem s') b (b + k)))"
proof -
  have u: "unat (n * sz) = unat n * unat sz" using lt by (simp add: unat_word_ariths)
  have "0 < unat n * unat sz" using nz by (simp add: unat_gt_0)
  then have nz': "n * sz \<noteq> 0" using u by auto
  from kmalloc_live [OF inv nz'] lt obtain p s1 where k: "kmalloc (n * sz) s = Ret p s1" "heap_inv s1"
    "p = NULL \<and> s1 = s \<or> (\<exists>k \<ge> unat (n * sz). live s1 = insert (unat p, k) (live s) \<and> (unat p, k) \<notin> live s) \<and>
     (\<forall>(b, k) \<in> live s. same_on (mem s) (mem s1) b (b + k))" unfolding u by blast
  show ?thesis
  proof (cases "p = NULL")
    case True
    have "s1 = s"
    proof (rule ccontr)
      assume "s1 \<noteq> s"
      then obtain j where "live s1 = insert (unat p, j) (live s)" using k(3) by blast
      then show False using kernel_heap.areas_pos [OF k(2), of 0 j] True by simp
    qed
    with k True show ?thesis by (auto simp: kcalloc_def)
  next
    case False
    then obtain j where j: "unat n * unat sz \<le> j" "live s1 = insert (unat p, j) (live s)" "(unat p, j) \<notin> live s"
      "\<forall>(b, k) \<in> live s. same_on (mem s) (mem s1) b (b + k)" using k(3) u by auto
    let ?bs = "heap_blocks s1" and ?m = "for_upd (unat (n * sz)) 0 (\<lambda>i m. m(p + of_nat i := 0)) (mem s1)"
    have pu: "(unat p, j) \<in> used HEAP_BASE ?bs" using j(2) by (simp add: live_def)
    have r: "heap_head s1 = HEAP_START" "?bs \<noteq> []" "span ?bs = HEAP_BYTES" "rep (mem s1) HEAP_BASE ?bs"
      using k(2) by (simp_all add: heap_inv_def heap_rep_def)
    have b: "unat p + unat n * unat sz \<le> 2 ^ 64"
      using used_bounds [OF pu] r(3) heap_bounds(2) j(1) by simp
    have z: "?m y = (if unat p \<le> unat y \<and> unat y < unat p + unat n * unat sz then 0 else mem s1 y)" for y
      unfolding u by (rule zero_loop [OF b])
    have same: "same_on (mem s1) ?m lo hi" if "hi \<le> unat p \<or> unat p + j \<le> lo" for lo hi
      by (rule same_onI) (use z that j(1) in auto)
    have "rep ?m HEAP_BASE ?bs = rep (mem s1) HEAP_BASE ?bs"
    proof (rule rep_same)
      fix h assume "h \<in> set (hdrs HEAP_BASE ?bs)"
      from hdrs_used_disjoint [OF this pu] show "same_on (mem s1) ?m h (h + 24)" by (intro same) auto
    qed (use r(3) heap_bounds(2) in simp)
    with r have hr: "heap_rep (s1\<lparr>mem := ?m\<rparr>) ?bs" by (simp add: heap_rep_def)
    have lv: "live (s1\<lparr>mem := ?m\<rparr>) = live s1" unfolding live_def heap_rep_blocks [OF hr] ..
    have "same_on (mem s) ?m b (b + k')" if bk: "(b, k') \<in> live s" for b k'
    proof (rule same_on_trans)
      show "same_on (mem s) (mem s1) b (b + k')" using j(4) bk by auto
      have "b + k' < unat p \<or> unat p + j < b"
        using kernel_heap.areas_disjoint [OF k(2), of b k' "unat p" j] j(2,3) bk by auto
      then show "same_on (mem s1) ?m b (b + k')" by (intro same) auto
    qed
    moreover have "kcalloc n sz s = Ret p (s1\<lparr>mem := ?m\<rparr>)" using k(1) False by (simp add: kcalloc_def)
    ultimately show ?thesis
      using heap_rep_inv [OF hr] lv j z by (intro exI [of _ p] exI [of _ "s1\<lparr>mem := ?m\<rparr>"]) auto
  qed
qed

lemma rep_aligned: "rep m a bs \<Longrightarrow> a mod 8 = 0 \<Longrightarrow> h \<in> set (hdrs a bs) \<Longrightarrow> h mod 8 = 0"
proof (induction bs arbitrary: a)
  case (Cons b bs)
  obtain n f where b: "b = (n, f)" by (cases b)
  have "n mod 8 = 0" using Cons.prems(1) by (simp add: b)
  then have a8: "(a + 24 + n) mod 8 = 0" using Cons.prems(2) by presburger
  have "rep m (a + 24 + n) bs" using Cons.prems(1) by (simp add: b)
  from Cons.IH [OF this a8] Cons.prems(2,3) show ?case by (simp only: b hdrs.simps set_simps fst_conv) auto
qed simp

section \<open>Clients of the heap\<close>

text \<open>The heap operations change nothing but the memory.\<close>

lemma kmalloc_mem: "kmalloc sz s = Ret p s' \<Longrightarrow> \<exists>m. s' = s\<lparr>mem := m\<rparr>"
proof (cases "sz = 0")
  case True
  then show "kmalloc sz s = Ret p s' \<Longrightarrow> ?thesis" by (auto simp: kmalloc_def intro: exI [of _ "mem s"])
next
  case False
  then show "kmalloc sz s = Ret p s' \<Longrightarrow> ?thesis"
    by (cases "kmalloc_loop ((sz + 7) AND NOT 7) (heap_head s) (mem s)") (auto simp: kmalloc_def Let_def)
qed

lemma kfree_mem: "kfree p s = Ret u s' \<Longrightarrow> \<exists>m. s' = s\<lparr>mem := m\<rparr>"
proof (cases "p = NULL")
  case True
  then show "kfree p s = Ret u s' \<Longrightarrow> ?thesis" by (auto simp: kfree_def intro: exI [of _ "mem s"])
next
  case False
  then show "kfree p s = Ret u s' \<Longrightarrow> ?thesis"
    by (cases "kfree_loop (heap_head s) (set_hdr_free (p - 24) 1 (mem s))") (auto simp: kfree_def Let_def)
qed

lemma kcalloc_mem: "kcalloc n sz s = Ret p s' \<Longrightarrow> \<exists>m. s' = s\<lparr>mem := m\<rparr>"
  unfolding kcalloc_def obind_eq_Ret using kmalloc_mem [of "n * sz" s]
  by (fastforce split: if_splits)

lemma heap_cong:
  "mem t = mem s \<Longrightarrow> heap_head t = heap_head s \<Longrightarrow> heap_inv t = heap_inv s"
  "mem t = mem s \<Longrightarrow> heap_head t = heap_head s \<Longrightarrow> live t = live s"
  by (simp_all add: heap_inv_def heap_rep_def heap_blocks_def live_def)

text \<open>A client may write inside an area it was given.\<close>

lemma heap_write:
  assumes inv: "heap_inv s" and b: "(b, n) \<in> live s"
    and m: "same_on (mem s) m' 0 b" "same_on (mem s) m' (b + n) (2 ^ 64)"
  shows "heap_inv (s\<lparr>mem := m'\<rparr>)" "live (s\<lparr>mem := m'\<rparr>) = live s" "heap_blocks (s\<lparr>mem := m'\<rparr>) = heap_blocks s"
proof -
  let ?bs = "heap_blocks s"
  have u: "(b, n) \<in> used HEAP_BASE ?bs" using b by (simp add: live_def)
  have r: "heap_head s = HEAP_START" "?bs \<noteq> []" "span ?bs = HEAP_BYTES" "rep (mem s) HEAP_BASE ?bs"
    using inv by (simp_all add: heap_inv_def heap_rep_def)
  have "rep m' HEAP_BASE ?bs = rep (mem s) HEAP_BASE ?bs"
  proof (rule rep_same)
    fix h assume h: "h \<in> set (hdrs HEAP_BASE ?bs)"
    have "h + 24 \<le> 2 ^ 64" using hdrs_bounds [OF h] r(3) heap_bounds(2) by simp
    with hdrs_used_disjoint [OF h u] m show "same_on (mem s) m' h (h + 24)"
      by (auto elim: same_on_mono)
  qed (use r(3) heap_bounds(2) in simp)
  with r have hr: "heap_rep (s\<lparr>mem := m'\<rparr>) ?bs" by (simp add: heap_rep_def)
  show "heap_inv (s\<lparr>mem := m'\<rparr>)" by (rule heap_rep_inv [OF hr])
  show "live (s\<lparr>mem := m'\<rparr>) = live s" unfolding live_def heap_rep_blocks [OF hr] ..
  show "heap_blocks (s\<lparr>mem := m'\<rparr>) = heap_blocks s" by (rule heap_rep_blocks [OF hr])
qed

lemma live_bounds: "heap_inv s \<Longrightarrow> (b, n) \<in> live s \<Longrightarrow> HEAP_BASE + 24 \<le> b \<and> b + n \<le> HEAP_BASE + HEAP_BYTES"
  using used_bounds [of b n HEAP_BASE "heap_blocks s"] by (simp add: live_def heap_inv_def heap_rep_def)

section \<open>Properties\<close>

text \<open>A fresh heap: one free block of four megabytes less a header.\<close>

definition heap_fresh :: heap_state where
  "heap_fresh = vmm_state.extend (vmm_four\<lparr>mem := write_head (\<lambda>_. 0)\<rparr>) \<lparr>heap_head = HEAP_START\<rparr>"

lemma fit_zero_small: "fit 0 bs = Some (d, cs) \<Longrightarrow> \<exists>n \<le> 32. (a + d + 24, n) \<in> used a cs"
proof (induction bs arbitrary: a d cs)
  case (Cons b bs)
  obtain n f where b: "b = (n, f)" by (cases b)
  show ?case
  proof (cases f)
    case True
    then show ?thesis
      using Cons.prems by (intro exI [of _ "if 32 < n then 0 else n"]) (auto simp: b split: if_splits)
  next
    case False
    then obtain d' cs' where f: "fit 0 bs = Some (d', cs')" and d: "d = 24 + n + d'" "cs = (n, f) # cs'"
      using Cons.prems by (auto simp: b split: option.splits)
    from Cons.IH [OF f, of "a + 24 + n"] show ?thesis by (auto simp: d ac_simps)
  qed
qed simp

lemma heap_fresh_rep: "heap_rep heap_fresh [(HEAP_BYTES - 24, True)]"
  by (rule write_head_heap) (simp_all add: heap_fresh_def vmm_state.defs)

lemma heap_fresh_inv: "heap_inv heap_fresh" "heap_blocks heap_fresh = [(4194280, True)]" "live heap_fresh = {}"
  using heap_rep_inv [OF heap_fresh_rep] heap_rep_blocks [OF heap_fresh_rep]
  by (simp_all add: live_def HEAP_BYTES_def HEAP_PAGES_def)

text \<open>C6. \<open>kmalloc\<close> implements first fit with splitting: it always returns; the new list of
  blocks is that of the abstract \<open>fit\<close> for the size rounded up to eight, the pointer is
  the data area of the chosen block and a multiple of eight, and no byte outside the
  heap changes. It returns null, with the state unchanged, exactly when no free block
  is big enough.\<close>

theorem kmalloc_first_fit:
  assumes "heap_inv s" and "sz \<noteq> 0" and "unat sz + 7 < 2 ^ 64"
  shows "case fit (round8 (unat sz)) (heap_blocks s) of
      None \<Rightarrow> kmalloc sz s = Ret NULL s \<and> (\<forall>(n, f) \<in> set (heap_blocks s). f \<longrightarrow> n < round8 (unat sz))
    | Some (d, cs) \<Rightarrow> \<exists>p s'. kmalloc sz s = Ret p s' \<and> unat p = HEAP_BASE + d + 24 \<and> unat p mod 8 = 0 \<and>
        heap_inv s' \<and> heap_blocks s' = cs \<and>
        same_on (mem s) (mem s') 0 HEAP_BASE \<and> same_on (mem s) (mem s') (HEAP_BASE + HEAP_BYTES) (2 ^ 64)"
proof (cases "fit (round8 (unat sz)) (heap_blocks s)")
  case None
  then show ?thesis using kmalloc_fit [OF assms] fit_none [of "round8 (unat sz)" "heap_blocks s"] by simp
next
  case (Some x)
  obtain d cs where x: "x = (d, cs)" by (cases x)
  then obtain m' where m': "kmalloc sz s = Ret (of_nat (HEAP_BASE + d + 24)) (s\<lparr>mem := m'\<rparr>)"
    "heap_rep (s\<lparr>mem := m'\<rparr>) cs" "heap_frame (mem s) m' HEAP_BASE (heap_blocks s)"
    using kmalloc_fit [OF assms] Some by auto
  have r: "span (heap_blocks s) = HEAP_BYTES" "rep (mem s) HEAP_BASE (heap_blocks s)"
    using assms(1) by (simp_all add: heap_inv_def heap_rep_def)
  have h: "HEAP_BASE + d \<in> set (hdrs HEAP_BASE (heap_blocks s))" by (rule fit_hdr [OF Some [unfolded x]])
  have "unat (of_nat (HEAP_BASE + d + 24) :: u64) = HEAP_BASE + d + 24"
    by (rule unat_addr) (use hdrs_bounds [OF h] r(1) heap_bounds(2) in simp)
  moreover have "(HEAP_BASE + d) mod 8 = 0"
    by (rule rep_aligned [OF r(2) _ h]) (simp add: HEAP_BASE_def HEAP_START_def)
  then have "(HEAP_BASE + d + 24) mod 8 = 0" by presburger
  ultimately show ?thesis
    using Some x m' heap_rep_inv [OF m'(2)] heap_rep_blocks [OF m'(2)] r(1)
    by (auto simp: heap_frame_def simp del: of_nat_add)
qed

theorem kmalloc_first_fit_witness:
  "\<exists>p s'. kmalloc 100 heap_fresh = Ret p s' \<and> unat p = HEAP_BASE + 24 \<and> heap_inv s' \<and>
    heap_blocks s' = [(104, False), (4194152, True)]"
  using kmalloc_first_fit [OF heap_fresh_inv(1), of 100]
  by (auto simp: heap_fresh_inv(2) round8_def)

text \<open>C8. Any number of \<open>kmalloc\<close> calls in a row all return, and the pointers they give are the
  data areas of pairwise different blocks of at least the requested sizes, new areas
  that overlap nothing in use before; every byte of an area in use before is unchanged.\<close>

theorem kmalloc_all_disjoint:
  assumes "heap_inv s" and "\<forall>sz \<in> set szs. sz \<noteq> 0 \<and> unat sz + 7 < 2 ^ 64"
  shows "\<exists>ps s'. malloc_all kmalloc szs s = Ret ps s' \<and> heap_inv s' \<and> length ps = length szs \<and> live s \<subseteq> live s' \<and>
    (\<forall>i < length ps. ps ! i \<noteq> NULL \<longrightarrow> (\<exists>n \<ge> unat (szs ! i). (unat (ps ! i), n) \<in> live s' \<and> (unat (ps ! i), n) \<notin> live s)) \<and>
    (\<forall>i j. i < j \<longrightarrow> j < length ps \<longrightarrow> ps ! i \<noteq> NULL \<longrightarrow> ps ! i \<noteq> ps ! j) \<and>
    (\<forall>(b, n) \<in> live s'. \<forall>(c, k) \<in> live s'. (b, n) = (c, k) \<or> b + n < c \<or> c + k < b) \<and>
    (\<forall>(b, n) \<in> live s. same_on (mem s) (mem s') b (b + n))"
proof -
  from kernel_heap.malloc_all_disjoint [OF assms] obtain ps s' where
    k: "malloc_all kmalloc szs s = Ret ps s'" "heap_inv s'" "length ps = length szs" "live s \<subseteq> live s'"
      "\<forall>i < length ps. ps ! i \<noteq> NULL \<longrightarrow> (\<exists>n \<ge> unat (szs ! i). (unat (ps ! i), n) \<in> live s' \<and> (unat (ps ! i), n) \<notin> live s)"
      "\<forall>i j. i < j \<longrightarrow> j < length ps \<longrightarrow> ps ! i \<noteq> NULL \<longrightarrow> ps ! i \<noteq> ps ! j"
      "\<forall>(b, n) \<in> live s. same_on (mem s) (mem s') b (b + n)" by blast
  moreover have "\<forall>(b, n) \<in> live s'. \<forall>(c, k) \<in> live s'. (b, n) = (c, k) \<or> b + n < c \<or> c + k < b"
    using kernel_heap.areas_disjoint [OF k(2)] by blast
  ultimately show ?thesis by blast
qed

theorem kmalloc_all_disjoint_witness:
  "\<exists>ps s'. malloc_all kmalloc [16, 100] heap_fresh = Ret ps s' \<and> heap_inv s' \<and> length ps = 2"
  using kmalloc_all_disjoint [OF heap_fresh_inv(1), of "[16, 100]"] by auto

text \<open>C7. \<open>kfree\<close> of a pointer in use always returns; it marks the block and merges every run of
  adjacent free blocks, so that afterwards no two neighbours are free; exactly that area
  leaves the areas in use, and no byte of the others changes.\<close>

theorem kfree_coalesces:
  assumes "heap_inv s" and "(unat p, n) \<in> live s"
  shows "\<exists>s'. kfree p s = Ret () s' \<and> heap_inv s' \<and>
    heap_blocks s' = coalesce (mark (unat p - 24 - HEAP_BASE) (heap_blocks s)) \<and> no_free_pair (heap_blocks s') \<and>
    live s' = live s - {(unat p, n)} \<and> (\<forall>(b, k) \<in> live s'. same_on (mem s) (mem s') b (b + k))"
proof -
  from kfree_mark [OF assms] obtain m' where m: "kfree p s = Ret () (s\<lparr>mem := m'\<rparr>)"
    "heap_rep (s\<lparr>mem := m'\<rparr>) (coalesce (mark (unat p - 24 - HEAP_BASE) (heap_blocks s)))" by blast
  with kfree_live [OF assms] heap_rep_blocks [OF m(2)] coalesce_no_free_pair show ?thesis by auto
qed

text \<open>The fresh heap after one allocation of 104 bytes.\<close>

lemma heap_one:
  "\<exists>s :: heap_state. heap_inv s \<and> heap_blocks s = [(104, False), (4194152, True)] \<and> live s = {(HEAP_BASE + 24, 104)}"
proof -
  have "fit (round8 (unat (100::u64))) (heap_blocks heap_fresh) = Some (0, [(104, False), (4194152, True)])"
    by (simp add: heap_fresh_inv(2) round8_def)
  with kmalloc_fit [OF heap_fresh_inv(1), of 100] obtain m' where
    "heap_rep (heap_fresh\<lparr>mem := m'\<rparr>) [(104, False), (4194152, True)]" by auto
  from heap_rep_inv [OF this] heap_rep_blocks [OF this] show ?thesis
    by (intro exI [of _ "heap_fresh\<lparr>mem := m'\<rparr>"]) (simp add: live_def)
qed

lemma unat_first_area: "unat (of_nat (HEAP_BASE + 24) :: u64) = HEAP_BASE + 24"
  by (rule unat_addr) (simp add: HEAP_BASE_def HEAP_START_def)

theorem kfree_coalesces_witness:
  "\<exists>s s' :: heap_state. kfree (of_nat (HEAP_BASE + 24)) s = Ret () s' \<and> live s \<noteq> {} \<and> heap_blocks s' = [(4194280, True)] \<and> live s' = {}"
proof -
  obtain s :: heap_state where s: "heap_inv s" "heap_blocks s = [(104, False), (4194152, True)]" "live s = {(HEAP_BASE + 24, 104)}"
    using heap_one by blast
  then have "(unat (of_nat (HEAP_BASE + 24) :: u64), 104) \<in> live s" by (simp only: unat_first_area) simp
  from kfree_coalesces [OF s(1) this, unfolded unat_first_area s(2,3)] obtain s' where
    "kfree (of_nat (HEAP_BASE + 24)) s = Ret () s'" "heap_blocks s' = [(4194280, True)]" "live s' = {}" by auto
  then show ?thesis using s(3) by blast
qed

text \<open>Nothing is lost to fragmentation: when the last area in use is freed the heap is again
  the one free block of four megabytes less a header that \<open>heap_init\<close> made.\<close>

theorem kfree_last_restores_heap:
  assumes "heap_inv s" and "live s = {(unat p, n)}"
  shows "\<exists>s'. kfree p s = Ret () s' \<and> heap_inv s' \<and> heap_blocks s' = [(HEAP_BYTES - 24, True)]"
proof -
  have "(unat p, n) \<in> live s" using assms(2) by simp
  note m = kfree_mark [OF assms(1) this] and l = kfree_live [OF assms(1) this]
  from m obtain m' where m': "kfree p s = Ret () (s\<lparr>mem := m'\<rparr>)"
    "heap_rep (s\<lparr>mem := m'\<rparr>) (coalesce (mark (unat p - 24 - HEAP_BASE) (heap_blocks s)))" by blast
  let ?cs = "coalesce (mark (unat p - 24 - HEAP_BASE) (heap_blocks s))"
  have "used HEAP_BASE ?cs = {}"
    using l m' assms(2) heap_rep_blocks [OF m'(2)] by (auto simp: live_def)
  moreover have "?cs \<noteq> []" "span ?cs = HEAP_BYTES" using m'(2) by (simp_all add: heap_rep_def)
  ultimately have "?cs = [(HEAP_BYTES - 24, True)]" using no_free_pair_all_free [OF coalesce_no_free_pair] by simp
  with m' heap_rep_inv [OF m'(2)] heap_rep_blocks [OF m'(2)] show ?thesis by simp
qed

theorem kfree_last_restores_heap_witness:
  "\<exists>s s' :: heap_state. kfree (of_nat (HEAP_BASE + 24)) s = Ret () s' \<and> heap_blocks s = [(104, False), (4194152, True)] \<and>
    heap_blocks s' = [(HEAP_BYTES - 24, True)]"
proof -
  obtain s :: heap_state where s: "heap_inv s" "heap_blocks s = [(104, False), (4194152, True)]" "live s = {(HEAP_BASE + 24, 104)}"
    using heap_one by blast
  then have "live s = {(unat (of_nat (HEAP_BASE + 24) :: u64), 104)}" by (simp only: unat_first_area)
  from kfree_last_restores_heap [OF s(1) this] s show ?thesis by blast
qed

text \<open>\<open>kcalloc\<close>, when the product of its arguments does not overflow, returns null and changes
  nothing, or returns a new area of at least that many bytes, all zero; no byte of an
  area in use before changes.\<close>

theorem kcalloc_zeroes:
  assumes "heap_inv s" and "n \<noteq> 0" and "sz \<noteq> 0" and "unat n * unat sz + 7 < 2 ^ 64"
  shows "\<exists>p s'. kcalloc n sz s = Ret p s' \<and> heap_inv s' \<and>
    (p = NULL \<and> s' = s \<or>
     (\<exists>k \<ge> unat n * unat sz. live s' = insert (unat p, k) (live s) \<and> (unat p, k) \<notin> live s) \<and>
     (\<forall>y. unat p \<le> unat y \<longrightarrow> unat y < unat p + unat n * unat sz \<longrightarrow> mem s' y = 0) \<and>
     (\<forall>(b, k) \<in> live s. same_on (mem s) (mem s') b (b + k)))"
  using assms by (rule kcalloc_effect)

theorem kcalloc_zeroes_witness: "\<exists>p s'. kcalloc 4 8 heap_fresh = Ret p s' \<and> heap_inv s'"
  using kcalloc_zeroes [OF heap_fresh_inv(1), of 4 8] by auto

text \<open>The rounding in \<open>kmalloc\<close> wraps: a request within seven bytes of the largest size is
  rounded to zero, and as long as any block is free it is answered with an area of at
  most 32 bytes instead of null.\<close>

theorem kmalloc_size_wraps:
  assumes "heap_inv s" and "2 ^ 64 \<le> unat sz + 7" and "\<exists>n. (n, True) \<in> set (heap_blocks s)"
  shows "\<exists>p s' n. kmalloc sz s = Ret p s' \<and> p \<noteq> NULL \<and> (unat p, n) \<in> live s' \<and> n \<le> 32"
proof -
  have lt: "unat sz < 2 ^ 64" using unsigned_less [where ?'a = nat, of sz] by simp
  have "unat (sz + 7) = unat sz + 7 - 2 ^ 64"
    using assms(2) lt by (simp add: unat_word_ariths mod_if)
  then have "unat (sz + 7) div 8 = 0" using lt by simp
  then have r: "(sz + 7) AND NOT 7 = of_nat 0"
    by (intro word_unat_eq_iff [THEN iffD2]) (simp only: and_not7, simp)
  have nz: "sz \<noteq> 0" using assms(2) by auto
  have "fit 0 (heap_blocks s) \<noteq> None" using assms(3) unfolding fit_none by auto
  then obtain d cs where f: "fit 0 (heap_blocks s) = Some (d, cs)" by auto
  from kmalloc_fit_rounded [OF assms(1) nz r] f obtain m' where m': "kmalloc sz s = Ret (of_nat (HEAP_BASE + d + 24)) (s\<lparr>mem := m'\<rparr>)"
    "heap_rep (s\<lparr>mem := m'\<rparr>) cs" by auto
  have sp: "span (heap_blocks s) = HEAP_BYTES" using assms(1) by (simp add: heap_inv_def heap_rep_def)
  have h: "HEAP_BASE + d \<in> set (hdrs HEAP_BASE (heap_blocks s))" by (rule fit_hdr [OF f])
  have u: "unat (of_nat (HEAP_BASE + d + 24) :: u64) = HEAP_BASE + d + 24"
    by (rule unat_addr) (use hdrs_bounds [OF h] sp heap_bounds(2) in simp)
  obtain n where "n \<le> 32" "(HEAP_BASE + d + 24, n) \<in> used HEAP_BASE cs" using fit_zero_small [OF f] by blast
  then show ?thesis
    using m' u heap_rep_blocks [OF m'(2)] of_nat_eq_0_u64 [of "HEAP_BASE + d + 24"]
    by (intro exI [of _ "of_nat (HEAP_BASE + d + 24)"] exI [of _ "s\<lparr>mem := m'\<rparr>"] exI [of _ n])
      (auto simp: live_def simp del: of_nat_add simp flip: unat_eq_0)
qed

theorem kmalloc_size_wraps_witness:
  "\<exists>p s' n. kmalloc 0xFFFFFFFFFFFFFFFF heap_fresh = Ret p s' \<and> p \<noteq> NULL \<and> (unat p, n) \<in> live s' \<and> n \<le> 32"
  by (rule kmalloc_size_wraps [OF heap_fresh_inv(1)]) (simp_all add: heap_fresh_inv(2))

text \<open>\<open>heap_init\<close> in a well-formed address space whose 1024 heap pages no large page covers,
  with 4096 frames free and no page table in the heap's first page, returns: every heap
  page translates to a frame of its own that was free before, all other translations are
  unchanged, the address space stays well formed, and the heap is one free block.\<close>

theorem heap_init_maps_heap:
  assumes "as_wf (ENTRY_ADDR (cr3 s)) s" and "\<forall>j < HEAP_PAGES. no_huge (ENTRY_ADDR (cr3 s)) (heap_page j) (mem s)"
    and "4 * HEAP_PAGES \<le> unat (pmm_free_frames s)" and "tables_avoid HEAP_START (ENTRY_ADDR (cr3 s)) (mem s)"
  shows "\<exists>s'. heap_init s = Ret () s' \<and> as_wf (ENTRY_ADDR (cr3 s)) s' \<and> cr3 s' = cr3 s \<and>
    heap_inv s' \<and> heap_blocks s' = [(HEAP_BYTES - 24, True)] \<and>
    (\<exists>fs. length fs = HEAP_PAGES \<and> distinct fs \<and> set fs \<subseteq> avail s - avail s' \<and>
       (\<forall>v. \<forall>j < HEAP_PAGES. va_path v = va_path (heap_page j) \<longrightarrow> vmm_get_phys v s' = fs ! j) \<and>
       (\<forall>v. (\<forall>j < HEAP_PAGES. va_path v \<noteq> va_path (heap_page j)) \<longrightarrow> vmm_get_phys v s' = vmm_get_phys v s))"
proof -
  from heap_init_effect [OF assms] obtain s' where s': "heap_init s = Ret () s'" "as_wf (ENTRY_ADDR (cr3 s)) s'"
    "cr3 s' = cr3 s" "heap_rep s' [(HEAP_BYTES - 24, True)]" and
    f: "\<exists>fs. length fs = HEAP_PAGES \<and> distinct fs \<and> set fs \<subseteq> avail s - avail s' \<and>
       (\<forall>v. \<forall>j < HEAP_PAGES. va_path v = va_path (heap_page j) \<longrightarrow> vmm_get_phys v s' = fs ! j) \<and>
       (\<forall>v. (\<forall>j < HEAP_PAGES. va_path v \<noteq> va_path (heap_page j)) \<longrightarrow> vmm_get_phys v s' = vmm_get_phys v s)"
    by blast
  show ?thesis
    by (intro exI [of _ s'] conjI s'(1-3) heap_rep_inv [OF s'(4)] heap_rep_blocks [OF s'(4)] f)
qed

text \<open>A machine after \<open>pmm_init\<close> with empty page tables.\<close>

lemma heap_ready:
  "\<exists>s :: heap_state. as_wf 0x1000 s \<and> cr3 s = 0x1000 \<and> mem s = (\<lambda>_. 0) \<and> 4 * HEAP_PAGES \<le> unat (pmm_free_frames s)"
proof -
  obtain t :: pmm_state where t: "pmm_inv t" "free_set t = {256..<TOTAL_FRAMES} - {unat (0x100000::u64) div 4096..<(unat (0x200000::u64) + 4095) div 4096}"
    using pmm_init_frames [of pmm_full "0x100000" "0x200000"] by (auto simp: pmm_full_def vga_state.defs)
  have ft: "free_set t = {512..<TOTAL_FRAMES}" using t(2) by auto
  let ?s = "vmm_state.extend (pmm_state.extend t \<lparr>mem = (\<lambda>_. 0), cr3 = 0x1000\<rparr>) \<lparr>heap_head = 0\<rparr> :: heap_state"
  have ext: "free_set ?s = free_set t" "free_frame_count ?s = free_frame_count t" "pmm_inv ?s = pmm_inv t"
    "mem ?s = (\<lambda>_. 0)" "cr3 ?s = 0x1000"
    by (simp_all add: pmm_inv_def free_set_def bitmap_test_def pmm_state.defs vmm_state.defs)
  have "0x1000 \<notin> avail ?s"
  proof
    assume "0x1000 \<in> avail ?s"
    then obtain i where i: "i \<in> free_set t" "0x1000 = frame_addr i" by (auto simp: avail_def ext)
    then have "i < TOTAL_FRAMES" "512 \<le> i" by (auto simp: ft)
    then have "unat (frame_addr i) = i * 4096" by (simp add: unat_frame_addr)
    with i(2) \<open>512 \<le> i\<close> show False by (simp flip: i(2))
  qed
  then have "as_wf 0x1000 ?s"
    by (auto simp: as_wf_def ext t(1) pview_zero_iff page_aligned_def simp del: pview.simps(2))
  moreover have "unat (pmm_free_frames ?s) = TOTAL_FRAMES - 512"
    using t(1) ft by (simp add: pmm_free_frames_def ext pmm_inv_def)
  ultimately show ?thesis using ext by (intro exI [of _ ?s]) (simp add: HEAP_PAGES_def TOTAL_FRAMES_def)
qed

theorem heap_init_maps_heap_witness:
  "\<exists>s s' :: heap_state. heap_init s = Ret () s' \<and> heap_inv s' \<and> heap_blocks s' = [(HEAP_BYTES - 24, True)] \<and> as_wf 0x1000 s'"
proof -
  obtain s :: heap_state where s: "as_wf 0x1000 s" "cr3 s = 0x1000" "mem s = (\<lambda>_. 0)" "4 * HEAP_PAGES \<le> unat (pmm_free_frames s)"
    using heap_ready by blast
  have "tables_avoid HEAP_START 0x1000 (\<lambda>_. 0)"
    by (auto simp: tables_avoid_def pview_zero_iff HEAP_START_def)
  with heap_init_maps_heap [of s] s obtain s' where "heap_init s = Ret () s'" "heap_inv s'"
    "heap_blocks s' = [(HEAP_BYTES - 24, True)]" "as_wf 0x1000 s'" by auto
  then show ?thesis by blast
qed

end
