(* ===== verification/Serial.thy ===== *)
theory Serial
  imports Vga
begin

text \<open>
  The serial port of \<open>src/drivers/serial.c\<close>: COM1 with a busy wait for the transmit
  buffer before every byte. Whether the buffer ever empties is up to the device, so the
  wait is a loop that may not return; \<open>uart_ready\<close> states the documented behaviour of a
  16550 UART under which it does.
\<close>

section \<open>Operations\<close>

abbreviation COM1 :: u16 where
  "COM1 \<equiv> 0x3F8"

definition serial_init :: "'a io_state_scheme \<Rightarrow> 'a io_state_scheme" where
  "serial_init s =
     outb (COM1 + 4) 0x0B (outb (COM1 + 2) 0xC7 (outb (COM1 + 3) 0x03 (outb (COM1 + 1) 0x00
       (outb (COM1 + 0) 0x03 (outb (COM1 + 3) 0x80 (outb (COM1 + 1) 0x00 s))))))"

partial_function (option) serial_wait :: "'a io_state_scheme \<Rightarrow> 'a io_state_scheme option" where
  "serial_wait s =
     (case inb (COM1 + 5) s of (v, t) \<Rightarrow> if v AND 0x20 = 0 then serial_wait t else Some t)"

definition serial_putchar :: "u8 \<Rightarrow> 'a io_state_scheme \<Rightarrow> ('a io_state_scheme, unit) outcome" where
  "serial_putchar c s = of_loop (map_option (\<lambda>t. Ret () (outb COM1 c t)) (serial_wait s))"

fun serial_print :: "u8 list \<Rightarrow> 'a io_state_scheme \<Rightarrow> ('a io_state_scheme, unit) outcome" where
  "serial_print [] s = Ret () s"
| "serial_print (c # cs) s = (if c = 0 then Ret () s else obind (serial_putchar c s) (\<lambda>_. serial_print cs))"

text \<open>
  The buffer of \<open>serial_print_hex\<close> is filled from index 15 down to 0, so the digits are
  consed in front; then leading zeros are skipped, but not the last digit.
\<close>

definition serial_hex_digits :: "u64 \<Rightarrow> u8 list" where
  "serial_hex_digits val =
     snd (for_upd 16 0 (\<lambda>_ (v, buf). (drop_bit 4 v, digit_char (ucast (v AND 0xF)) # buf)) (val, []))"

fun skip_zeros :: "u8 list \<Rightarrow> u8 list" where
  "skip_zeros (c # d # cs) = (if c = 0x30 then skip_zeros (d # cs) else c # d # cs)"
| "skip_zeros cs = cs"

definition serial_print_hex :: "u64 \<Rightarrow> 'a io_state_scheme \<Rightarrow> ('a io_state_scheme, unit) outcome" where
  "serial_print_hex val s = serial_print (skip_zeros (serial_hex_digits val)) s"

text \<open>\<open>val = -val\<close> on the most negative value leaves it as it is; the digits are then those of its unsigned reading.\<close>

definition serial_print_int :: "u64 \<Rightarrow> 'a io_state_scheme \<Rightarrow> ('a io_state_scheme, unit) outcome" where
  "serial_print_int val s =
     obind (if sint val < 0 then serial_putchar 0x2D s else Ret () s) (\<lambda>_ t.
       let v = (if sint val < 0 then - val else val)
       in if v = 0 then serial_putchar 0x30 t else serial_print (vga_uint_loop v []) t)"

section \<open>Sending\<close>

text \<open>
  The transmitter of a UART: after any history it reports an empty buffer once its
  line status register has been read often enough.
\<close>

definition uart_ready :: "(port_event list \<Rightarrow> u16 \<Rightarrow> u8) \<Rightarrow> bool" where
  "uart_ready dev \<longleftrightarrow> (\<forall>log. \<exists>n. dev (log @ replicate n (PortIn (COM1 + 5))) (COM1 + 5) AND 0x20 \<noteq> 0)"

text \<open>What sending may change: the history grows, by reads of the status register and the bytes sent.\<close>

definition uart_only :: "port_event list \<Rightarrow> bool" where
  "uart_only es \<longleftrightarrow> (\<forall>e \<in> set es. case e of PortIn p \<Rightarrow> p = COM1 + 5 | PortOut p v \<Rightarrow> p = COM1)"

lemma uart_only_simps [simp]:
  "uart_only []" "uart_only (xs @ ys) \<longleftrightarrow> uart_only xs \<and> uart_only ys"
  "uart_only (PortIn p # xs) \<longleftrightarrow> p = COM1 + 5 \<and> uart_only xs" "uart_only (PortOut p v # xs) \<longleftrightarrow> p = COM1 \<and> uart_only xs"
  by (auto simp: uart_only_def)

definition sent :: "u8 list \<Rightarrow> 'a io_state_scheme \<Rightarrow> 'a io_state_scheme \<Rightarrow> bool" where
  "sent cs s t \<longleftrightarrow> (\<exists>es. t = s\<lparr>port_log := port_log s @ es\<rparr> \<and> sent_to COM1 es = cs \<and> uart_only es)"

lemma sent_refl [simp]: "sent [] s s"
  unfolding sent_def by (rule exI [of _ "[]"]) simp

lemma sent_trans: "sent cs s t \<Longrightarrow> sent ds t u \<Longrightarrow> sent (cs @ ds) s u"
proof -
  assume "sent cs s t" "sent ds t u"
  then obtain es fs where "t = s\<lparr>port_log := port_log s @ es\<rparr>" "sent_to COM1 es = cs" "uart_only es"
    "u = t\<lparr>port_log := port_log t @ fs\<rparr>" "sent_to COM1 fs = ds" "uart_only fs" unfolding sent_def by blast
  then show ?thesis unfolding sent_def by (intro exI [of _ "es @ fs"]) simp
qed

lemma sent_dev: "sent cs s t \<Longrightarrow> port_dev t = port_dev s"
  by (auto simp: sent_def)

lemma serial_wait_returns:
  assumes "port_dev s (port_log s @ replicate n (PortIn (COM1 + 5))) (COM1 + 5) AND 0x20 \<noteq> 0"
  shows "\<exists>t. serial_wait s = Some t \<and> sent [] s t"
  using assms
proof (induction n arbitrary: s)
  case 0
  then have "serial_wait s = Some (snd (inb (COM1 + 5) s))"
    by (subst serial_wait.simps) (simp add: inb_def)
  moreover have "sent [] s (snd (inb (COM1 + 5) s))"
    unfolding sent_def by (rule exI [of _ "[PortIn (COM1 + 5)]"]) (simp add: inb_def)
  ultimately show ?case by blast
next
  case (Suc n)
  let ?t = "snd (inb (COM1 + 5) s)"
  have s1: "sent [] s ?t" unfolding sent_def by (rule exI [of _ "[PortIn (COM1 + 5)]"]) (simp add: inb_def)
  show ?case
  proof (cases "port_dev s (port_log s) (COM1 + 5) AND 0x20 = 0")
    case True
    then have "serial_wait s = serial_wait ?t" by (subst serial_wait.simps) (simp add: inb_def)
    moreover obtain t where "serial_wait ?t = Some t" "sent [] ?t t"
      using Suc.IH [of ?t] Suc.prems by auto
    ultimately show ?thesis using sent_trans [OF s1] by fastforce
  next
    case False
    then have "serial_wait s = Some ?t" by (subst serial_wait.simps) (simp add: inb_def)
    with s1 show ?thesis by blast
  qed
qed

lemma serial_putchar_sends:
  assumes "uart_ready (port_dev s)"
  shows "\<exists>t. serial_putchar c s = Ret () t \<and> sent [c] s t"
proof -
  obtain n where "port_dev s (port_log s @ replicate n (PortIn (COM1 + 5))) (COM1 + 5) AND 0x20 \<noteq> 0"
    using assms unfolding uart_ready_def by blast
  from serial_wait_returns [OF this] obtain t where t: "serial_wait s = Some t" "sent [] s t" by blast
  have "sent [c] t (outb COM1 c t)"
    unfolding sent_def by (rule exI [of _ "[PortOut COM1 c]"]) (simp add: outb_def)
  from sent_trans [OF t(2) this] t(1) show ?thesis by (auto simp: serial_putchar_def)
qed

lemma serial_print_sends:
  assumes "uart_ready (port_dev s)" and "0 \<notin> set cs"
  shows "\<exists>t. serial_print cs s = Ret () t \<and> sent cs s t"
  using assms
proof (induction cs arbitrary: s)
  case Nil
  then show ?case by simp
next
  case (Cons c cs)
  obtain t where t: "serial_putchar c s = Ret () t" "sent [c] s t" using serial_putchar_sends Cons.prems by blast
  then have "uart_ready (port_dev t)" using Cons.prems(1) sent_dev by metis
  then obtain u where "serial_print cs t = Ret () u" "sent cs t u" using Cons.IH Cons.prems(2) by fastforce
  with t sent_trans [OF t(2)] Cons.prems(2) show ?case by fastforce
qed

text \<open>A transmitter that never reports an empty buffer makes the wait spin forever.\<close>

lemma serial_wait_hangs:
  assumes "\<And>log. dev log (COM1 + 5) AND 0x20 = 0"
  shows "port_dev s = dev \<Longrightarrow> serial_wait s = None"
proof -
  have "port_dev s \<noteq> dev" if "serial_wait s = Some t" for s t :: "'a io_state_scheme"
  proof (rule serial_wait.raw_induct [of "\<lambda>s t. port_dev s \<noteq> dev", OF _ that])
    fix f and s t :: "'a io_state_scheme"
    assume IH: "\<And>s t. f s = Some t \<Longrightarrow> port_dev s \<noteq> dev"
      and e: "(case inb (COM1 + 5) s of (v, t) \<Rightarrow> if v AND 0x20 = 0 then f t else Some t) = Some t"
    show "port_dev s \<noteq> dev"
    proof
      assume d: "port_dev s = dev"
      then have "f (snd (inb (COM1 + 5) s)) = Some t" using e assms by (simp add: inb_def)
      from IH [OF this] d show False by simp
    qed
  qed
  then show "port_dev s = dev \<Longrightarrow> serial_wait s = None" by (cases "serial_wait s") auto
qed

section \<open>Numbers\<close>

lemma hex_digits_loop:
  fixes f defines "f \<equiv> \<lambda>(_::nat) (v::u64, buf). (drop_bit 4 v, digit_char (ucast (v AND 0xF)) # buf)"
  shows "digits_value 16 (snd (for_upd n i f (v, buf))) = (unat v mod 16 ^ n) * 16 ^ length buf + digits_value 16 buf"
    and "0 \<notin> set buf \<Longrightarrow> 0 \<notin> set (snd (for_upd n i f (v, buf)))"
    and "length (snd (for_upd n i f (v, buf))) = n + length buf"
proof (induction n arbitrary: i v buf)
  case 0
  { case 1 then show ?case by simp }
  { case 2 then show ?case by simp }
  { case 3 then show ?case by simp }
next
  case (Suc n)
  have d: "digit_value (digit_char (ucast (v AND 0xF))) = unat v mod 16" for v :: u64
    by (subst digit_value_char) (simp_all add: unat_nibble)
  have m: "unat v mod 16 ^ Suc n = unat v mod 16 + 16 * (unat v div 16 mod 16 ^ n)" for v :: u64
    by (simp add: mod_mult2_eq)
  have nz: "digit_char (ucast (v AND 0xF)) \<noteq> 0" for v :: u64
    by (rule digit_char_nonzero) (simp add: unat_nibble)
  { case 1
    have "for_upd (Suc n) i f (v, buf) = for_upd n (Suc i) f (drop_bit 4 v, digit_char (ucast (v AND 0xF)) # buf)"
      by (simp add: f_def)
    then have "digits_value 16 (snd (for_upd (Suc n) i f (v, buf))) =
        (unat v div 16 mod 16 ^ n) * (16 * 16 ^ length buf) + (unat v mod 16 * 16 ^ length buf + digits_value 16 buf)"
      by (simp only: Suc(1) unat_drop4 digits_value.simps d list.size One_nat_def add_Suc_right add_0_right power_Suc)
    then show ?case unfolding m by (simp only: algebra_simps) }
  { case 2
    then show ?case using Suc(2) [of "digit_char (ucast (v AND 0xF)) # buf" "Suc i" "drop_bit 4 v"] nz
      by (simp add: f_def) }
  { case 3
    show ?case using Suc(3) [of "Suc i" "drop_bit 4 v" "digit_char (ucast (v AND 0xF)) # buf"]
      by (simp add: f_def) }
qed

lemma skip_zeros_props:
  "digits_value 16 (skip_zeros cs) = digits_value 16 cs" "set (skip_zeros cs) \<subseteq> set cs"
  "cs \<noteq> [] \<Longrightarrow> skip_zeros cs \<noteq> []" "length (skip_zeros cs) = 1 \<or> skip_zeros cs = [] \<or> hd (skip_zeros cs) \<noteq> 0x30"
  by (induction cs rule: skip_zeros.induct) (auto simp: digit_value_def)

lemma serial_hex_digits:
  "digits_value 16 (serial_hex_digits v) = unat v" "0 \<notin> set (serial_hex_digits v)" "length (serial_hex_digits v) = 16"
  using hex_digits_loop [where n = 16 and i = 0 and v = v and buf = "[]"] unat_less_u64 [of v] by (simp_all add: serial_hex_digits_def)

lemma serial_numbers:
  assumes "uart_ready (port_dev s)"
  shows "\<exists>t ds. serial_print_hex v s = Ret () t \<and> sent ds s t \<and> digits_value 16 ds = unat v \<and>
      ds \<noteq> [] \<and> (length ds = 1 \<or> hd ds \<noteq> 0x30)"
    and "\<exists>t ds. serial_print_int v s = Ret () t \<and> sent ((if sint v < 0 then [0x2D] else []) @ ds) s t \<and>
      ds \<noteq> [] \<and> (if sint v < 0 then - int (digits_value 10 ds) else int (digits_value 10 ds)) = sint v"
proof -
  let ?ds = "skip_zeros (serial_hex_digits v)"
  have "0 \<notin> set ?ds" using serial_hex_digits(2) [of v] skip_zeros_props(2) [of "serial_hex_digits v"] by blast
  moreover have "serial_hex_digits v \<noteq> []" using serial_hex_digits(3) [of v] by auto
  ultimately show "\<exists>t ds. serial_print_hex v s = Ret () t \<and> sent ds s t \<and> digits_value 16 ds = unat v \<and>
      ds \<noteq> [] \<and> (length ds = 1 \<or> hd ds \<noteq> 0x30)"
    using serial_print_sends [OF assms, of ?ds] skip_zeros_props [of "serial_hex_digits v"] serial_hex_digits(1) [of v]
    by (auto simp: serial_print_hex_def)
next
  let ?v = "if sint v < 0 then - v else v"
  have av: "int (unat ?v) = \<bar>sint v\<bar>"
  proof (cases "sint v < 0")
    case True
    then show ?thesis using uint_neg_u64 [OF True] by simp
  next
    case False
    then have "uint v < 2 ^ 63" using unsigned_less [where ?'a = int, of v] by (auto simp: sint_u64 split: if_splits)
    then have "sint v = uint v" by (simp add: sint_u64)
    with False show ?thesis by simp
  qed
  obtain t where t: "(if sint v < 0 then serial_putchar 0x2D s else Ret () s) = Ret () t"
      "sent (if sint v < 0 then [0x2D] else []) s t"
    using serial_putchar_sends [OF assms, of "0x2D"] by (cases "sint v < 0") auto
  then have r: "uart_ready (port_dev t)" using assms sent_dev by metis
  let ?ds = "if ?v = 0 then [0x30] else vga_uint_loop ?v []"
  have "0 \<notin> set (vga_uint_loop ?v [])" by (rule vga_uint_loop_nonzero) simp
  then obtain u where u: "(if ?v = 0 then serial_putchar 0x30 t else serial_print (vga_uint_loop ?v []) t) = Ret () u" "sent ?ds t u"
    using serial_putchar_sends [OF r, of "0x30"] serial_print_sends [OF r, of "vga_uint_loop ?v []"]
    by (cases "?v = 0") auto
  have val: "digits_value 10 ?ds = unat ?v"
    using vga_uint_loop_value [of ?v "[]"] by (cases "?v = 0") (simp_all only: if_True if_False, simp_all add: digit_value_def)
  then have "?ds \<noteq> []" by (auto simp: unat_eq_0)
  moreover have "serial_print_int v s = Ret () u"
    using t(1) u(1) by (simp only: serial_print_int_def obind.simps Let_def)
  ultimately show "\<exists>t ds. serial_print_int v s = Ret () t \<and> sent ((if sint v < 0 then [0x2D] else []) @ ds) s t \<and>
      ds \<noteq> [] \<and> (if sint v < 0 then - int (digits_value 10 ds) else int (digits_value 10 ds)) = sint v"
    using sent_trans [OF t(2) u(2)] val av by (intro exI [of _ u] exI [of _ ?ds]) auto
qed

section \<open>Properties\<close>

text \<open>A UART whose transmit buffer is always empty, and one whose buffer never empties.\<close>

definition uart_idle :: io_state where
  "uart_idle = \<lparr>port_log = [], port_dev = (\<lambda>_ _. 0x20)\<rparr>"

definition uart_stuck :: io_state where
  "uart_stuck = \<lparr>port_log = [], port_dev = (\<lambda>_ _. 0)\<rparr>"

lemma uart_idle_ready: "uart_ready (port_dev uart_idle)"
  by (simp add: uart_ready_def uart_idle_def)

text \<open>With a transmitter that becomes ready, \<open>serial_print\<close> returns and has written exactly
  the string's bytes to the data port, in order and once each; nothing else of the
  machine changes but the history of port accesses.\<close>

theorem serial_print_sends_string:
  assumes "uart_ready (port_dev s)" and "0 \<notin> set cs"
  shows "\<exists>t. serial_print cs s = Ret () t \<and> sent_to COM1 (port_log t) = sent_to COM1 (port_log s) @ cs \<and>
    t = s\<lparr>port_log := port_log t\<rparr>"
  using serial_print_sends [OF assms] by (auto simp: sent_def)

theorem serial_print_sends_string_witness:
  "\<exists>t. serial_print (str ''ok'') uart_idle = Ret () t \<and> sent_to COM1 (port_log t) = [0x6F, 0x6B]"
  using serial_print_sends_string [OF uart_idle_ready, of "str ''ok''"] by (auto simp: uart_idle_def)

text \<open>\<open>serial_print_hex\<close> and \<open>serial_print_int\<close> send a numeral that reads back to the value: one
  to sixteen hexadecimal digits without leading zeros, and an optional minus sign with
  decimal digits, right also for the most negative value.\<close>

theorem serial_print_numbers_readback:
  assumes "uart_ready (port_dev s)"
  shows "(\<exists>t ds. serial_print_hex v s = Ret () t \<and> sent ds s t \<and> digits_value 16 ds = unat v \<and>
      ds \<noteq> [] \<and> (length ds = 1 \<or> hd ds \<noteq> 0x30)) \<and>
    (\<exists>t ds. serial_print_int v s = Ret () t \<and> sent ((if sint v < 0 then [0x2D] else []) @ ds) s t \<and>
      ds \<noteq> [] \<and> (if sint v < 0 then - int (digits_value 10 ds) else int (digits_value 10 ds)) = sint v)"
  using serial_numbers [OF assms] by blast

theorem serial_print_numbers_readback_witness:
  "\<exists>t ds. serial_print_hex 0x1F uart_idle = Ret () t \<and> sent ds uart_idle t \<and> digits_value 16 ds = 31"
  using serial_print_numbers_readback [OF uart_idle_ready, of "0x1F"] by auto

text \<open>A transmitter that never reports an empty buffer makes \<open>serial_putchar\<close> spin forever.\<close>

theorem serial_putchar_hangs:
  assumes "\<forall>log. port_dev s log (COM1 + 5) AND 0x20 = 0"
  shows "serial_putchar c s = Hang"
  using serial_wait_hangs [of "port_dev s" s] assms by (simp add: serial_putchar_def)

theorem serial_putchar_hangs_witness: "serial_putchar 0x41 uart_stuck = Hang"
  by (rule serial_putchar_hangs) (simp add: uart_stuck_def)

end
