(* ===== verification/Pic.thy ===== *)
theory Pic
  imports Port_Io
begin

text \<open>
  The two cascaded 8259 interrupt controllers of \<open>src/drivers/pic.c\<close>. The mask registers
  live in the device: the driver reads one, changes a bit and writes it back.
\<close>

section \<open>Operations\<close>

abbreviation PIC1_CMD :: u16 where "PIC1_CMD \<equiv> 0x20"
abbreviation PIC1_DATA :: u16 where "PIC1_DATA \<equiv> 0x21"
abbreviation PIC2_CMD :: u16 where "PIC2_CMD \<equiv> 0xA0"
abbreviation PIC2_DATA :: u16 where "PIC2_DATA \<equiv> 0xA1"

definition io_wait :: "'a io_state_scheme \<Rightarrow> 'a io_state_scheme" where
  "io_wait s = outb 0x80 0 s"

definition pic_init :: "'a io_state_scheme \<Rightarrow> 'a io_state_scheme" where
  "pic_init s =
     (case inb PIC1_DATA s of (mask1, s1) \<Rightarrow> case inb PIC2_DATA s1 of (mask2, s2) \<Rightarrow>
      let s3 = io_wait (outb PIC1_CMD 0x11 s2);
          s4 = io_wait (outb PIC2_CMD 0x11 s3);
          s5 = io_wait (outb PIC1_DATA 0x20 s4);
          s6 = io_wait (outb PIC2_DATA 0x28 s5);
          s7 = io_wait (outb PIC1_DATA 0x04 s6);
          s8 = io_wait (outb PIC2_DATA 0x02 s7);
          s9 = io_wait (outb PIC1_DATA 0x01 s8);
          s10 = io_wait (outb PIC2_DATA 0x01 s9);
          s11 = outb PIC1_DATA mask1 s10
      in outb PIC2_DATA mask2 s11)"

definition pic_send_eoi :: "u8 \<Rightarrow> 'a io_state_scheme \<Rightarrow> 'a io_state_scheme" where
  "pic_send_eoi irq s = outb PIC1_CMD 0x20 (if 8 \<le> irq then outb PIC2_CMD 0x20 s else s)"

text \<open>\<open>1 << irq\<close> is an \<open>int\<close>; the combined value is cut to the byte that \<open>outb\<close> takes.\<close>

definition pic_mask :: "u8 \<Rightarrow> 'a io_state_scheme \<Rightarrow> 'a io_state_scheme" where
  "pic_mask irq s =
     (let port = (if irq < 8 then PIC1_DATA else PIC2_DATA);
          irq = (if 8 \<le> irq then irq - 8 else irq)
      in case inb port s of (v, t) \<Rightarrow> outb port (ucast ((ucast v :: u32) OR push_bit (unat irq) 1)) t)"

definition pic_unmask :: "u8 \<Rightarrow> 'a io_state_scheme \<Rightarrow> 'a io_state_scheme" where
  "pic_unmask irq s =
     (let port = (if irq < 8 then PIC1_DATA else PIC2_DATA);
          irq = (if 8 \<le> irq then irq - 8 else irq)
      in case inb port s of (v, t) \<Rightarrow> outb port (ucast ((ucast v :: u32) AND NOT (push_bit (unat irq) 1))) t)"

section \<open>The mask registers\<close>

text \<open>
  The documented behaviour of the 8259: outside its initialisation sequence the data port
  reads back the mask written last.
\<close>

definition mask_port :: "u16 \<Rightarrow> bool" where
  "mask_port p \<longleftrightarrow> p = PIC1_DATA \<or> p = PIC2_DATA"

definition mask_reads_back :: "(port_event list \<Rightarrow> u16 \<Rightarrow> u8) \<Rightarrow> bool" where
  "mask_reads_back dev \<longleftrightarrow>
     (\<forall>log p v. mask_port p \<longrightarrow> dev (log @ [PortOut p v]) p = v) \<and>
     (\<forall>log p q. mask_port p \<longrightarrow> dev (log @ [PortIn q]) p = dev log p) \<and>
     (\<forall>log p q v. mask_port p \<longrightarrow> mask_port q \<longrightarrow> p \<noteq> q \<longrightarrow> dev (log @ [PortOut q v]) p = dev log p)"

text \<open>
  The masks change through the controllers' own ports only, and an end of interrupt leaves them alone.
\<close>

definition pic_port :: "u16 \<Rightarrow> bool" where
  "pic_port p \<longleftrightarrow> p \<in> {PIC1_CMD, PIC1_DATA, PIC2_CMD, PIC2_DATA}"

definition mask_apart :: "(port_event list \<Rightarrow> u16 \<Rightarrow> u8) \<Rightarrow> bool" where
  "mask_apart dev \<longleftrightarrow> (\<forall>log p q v. mask_port p \<longrightarrow> \<not> pic_port q \<or> q = PIC1_CMD \<and> v = 0x20 \<longrightarrow> dev (log @ [PortOut q v]) p = dev log p)"

definition irq_port :: "nat \<Rightarrow> u16" where
  "irq_port irq = (if irq < 8 then PIC1_DATA else PIC2_DATA)"

text \<open>Whether a line is masked, as the controllers see it.\<close>

definition irq_masked :: "nat \<Rightarrow> 'a io_state_scheme \<Rightarrow> bool" where
  "irq_masked irq s = bit (port_dev s (port_log s) (irq_port irq)) (irq mod 8)"

lemma byte_set_bit: "k < 8 \<Longrightarrow> bit (ucast ((ucast (v::u8) :: u32) OR push_bit k 1) :: u8) n \<longleftrightarrow> n < 8 \<and> (n = k \<or> bit v n)"
  by (auto simp: bit_ucast_iff bit_or_iff bit_push_bit_iff)

lemma byte_clear_bit:
  "k < 8 \<Longrightarrow> bit (ucast ((ucast (v::u8) :: u32) AND NOT (push_bit k 1)) :: u8) n \<longleftrightarrow> n < 8 \<and> n \<noteq> k \<and> bit v n"
  by (auto simp: bit_ucast_iff bit_and_iff bit_not_iff bit_push_bit_iff)

lemma mask_after_write:
  assumes "mask_reads_back dev" and "mask_port p" and "mask_port q"
  shows "dev (log @ [PortIn q, PortOut q v]) p = (if p = q then v else dev log p)"
proof -
  note d = assms(1) [unfolded mask_reads_back_def]
  have e: "log @ [PortIn q, PortOut q v] = (log @ [PortIn q]) @ [PortOut q v]" by simp
  show ?thesis
  proof (cases "p = q")
    case True
    have "dev ((log @ [PortIn q]) @ [PortOut q v]) q = v" using d [THEN conjunct1] assms(3) by blast
    then show ?thesis unfolding e True by simp
  next
    case False
    then have "dev ((log @ [PortIn q]) @ [PortOut q v]) p = dev (log @ [PortIn q]) p"
      using d [THEN conjunct2, THEN conjunct2] assms(2,3) by blast
    also have "\<dots> = dev log p" using d [THEN conjunct2, THEN conjunct1] assms(2) by blast
    finally show ?thesis unfolding e using False by simp
  qed
qed

lemma irq_port: "mask_port (irq_port i)" "irq_port i = irq_port j \<longleftrightarrow> (i < 8) = (j < 8)"
  by (simp_all add: irq_port_def mask_port_def)

lemma pic_mask_log:
  assumes "irq < 16"
  shows "pic_mask (of_nat irq) s = s\<lparr>port_log := port_log s @ [PortIn (irq_port irq),
      PortOut (irq_port irq) (ucast ((ucast (port_dev s (port_log s) (irq_port irq)) :: u32) OR push_bit (irq mod 8) 1))]\<rparr>"
    and "pic_unmask (of_nat irq) s = s\<lparr>port_log := port_log s @ [PortIn (irq_port irq),
      PortOut (irq_port irq) (ucast ((ucast (port_dev s (port_log s) (irq_port irq)) :: u32) AND NOT (push_bit (irq mod 8) 1)))]\<rparr>"
proof -
  have u: "unat (of_nat irq :: u8) = irq" using assms by (simp add: unat_of_nat_small)
  have lt: "((of_nat irq :: u8) < 8) = (irq < 8)" by (simp add: word_less_nat_alt u)
  have k: "unat (if 8 \<le> (of_nat irq :: u8) then of_nat irq - 8 else of_nat irq :: u8) = irq mod 8"
    using u assms by (auto simp: unat_sub word_le_nat_alt mod_if)
  show "pic_mask (of_nat irq) s = s\<lparr>port_log := port_log s @ [PortIn (irq_port irq),
      PortOut (irq_port irq) (ucast ((ucast (port_dev s (port_log s) (irq_port irq)) :: u32) OR push_bit (irq mod 8) 1))]\<rparr>"
    and "pic_unmask (of_nat irq) s = s\<lparr>port_log := port_log s @ [PortIn (irq_port irq),
      PortOut (irq_port irq) (ucast ((ucast (port_dev s (port_log s) (irq_port irq)) :: u32) AND NOT (push_bit (irq mod 8) 1)))]\<rparr>"
    unfolding pic_mask_def pic_unmask_def Let_def k irq_port_def lt inb_def outb_def by simp_all
qed

lemma irq_split: "(i::nat) < 16 \<Longrightarrow> j < 16 \<Longrightarrow> (i < 8) = (j < 8) \<Longrightarrow> i mod 8 = j mod 8 \<Longrightarrow> i = j"
proof -
  assume a: "i < 16" "j < 16" "(i < 8) = (j < 8)" "i mod 8 = j mod 8"
  have "i div 8 = j div 8" using a(1-3) by (cases "i < 8") (auto simp: div_if)
  with a(4) show "i = j" by (metis div_mult_mod_eq)
qed

lemma irq_masked_outb: "mask_apart (port_dev s) \<Longrightarrow> \<not> pic_port q \<Longrightarrow> irq_masked i (outb q v s) = irq_masked i s"
  by (simp add: irq_masked_def outb_def mask_apart_def irq_port(1))

lemma irq_masked_inb: "mask_reads_back (port_dev s) \<Longrightarrow> irq_masked i (snd (inb q s)) = irq_masked i s"
  by (simp add: irq_masked_def inb_def mask_reads_back_def irq_port(1))

text \<open>With controllers whose mask registers read back, \<open>pic_mask\<close> masks exactly the given
  line of the sixteen and \<open>pic_unmask\<close> unmasks exactly it; every other line keeps its
  state, also those of the other controller.\<close>

theorem pic_mask_one_line:
  assumes "mask_reads_back (port_dev s)" and "irq < 16" and "j < 16"
  shows "irq_masked j (pic_mask (of_nat irq) s) = (j = irq \<or> irq_masked j s) \<and>
    irq_masked j (pic_unmask (of_nat irq) s) = (j \<noteq> irq \<and> irq_masked j s)"
proof -
  note m = mask_after_write [OF assms(1) irq_port(1) [of j] irq_port(1) [of irq], of "port_log s"]
    mask_after_write [OF assms(1) irq_port(1) [of irq] irq_port(1) [of irq], of "port_log s"]
  have "j = irq \<longleftrightarrow> irq_port j = irq_port irq \<and> j mod 8 = irq mod 8"
    using irq_split [OF assms(3,2)] by (auto simp: irq_port(2))
  moreover have "irq mod 8 < 8" "j mod 8 < 8" by simp_all
  moreover have "port_dev (pic_mask (of_nat irq) s) = port_dev s" "port_dev (pic_unmask (of_nat irq) s) = port_dev s"
    "port_log (pic_mask (of_nat irq) s) = port_log s @ [PortIn (irq_port irq),
      PortOut (irq_port irq) (ucast ((ucast (port_dev s (port_log s) (irq_port irq)) :: u32) OR push_bit (irq mod 8) 1))]"
    "port_log (pic_unmask (of_nat irq) s) = port_log s @ [PortIn (irq_port irq),
      PortOut (irq_port irq) (ucast ((ucast (port_dev s (port_log s) (irq_port irq)) :: u32) AND NOT (push_bit (irq mod 8) 1)))]"
    by (simp_all add: pic_mask_log [OF assms(2)])
  ultimately show ?thesis
    by (cases "irq_port j = irq_port irq") (simp_all only: irq_masked_def m if_True if_False byte_set_bit byte_clear_bit simp_thms)
qed

text \<open>Controllers with all lines masked that behave as documented.\<close>

fun mask_dev :: "port_event list \<Rightarrow> u16 \<Rightarrow> u8" where
  "mask_dev [] p = 0xFF"
| "mask_dev (PortOut q v # es) p = (if p = q then v else mask_dev es p)"
| "mask_dev (PortIn q # es) p = mask_dev es p"

definition pic_ideal :: io_state where
  "pic_ideal = \<lparr>port_log = [], port_dev = (\<lambda>log. mask_dev (rev log))\<rparr>"

theorem pic_mask_one_line_witness:
  "irq_masked 4 (pic_mask (of_nat 1) pic_ideal) \<and> \<not> irq_masked 1 (pic_unmask (of_nat 1) pic_ideal) \<and>
    irq_masked 9 (pic_unmask (of_nat 1) pic_ideal)"
proof -
  have m: "mask_reads_back (port_dev pic_ideal)" by (simp add: mask_reads_back_def pic_ideal_def)
  have "irq_masked 4 pic_ideal" "irq_masked 9 pic_ideal" by (simp_all add: irq_masked_def pic_ideal_def)
  then show ?thesis
    using pic_mask_one_line [OF m, of 1 4] pic_mask_one_line [OF m, of 1 1] pic_mask_one_line [OF m, of 1 9]
    by (simp only: rel_simps simp_thms)
qed

end
