(* ===== verification/Gdt.thy ===== *)
theory Gdt
  imports Kheap_Alloc Serial Pic
begin

text \<open>
  The segment descriptors, the task state segment and the system call registers of
  \<open>src/cpu/gdt.c\<close>, with the loading of the table and the segment registers by \<open>gdt_flush.asm\<close>. A packed C structure is a record of its fields; the 16-byte TSS
  descriptor, which the code writes through a pointer to slot 5, is the two slots it
  covers. The addresses of \<open>gdt\<close>, \<open>tss\<close> and \<open>syscall_entry\<close> come from the linker and
  are parameters.
\<close>

section \<open>State and operations\<close>

record gdt_entry =
  limit_low :: u16
  base_low :: u16
  base_mid :: u8
  access :: u8
  granularity :: u8
  base_high :: u8

record tss_struct =
  tss_reserved0 :: u32
  tss_rsp0 :: u64
  tss_rsp1 :: u64
  tss_rsp2 :: u64
  tss_reserved1 :: u64
  tss_ist :: "u64 list"
  tss_reserved2 :: u64
  tss_reserved3 :: u16
  tss_iopb_offset :: u16

definition tss_zero :: tss_struct where
  "tss_zero = \<lparr>tss_reserved0 = 0, tss_rsp0 = 0, tss_rsp1 = 0, tss_rsp2 = 0, tss_reserved1 = 0,
     tss_ist = replicate 7 0, tss_reserved2 = 0, tss_reserved3 = 0, tss_iopb_offset = 0\<rparr>"

text \<open>\<open>sizeof(tss_t)\<close> for the packed structure.\<close>

definition TSS_SIZE :: nat where
  "TSS_SIZE = 4 + 8 + 8 + 8 + 8 + 7 * 8 + 8 + 2 + 2"

record gdt_state = heap_state +
  gdt :: "gdt_entry list"
  tss :: tss_struct
  gdtr :: "u16 \<times> u64"
  task_reg :: u16
  seg_cs :: u16
  seg_ds :: u16
  seg_es :: u16
  seg_fs :: u16
  seg_gs :: u16
  seg_ss :: u16
  msr :: "u32 \<Rightarrow> u64"

definition gdt_set_entry :: "nat \<Rightarrow> u32 \<Rightarrow> u32 \<Rightarrow> u8 \<Rightarrow> u8 \<Rightarrow> 'a gdt_state_scheme \<Rightarrow> 'a gdt_state_scheme" where
  "gdt_set_entry i b limit acc gran s =
     s\<lparr>gdt := (gdt s)[i := \<lparr>limit_low = ucast (limit AND 0xFFFF),
                           base_low = ucast (b AND 0xFFFF),
                           base_mid = ucast (drop_bit 16 b AND 0xFF),
                           access = acc,
                           granularity = ucast (drop_bit 16 limit AND 0x0F) OR (gran AND 0xF0),
                           base_high = ucast (drop_bit 24 b AND 0xFF)\<rparr>]\<rparr>"

abbreviation MSR_STAR :: u32 where "MSR_STAR \<equiv> 0xC0000081"
abbreviation MSR_LSTAR :: u32 where "MSR_LSTAR \<equiv> 0xC0000082"
abbreviation MSR_SFMASK :: u32 where "MSR_SFMASK \<equiv> 0xC0000084"
abbreviation MSR_EFER :: u32 where "MSR_EFER \<equiv> 0xC0000080"

definition wrmsr :: "u32 \<Rightarrow> u64 \<Rightarrow> 'a gdt_state_scheme \<Rightarrow> 'a gdt_state_scheme" where
  "wrmsr r val s =
     (let low = (ucast (val AND 0xFFFFFFFF) :: u32); high = (ucast (drop_bit 32 val) :: u32)
      in s\<lparr>msr := (msr s)(r := push_bit 32 (ucast high) OR ucast low)\<rparr>)"

definition syscall_init :: "u64 \<Rightarrow> 'a gdt_state_scheme \<Rightarrow> 'a gdt_state_scheme" where
  "syscall_init syscall_entry s =
     (let s1 = wrmsr MSR_LSTAR syscall_entry s;
          s2 = wrmsr MSR_STAR (push_bit 48 0x10 OR push_bit 32 0x08) s1;
          s3 = wrmsr MSR_SFMASK 0x200 s2;
          low = (ucast (msr s3 MSR_EFER) :: u32) OR 1;
          high = (ucast (drop_bit 32 (msr s3 MSR_EFER)) :: u32)
      in s3\<lparr>msr := (msr s3)(MSR_EFER := push_bit 32 (ucast high) OR ucast low)\<rparr>)"

text \<open>The descriptor written over slots 5 and 6.\<close>

definition set_tss_descriptor :: "u64 \<Rightarrow> u16 \<Rightarrow> 'a gdt_state_scheme \<Rightarrow> 'a gdt_state_scheme" where
  "set_tss_descriptor tss_base tss_limit s =
     s\<lparr>gdt := (gdt s)[
        5 := \<lparr>limit_low = tss_limit AND 0xFFFF, base_low = ucast (tss_base AND 0xFFFF),
              base_mid = ucast (drop_bit 16 tss_base AND 0xFF), access = 0x89,
              granularity = ucast (drop_bit 16 (ucast tss_limit :: u32) AND 0x0F),
              base_high = ucast (drop_bit 24 tss_base AND 0xFF)\<rparr>,
        6 := \<lparr>limit_low = ucast (drop_bit 32 tss_base), base_low = ucast (drop_bit 48 tss_base),
              base_mid = 0, access = 0, granularity = 0, base_high = 0\<rparr>]\<rparr>"

text \<open>\<open>gdt_flush.asm\<close>: the table is loaded, then every segment register; CS by the far return.\<close>

definition gdt_flush :: "u16 \<times> u64 \<Rightarrow> 'a gdt_state_scheme \<Rightarrow> 'a gdt_state_scheme" where
  "gdt_flush ptr s = s\<lparr>gdtr := ptr, seg_ds := 0x10, seg_es := 0x10, seg_fs := 0x10, seg_gs := 0x10, seg_ss := 0x10, seg_cs := 0x08\<rparr>"

definition gdt_init :: "u64 \<Rightarrow> u64 \<Rightarrow> u64 \<Rightarrow> 'a gdt_state_scheme \<Rightarrow> 'a gdt_state_scheme" where
  "gdt_init gdt_addr tss_addr syscall_entry s =
     (let s1 = gdt_set_entry 0 0 0 0x00 0x00 s;
          s2 = gdt_set_entry 1 0 0xFFFFFFFF 0x9A 0xA0 s1;
          s3 = gdt_set_entry 2 0 0xFFFFFFFF 0x92 0xC0 s2;
          s4 = gdt_set_entry 3 0 0xFFFFFFFF 0xF2 0xC0 s3;
          s5 = gdt_set_entry 4 0 0xFFFFFFFF 0xFA 0xA0 s4;
          s6 = s5\<lparr>tss := tss_zero\<lparr>tss_iopb_offset := of_nat TSS_SIZE\<rparr>\<rparr>;
          s7 = set_tss_descriptor tss_addr (of_nat (TSS_SIZE - 1)) s6;
          s8 = (gdt_flush (8 * 7 - 1, gdt_addr) s7)\<lparr>task_reg := 0x28\<rparr>
      in syscall_init syscall_entry s8)"

definition tss_set_kernel_stack :: "u64 \<Rightarrow> 'a gdt_state_scheme \<Rightarrow> 'a gdt_state_scheme" where
  "tss_set_kernel_stack rsp0 s = s\<lparr>tss := (tss s)\<lparr>tss_rsp0 := rsp0\<rparr>\<rparr>"

section \<open>Descriptors as the processor reads them\<close>

definition desc_base :: "gdt_entry \<Rightarrow> u32" where
  "desc_base e = ucast (base_low e) OR push_bit 16 (ucast (base_mid e)) OR push_bit 24 (ucast (base_high e))"

definition desc_limit :: "gdt_entry \<Rightarrow> u32" where
  "desc_limit e = ucast (limit_low e) OR push_bit 16 (ucast (granularity e AND 0x0F))"

definition desc_flags :: "gdt_entry \<Rightarrow> u8" where
  "desc_flags e = drop_bit 4 (granularity e)"

text \<open>Executable, and reachable from ring 3: bit 3 and bits 5 and 6 of the access byte.\<close>

definition desc_code :: "gdt_entry \<Rightarrow> bool" where
  "desc_code e \<longleftrightarrow> bit (access e) 7 \<and> bit (access e) 4 \<and> bit (access e) 3"

definition desc_data :: "gdt_entry \<Rightarrow> bool" where
  "desc_data e \<longleftrightarrow> bit (access e) 7 \<and> bit (access e) 4 \<and> \<not> bit (access e) 3 \<and> bit (access e) 1"

definition desc_ring :: "gdt_entry \<Rightarrow> nat" where
  "desc_ring e = unat (drop_bit 5 (access e) AND 3)"

text \<open>The 64-bit base of the system descriptor in slots 5 and 6.\<close>

definition sys_base :: "gdt_entry \<Rightarrow> gdt_entry \<Rightarrow> u64" where
  "sys_base lo hi = ucast (desc_base lo) OR push_bit 32 (ucast (limit_low hi)) OR push_bit 48 (ucast (base_low hi))"

lemma desc_base_fields:
  "(ucast (ucast (b AND 0xFFFF) :: u16) :: u32) OR push_bit 16 (ucast (ucast (drop_bit 16 b AND 0xFF) :: u8)) OR
     push_bit 24 (ucast (ucast (drop_bit 24 b AND 0xFF) :: u8)) = (b :: u32)"
proof (rule bit_word_eqI)
  fix n assume "n < LENGTH(32)"
  then have n: "n < LENGTH(32)" "n < 16 \<or> 16 \<le> n \<and> n < 16 + 8 \<or> 24 \<le> n \<and> n < 24 + 8" by auto
  have w: "16 \<le> LENGTH(16)" "8 \<le> LENGTH(8)" by simp_all
  show "bit ((ucast (ucast (b AND 0xFFFF) :: u16) :: u32) OR push_bit 16 (ucast (ucast (drop_bit 16 b AND 0xFF) :: u8)) OR
     push_bit 24 (ucast (ucast (drop_bit 24 b AND 0xFF) :: u8))) n = bit b n"
    unfolding mask_numerals bit_or_iff bit_low_field [OF w(1) n(1)] bit_field [OF w(2) n(1)] using n(2) by blast
qed

lemma sys_base_fields:
  "(ucast ((ucast (ucast (b AND 0xFFFF) :: u16) :: u32) OR push_bit 16 (ucast (ucast (drop_bit 16 b AND 0xFF) :: u8)) OR
     push_bit 24 (ucast (ucast (drop_bit 24 b AND 0xFF) :: u8))) :: u64) OR
     push_bit 32 (ucast (ucast (drop_bit 32 b) :: u16)) OR push_bit 48 (ucast (ucast (drop_bit 48 b) :: u16)) = (b :: u64)"
  (is "?l = b")
proof (rule bit_word_eqI)
  fix n assume n: "n < LENGTH(64)"
  have c: "n < 32 \<or> 32 \<le> n \<and> n < 32 + LENGTH(16) \<or> 48 \<le> n \<and> n < 48 + LENGTH(16)" using n by auto
  have w: "16 \<le> LENGTH(16)" "8 \<le> LENGTH(8)" by simp_all
  have u: "bit (ucast x :: u64) n \<longleftrightarrow> n < 32 \<and> bit x n" for x :: u32
    using n bit_imp_le_length [of x n] by (auto simp: bit_ucast_iff)
  have lo: "bit (ucast ((ucast (ucast (b AND 0xFFFF) :: u16) :: u32) OR push_bit 16 (ucast (ucast (drop_bit 16 b AND 0xFF) :: u8)) OR
     push_bit 24 (ucast (ucast (drop_bit 24 b AND 0xFF) :: u8))) :: u64) n \<longleftrightarrow> n < 32 \<and> bit b n"
  proof (cases "n < 32")
    case True
    then have n': "n < LENGTH(32)" "n < 16 \<or> 16 \<le> n \<and> n < 16 + 8 \<or> 24 \<le> n \<and> n < 24 + 8" by auto
    then show ?thesis
      unfolding u mask_numerals bit_or_iff bit_low_field [OF w(1) n'(1)] bit_field [OF w(2) n'(1)]
      using True by blast
  qed (simp only: u simp_thms)
  show "bit ?l n = bit b n"
    unfolding bit_or_iff [where ?'a = "64 word"] lo bit_chunk [OF n] using c by blast
qed

lemma low_nibble: "(ucast (x AND 0x0F :: u32) OR (g AND 0xF0) :: u8) AND 0x0F = ucast (x AND 0x0F)"
proof -
  have "(g AND 0xF0 :: u8) AND 0x0F = 0" by (simp add: and.assoc)
  moreover have "ucast (x AND 0x0F :: u32) AND (0x0F :: u8) = ucast (x AND 0x0F)"
    unfolding mask_numerals by (rule bit_word_eqI) (auto simp: bit_and_iff bit_mask_iff bit_ucast_iff)
  ultimately show ?thesis by (simp add: bit.conj_disj_distrib2)
qed

lemma desc_limit_fields:
  "(ucast (ucast (l AND 0xFFFF) :: u16) :: u32) OR
     push_bit 16 (ucast ((ucast (drop_bit 16 l AND 0x0F) OR (g AND 0xF0) :: u8) AND 0x0F)) = (l :: u32) AND 0xFFFFF"
  unfolding low_nibble
proof (rule bit_word_eqI)
  fix n assume n: "n < LENGTH(32)"
  have w: "16 \<le> LENGTH(16)" "4 \<le> LENGTH(8)" by simp_all
  have "n < 20 \<longleftrightarrow> n < 16 \<or> 16 \<le> n \<and> n < 16 + 4" by auto
  then show "bit ((ucast (ucast (l AND 0xFFFF) :: u16) :: u32) OR push_bit 16 (ucast (ucast (drop_bit 16 l AND 0x0F) :: u8))) n =
      bit (l AND 0xFFFFF) n"
    unfolding mask_numerals bit_or_iff bit_low_field [OF w(1) n] bit_field [OF w(2) n] bit_and_iff bit_mask_iff
    using n by auto
qed

lemma desc_flags_fields: "drop_bit 4 (ucast (drop_bit 16 (l :: u32) AND 0x0F) OR (g AND 0xF0) :: u8) = drop_bit 4 g"
proof -
  have f: "(0xF0 :: u8) = NOT (mask 4)" by (simp add: mask_eq_exp_minus_1)
  show ?thesis
    unfolding f mask_numerals
    by (rule bit_word_eqI)
      (auto simp: bit_or_iff bit_and_iff bit_not_iff bit_mask_iff bit_ucast_iff bit_drop_bit_eq dest: bit_imp_le_length)
qed

lemma msr_halves: "push_bit 32 (ucast (ucast (drop_bit 32 v) :: u32)) OR ucast (ucast (v AND 0xFFFFFFFF) :: u32) = (v :: u64)"
  (is "?l = v")
proof (rule bit_word_eqI)
  fix n assume n: "n < LENGTH(64)"
  have w: "32 \<le> LENGTH(32)" by simp
  have "n < 32 \<or> 32 \<le> n \<and> n < 32 + LENGTH(32)" using n by auto
  then show "bit ?l n = bit v n"
    unfolding mask_numerals bit_or_iff bit_low_field [OF w n] bit_chunk [OF n] by blast
qed

lemma wrmsr_msr: "wrmsr r v s = s\<lparr>msr := (msr s)(r := v)\<rparr>"
  by (simp only: wrmsr_def Let_def msr_halves)

section \<open>Properties\<close>

lemmas gdt_entry_decode = desc_base_def desc_limit_def desc_flags_def

lemma efer_enabled: "push_bit 32 (ucast (ucast (drop_bit 32 v) :: u32)) OR ucast ((ucast v :: u32) OR 1) = (v :: u64) OR 1"
  (is "?l = _")
proof (rule bit_word_eqI)
  fix n assume n: "n < LENGTH(64)"
  have w: "n < 32 \<or> 32 \<le> n \<and> n < 32 + LENGTH(32)" using n by auto
  have "bit (ucast ((ucast v :: u32) OR 1) :: u64) n \<longleftrightarrow> n < 32 \<and> (bit v n \<or> n = 0)"
    using n by (auto simp: bit_ucast_iff bit_or_iff bit_1_iff)
  then show "bit ?l n = bit (v OR 1) n"
    unfolding bit_or_iff bit_chunk [OF n] bit_1_iff using w by auto
qed

lemma syscall_init_msr:
  "syscall_init entry s = s\<lparr>msr := (msr s)(MSR_LSTAR := entry,
     MSR_STAR := push_bit 48 0x10 OR push_bit 32 0x08, MSR_SFMASK := 0x200, MSR_EFER := msr s MSR_EFER OR 1)\<rparr>"
  by (simp add: syscall_init_def wrmsr_msr efer_enabled Let_def)

text \<open>A descriptor written by \<open>gdt_set_entry\<close> reads back, the way the processor assembles its
  scattered fields, to the base, the low 20 bits of the limit, the access byte and the
  four flag bits given; no other slot changes.\<close>

theorem gdt_set_entry_decodes:
  assumes "i < length (gdt s)"
  shows "let t = gdt_set_entry i b l acc gran s; e = gdt t ! i in
    desc_base e = b \<and> desc_limit e = l AND 0xFFFFF \<and> access e = acc \<and> desc_flags e = drop_bit 4 gran \<and>
    length (gdt t) = length (gdt s) \<and> (\<forall>j. j \<noteq> i \<longrightarrow> gdt t ! j = gdt s ! j)"
  using assms desc_base_fields [of b] desc_limit_fields [of l gran] desc_flags_fields [of l gran]
  by (simp add: gdt_set_entry_def gdt_entry_decode Let_def)

text \<open>A machine whose descriptor table holds seven null descriptors.\<close>

definition gdt_null :: gdt_entry where
  "gdt_null = \<lparr>limit_low = 0, base_low = 0, base_mid = 0, access = 0, granularity = 0, base_high = 0\<rparr>"

definition gdt_blank :: gdt_state where
  "gdt_blank = heap_state.extend heap_fresh
     \<lparr>gdt = replicate 7 gdt_null, tss = tss_zero, gdtr = (0, 0), task_reg = 0, seg_cs = 0, seg_ds = 0, seg_es = 0, seg_fs = 0, seg_gs = 0, seg_ss = 0, msr = (\<lambda>_. 0)\<rparr>"

lemma gdt_blank_length: "length (gdt gdt_blank) = 7"
  by (simp add: gdt_blank_def heap_state.defs)

theorem gdt_set_entry_decodes_witness:
  "let t = gdt_set_entry 1 0x12345678 0xFFFFFFFF 0x9A 0xA0 gdt_blank; e = gdt t ! 1 in
    desc_base e = 0x12345678 \<and> desc_limit e = 0xFFFFF \<and> desc_flags e = 0xA"
proof -
  have "drop_bit 4 (0xA0 :: u8) = 0xA" by (simp add: drop_bit_eq_div)
  then show ?thesis
    using gdt_set_entry_decodes [of 1 gdt_blank "0x12345678" "0xFFFFFFFF" "0x9A" "0xA0"]
    by (simp add: gdt_blank_length Let_def)
qed

text \<open>After \<open>gdt_init\<close> the selectors that the processor derives from the STAR register fit the
  descriptor table: SYSCALL loads the ring 0 code segment of slot 1 and the data segment
  of slot 2, and SYSRET, which adds 16 and 8 to STAR's upper selector, loads the ring 3 code
  segment of slot 4 and the ring 3 data segment of slot 3. The system descriptor in slots 5
  and 6 has the full 64-bit address and the limit of the TSS, system calls enter at
  \<open>syscall_entry\<close> with interrupts masked, and the only other register changed is EFER, whose
  SYSCALL bit is set.\<close>

theorem gdt_init_selectors_fit:
  assumes "length (gdt s) = 7"
  shows "let t = gdt_init gdt_addr tss_addr entry s;
      kernel = unat (drop_bit 32 (msr t MSR_STAR) AND 0xFFFF); user = unat (drop_bit 48 (msr t MSR_STAR)) in
    desc_code (gdt t ! (kernel div 8)) \<and> desc_ring (gdt t ! (kernel div 8)) = 0 \<and>
    desc_data (gdt t ! ((kernel + 8) div 8)) \<and> desc_ring (gdt t ! ((kernel + 8) div 8)) = 0 \<and>
    desc_code (gdt t ! ((user + 16) div 8)) \<and> desc_ring (gdt t ! ((user + 16) div 8)) = 3 \<and>
    desc_data (gdt t ! ((user + 8) div 8)) \<and> desc_ring (gdt t ! ((user + 8) div 8)) = 3 \<and>
    sys_base (gdt t ! 5) (gdt t ! 6) = tss_addr \<and> unat (desc_limit (gdt t ! 5)) + 1 = TSS_SIZE \<and>
    task_reg t div 8 = 5 \<and> gdtr t = (of_nat (8 * length (gdt t) - 1), gdt_addr) \<and>
    msr t MSR_LSTAR = entry \<and> bit (msr t MSR_SFMASK) 9 \<and> msr t MSR_EFER = msr s MSR_EFER OR 1 \<and>
    (\<forall>r. r \<notin> {MSR_STAR, MSR_LSTAR, MSR_SFMASK, MSR_EFER} \<longrightarrow> msr t r = msr s r)"
proof -
  let ?t = "gdt_init gdt_addr tss_addr entry s"
  have m: "msr ?t = (msr s)(MSR_LSTAR := entry, MSR_STAR := push_bit 48 0x10 OR push_bit 32 0x08,
      MSR_SFMASK := 0x200, MSR_EFER := msr s MSR_EFER OR 1)"
    by (simp add: gdt_init_def gdt_flush_def syscall_init_msr Let_def set_tss_descriptor_def gdt_set_entry_def)
  have star: "drop_bit 32 (msr ?t MSR_STAR) AND 0xFFFF = 8" "drop_bit 48 (msr ?t MSR_STAR) = 0x10"
    by (simp_all add: m push_bit_eq_mult drop_bit_eq_div)
  have acc: "access (gdt ?t ! 1) = 0x9A" "access (gdt ?t ! 2) = 0x92" "access (gdt ?t ! 3) = 0xF2" "access (gdt ?t ! 4) = 0xFA"
    using assms by (simp_all add: gdt_init_def gdt_flush_def syscall_init_msr Let_def set_tss_descriptor_def gdt_set_entry_def nth_list_update)
  have tssd: "gdt ?t ! 5 = \<lparr>limit_low = 103, base_low = ucast (tss_addr AND 0xFFFF),
      base_mid = ucast (drop_bit 16 tss_addr AND 0xFF), access = 0x89, granularity = 0,
      base_high = ucast (drop_bit 24 tss_addr AND 0xFF)\<rparr>"
    "gdt ?t ! 6 = \<lparr>limit_low = ucast (drop_bit 32 tss_addr), base_low = ucast (drop_bit 48 tss_addr),
      base_mid = 0, access = 0, granularity = 0, base_high = 0\<rparr>"
    using assms by (simp_all add: gdt_init_def gdt_flush_def syscall_init_msr Let_def set_tss_descriptor_def gdt_set_entry_def TSS_SIZE_def drop_bit_eq_div)
  have rest: "task_reg ?t = 0x28" "gdtr ?t = (55, gdt_addr)" "length (gdt ?t) = 7"
    using assms by (simp_all add: gdt_init_def gdt_flush_def syscall_init_msr Let_def set_tss_descriptor_def gdt_set_entry_def)
  have sb: "sys_base (gdt ?t ! 5) (gdt ?t ! 6) = tss_addr" "unat (desc_limit (gdt ?t ! 5)) + 1 = TSS_SIZE"
    using sys_base_fields [of tss_addr] by (simp_all add: tssd sys_base_def desc_base_def desc_limit_def TSS_SIZE_def)
  have k: "unat (8::u64) div 8 = 1" "(unat (8::u64) + 8) div 8 = 2" "(unat (16::u64) + 16) div 8 = 4" "(unat (16::u64) + 8) div 8 = 3"
    by simp_all
  have seg: "desc_code (gdt ?t ! 1)" "desc_ring (gdt ?t ! 1) = 0" "desc_data (gdt ?t ! 2)" "desc_ring (gdt ?t ! 2) = 0"
    "desc_code (gdt ?t ! 4)" "desc_ring (gdt ?t ! 4) = 3" "desc_data (gdt ?t ! 3)" "desc_ring (gdt ?t ! 3) = 3"
    by (simp_all only: desc_code_def desc_data_def desc_ring_def acc) (simp_all add: drop_bit_eq_div bit_iff_odd)
  have tr: "(0x28::u16) div 8 = 5" "(of_nat (8 * 7 - 1) :: u16) = 55" by simp_all
  have ms: "msr ?t MSR_LSTAR = entry" "bit (msr ?t MSR_SFMASK) 9" "msr ?t MSR_EFER = msr s MSR_EFER OR 1"
    "\<forall>r. r \<notin> {MSR_STAR, MSR_LSTAR, MSR_SFMASK, MSR_EFER} \<longrightarrow> msr ?t r = msr s r"
    by (simp_all add: m bit_iff_odd)
  show ?thesis unfolding Let_def star k by (intro conjI seg sb ms) (simp_all only: rest tr)
qed

theorem gdt_init_selectors_fit_witness:
  "let t = gdt_init 0x110000 0x123456789ABC 0x104000 gdt_blank in
    sys_base (gdt t ! 5) (gdt t ! 6) = 0x123456789ABC \<and> msr t MSR_LSTAR = 0x104000"
  using gdt_init_selectors_fit [OF gdt_blank_length, of "0x110000" "0x123456789ABC" "0x104000"] by (simp add: Let_def)

end
