(* ===== verification/Kprocess.thy ===== *)
theory Kprocess
  imports Gdt
begin

text \<open>
  Process descriptors of \<open>src/process/process.c\<close>: kernel processes, user processes with an
  address space of their own, and their release. The memory of a descriptor and of a kernel
  stack comes from the kernel heap. The stack is written as bytes of the machine memory; the
  fields of a \<open>process_t\<close> are kept as a record under the descriptor's address, and an access
  through a pointer to no descriptor is a \<open>Fault\<close>. The addresses of the assembly entry
  points come from the linker.
\<close>

section \<open>State and operations\<close>

datatype process_status = PROCESS_READY | PROCESS_RUNNING | PROCESS_BLOCKED | PROCESS_DEAD

datatype wait_kind = WAIT_NONE | WAIT_SLEEP | WAIT_KEY

record cpu_context =
  ctx_rsp :: u64
  ctx_rax :: u64
  ctx_rbx :: u64
  ctx_rcx :: u64
  ctx_rdx :: u64
  ctx_rsi :: u64
  ctx_rdi :: u64
  ctx_rbp :: u64
  ctx_r8 :: u64
  ctx_r9 :: u64
  ctx_r10 :: u64
  ctx_r11 :: u64
  ctx_r12 :: u64
  ctx_r13 :: u64
  ctx_r14 :: u64
  ctx_r15 :: u64
  ctx_rip :: u64
  ctx_rflags :: u64
  ctx_cr3 :: u64

record process =
  pid :: u32
  pstate :: process_status
  pcontext :: cpu_context
  kernel_stack :: u64
  user_stack :: u64
  page_table :: u64
  wake_tick :: u64
  wait_reason :: wait_kind
  pnext :: u64
  heap_start :: u64
  heap_end :: u64
  use_linux_abi :: u8

text \<open>The descriptor that \<open>kcalloc\<close> returns: every byte zero.\<close>

definition context_zero :: cpu_context where
  "context_zero = \<lparr>ctx_rsp = 0, ctx_rax = 0, ctx_rbx = 0, ctx_rcx = 0, ctx_rdx = 0, ctx_rsi = 0, ctx_rdi = 0,
     ctx_rbp = 0, ctx_r8 = 0, ctx_r9 = 0, ctx_r10 = 0, ctx_r11 = 0, ctx_r12 = 0, ctx_r13 = 0, ctx_r14 = 0,
     ctx_r15 = 0, ctx_rip = 0, ctx_rflags = 0, ctx_cr3 = 0\<rparr>"

definition process_zero :: process where
  "process_zero = \<lparr>pid = 0, pstate = PROCESS_READY, pcontext = context_zero, kernel_stack = 0, user_stack = 0,
     page_table = 0, wake_tick = 0, wait_reason = WAIT_NONE, pnext = NULL, heap_start = 0, heap_end = 0,
     use_linux_abi = 0\<rparr>"

text \<open>\<open>sizeof(process_t)\<close>: 8 + 19 * 8 + 4 * 8 + 8 + 3 * 8 + 8 with padding.\<close>

abbreviation PROCESS_SIZE :: u64 where "PROCESS_SIZE \<equiv> 232"
abbreviation KERNEL_STACK_SIZE :: u64 where "KERNEL_STACK_SIZE \<equiv> 16384"
abbreviation USER_STACK_VIRT :: u64 where "USER_STACK_VIRT \<equiv> 0x8000040000"
abbreviation USER_STACK_PAGES :: nat where "USER_STACK_PAGES \<equiv> 32"
abbreviation USER_CODE_VIRT :: u64 where "USER_CODE_VIRT \<equiv> 0x8000200000"
abbreviation USER_HEAP_BASE :: u64 where "USER_HEAP_BASE \<equiv> 0x8004000000"

record kernel_syms =
  process_trampoline_fn :: u64
  process_user_trampoline_fn :: u64
  idle_fn :: u64

record proc_state = gdt_state +
  procs :: "u64 \<Rightarrow> process option"
  next_pid :: u32

definition process_create ::
    "kernel_syms \<Rightarrow> u64 \<Rightarrow> 'a proc_state_scheme \<Rightarrow> ('a proc_state_scheme, u64) outcome" where
  "process_create syms entry s =
     obind (kcalloc 1 PROCESS_SIZE s) (\<lambda>proc s1.
       if proc = NULL then Ret NULL s1
       else obind (kmalloc KERNEL_STACK_SIZE s1) (\<lambda>stack s2.
         if stack = NULL then obind (kfree proc s2) (\<lambda>_ s3. Ret NULL s3)
         else
           let sp1 = stack + KERNEL_STACK_SIZE - 8;
               m1 = store64 (mem s2) sp1 entry;
               sp2 = sp1 - 8;
               m2 = store64 m1 sp2 (process_trampoline_fn syms)
           in Ret proc (s2\<lparr>mem := m2,
                procs := (procs s2)(proc \<mapsto> process_zero\<lparr>pid := next_pid s2, pstate := PROCESS_READY,
                  kernel_stack := stack + KERNEL_STACK_SIZE, page_table := 0, pnext := NULL,
                  pcontext := context_zero\<lparr>ctx_rsp := sp2\<rparr>\<rparr>),
                next_pid := next_pid s2 + 1\<rparr>)))"

definition process_alloc :: "'a proc_state_scheme \<Rightarrow> ('a proc_state_scheme, u64) outcome" where
  "process_alloc s =
     obind (kcalloc 1 PROCESS_SIZE s) (\<lambda>proc s1.
       if proc = NULL then Ret NULL s1
       else obind (kmalloc KERNEL_STACK_SIZE s1) (\<lambda>kstack s2.
         if kstack = NULL then obind (kfree proc s2) (\<lambda>_ s3. Ret NULL s3)
         else Ret proc (s2\<lparr>
                procs := (procs s2)(proc \<mapsto> process_zero\<lparr>pid := next_pid s2, pstate := PROCESS_READY,
                  kernel_stack := kstack + KERNEL_STACK_SIZE, pnext := NULL\<rparr>),
                next_pid := next_pid s2 + 1\<rparr>)))"

text \<open>The loop over the user stack's pages; it stops at the first frame it cannot get.\<close>

primrec map_user_stack :: "nat \<Rightarrow> nat \<Rightarrow> u64 \<Rightarrow> 'a vmm_state_scheme \<Rightarrow> ('a vmm_state_scheme, bool) outcome" where
  "map_user_stack 0 i pt s = Ret True s"
| "map_user_stack (Suc n) i pt s =
     (case pmm_alloc s of (frame, s1) \<Rightarrow>
        if frame = NULL then Ret False s1
        else let virt = USER_STACK_VIRT - of_nat (USER_STACK_PAGES - i) * PAGE_SIZE
             in obind (vmm_map_in pt virt frame (PTE_PRESENT OR PTE_WRITABLE OR PTE_USER) s1)
                  (\<lambda>_ s2. map_user_stack n (Suc i) pt s2))"

definition print_line :: "string \<Rightarrow> u64 \<Rightarrow> 'a vga_state_scheme \<Rightarrow> 'a vga_state_scheme" where
  "print_line label v s = vga_print [0x0A] (vga_print_hex v (vga_print (str label) s))"

definition process_create_user ::
    "kernel_syms \<Rightarrow> u64 \<Rightarrow> 'a proc_state_scheme \<Rightarrow> ('a proc_state_scheme, u64) outcome" where
  "process_create_user syms entry s =
     obind (kcalloc 1 PROCESS_SIZE s) (\<lambda>proc s1.
       if proc = NULL then Ret NULL s1
       else obind (kmalloc KERNEL_STACK_SIZE s1) (\<lambda>kstack s2.
         if kstack = NULL then obind (kfree proc s2) (\<lambda>_ s3. Ret NULL s3)
         else
           let pr = process_zero\<lparr>pid := next_pid s2, pstate := PROCESS_READY,
                      kernel_stack := kstack + KERNEL_STACK_SIZE, pnext := NULL\<rparr>;
               s3 = s2\<lparr>next_pid := next_pid s2 + 1\<rparr>
           in case vmm_create_address_space s3 of (pt, s4) \<Rightarrow>
             if pt = 0 then obind (kfree kstack s4) (\<lambda>_ s5. obind (kfree proc s5) (\<lambda>_ s6. Ret NULL s6))
             else
               let s5 = s4\<lparr>procs := (procs s4)(proc \<mapsto> pr\<lparr>page_table := pt\<rparr>)\<rparr>
               in obind (map_user_stack USER_STACK_PAGES 0 pt s5) (\<lambda>done s6.
                 if \<not> done then Ret NULL s6
                 else
                   let entry_phys = vmm_get_phys (ENTRY_ADDR entry) s6
                   in obind (for_loop 8 0 (\<lambda>i. vmm_map_in pt (USER_CODE_VIRT + of_nat i * 0x1000)
                              (entry_phys + of_nat i * 0x1000) (PTE_PRESENT OR PTE_USER)) s6) (\<lambda>_ s7.
                     let entry_virt = USER_CODE_VIRT + (entry AND 0xFFF);
                         entry_page_virt = entry AND NOT 0xFFF;
                         s8 = print_line ''user page_table:'' pt
                                (print_line ''entry_virt:     '' entry_virt
                                (print_line ''entry_phys:     '' entry_phys
                                (print_line ''entry page virt:'' entry_page_virt
                                (print_line ''entry fn addr:  '' entry s7))))
                     in if entry_phys = 0
                        then Halt (vga_print (str ''ERROR: vmm_get_phys returned 0 '' @ [0xE2, 0x80, 0x94] @
                                     str '' kernel fn not mapped'' @ [0x0A]) s8)
                        else
                          let verify_cur = cr3 s8;
                              s9 = vmm_switch_address_space pt s8;
                              verify_phys = vmm_get_phys USER_CODE_VIRT s9;
                              s10 = print_line ''verify mapping: '' verify_phys (vmm_switch_address_space verify_cur s9)
                          in if verify_phys = 0
                             then Halt (vga_print (str ''ERROR: mapping not installed in user PML4'' @ [0x0A]) s10)
                             else
                               let sp1 = kstack + KERNEL_STACK_SIZE - 8; m1 = store64 (mem s10) sp1 USER_STACK_VIRT;
                                   sp2 = sp1 - 8; m2 = store64 m1 sp2 entry_virt;
                                   sp3 = sp2 - 8; m3 = store64 m2 sp3 (process_user_trampoline_fn syms);
                                   s11 = s10\<lparr>mem := m3,
                                     procs := (procs s10)(proc \<mapsto> pr\<lparr>page_table := pt, user_stack := USER_STACK_VIRT,
                                       pcontext := context_zero\<lparr>ctx_rsp := sp3\<rparr>\<rparr>)\<rparr>
                               in Ret proc (print_line ''proc->context.rsp='' sp3 s11)))))"

definition process_destroy :: "u64 \<Rightarrow> 'a proc_state_scheme \<Rightarrow> ('a proc_state_scheme, unit) outcome" where
  "process_destroy proc s =
     (if proc = NULL then Ret () s
      else case procs s proc of
        None \<Rightarrow> Fault
      | Some pr \<Rightarrow>
          obind (kfree (kernel_stack pr - KERNEL_STACK_SIZE) s) (\<lambda>_ s1.
            obind (kfree proc s1) (\<lambda>_ s2. Ret () (s2\<lparr>procs := (procs s2)(proc := None)\<rparr>))))"

section \<open>Creating and destroying kernel processes\<close>

text \<open>The first steps every constructor takes: a descriptor and a kernel stack, or neither.\<close>

lemma two_areas:
  fixes s :: "'a heap_state_scheme"
  assumes inv: "heap_inv s"
  shows "\<exists>p s1. kcalloc 1 PROCESS_SIZE s = Ret p s1 \<and>
    (p = NULL \<and> s1 = s \<or>
     p \<noteq> NULL \<and> (\<exists>stack s2. kmalloc KERNEL_STACK_SIZE s1 = Ret stack s2 \<and>
       (stack = NULL \<and> s2 = s1 \<and>
          (\<exists>s3. kfree p s2 = Ret () s3 \<and> heap_inv s3 \<and> live s3 = live s \<and> (\<exists>m. s3 = s\<lparr>mem := m\<rparr>) \<and>
             (\<forall>(b, k) \<in> live s. same_on (mem s) (mem s3) b (b + k))) \<or>
        stack \<noteq> NULL \<and> heap_inv s2 \<and> (\<exists>m. s2 = s\<lparr>mem := m\<rparr>) \<and>
          (\<exists>n \<ge> 232. \<exists>k \<ge> 16384. live s2 = insert (unat stack, k) (insert (unat p, n) (live s)) \<and>
             (unat p, n) \<notin> live s \<and> (unat stack, k) \<notin> insert (unat p, n) (live s)) \<and>
          (\<forall>(b, k) \<in> live s. same_on (mem s) (mem s2) b (b + k)))))"
proof -
  have u: "unat (1::u64) * unat PROCESS_SIZE + 7 < 2 ^ 64" by simp
  from kcalloc_effect [OF inv one_neq_zero _ u] obtain p s1 where k1: "kcalloc 1 PROCESS_SIZE s = Ret p s1" "heap_inv s1"
    "p = NULL \<and> s1 = s \<or> (\<exists>n \<ge> 232. live s1 = insert (unat p, n) (live s) \<and> (unat p, n) \<notin> live s) \<and>
      (\<forall>(b, k) \<in> live s. same_on (mem s) (mem s1) b (b + k))" by auto
  obtain m1 where m1: "s1 = s\<lparr>mem := m1\<rparr>" using kcalloc_mem [OF k1(1)] by blast
  show ?thesis
  proof (cases "p = NULL")
    case True
    have "s1 = s"
    proof (rule ccontr)
      assume "s1 \<noteq> s"
      then obtain n where "live s1 = insert (unat p, n) (live s)" using k1(3) by blast
      then show False using kernel_heap.areas_pos [OF k1(2), of 0 n] True by simp
    qed
    with k1(1) True show ?thesis by blast
  next
    case False
    then obtain n where n: "232 \<le> n" "live s1 = insert (unat p, n) (live s)" "(unat p, n) \<notin> live s"
      "\<forall>(b, k) \<in> live s. same_on (mem s) (mem s1) b (b + k)" using k1(3) by blast
    from kmalloc_live [OF k1(2), of KERNEL_STACK_SIZE] obtain stack s2 where
      k2: "kmalloc KERNEL_STACK_SIZE s1 = Ret stack s2" "heap_inv s2"
      "stack = NULL \<and> s2 = s1 \<or> (\<exists>k \<ge> 16384. live s2 = insert (unat stack, k) (live s1) \<and> (unat stack, k) \<notin> live s1) \<and>
         (\<forall>(b, k) \<in> live s1. same_on (mem s1) (mem s2) b (b + k))" by auto
    obtain m2 where m2: "s2 = s1\<lparr>mem := m2\<rparr>" using kmalloc_mem [OF k2(1)] by blast
    show ?thesis
    proof (cases "stack = NULL")
      case True
      have s21: "s2 = s1"
      proof (rule ccontr)
        assume "s2 \<noteq> s1"
        then obtain k where "live s2 = insert (unat stack, k) (live s1)" using k2(3) by blast
        then show False using kernel_heap.areas_pos [OF k2(2), of 0 k] True by simp
      qed
      have "(unat p, n) \<in> live s1" using n(2) by simp
      from kfree_live [OF k1(2) this] obtain s3 where s3: "kfree p s1 = Ret () s3" "heap_inv s3"
        "live s3 = live s1 - {(unat p, n)}" "\<forall>(b, k) \<in> live s3. same_on (mem s1) (mem s3) b (b + k)" by blast
      have l3: "live s3 = live s" using s3(3) n(2,3) by auto
      moreover have "same_on (mem s) (mem s3) b (b + k)" if "(b, k) \<in> live s" for b k
        using same_on_trans [of "mem s" "mem s1" b "b + k" "mem s3"] n(4) [THEN bspec, OF that]
          s3(4) [THEN bspec, of "(b, k)"] l3 that by simp
      moreover have "\<exists>m. s3 = s\<lparr>mem := m\<rparr>" using kfree_mem [OF s3(1)] m1 by auto
      ultimately show ?thesis using k1(1) False k2(1) True s21 s3(1,2) by auto
    next
      case ns: False
      then obtain k where k: "16384 \<le> k" "live s2 = insert (unat stack, k) (live s1)" "(unat stack, k) \<notin> live s1"
        "\<forall>(b, k) \<in> live s1. same_on (mem s1) (mem s2) b (b + k)" using k2(3) by blast
      have "same_on (mem s) (mem s2) b (b + k)" if "(b, k) \<in> live s" for b k
        using same_on_trans [of "mem s" "mem s1" b "b + k" "mem s2"] n(4) [THEN bspec, OF that]
          k(4) [THEN bspec, of "(b, k)"] n(2) that by simp
      moreover have "\<exists>m. s2 = s\<lparr>mem := m\<rparr>" using m1 m2 by auto
      ultimately show ?thesis using k1(1) False k2(1,2) ns n(1-3) k(1-3) by (metis (no_types, lifting) case_prodI2)
    qed
  qed
qed

lemma stack_push2:
  fixes stack x y :: u64 and m :: memory
  assumes b: "unat stack + 16384 \<le> 2 ^ 63"
  defines "sp1 \<equiv> stack + KERNEL_STACK_SIZE - 8"
  defines "m' \<equiv> store64 (store64 m sp1 x) (sp1 - 8) y"
  shows "load64 m' (sp1 - 8) = y" "load64 m' sp1 = x"
    and "hi \<le> unat stack \<or> unat stack + 16384 \<le> lo \<Longrightarrow> same_on m m' lo hi"
proof -
  have "unat (stack + KERNEL_STACK_SIZE) = unat stack + 16384" using b by (simp add: unat_word_ariths)
  then have u1: "unat sp1 = unat stack + 16376" unfolding sp1_def
    by (subst unat_sub) (simp_all add: word_le_nat_alt)
  have u2: "unat (sp1 - 8) = unat stack + 16368"
    using u1 by (subst unat_sub) (simp_all add: word_le_nat_alt)
  show "load64 m' (sp1 - 8) = y" unfolding m'_def by (rule byte_memory.ld_st_same)
  have "same_on (store64 m sp1 x) m' (unat sp1) (unat sp1 + 8)"
    unfolding m'_def by (rule same_on_store64) (use u1 u2 b in simp_all)
  then have "load64 m' sp1 = load64 (store64 m sp1 x) sp1"
    by (rule load64_same) (use u1 b in simp)
  then show "load64 m' sp1 = x" by (simp only: byte_memory.ld_st_same)
  assume d: "hi \<le> unat stack \<or> unat stack + 16384 \<le> lo"
  have "same_on m (store64 m sp1 x) lo hi" by (rule same_on_store64) (use u1 b d in auto)
  moreover have "same_on (store64 m sp1 x) m' lo hi" unfolding m'_def by (rule same_on_store64) (use u2 b d in auto)
  ultimately show "same_on m m' lo hi" by (rule same_on_trans)
qed

lemma process_create_effect:
  fixes s :: "'a proc_state_scheme"
  assumes inv: "heap_inv s"
  shows "\<exists>p s'. process_create syms entry s = Ret p s' \<and> heap_inv s' \<and>
    (\<forall>(b, k) \<in> live s. same_on (mem s) (mem s') b (b + k)) \<and>
    (p = NULL \<and> live s' = live s \<and> (\<exists>m. s' = s\<lparr>mem := m\<rparr>) \<or>
     p \<noteq> NULL \<and> (\<exists>stack n k pr m. 232 \<le> n \<and> 16384 \<le> k \<and>
       live s' = insert (unat stack, k) (insert (unat p, n) (live s)) \<and>
       (unat p, n) \<notin> live s \<and> (unat stack, k) \<notin> insert (unat p, n) (live s) \<and>
       s' = s\<lparr>mem := m, procs := (procs s)(p \<mapsto> pr), next_pid := next_pid s + 1\<rparr> \<and>
       pid pr = next_pid s \<and> pstate pr = PROCESS_READY \<and> page_table pr = 0 \<and> pnext pr = NULL \<and>
       wait_reason pr = WAIT_NONE \<and> kernel_stack pr = stack + KERNEL_STACK_SIZE \<and>
       load64 m (ctx_rsp (pcontext pr)) = process_trampoline_fn syms \<and>
       load64 m (ctx_rsp (pcontext pr) + 8) = entry \<and> ctx_rsp (pcontext pr) + 16 = kernel_stack pr))"
proof -
  from two_areas [OF inv] obtain p s1 where k1: "kcalloc 1 PROCESS_SIZE s = Ret p s1" and
    c: "p = NULL \<and> s1 = s \<or>
     p \<noteq> NULL \<and> (\<exists>stack s2. kmalloc KERNEL_STACK_SIZE s1 = Ret stack s2 \<and>
       (stack = NULL \<and> s2 = s1 \<and>
          (\<exists>s3. kfree p s2 = Ret () s3 \<and> heap_inv s3 \<and> live s3 = live s \<and> (\<exists>m. s3 = s\<lparr>mem := m\<rparr>) \<and>
             (\<forall>(b, k) \<in> live s. same_on (mem s) (mem s3) b (b + k))) \<or>
        stack \<noteq> NULL \<and> heap_inv s2 \<and> (\<exists>m. s2 = s\<lparr>mem := m\<rparr>) \<and>
          (\<exists>n \<ge> 232. \<exists>k \<ge> 16384. live s2 = insert (unat stack, k) (insert (unat p, n) (live s)) \<and>
             (unat p, n) \<notin> live s \<and> (unat stack, k) \<notin> insert (unat p, n) (live s)) \<and>
          (\<forall>(b, k) \<in> live s. same_on (mem s) (mem s2) b (b + k))))" by blast
  from c consider (nul) "p = NULL" "s1 = s"
    | (nostack) s2 s3 where "p \<noteq> NULL" "kmalloc KERNEL_STACK_SIZE s1 = Ret NULL s2" "kfree p s2 = Ret () s3" "heap_inv s3"
        "live s3 = live s" "\<exists>m. s3 = s\<lparr>mem := m\<rparr>" "\<forall>(b, k) \<in> live s. same_on (mem s) (mem s3) b (b + k)"
    | (ok) stack s2 n k m where "p \<noteq> NULL" "kmalloc KERNEL_STACK_SIZE s1 = Ret stack s2" "stack \<noteq> NULL" "heap_inv s2"
        "s2 = s\<lparr>mem := m\<rparr>" "232 \<le> n" "16384 \<le> k" "live s2 = insert (unat stack, k) (insert (unat p, n) (live s))"
        "(unat p, n) \<notin> live s" "(unat stack, k) \<notin> insert (unat p, n) (live s)"
        "\<forall>(b, k) \<in> live s. same_on (mem s) (mem s2) b (b + k)" by blast
  then show ?thesis
  proof cases
    case nul
    have "process_create syms entry s = Ret NULL s" unfolding process_create_def k1 nul by simp
    then show ?thesis using inv by (auto intro!: exI [of _ NULL] exI [of _ s] exI [of _ "mem s"])
  next
    case nostack
    have "process_create syms entry s = Ret NULL s3" unfolding process_create_def k1 using nostack(1-3) by simp
    then show ?thesis using nostack(4-7) by blast
  next
    case ok
    let ?sp = "stack + KERNEL_STACK_SIZE - 8"
    let ?m = "store64 (store64 (mem s2) ?sp entry) (?sp - 8) (process_trampoline_fn syms)"
    let ?pr = "process_zero\<lparr>pid := next_pid s2, pstate := PROCESS_READY,
                  kernel_stack := stack + KERNEL_STACK_SIZE, page_table := 0, pnext := NULL,
                  pcontext := context_zero\<lparr>ctx_rsp := ?sp - 8\<rparr>\<rparr>"
    let ?s = "s2\<lparr>mem := ?m, procs := (procs s2)(p \<mapsto> ?pr), next_pid := next_pid s2 + 1\<rparr>"
    have run: "process_create syms entry s = Ret p ?s"
      unfolding process_create_def k1 using ok(1-3) by (simp add: Let_def)
    have lv: "(unat stack, k) \<in> live s2" using ok(8) by simp
    have b: "unat stack + 16384 \<le> 2 ^ 63" using live_bounds [OF ok(4) lv] heap_bounds(2) ok(7) by simp
    note st = stack_push2 [OF b, where m = "mem s2" and x = entry and y = "process_trampoline_fn syms"]
    have w: "heap_inv (s2\<lparr>mem := ?m\<rparr>)" "live (s2\<lparr>mem := ?m\<rparr>) = live s2"
      by (rule heap_write [OF ok(4) lv]; rule st(3); use ok(7) in simp)+
    have cg: "mem ?s = mem (s2\<lparr>mem := ?m\<rparr>)" "heap_head ?s = heap_head (s2\<lparr>mem := ?m\<rparr>)" by simp_all
    have hi: "heap_inv ?s" "live ?s = live s2" using heap_cong [OF cg] w by simp_all
    have bytes: "same_on (mem s) (mem ?s) b (b + j)" if bj: "(b, j) \<in> live s" for b j
    proof (rule same_on_trans)
      show "same_on (mem s) (mem s2) b (b + j)" using ok(11) bj by blast
      have "(b, j) \<noteq> (unat stack, k)" using ok(10) bj by auto
      then have "b + j < unat stack \<or> unat stack + k < b"
        using kernel_heap.areas_disjoint [OF ok(4) _ lv, of b j] ok(8) bj by auto
      then have "same_on (mem s2) ?m b (b + j)" by (intro st(3)) (use ok(7) in auto)
      then show "same_on (mem s2) (mem ?s) b (b + j)" by simp
    qed
    have e: "?s = s\<lparr>mem := ?m, procs := (procs s)(p \<mapsto> ?pr), next_pid := next_pid s + 1\<rparr>" using ok(5) by simp
    have prs: "pid ?pr = next_pid s \<and> pstate ?pr = PROCESS_READY \<and> page_table ?pr = 0 \<and> pnext ?pr = NULL \<and>
       wait_reason ?pr = WAIT_NONE \<and> kernel_stack ?pr = stack + KERNEL_STACK_SIZE"
      using ok(5) by (simp add: process_zero_def)
    have sp: "ctx_rsp (pcontext ?pr) = ?sp - 8" "?sp - 8 + 8 = ?sp" "?sp - 8 + 16 = kernel_stack ?pr" by simp_all
    have "load64 ?m (ctx_rsp (pcontext ?pr)) = process_trampoline_fn syms \<and>
       load64 ?m (ctx_rsp (pcontext ?pr) + 8) = entry \<and> ctx_rsp (pcontext ?pr) + 16 = kernel_stack ?pr"
      unfolding sp st(1,2) by simp
    with run hi bytes e prs ok(1,6-10) show ?thesis
      by (intro exI [of _ p] exI [of _ ?s] conjI disjI2 exI [of _ stack] exI [of _ n] exI [of _ k] exI [of _ ?pr] exI [of _ ?m])
        (simp_all only: ball_simps prod.case, auto)
  qed
qed

text \<open>When a request is met, and what it leaves for the next one.\<close>

lemma kmalloc_fits:
  assumes "heap_inv s" "sz \<noteq> 0" "unat sz + 7 < 2 ^ 64" "fit (round8 (unat sz)) (heap_blocks s) = Some (d, cs)"
  shows "\<exists>p s'. kmalloc sz s = Ret p s' \<and> p \<noteq> NULL \<and> heap_inv s' \<and> heap_blocks s' = cs"
proof -
  from kmalloc_fit [OF assms(1-3)] assms(4) obtain m' where
    m: "kmalloc sz s = Ret (of_nat (HEAP_BASE + d + 24)) (s\<lparr>mem := m'\<rparr>)" "heap_rep (s\<lparr>mem := m'\<rparr>) cs" by auto
  have h: "HEAP_BASE + d \<in> set (hdrs HEAP_BASE (heap_blocks s))" by (rule fit_hdr [OF assms(4)])
  have "span (heap_blocks s) = HEAP_BYTES" using assms(1) by (simp add: heap_inv_def heap_rep_def)
  then have "HEAP_BASE + d + 24 < 2 ^ 64" using hdrs_bounds [OF h] heap_bounds(2) by simp
  from of_nat_eq_0_u64 [OF this] have "(of_nat (HEAP_BASE + d + 24) :: u64) \<noteq> NULL" by (simp del: of_nat_add)
  with m heap_rep_inv [OF m(2)] heap_rep_blocks [OF m(2)] show ?thesis by blast
qed

lemma kcalloc_fits:
  assumes "heap_inv s" "n \<noteq> 0" "sz \<noteq> 0" "unat n * unat sz + 7 < 2 ^ 64"
    "fit (round8 (unat n * unat sz)) (heap_blocks s) = Some (d, cs)"
  shows "\<exists>p s'. kcalloc n sz s = Ret p s' \<and> p \<noteq> NULL \<and> heap_inv s' \<and> heap_blocks s' = cs"
proof -
  have u: "unat (n * sz) = unat n * unat sz" using assms(4) by (simp add: unat_word_ariths)
  have "0 < unat n * unat sz" using assms(2,3) by (simp add: unat_gt_0)
  then have nz: "n * sz \<noteq> 0" using u by auto
  note lt = assms(4) [folded u] and ft = assms(5) [folded u]
  from kmalloc_fits [OF assms(1) nz lt ft] obtain p s1 where
    k: "kmalloc (n * sz) s = Ret p s1" "p \<noteq> NULL" "heap_inv s1" "heap_blocks s1 = cs" by blast
  from kmalloc_live [OF assms(1) nz lt] k(1,2) obtain j where
    j: "unat (n * sz) \<le> j" "live s1 = insert (unat p, j) (live s)" by auto
  let ?m = "for_upd (unat (n * sz)) 0 (\<lambda>i m. m(p + of_nat i := 0)) (mem s1)"
  have pl: "(unat p, j) \<in> live s1" using j(2) by simp
  have b: "unat p + unat (n * sz) \<le> 2 ^ 64" using live_bounds [OF k(3) pl] heap_bounds(2) j(1) by simp
  have "same_on (mem s1) ?m 0 (unat p)" "same_on (mem s1) ?m (unat p + j) (2 ^ 64)"
    by (rule same_onI; subst zero_loop [OF b]; use j(1) in simp)+
  note w = heap_write [OF k(3) pl this]
  have "kcalloc n sz s = Ret p (s1\<lparr>mem := ?m\<rparr>)" using k(1,2) by (simp add: kcalloc_def)
  with w k(2,4) show ?thesis by auto
qed

lemma fit_no_free_pair:
  "fit k bs = Some (d, cs) \<Longrightarrow> no_free_pair bs \<Longrightarrow> no_free_pair cs \<and> (bs = [] \<or> cs \<noteq> [] \<and> (snd (hd cs) \<longrightarrow> snd (hd bs)))"
proof (induction k bs arbitrary: d cs rule: fit.induct)
  case (2 k n f bs)
  show ?case
  proof (cases "f \<and> k \<le> n")
    case True
    then show ?thesis using 2(2,3) by (cases bs) (auto split: if_splits)
  next
    case False
    then obtain e es where e: "fit k bs = Some (e, es)" "cs = (n, f) # es" using 2(2) by (auto split: option.splits if_splits)
    have "no_free_pair bs" using 2(3) by (cases bs) auto
    from 2(1) [OF False e(1) this] show ?thesis using 2(3) e by (cases bs; cases es) auto
  qed
qed simp

lemma fit_leaves:
  assumes "fit k bs = Some (d, cs)" and "(n, True) \<in> set bs" and "k + 24 + j \<le> n" and "8 < j"
  shows "\<exists>n' \<ge> j. (n', True) \<in> set cs"
  using assms
proof (induction k bs arbitrary: d cs rule: fit.induct)
  case (2 k l f bs)
  show ?case
  proof (cases "f \<and> k \<le> l")
    case True
    show ?thesis
    proof (cases "(n, True) = (l, f)")
      case True
      then have "k + 32 < l" "j \<le> l - k - 24" using 2(4,5) by auto
      then show ?thesis using 2(2) \<open>f \<and> k \<le> l\<close> by auto
    next
      case False
      then have "(n, True) \<in> set bs" using 2(3) by fastforce
      then have "(n, True) \<in> set cs" using 2(2) True by auto
      then show ?thesis using 2(4) by (intro exI [of _ n]) simp
    qed
  next
    case False
    then obtain d' cs' where f: "fit k bs = Some (d', cs')" "cs = (l, f) # cs'" using 2(2) by (auto split: option.splits)
    have "(n, True) \<in> set bs \<or> (n, True) = (l, f)" using 2(3) by auto
    then show ?thesis
    proof
      assume "(n, True) \<in> set bs"
      from 2(1) [OF False f(1) this 2(4,5)] show ?thesis unfolding f(2) by auto
    next
      assume "(n, True) = (l, f)"
      then show ?thesis using False 2(4) by simp
    qed
  qed
qed simp

text \<open>A free block of 16672 bytes is enough for a descriptor and a kernel stack.\<close>

lemma process_create_succeeds:
  fixes s :: "'a proc_state_scheme"
  assumes inv: "heap_inv s" and big: "(n, True) \<in> set (heap_blocks s)" "16672 \<le> n"
    and run: "process_create syms entry s = Ret p s'"
  shows "p \<noteq> NULL"
proof -
  have "fit 232 (heap_blocks s) \<noteq> None" using big unfolding fit_none by (fastforce dest: bspec [OF _ big(1)])
  then obtain d cs where f1: "fit 232 (heap_blocks s) = Some (d, cs)" by auto
  then have "fit (round8 (unat (1::u64) * unat PROCESS_SIZE)) (heap_blocks s) = Some (d, cs)" by (simp add: round8_def)
  from kcalloc_fits [OF inv _ _ _ this] obtain q s1 where
    k1: "kcalloc 1 PROCESS_SIZE s = Ret q s1" "q \<noteq> NULL" "heap_inv s1" "heap_blocks s1 = cs" by auto
  obtain n' where n': "16384 \<le> n'" "(n', True) \<in> set cs" using fit_leaves [OF f1 big(1), of 16384] big(2) by auto
  then have "fit (round8 (unat KERNEL_STACK_SIZE)) (heap_blocks s1) \<noteq> None"
    unfolding fit_none k1(4) by (fastforce simp: round8_def dest: bspec [OF _ n'(2)])
  then obtain d' cs' where "fit (round8 (unat KERNEL_STACK_SIZE)) (heap_blocks s1) = Some (d', cs')" by auto
  from kmalloc_fits [OF k1(3) _ _ this] obtain q' s2 where "kmalloc KERNEL_STACK_SIZE s1 = Ret q' s2" "q' \<noteq> NULL" by auto
  with run k1(1,2) show ?thesis by (auto simp: process_create_def Let_def)
qed

section \<open>Properties\<close>

definition proc_fresh :: proc_state where
  "proc_fresh = gdt_state.extend gdt_blank \<lparr>procs = Map.empty, next_pid = 1\<rparr>"

lemma proc_fresh_heap: "heap_inv proc_fresh" "heap_blocks proc_fresh = [(4194280, True)]" "live proc_fresh = {}"
proof -
  have "mem proc_fresh = mem heap_fresh" "heap_head proc_fresh = heap_head heap_fresh"
    by (simp_all add: proc_fresh_def gdt_blank_def gdt_state.defs heap_state.defs)
  then show "heap_inv proc_fresh" "heap_blocks proc_fresh = [(4194280, True)]" "live proc_fresh = {}"
    using heap_fresh_inv heap_cong [of proc_fresh heap_fresh] by (simp_all add: heap_blocks_def)
qed

text \<open>C31. \<open>process_create\<close> always returns. It returns null with the heap as before, or a new
  descriptor with the next process number, ready to run, whose kernel stack is an area of
  its own prepared so that the first switch to it returns into the trampoline with the
  entry point on top of the stack; every byte of the areas in use before is unchanged. With
  a free block of 16672 bytes it does not return null.\<close>

theorem process_create_ready:
  fixes s :: "'a proc_state_scheme"
  assumes "heap_inv s"
  shows "\<exists>p s'. process_create syms entry s = Ret p s' \<and> heap_inv s' \<and>
    (\<forall>(b, k) \<in> live s. same_on (mem s) (mem s') b (b + k)) \<and>
    ((\<exists>n \<ge> 16672. (n, True) \<in> set (heap_blocks s)) \<longrightarrow> p \<noteq> NULL) \<and>
    (p = NULL \<and> live s' = live s \<and> (\<exists>m. s' = s\<lparr>mem := m\<rparr>) \<or>
     p \<noteq> NULL \<and> (\<exists>stack n k pr m. 232 \<le> n \<and> 16384 \<le> k \<and>
       live s' = insert (unat stack, k) (insert (unat p, n) (live s)) \<and>
       (unat p, n) \<notin> live s \<and> (unat stack, k) \<notin> insert (unat p, n) (live s) \<and>
       s' = s\<lparr>mem := m, procs := (procs s)(p \<mapsto> pr), next_pid := next_pid s + 1\<rparr> \<and>
       pid pr = next_pid s \<and> pstate pr = PROCESS_READY \<and> page_table pr = 0 \<and> pnext pr = NULL \<and>
       wait_reason pr = WAIT_NONE \<and> kernel_stack pr = stack + KERNEL_STACK_SIZE \<and>
       load64 m (ctx_rsp (pcontext pr)) = process_trampoline_fn syms \<and>
       load64 m (ctx_rsp (pcontext pr) + 8) = entry \<and> ctx_rsp (pcontext pr) + 16 = kernel_stack pr))"
proof -
  from process_create_effect [OF assms, of syms entry] obtain p s' where
    run: "process_create syms entry s = Ret p s'" and eff: "heap_inv s'" "\<forall>(b, k) \<in> live s. same_on (mem s) (mem s') b (b + k)"
    and alt: "p = NULL \<and> live s' = live s \<and> (\<exists>m. s' = s\<lparr>mem := m\<rparr>) \<or>
     p \<noteq> NULL \<and> (\<exists>stack n k pr m. 232 \<le> n \<and> 16384 \<le> k \<and>
       live s' = insert (unat stack, k) (insert (unat p, n) (live s)) \<and>
       (unat p, n) \<notin> live s \<and> (unat stack, k) \<notin> insert (unat p, n) (live s) \<and>
       s' = s\<lparr>mem := m, procs := (procs s)(p \<mapsto> pr), next_pid := next_pid s + 1\<rparr> \<and>
       pid pr = next_pid s \<and> pstate pr = PROCESS_READY \<and> page_table pr = 0 \<and> pnext pr = NULL \<and>
       wait_reason pr = WAIT_NONE \<and> kernel_stack pr = stack + KERNEL_STACK_SIZE \<and>
       load64 m (ctx_rsp (pcontext pr)) = process_trampoline_fn syms \<and>
       load64 m (ctx_rsp (pcontext pr) + 8) = entry \<and> ctx_rsp (pcontext pr) + 16 = kernel_stack pr)"
    by (elim exE conjE) (rule that, assumption+)
  have "(\<exists>n \<ge> 16672. (n, True) \<in> set (heap_blocks s)) \<longrightarrow> p \<noteq> NULL"
    using process_create_succeeds [OF assms _ _ run] by blast
  with run eff alt show ?thesis by (intro exI [of _ p] exI [of _ s'] conjI)
qed

definition syms_example :: kernel_syms where
  "syms_example = \<lparr>process_trampoline_fn = 0x101000, process_user_trampoline_fn = 0x101100, idle_fn = 0x102000\<rparr>"

theorem process_create_ready_witness:
  "\<exists>p s' pr. process_create syms_example 0x105000 proc_fresh = Ret p s' \<and> p \<noteq> NULL \<and> procs s' p = Some pr \<and>
    pid pr = 1 \<and> pstate pr = PROCESS_READY"
proof -
  have "\<exists>n \<ge> 16672. (n, True) \<in> set (heap_blocks proc_fresh)" by (simp add: proc_fresh_heap)
  moreover have "next_pid proc_fresh = 1" by (simp add: proc_fresh_def gdt_state.defs)
  ultimately show ?thesis using process_create_ready [OF proc_fresh_heap(1), of syms_example "0x105000"] by auto
qed

text \<open>C32. Destroying a process that \<open>process_create\<close> made returns and gives both of its areas back:
  the areas in use are again those before the creation, and the descriptor is gone.\<close>

theorem process_destroy_undoes_create:
  fixes s :: "'a proc_state_scheme"
  assumes "heap_inv s" and "process_create syms entry s = Ret p s1" and "p \<noteq> NULL"
  shows "\<exists>s2. process_destroy p s1 = Ret () s2 \<and> heap_inv s2 \<and> live s2 = live s \<and> procs s2 = (procs s)(p := None)"
proof -
  from process_create_effect [OF assms(1), of syms entry] assms(2,3) obtain stack n k pr m where
    c: "heap_inv s1" "live s1 = insert (unat stack, k) (insert (unat p, n) (live s))" "(unat p, n) \<notin> live s"
      "(unat stack, k) \<notin> insert (unat p, n) (live s)" "procs s1 = (procs s)(p \<mapsto> pr)"
      "kernel_stack pr = stack + KERNEL_STACK_SIZE" by auto
  have "(unat stack, k) \<in> live s1" using c(2) by simp
  from kfree_live [OF c(1) this] obtain s2 where s2: "kfree stack s1 = Ret () s2" "heap_inv s2"
    "live s2 = live s1 - {(unat stack, k)}" by blast
  then have l2: "live s2 = insert (unat p, n) (live s)" using c(2,4) by auto
  then have "(unat p, n) \<in> live s2" by simp
  from kfree_live [OF s2(2) this] obtain s3 where s3: "kfree p s2 = Ret () s3" "heap_inv s3"
    "live s3 = live s2 - {(unat p, n)}" by blast
  have ps: "procs s3 = procs s1" using kfree_mem [OF s2(1)] kfree_mem [OF s3(1)] by auto
  let ?s = "s3\<lparr>procs := (procs s3)(p := None)\<rparr>"
  have "process_destroy p s1 = Ret () ?s"
    using assms(3) c(5,6) s2(1) s3(1) by (simp add: process_destroy_def)
  moreover have "heap_inv ?s = heap_inv s3" "live ?s = live s3" by (rule heap_cong; simp)+
  ultimately show ?thesis using s3(2,3) l2 c(3,5) ps by auto
qed

theorem process_destroy_undoes_create_witness:
  "\<exists>p s1 s2. process_create syms_example 0x105000 proc_fresh = Ret p s1 \<and> process_destroy p s1 = Ret () s2 \<and> live s2 = {}"
proof -
  obtain p s1 where p: "process_create syms_example 0x105000 proc_fresh = Ret p s1"
    using process_create_effect [OF proc_fresh_heap(1), of syms_example "0x105000"] by blast
  have "p \<noteq> NULL" by (rule process_create_succeeds [OF proc_fresh_heap(1) _ _ p, of 4194280]) (simp_all add: proc_fresh_heap)
  from process_destroy_undoes_create [OF proc_fresh_heap(1) p this] p show ?thesis by (auto simp: proc_fresh_heap)
qed

end
