(* ===== verification/Idt.thy ===== *)
theory Idt
  imports Kprocess
begin

text \<open>
  The interrupt descriptor table and the table of C handlers of \<open>src/cpu/idt.c\<close>. A function
  pointer of type \<open>void (*)(registers_t *)\<close> is one of the handlers the kernel registers; what
  an indirect call does is the parameter \<open>call\<close> of the two common handlers, which the
  theory \<open>Interrupts\<close> instantiates with the handlers' models. The stub addresses come
  from the assembly file \<open>isr.asm\<close>.
\<close>

section \<open>State and operations\<close>

record idt_entry =
  offset_low :: u16
  segment_selector :: u16
  ist :: u8
  type_attr :: u8
  offset_mid :: u16
  offset_high :: u32
  idt_zero :: u32

record registers =
  reg_r15 :: u64
  reg_r14 :: u64
  reg_r13 :: u64
  reg_r12 :: u64
  reg_r11 :: u64
  reg_r10 :: u64
  reg_r9 :: u64
  reg_r8 :: u64
  reg_rbp :: u64
  reg_rdi :: u64
  reg_rsi :: u64
  reg_rdx :: u64
  reg_rcx :: u64
  reg_rbx :: u64
  reg_rax :: u64
  int_no :: u64
  err_code :: u64
  reg_rip :: u64
  reg_cs :: u64
  reg_rflags :: u64
  reg_rsp :: u64
  reg_ss :: u64

text \<open>
  A handler that gives the processor to another process does not return: control goes on where
  that process was left (\<open>Switched\<close>). Otherwise the interrupted code is resumed (\<open>Returned\<close>).
\<close>

datatype control = Returned | Switched

text \<open>The functions that are registered in \<open>isr_handlers\<close>; the last one is that of the self-test \<open>tests/test_idt.c\<close>, with its flag.\<close>

datatype handler = Page_Fault_Handler | Ud_Handler | Timer_Handler | Keyboard_Handler | Test_Breakpoint_Handler

record idt_state = proc_state +
  idt :: "idt_entry list"
  idtr :: "u16 \<times> u64"
  isr_handlers :: "handler option list"
  cr2 :: u64
  breakpoint_caught :: u32

definition idt_set_entry :: "u8 \<Rightarrow> u64 \<Rightarrow> u8 \<Rightarrow> 'a idt_state_scheme \<Rightarrow> 'a idt_state_scheme" where
  "idt_set_entry n h attr s =
     s\<lparr>idt := (idt s)[unat n := \<lparr>offset_low = ucast (h AND 0xFFFF),
                             segment_selector = 0x08,
                             ist = 0,
                             type_attr = attr,
                             offset_mid = ucast (drop_bit 16 h AND 0xFFFF),
                             offset_high = ucast (drop_bit 32 h AND 0xFFFFFFFF),
                             idt_zero = 0\<rparr>]\<rparr>"

definition idt_register_handler :: "u8 \<Rightarrow> handler option \<Rightarrow> 'a idt_state_scheme \<Rightarrow> 'a idt_state_scheme" where
  "idt_register_handler n h s = s\<lparr>isr_handlers := (isr_handlers s)[unat n := h]\<rparr>"

definition idt_init :: "u64 \<Rightarrow> (nat \<Rightarrow> u64) \<Rightarrow> 'a idt_state_scheme \<Rightarrow> 'a idt_state_scheme" where
  "idt_init idt_addr isr_stub_table s =
     (let s1 = for_upd 48 0 (\<lambda>i. idt_set_entry (of_nat i) (isr_stub_table i) 0x8E) s;
          s2 = s1\<lparr>idtr := (16 * 256 - 1, idt_addr)\<rparr>;
          s3 = idt_register_handler 14 (Some Page_Fault_Handler) s2
      in idt_register_handler 6 (Some Ud_Handler) s3)"

definition page_fault_handler :: "registers \<Rightarrow> 'a idt_state_scheme \<Rightarrow> ('a idt_state_scheme, control) outcome" where
  "page_fault_handler regs s =
     (let fault_addr = cr2 s;
          s1 = vga_print (str ''PAGE FAULT at addr='') s;
          s2 = vga_print_hex fault_addr s1;
          s3 = vga_print (str '' err='') s2;
          s4 = vga_print_hex (err_code regs) s3
      in Halt (vga_print [0x0A] s4))"

text \<open>A label and a hexadecimal number on the serial line, as the fault reports print them.\<close>

definition serial_field :: "u8 list \<Rightarrow> u64 \<Rightarrow> 'a io_state_scheme \<Rightarrow> ('a io_state_scheme, unit) outcome" where
  "serial_field label v s = obind (serial_print label s) (\<lambda>_. serial_print_hex v)"

definition ud_handler :: "registers \<Rightarrow> 'a idt_state_scheme \<Rightarrow> ('a idt_state_scheme, control) outcome" where
  "ud_handler regs s =
     obind (serial_print ([0x0A] @ str '' --- DEBUG DUMP --- '' @ [0x0A]) s) (\<lambda>_ s1.
     obind (for_loop 8 0 (\<lambda>i t.
         obind (serial_field (str ''Stack['') (of_nat i) t) (\<lambda>_ t1.
         obind (serial_print (str '']: '') t1) (\<lambda>_ t2.
         obind (serial_print_hex (load64 (mem t2) (reg_rsp regs + 8 * of_nat i)) t2) (\<lambda>_.
         serial_print [0x0A])))) s1) (\<lambda>_ s2.
     obind (serial_print ([0x0A] @ str ''[EXCEPTION] Invalid Opcode (#UD)!'' @ [0x0A]) s2) (\<lambda>_ s3.
     obind (serial_field (str ''RIP='') (reg_rip regs) s3) (\<lambda>_ s4.
     obind (serial_field ([0x0A] @ str ''RAX='') (reg_rax regs) s4) (\<lambda>_ s5.
     obind (serial_field ([0x0A] @ str ''CS='') (reg_cs regs) s5) (\<lambda>_ s6.
     obind (serial_print [0x0A] s6) (\<lambda>_ s7. Halt s7)))))))"

text \<open>
  An index past the 256 entries of \<open>isr_handlers\<close> is an access outside the array.
\<close>

definition irq_common_handler ::
    "(handler \<Rightarrow> registers \<Rightarrow> 'a idt_state_scheme \<Rightarrow> ('a idt_state_scheme, control) outcome) \<Rightarrow>
     registers \<Rightarrow> 'a idt_state_scheme \<Rightarrow> ('a idt_state_scheme, control) outcome" where
  "irq_common_handler call regs s =
     (if length (isr_handlers s) \<le> unat (int_no regs) then Fault
      else case isr_handlers s ! unat (int_no regs) of
        None \<Rightarrow> Ret Returned s
      | Some h \<Rightarrow> call h regs s)"

definition isr_common_handler ::
    "(handler \<Rightarrow> registers \<Rightarrow> 'a idt_state_scheme \<Rightarrow> ('a idt_state_scheme, control) outcome) \<Rightarrow>
     registers \<Rightarrow> 'a idt_state_scheme \<Rightarrow> ('a idt_state_scheme, control) outcome" where
  "isr_common_handler call regs s =
     obind (serial_field (str ''ISR '') (int_no regs) s) (\<lambda>_ s1.
     obind (serial_field (str '' err=0x'') (err_code regs) s1) (\<lambda>_ s2.
     obind (serial_field (str '' rip=0x'') (reg_rip regs) s2) (\<lambda>_ s3.
     obind (serial_field (str '' cr2=0x'') (cr2 s3) s3) (\<lambda>_ s4.
     obind (serial_print [0x0A] s4) (\<lambda>_ s5.
       if length (isr_handlers s5) \<le> unat (int_no regs) then Fault
       else case isr_handlers s5 ! unat (int_no regs) of
         None \<Rightarrow> Ret Returned s5
       | Some h \<Rightarrow> call h regs s5)))))"

definition test_breakpoint_handler :: "registers \<Rightarrow> 'a idt_state_scheme \<Rightarrow> ('a idt_state_scheme, control) outcome" where
  "test_breakpoint_handler regs s = Ret Returned (s\<lparr>breakpoint_caught := 1\<rparr>)"

section \<open>Gates as the processor reads them\<close>

definition gate_offset :: "idt_entry \<Rightarrow> u64" where
  "gate_offset e = ucast (offset_low e) OR push_bit 16 (ucast (offset_mid e)) OR push_bit 32 (ucast (offset_high e))"

text \<open>Present, reachable from ring 0 only, and a 64-bit interrupt gate.\<close>

definition kernel_gate :: "idt_entry \<Rightarrow> bool" where
  "kernel_gate e \<longleftrightarrow> bit (type_attr e) 7 \<and> drop_bit 5 (type_attr e) AND 3 = 0 \<and> type_attr e AND 0x1F = 0x0E \<and>
     segment_selector e = 0x08 \<and> ist e = 0 \<and> idt_zero e = 0"

lemma gate_offset_fields:
  "(ucast (ucast (h AND 0xFFFF) :: u16) :: u64) OR push_bit 16 (ucast (ucast (drop_bit 16 h AND 0xFFFF) :: u16)) OR
     push_bit 32 (ucast (ucast (drop_bit 32 h AND 0xFFFFFFFF) :: u32)) = (h :: u64)"
  (is "?l = h")
proof (rule bit_word_eqI)
  fix n assume "n < LENGTH(64)"
  then have n: "n < LENGTH(64)" "n < 16 \<or> 16 \<le> n \<and> n < 16 + 16 \<or> 32 \<le> n \<and> n < 32 + 32" by auto
  have w: "16 \<le> LENGTH(16)" "32 \<le> LENGTH(32)" by simp_all
  show "bit ?l n = bit h n"
    unfolding mask_numerals bit_or_iff bit_low_field [OF w(1) n(1)] bit_field [OF w(1) n(1)] bit_field [OF w(2) n(1)]
    using n(2) by blast
qed

definition gate_for :: "u64 \<Rightarrow> idt_entry \<Rightarrow> bool" where
  "gate_for h e \<longleftrightarrow> gate_offset e = h \<and> kernel_gate e"

lemma idt_set_entry_gate:
  "unat n < length (idt s) \<Longrightarrow> gate_for h (idt (idt_set_entry n h 0x8E s) ! unat n)"
  by (simp add: idt_set_entry_def gate_for_def gate_offset_def kernel_gate_def gate_offset_fields)

lemma idt_set_entry_simps [simp]:
  "length (idt (idt_set_entry n h a s)) = length (idt s)"
  "isr_handlers (idt_set_entry n h a s) = isr_handlers s"
  "unat n \<noteq> i \<Longrightarrow> idt (idt_set_entry n h a s) ! i = idt s ! i"
  by (simp_all add: idt_set_entry_def)

text \<open>Both tables have their 256 entries.\<close>

definition idt_wf :: "'a idt_state_scheme \<Rightarrow> bool" where
  "idt_wf s \<longleftrightarrow> length (idt s) = 256 \<and> length (isr_handlers s) = 256"

lemma idt_fill:
  fixes s :: "'a idt_state_scheme" and stubs :: "nat \<Rightarrow> u64"
  assumes "length (idt s) = 256" and "k \<le> 48"
  defines "t \<equiv> for_upd k 0 (\<lambda>i. idt_set_entry (of_nat i) (stubs i) 0x8E) s"
  shows "length (idt t) = 256 \<and> (\<forall>i < k. gate_for (stubs i) (idt t ! i)) \<and> (\<forall>i \<ge> k. idt t ! i = idt s ! i) \<and>
    (\<exists>tab. t = s\<lparr>idt := tab\<rparr>)"
  unfolding t_def using assms(2)
proof (induction k)
  case 0
  show ?case using assms(1) by (auto intro!: exI [of _ "idt s"])
next
  case (Suc k)
  let ?t = "for_upd k 0 (\<lambda>i. idt_set_entry (of_nat i) (stubs i) 0x8E) s"
  have u: "unat (of_nat k :: u8) = k" using Suc.prems by (simp add: unat_of_nat_small)
  have IH: "length (idt ?t) = 256" "\<forall>i < k. gate_for (stubs i) (idt ?t ! i)" "\<forall>i \<ge> k. idt ?t ! i = idt s ! i"
    "\<exists>tab. ?t = s\<lparr>idt := tab\<rparr>" using Suc by auto
  have "gate_for (stubs k) (idt (idt_set_entry (of_nat k) (stubs k) 0x8E ?t) ! k)"
    using idt_set_entry_gate [of "of_nat k" ?t "stubs k"] IH(1) Suc.prems by (simp add: u)
  moreover have "idt (idt_set_entry (of_nat k) (stubs k) 0x8E ?t) ! i = idt ?t ! i" if "i \<noteq> k" for i
    using that u by (simp add: idt_set_entry_simps)
  moreover have "\<exists>tab. idt_set_entry (of_nat k) (stubs k) 0x8E ?t = s\<lparr>idt := tab\<rparr>"
    using IH(4) by (auto simp: idt_set_entry_def)
  ultimately show ?case
    using IH(1-3) unfolding for_upd_Suc_last add_0 by (auto simp: less_Suc_eq)
qed

section \<open>Fault reports\<close>

abbreviation hex_text :: "u64 \<Rightarrow> u8 list" where
  "hex_text v \<equiv> skip_zeros (serial_hex_digits v)"

lemma serial_field_sends:
  assumes "uart_ready (port_dev s)" and "0 \<notin> set label"
  shows "\<exists>t. serial_field label v s = Ret () t \<and> sent (label @ hex_text v) s t"
proof -
  obtain t where t: "serial_print label s = Ret () t" "sent label s t" using serial_print_sends [OF assms] by blast
  then have r: "uart_ready (port_dev t)" using assms(1) sent_dev by metis
  have "0 \<notin> set (hex_text v)" using serial_hex_digits(2) [of v] skip_zeros_props(2) [of "serial_hex_digits v"] by blast
  from serial_print_sends [OF r this] t sent_trans [OF t(2)] show ?thesis
    by (auto simp: serial_field_def serial_print_hex_def)
qed

text \<open>The line every exception puts on the serial port.\<close>

definition isr_report :: "registers \<Rightarrow> u64 \<Rightarrow> u8 list" where
  "isr_report regs fault = (str ''ISR '' @ hex_text (int_no regs)) @ (str '' err=0x'' @ hex_text (err_code regs)) @
     (str '' rip=0x'' @ hex_text (reg_rip regs)) @ (str '' cr2=0x'' @ hex_text fault) @ [0x0A]"

lemma isr_reports:
  fixes s :: "'a idt_state_scheme"
  assumes r: "uart_ready (port_dev s)"
  shows "\<exists>t. isr_common_handler call regs s = irq_common_handler call regs t \<and> sent (isr_report regs (cr2 s)) s t"
proof -
  note step = serial_field_sends [rotated]
  obtain s1 where s1: "serial_field (str ''ISR '') (int_no regs) s = Ret () s1"
    "sent (str ''ISR '' @ hex_text (int_no regs)) s s1" using step [OF _ r, of "str ''ISR ''"] by auto
  have r1: "uart_ready (port_dev s1)" using r sent_dev [OF s1(2)] by simp
  obtain s2 where s2: "serial_field (str '' err=0x'') (err_code regs) s1 = Ret () s2"
    "sent (str '' err=0x'' @ hex_text (err_code regs)) s1 s2" using step [OF _ r1, of "str '' err=0x''"] by auto
  have r2: "uart_ready (port_dev s2)" using r1 sent_dev [OF s2(2)] by simp
  obtain s3 where s3: "serial_field (str '' rip=0x'') (reg_rip regs) s2 = Ret () s3"
    "sent (str '' rip=0x'' @ hex_text (reg_rip regs)) s2 s3" using step [OF _ r2, of "str '' rip=0x''"] by auto
  have r3: "uart_ready (port_dev s3)" using r2 sent_dev [OF s3(2)] by simp
  have c: "cr2 s3 = cr2 s" using s1(2) s2(2) s3(2) by (auto simp: sent_def)
  obtain s4 where s4: "serial_field (str '' cr2=0x'') (cr2 s) s3 = Ret () s4"
    "sent (str '' cr2=0x'' @ hex_text (cr2 s)) s3 s4" using step [OF _ r3, of "str '' cr2=0x''"] by auto
  have r4: "uart_ready (port_dev s4)" using r3 sent_dev [OF s4(2)] by simp
  obtain s5 where s5: "serial_print [0x0A] s4 = Ret () s5" "sent [0x0A] s4 s5" using serial_print_sends [OF r4, of "[0x0A]"] by auto
  have "sent (isr_report regs (cr2 s)) s s5"
    unfolding isr_report_def by (rule sent_trans s1(2) s2(2) s3(2) s4(2) s5(2))+
  moreover have "isr_common_handler call regs s = irq_common_handler call regs s5"
    unfolding isr_common_handler_def irq_common_handler_def by (simp only: s1(1) s2(1) s3(1) c s4(1) s5(1) obind.simps)
  ultimately show ?thesis by blast
qed

section \<open>Properties\<close>

text \<open>After \<open>idt_init\<close> each of the 48 exception and interrupt vectors has a present ring-0 interrupt
  gate in the kernel code segment whose reassembled address is the vector's stub; the other gates are as
  before, the table register covers exactly the table, and of the C handlers only those for page faults and
  invalid opcodes are set.\<close>

theorem idt_init_gates:
  fixes s :: "'a idt_state_scheme"
  assumes "idt_wf s"
  shows "idt_wf (idt_init addr stubs s) \<and>
    (\<forall>i < 48. gate_offset (idt (idt_init addr stubs s) ! i) = stubs i \<and> kernel_gate (idt (idt_init addr stubs s) ! i)) \<and>
    (\<forall>i \<ge> 48. idt (idt_init addr stubs s) ! i = idt s ! i) \<and>
    idtr (idt_init addr stubs s) = (of_nat (16 * length (idt s) - 1), addr) \<and>
    isr_handlers (idt_init addr stubs s) =
      (isr_handlers s)[14 := Some Page_Fault_Handler, 6 := Some Ud_Handler]"
proof -
  let ?t = "for_upd 48 0 (\<lambda>i. idt_set_entry (of_nat i) (stubs i) 0x8E) s"
  have l: "length (idt s) = 256" "length (isr_handlers s) = 256" using assms by (simp_all add: idt_wf_def)
  have f: "length (idt ?t) = 256" "\<forall>i < 48. gate_for (stubs i) (idt ?t ! i)" "\<forall>i \<ge> 48. idt ?t ! i = idt s ! i"
    "isr_handlers ?t = isr_handlers s" using idt_fill [OF l(1), of 48 stubs] by auto
  have i: "idt (idt_init addr stubs s) = idt ?t"
    "isr_handlers (idt_init addr stubs s) = (isr_handlers ?t)[14 := Some Page_Fault_Handler, 6 := Some Ud_Handler]"
    "idtr (idt_init addr stubs s) = (16 * 256 - 1, addr)"
    by (simp_all only: idt_init_def idt_register_handler_def Let_def idt_state.simps idt_state.surjective unat_numeral, simp_all)
  show ?thesis unfolding idt_wf_def i f(4) using f(1-3) l by (simp add: gate_for_def)
qed

text \<open>A table of 256 empty gates without handlers, on a machine whose serial port is ready.\<close>

definition idt_blank :: idt_state where
  "idt_blank = proc_state.extend (proc_fresh\<lparr>port_dev := \<lambda>_ _. 0x20\<rparr>)
     \<lparr>idt = replicate 256 \<lparr>offset_low = 0, segment_selector = 0, ist = 0, type_attr = 0, offset_mid = 0, offset_high = 0, idt_zero = 0\<rparr>,
      idtr = (0, 0), isr_handlers = replicate 256 None, cr2 = 0, breakpoint_caught = 0\<rparr>"

lemma idt_blank_simps:
  "idt_wf idt_blank" "isr_handlers idt_blank = replicate 256 None" "uart_ready (port_dev idt_blank)"
  by (simp_all add: idt_wf_def idt_blank_def proc_state.defs uart_ready_def)

theorem idt_init_gates_witness:
  "idt_wf idt_blank \<and> gate_offset (idt (idt_init 0x5000 (\<lambda>i. 0x100000 + of_nat i) idt_blank) ! 33) = 0x100021 \<and>
   isr_handlers (idt_init 0x5000 (\<lambda>i. 0x100000 + of_nat i) idt_blank) ! 6 = Some Ud_Handler"
  using idt_init_gates [OF idt_blank_simps(1), of "0x5000" "\<lambda>i. 0x100000 + of_nat i"] idt_blank_simps(1)
  by (simp add: idt_blank_simps)

text \<open>C38. On a serial port that becomes ready an exception is first reported by one line with its number, error
  code, instruction address and fault address. Then the handler registered for it runs; with none
  registered nothing else happens and control returns to the faulting code.\<close>

theorem isr_reports_then_dispatches:
  fixes s :: "'a idt_state_scheme"
  assumes "uart_ready (port_dev s)" and "unat (int_no regs) < length (isr_handlers s)"
  shows "\<exists>t. sent (isr_report regs (cr2 s)) s t \<and>
    isr_common_handler call regs s =
      (case isr_handlers s ! unat (int_no regs) of None \<Rightarrow> Ret Returned t | Some h \<Rightarrow> call h regs t)"
proof -
  obtain t where t: "isr_common_handler call regs s = irq_common_handler call regs t" "sent (isr_report regs (cr2 s)) s t"
    using isr_reports [OF assms(1)] by blast
  moreover have "isr_handlers t = isr_handlers s" using t(2) by (auto simp: sent_def)
  ultimately show ?thesis using assms(2) by (auto simp: irq_common_handler_def)
qed

definition regs_zero :: registers where
  "regs_zero = \<lparr>reg_r15 = 0, reg_r14 = 0, reg_r13 = 0, reg_r12 = 0, reg_r11 = 0, reg_r10 = 0, reg_r9 = 0, reg_r8 = 0,
     reg_rbp = 0, reg_rdi = 0, reg_rsi = 0, reg_rdx = 0, reg_rcx = 0, reg_rbx = 0, reg_rax = 0, int_no = 0, err_code = 0,
     reg_rip = 0, reg_cs = 0x08, reg_rflags = 0, reg_rsp = 0, reg_ss = 0\<rparr>"

theorem isr_reports_then_dispatches_witness:
  "\<exists>t. isr_common_handler (\<lambda>_ _ _. Fault) regs_zero idt_blank = Ret Returned t \<and>
    sent_to COM1 (port_log t) = sent_to COM1 (port_log idt_blank) @ isr_report regs_zero (cr2 idt_blank)"
proof -
  have "unat (int_no regs_zero) < length (isr_handlers idt_blank)" "isr_handlers idt_blank ! unat (int_no regs_zero) = None"
    by (simp_all add: idt_blank_simps regs_zero_def)
  with isr_reports_then_dispatches [OF idt_blank_simps(3), of regs_zero "\<lambda>_ _ _. Fault"] show ?thesis by (auto simp: sent_def)
qed

end
