(* ===== verification/Scheduler.thy ===== *)
theory Scheduler
  imports Idt
begin

text \<open>
  The round-robin scheduler of \<open>src/process/scheduler.c\<close> with the context switch of
  \<open>src/process/context.asm\<close>. Processes form a circular list through the \<open>next\<close> pointers
  of their descriptors, starting at the idle process. A loop over the list may meet a pointer to
  no descriptor (\<open>Fault\<close>) or run round for ever (\<open>Hang\<close>); neither happens on a ring.

  A context switch does not return to its caller: control continues at the address on top
  of the next process's stack. An operation that may switch results in \<open>Switched\<close> then, with the
  registers of the process that now runs, and in \<open>Returned\<close> when control stays. \<open>cpu_rsp\<close> is the
  stack pointer as \<open>context_switch\<close> finds it.
\<close>

section \<open>State and operations\<close>

record sched_state = idt_state +
  ticks :: u64
  current :: u64
  idle :: u64
  boot_context :: process
  cpu_rsp :: u64
  cpu_rip :: u64

text \<open>Reading a descriptor through a pointer, and changing it.\<close>

definition deref :: "u64 \<Rightarrow> 'a proc_state_scheme \<Rightarrow> (process \<Rightarrow> ('a proc_state_scheme, 'b) outcome) \<Rightarrow>
    ('a proc_state_scheme, 'b) outcome" where
  "deref p s k = (case procs s p of None \<Rightarrow> Fault | Some pr \<Rightarrow> k pr)"

definition upd_proc :: "u64 \<Rightarrow> (process \<Rightarrow> process) \<Rightarrow> 'a proc_state_scheme \<Rightarrow> 'a proc_state_scheme" where
  "upd_proc p f s = s\<lparr>procs := (procs s)(p := map_option f (procs s p))\<rparr>"

definition timer_ticks :: "'a sched_state_scheme \<Rightarrow> u64" where
  "timer_ticks s = ticks s"

text \<open>The first argument is the process to save, \<open>None\<close> for the static \<open>boot_context\<close>.\<close>

definition save_rsp :: "u64 option \<Rightarrow> 'a sched_state_scheme \<Rightarrow> ('a sched_state_scheme, unit) outcome" where
  "save_rsp cur s =
     (case cur of
        None \<Rightarrow> Ret () (s\<lparr>boot_context := (boot_context s)\<lparr>pcontext := (pcontext (boot_context s))\<lparr>ctx_rsp := cpu_rsp s\<rparr>\<rparr>\<rparr>)
      | Some p \<Rightarrow> deref p s (\<lambda>_. Ret () (upd_proc p (\<lambda>pr. pr\<lparr>pcontext := (pcontext pr)\<lparr>ctx_rsp := cpu_rsp s\<rparr>\<rparr>) s)))"

definition context_switch :: "u64 option \<Rightarrow> u64 \<Rightarrow> 'a sched_state_scheme \<Rightarrow> ('a sched_state_scheme, unit) outcome" where
  "context_switch cur nxt s =
     obind (save_rsp cur s) (\<lambda>_ s1. deref nxt s1 (\<lambda>n.
       let s2 = (if page_table n \<noteq> 0 then s1\<lparr>cr3 := page_table n\<rparr> else s1);
           rsp = ctx_rsp (pcontext n)
       in Ret () (s2\<lparr>cpu_rip := load64 (mem s2) rsp, cpu_rsp := rsp + 8\<rparr>)))"

definition scheduler_init :: "kernel_syms \<Rightarrow> 'a sched_state_scheme \<Rightarrow> ('a sched_state_scheme, unit) outcome" where
  "scheduler_init syms s =
     obind (process_create syms (idle_fn syms) s) (\<lambda>p s1.
       let s2 = s1\<lparr>idle := p\<rparr>
       in if p = NULL then Halt (vga_print (str ''[SCHEDULER] failed to create idle process'' @ [0x0A]) s2)
          else deref p s2 (\<lambda>_.
            let s3 = upd_proc p (\<lambda>pr. pr\<lparr>pstate := PROCESS_RUNNING\<rparr>) s2;
                s4 = upd_proc p (\<lambda>pr. pr\<lparr>pnext := p\<rparr>) s3
            in Ret () (s4\<lparr>current := p\<rparr>)))"

partial_function (option) find_tail :: "u64 \<Rightarrow> 'a sched_state_scheme \<Rightarrow> ('a sched_state_scheme, u64) outcome option" where
  "find_tail p s =
     (case procs s p of
        None \<Rightarrow> Some Fault
      | Some pr \<Rightarrow> if pnext pr \<noteq> idle s then find_tail (pnext pr) s else Some (Ret p s))"

definition scheduler_add :: "u64 \<Rightarrow> 'a sched_state_scheme \<Rightarrow> ('a sched_state_scheme, unit) outcome" where
  "scheduler_add p s =
     (if p = NULL then Ret () (vga_print (str ''[SCHEDULER] failed to add process'' @ [0x0A]) s)
      else deref p s (\<lambda>_.
        let s1 = upd_proc p (\<lambda>pr. pr\<lparr>pstate := PROCESS_READY\<rparr>) s
        in obind (of_loop (find_tail (idle s1) s1)) (\<lambda>tail s2.
          let s3 = upd_proc p (\<lambda>pr. pr\<lparr>pnext := idle s2\<rparr>) s2;
              s4 = upd_proc tail (\<lambda>pr. pr\<lparr>pnext := p\<rparr>) s3
          in Ret () (vga_print (str ''[SCHEDULER] ADDED PROCESS'' @ [0x0A]) s4))))"

definition scheduler_current :: "'a sched_state_scheme \<Rightarrow> u64" where
  "scheduler_current s = current s"

text \<open>The body of the first loop of \<open>scheduler_tick\<close>: a sleeper whose time has come becomes ready.\<close>

definition wake_sleeper :: "u64 \<Rightarrow> process \<Rightarrow> process" where
  "wake_sleeper now pr =
     (if pstate pr = PROCESS_BLOCKED \<and> wait_reason pr = WAIT_SLEEP \<and> wake_tick pr \<le> now
      then pr\<lparr>pstate := PROCESS_READY, wait_reason := WAIT_NONE\<rparr> else pr)"

partial_function (option) wake_loop :: "u64 \<Rightarrow> u64 \<Rightarrow> 'a sched_state_scheme \<Rightarrow> ('a sched_state_scheme, unit) outcome option" where
  "wake_loop now p s =
     (if p \<noteq> idle s then
        (case procs s p of
           None \<Rightarrow> Some Fault
         | Some pr \<Rightarrow> wake_loop now (pnext pr) (upd_proc p (wake_sleeper now) s))
      else Some (Ret () s))"

definition not_runnable :: "process \<Rightarrow> bool" where
  "not_runnable pr \<longleftrightarrow> pstate pr = PROCESS_DEAD \<or> pstate pr = PROCESS_BLOCKED"

partial_function (option) pick_loop :: "u64 \<Rightarrow> u64 \<Rightarrow> 'a sched_state_scheme \<Rightarrow> ('a sched_state_scheme, u64) outcome option" where
  "pick_loop cur nxt s =
     (case procs s nxt of
        None \<Rightarrow> Some Fault
      | Some n \<Rightarrow> if not_runnable n \<and> nxt \<noteq> cur then pick_loop cur (pnext n) s else Some (Ret nxt s))"

definition scheduler_tick :: "'a sched_state_scheme \<Rightarrow> ('a sched_state_scheme, control) outcome" where
  "scheduler_tick s =
     (if current s = NULL then Ret Returned s
      else deref (current s) s (\<lambda>c.
        if pnext c = NULL then Ret Returned s
        else
          let now = timer_ticks s
          in deref (idle s) s (\<lambda>i.
            obind (of_loop (wake_loop now (pnext i) s)) (\<lambda>_ s1.
              let cur = current s1
              in deref cur s1 (\<lambda>c1.
                obind (of_loop (pick_loop cur (pnext c1) s1)) (\<lambda>nxt s2.
                  if nxt = cur then Ret Returned s2
                  else deref nxt s2 (\<lambda>n.
                    let s3 = (if pstate c1 = PROCESS_RUNNING then upd_proc cur (\<lambda>pr. pr\<lparr>pstate := PROCESS_READY\<rparr>) s2 else s2);
                        s4 = upd_proc nxt (\<lambda>pr. pr\<lparr>pstate := PROCESS_RUNNING\<rparr>) s3;
                        s5 = s4\<lparr>current := nxt\<rparr>;
                        s6 = (if page_table n \<noteq> 0 then tss_set_kernel_stack (kernel_stack n) s5 else s5)
                    in obind (context_switch (Some cur) nxt s6) (\<lambda>_ s7. Ret Switched s7))))))))"

partial_function (option) key_loop :: "u64 \<Rightarrow> 'a sched_state_scheme \<Rightarrow> ('a sched_state_scheme, unit) outcome option" where
  "key_loop p s =
     (if p \<noteq> idle s then
        (case procs s p of
           None \<Rightarrow> Some Fault
         | Some pr \<Rightarrow>
             if pstate pr = PROCESS_BLOCKED \<and> wait_reason pr = WAIT_KEY
             then Some (Ret () (upd_proc p (\<lambda>pr. pr\<lparr>pstate := PROCESS_READY, wait_reason := WAIT_NONE\<rparr>) s))
             else key_loop (pnext pr) s)
      else Some (Ret () s))"

definition scheduler_wake_key_waiter :: "'a sched_state_scheme \<Rightarrow> ('a sched_state_scheme, unit) outcome" where
  "scheduler_wake_key_waiter s = deref (idle s) s (\<lambda>i. of_loop (key_loop (pnext i) s))"

definition scheduler_start :: "'a sched_state_scheme \<Rightarrow> ('a sched_state_scheme, control) outcome" where
  "scheduler_start s =
     (if current s = NULL then Ret Returned s
      else deref (current s) s (\<lambda>c.
        if pnext c = NULL then Ret Returned s
        else
          let nxt = pnext c
          in deref nxt s (\<lambda>n.
            let s1 = upd_proc nxt (\<lambda>pr. pr\<lparr>pstate := PROCESS_RUNNING\<rparr>) s;
                s2 = s1\<lparr>current := nxt\<rparr>;
                s3 = (if page_table n \<noteq> 0 then tss_set_kernel_stack (kernel_stack n) s2 else s2)
            in obind (context_switch None nxt s3) (\<lambda>_ s4. Ret Switched s4))))"

end
