(* ===== verification/Scheduler_Ring.thy ===== *)
theory Scheduler_Ring
  imports Scheduler
begin

text \<open>
  The circular list of the scheduler as a list of descriptor addresses, and what each operation
  does in terms of it.
\<close>

section \<open>The ring of processes\<close>

primrec chain :: "(u64 \<Rightarrow> process option) \<Rightarrow> u64 \<Rightarrow> u64 list \<Rightarrow> u64 \<Rightarrow> bool" where
  "chain pm p [] q \<longleftrightarrow> p = q"
| "chain pm p (x # xs) q \<longleftrightarrow> p = x \<and> (case pm x of None \<Rightarrow> False | Some pr \<Rightarrow> chain pm (pnext pr) xs q)"

text \<open>\<open>ring s ps\<close>: following \<open>next\<close> from the idle process visits \<open>ps\<close>, each once, and comes back.\<close>

definition ring :: "'a sched_state_scheme \<Rightarrow> u64 list \<Rightarrow> bool" where
  "ring s ps \<longleftrightarrow> chain (procs s) (idle s) (idle s # ps) (idle s) \<and> distinct (idle s # ps) \<and> NULL \<notin> set (idle s # ps)"

definition map_procs :: "(process \<Rightarrow> process) \<Rightarrow> u64 set \<Rightarrow> (u64 \<Rightarrow> process option) \<Rightarrow> u64 \<Rightarrow> process option" where
  "map_procs f A pm x = (if x \<in> A then map_option f (pm x) else pm x)"

lemma upd_proc_map: "upd_proc p f s = s\<lparr>procs := map_procs f {p} (procs s)\<rparr>"
  unfolding upd_proc_def by (rule arg_cong [where f = "\<lambda>m. s\<lparr>procs := m\<rparr>"]) (auto simp: map_procs_def)

lemma map_procs_empty [simp]: "map_procs f {} pm = pm"
  by (simp add: map_procs_def fun_eq_iff)

lemma map_procs_union: "A \<inter> B = {} \<Longrightarrow> map_procs f A (map_procs f B pm) = map_procs f (A \<union> B) pm"
  by (auto simp: map_procs_def fun_eq_iff)

lemma chain_append: "chain pm p (xs @ ys) q \<longleftrightarrow> (\<exists>r. chain pm p xs r \<and> chain pm r ys q)"
  by (induction xs arbitrary: p) (auto split: option.splits)

lemma chain_cong:
  "(\<And>x. x \<in> set xs \<Longrightarrow> map_option pnext (pm x) = map_option pnext (pm' x)) \<Longrightarrow> chain pm p xs q = chain pm' p xs q"
proof (induction xs arbitrary: p)
  case (Cons x xs)
  have "map_option pnext (pm x) = map_option pnext (pm' x)" using Cons.prems by simp
  moreover have "chain pm r xs q = chain pm' r xs q" for r using Cons by simp
  ultimately show ?case by (cases "pm x"; cases "pm' x") auto
qed simp

lemma chain_defined: "chain pm p xs q \<Longrightarrow> x \<in> set xs \<Longrightarrow> \<exists>pr. pm x = Some pr"
  by (induction xs arbitrary: p) (auto split: option.splits)

lemma chain_rotate: "chain pm p (xs @ ys) p \<Longrightarrow> ys \<noteq> [] \<Longrightarrow> chain pm (hd ys) (ys @ xs) (hd ys)"
  by (cases ys) (auto simp: chain_append split: option.splits)

text \<open>The processes in the order in which the ring visits them after \<open>c\<close>.\<close>

definition after :: "u64 \<Rightarrow> u64 list \<Rightarrow> u64 list" where
  "after c rs = tl (dropWhile (\<lambda>x. x \<noteq> c) rs) @ takeWhile (\<lambda>x. x \<noteq> c) rs"

lemma after_split:
  assumes "c \<in> set rs"
  obtains xs ys where "rs = xs @ c # ys" "after c rs = ys @ xs" "c \<notin> set xs"
proof -
  obtain xs ys where "rs = xs @ c # ys" "c \<notin> set xs" using split_list_first [OF assms] by blast
  moreover from this have "after c rs = ys @ xs"
    by (auto simp: after_def dropWhile_append takeWhile_append)
  ultimately show ?thesis using that by blast
qed

lemma after_props:
  assumes "c \<in> set rs" and "distinct rs"
  shows "set (after c rs) = set rs - {c}" "distinct (after c rs)" "c \<notin> set (after c rs)"
proof -
  obtain xs ys where "rs = xs @ c # ys" "after c rs = ys @ xs" using after_split [OF assms(1)] by metis
  then show "set (after c rs) = set rs - {c}" "distinct (after c rs)" "c \<notin> set (after c rs)" using assms(2) by auto
qed

lemma ring_after:
  assumes "ring s ps" and "c \<in> set (idle s # ps)"
  obtains pr where "procs s c = Some pr" "pnext pr \<noteq> NULL" "chain (procs s) (pnext pr) (after c (idle s # ps)) c"
proof -
  obtain xs ys where s: "idle s # ps = xs @ c # ys" "after c (idle s # ps) = ys @ xs" using after_split [OF assms(2)] by metis
  have "chain (procs s) c ((c # ys) @ xs) c"
    using chain_rotate [of "procs s" "idle s" xs "c # ys"] assms(1) by (simp add: ring_def flip: s(1))
  then obtain pr where pr: "procs s c = Some pr" "chain (procs s) (pnext pr) (ys @ xs) c" by (auto split: option.splits)
  have "pnext pr = hd ((ys @ xs) @ [c])" using pr(2) by (cases "ys @ xs") auto
  then have "pnext pr \<in> set (ys @ xs @ [c])" by (metis append_assoc append_is_Nil_conv hd_in_set not_Cons_self2)
  moreover have "NULL \<notin> set (ys @ xs @ [c])" using assms(1) by (simp add: ring_def s(1) del: list.set(2) distinct.simps(2) chain.simps(2)) auto
  ultimately show ?thesis using pr s(2) that by metis
qed

lemma ring_cong:
  assumes "ring s ps" and "idle s' = idle s" and "\<And>x. map_option pnext (procs s' x) = map_option pnext (procs s x)"
  shows "ring s' ps"
  using assms(1) unfolding ring_def assms(2) chain_cong [of "idle s # ps" "procs s'" "procs s", OF assms(3)] .

section \<open>The loops\<close>

lemma wake_loop_ring:
  fixes s :: "'a sched_state_scheme"
  assumes "chain (procs s) p xs (idle s)" and "idle s \<notin> set xs" and "distinct xs"
  shows "wake_loop now p s = Some (Ret () (s\<lparr>procs := map_procs (wake_sleeper now) (set xs) (procs s)\<rparr>))"
  using assms
proof (induction xs arbitrary: p s)
  case Nil
  then show ?case by (subst wake_loop.simps) simp
next
  case (Cons x xs)
  then obtain pr where pr: "procs s x = Some pr" "p = x" "chain (procs s) (pnext pr) xs (idle s)" by (auto split: option.splits)
  let ?s = "upd_proc x (wake_sleeper now) s"
  have "chain (procs ?s) (pnext pr) xs (idle ?s)"
    using pr(3) Cons.prems(3) by (subst chain_cong [where pm' = "procs s"]) (auto simp: upd_proc_def)
  moreover have "idle ?s \<notin> set xs" "distinct xs" using Cons.prems(2,3) by (simp_all add: upd_proc_def)
  ultimately have "wake_loop now (pnext pr) ?s =
      Some (Ret () (?s\<lparr>procs := map_procs (wake_sleeper now) (set xs) (procs ?s)\<rparr>))"
    by (rule Cons.IH)
  moreover have "?s\<lparr>procs := map_procs (wake_sleeper now) (set xs) (procs ?s)\<rparr> =
      s\<lparr>procs := map_procs (wake_sleeper now) (set (x # xs)) (procs s)\<rparr>"
    using Cons.prems(3) by (simp add: upd_proc_map map_procs_union)
  ultimately show ?case using pr(1,2) Cons.prems(2) by (subst wake_loop.simps) auto
qed

primrec first_runnable :: "(u64 \<Rightarrow> process option) \<Rightarrow> u64 list \<Rightarrow> u64 \<Rightarrow> u64" where
  "first_runnable pm [] d = d"
| "first_runnable pm (x # xs) d =
     (case pm x of None \<Rightarrow> d | Some pr \<Rightarrow> if not_runnable pr then first_runnable pm xs d else x)"

lemma pick_loop_ring:
  assumes "chain (procs s) p xs cur" and "cur \<notin> set xs" and "procs s cur = Some c"
  shows "pick_loop cur p s = Some (Ret (first_runnable (procs s) xs cur) s)"
  using assms
proof (induction xs arbitrary: p)
  case Nil
  then show ?case by (subst pick_loop.simps) simp
next
  case (Cons x xs)
  then show ?case by (subst pick_loop.simps) (auto split: option.splits)
qed

lemma key_loop_ring:
  assumes "chain (procs s) p xs (idle s)" and "idle s \<notin> set xs"
  shows "key_loop p s = Some (Ret ()
    (case List.find (\<lambda>x. \<exists>pr. procs s x = Some pr \<and> pstate pr = PROCESS_BLOCKED \<and> wait_reason pr = WAIT_KEY) xs of
       None \<Rightarrow> s
     | Some x \<Rightarrow> upd_proc x (\<lambda>pr. pr\<lparr>pstate := PROCESS_READY, wait_reason := WAIT_NONE\<rparr>) s))"
  using assms
proof (induction xs arbitrary: p)
  case Nil
  then show ?case by (subst key_loop.simps) simp
next
  case (Cons x xs)
  then show ?case by (subst key_loop.simps) (auto split: option.splits)
qed

lemma find_tail_ring:
  assumes "chain (procs s) p xs (idle s)" and "idle s \<notin> set (tl xs)" and "xs \<noteq> []"
  shows "find_tail p s = Some (Ret (last xs) s)"
  using assms
proof (induction xs arbitrary: p)
  case (Cons x xs)
  then obtain pr where pr: "procs s x = Some pr" "p = x" "chain (procs s) (pnext pr) xs (idle s)" by (auto split: option.splits)
  show ?case
  proof (cases xs)
    case Nil
    then show ?thesis using pr by (subst find_tail.simps) simp
  next
    case (Cons y ys)
    then have "pnext pr = y" "y \<noteq> idle s" using pr(3) Cons.prems(2) by auto
    then show ?thesis using pr Cons.IH [OF pr(3)] Cons.prems(2) Cons by (subst find_tail.simps) auto
  qed
qed simp

section \<open>One tick\<close>

lemma first_runnable_some:
  assumes "\<And>x. x \<in> set xs \<Longrightarrow> \<exists>pr. pm x = Some pr" and "first_runnable pm xs d \<noteq> d"
  shows "first_runnable pm xs d \<in> set xs" "\<exists>n. pm (first_runnable pm xs d) = Some n \<and> \<not> not_runnable n"
  using assms by (induction xs) (auto split: option.splits if_splits)

lemma first_runnable_least:
  assumes "\<And>x. x \<in> set xs \<Longrightarrow> \<exists>pr. pm x = Some pr" and "xs = ys @ z # zs" and "pm z = Some n" and "\<not> not_runnable n"
  shows "first_runnable pm xs d \<in> set (ys @ [z])"
  using assms
proof (induction ys arbitrary: xs)
  case (Cons y ys)
  obtain pr where "pm y = Some pr" using Cons.prems(1) [of y] Cons.prems(2) by auto
  moreover have "first_runnable pm (ys @ z # zs) d \<in> set (ys @ [z])"
    by (rule Cons.IH) (use Cons.prems in auto)
  ultimately show ?case using Cons.prems(2) by auto
qed simp

text \<open>The state after control has gone from \<open>cur\<close> to \<open>nxt\<close>.\<close>

definition hand_over :: "u64 \<Rightarrow> process \<Rightarrow> u64 \<Rightarrow> process \<Rightarrow> 'a sched_state_scheme \<Rightarrow> 'a sched_state_scheme" where
  "hand_over cur c nxt n s =
     s\<lparr>procs := (procs s)(cur \<mapsto> c\<lparr>pstate := if pstate c = PROCESS_RUNNING then PROCESS_READY else pstate c,
                                pcontext := (pcontext c)\<lparr>ctx_rsp := cpu_rsp s\<rparr>\<rparr>,
                         nxt \<mapsto> n\<lparr>pstate := PROCESS_RUNNING\<rparr>),
       current := nxt,
       tss := if page_table n \<noteq> 0 then (tss s)\<lparr>tss_rsp0 := kernel_stack n\<rparr> else tss s,
       cr3 := if page_table n \<noteq> 0 then page_table n else cr3 s,
       cpu_rip := load64 (mem s) (ctx_rsp (pcontext n)),
       cpu_rsp := ctx_rsp (pcontext n) + 8\<rparr>"

definition woken :: "u64 list \<Rightarrow> 'a sched_state_scheme \<Rightarrow> 'a sched_state_scheme" where
  "woken ps s = s\<lparr>procs := map_procs (wake_sleeper (ticks s)) (set ps) (procs s)\<rparr>"

definition chosen :: "u64 list \<Rightarrow> 'a sched_state_scheme \<Rightarrow> u64" where
  "chosen ps s = first_runnable (procs (woken ps s)) (after (current s) (idle s # ps)) (current s)"

lemma wake_sleeper_simps [simp]:
  "pnext (wake_sleeper now pr) = pnext pr" "kernel_stack (wake_sleeper now pr) = kernel_stack pr"
  "page_table (wake_sleeper now pr) = page_table pr" "pcontext (wake_sleeper now pr) = pcontext pr"
  by (simp_all add: wake_sleeper_def)

lemma woken_simps [simp]:
  "idle (woken ps s) = idle s" "current (woken ps s) = current s" "cpu_rsp (woken ps s) = cpu_rsp s"
  by (simp_all add: woken_def)

lemma ring_woken: "ring s ps \<Longrightarrow> ring (woken ps s) ps"
  by (erule ring_cong) (auto simp: woken_def map_procs_def option.map_comp comp_def)

lemma ring_member: "ring s ps \<Longrightarrow> x \<in> set (idle s # ps) \<Longrightarrow> \<exists>pr. procs s x = Some pr"
  unfolding ring_def by (elim conjE) (rule chain_defined)

lemma switch_hand_over:
  assumes "procs s cur = Some c" and "procs s nxt = Some n" and "cur \<noteq> nxt"
  shows "context_switch (Some cur) nxt
     (let s3 = (if pstate c = PROCESS_RUNNING then upd_proc cur (\<lambda>pr. pr\<lparr>pstate := PROCESS_READY\<rparr>) s else s);
          s4 = upd_proc nxt (\<lambda>pr. pr\<lparr>pstate := PROCESS_RUNNING\<rparr>) s3;
          s5 = s4\<lparr>current := nxt\<rparr>
      in (if page_table n \<noteq> 0 then tss_set_kernel_stack (kernel_stack n) s5 else s5)) = Ret () (hand_over cur c nxt n s)"
  using assms
  by (simp add: context_switch_def save_rsp_def deref_def upd_proc_def tss_set_kernel_stack_def hand_over_def Let_def
      fun_upd_twist)

lemma tick_effect:
  assumes r: "ring s ps" and m: "current s \<in> set (idle s # ps)"
  shows "scheduler_tick s =
    (if chosen ps s = current s then Ret Returned (woken ps s)
     else Ret Switched (hand_over (current s) (the (procs (woken ps s) (current s)))
                          (chosen ps s) (the (procs (woken ps s) (chosen ps s))) (woken ps s)))"
proof -
  let ?w = "woken ps s" and ?c = "current s" and ?n = "chosen ps s"
  obtain c where c: "procs s ?c = Some c" "pnext c \<noteq> NULL" using ring_after [OF r m] by blast
  have n0: "current s \<noteq> NULL" using r m by (auto simp: ring_def)
  obtain i where i: "procs s (idle s) = Some i" "chain (procs s) (pnext i) ps (idle s)"
    using r by (auto simp: ring_def split: option.splits)
  have wl: "wake_loop (ticks s) (pnext i) s = Some (Ret () ?w)"
    using wake_loop_ring [OF i(2)] r by (simp add: ring_def woken_def)
  have rw: "ring ?w ps" and mw: "?c \<in> set (idle ?w # ps)" using ring_woken [OF r] m by simp_all
  obtain c1 where c1: "procs ?w ?c = Some c1" "chain (procs ?w) (pnext c1) (after ?c (idle s # ps)) ?c"
    using ring_after [OF rw mw] by auto
  have d: "distinct (idle s # ps)" using r by (simp only: ring_def)
  have pl: "pick_loop ?c (pnext c1) ?w = Some (Ret ?n ?w)"
    using pick_loop_ring [OF c1(2) after_props(3) [OF m d] c1(1)] by (simp only: chosen_def)
  have head: "scheduler_tick s = (if ?n = ?c then Ret Returned ?w
      else deref ?n ?w (\<lambda>n. obind (context_switch (Some ?c) ?n
        (let s3 = (if pstate c1 = PROCESS_RUNNING then upd_proc ?c (\<lambda>pr. pr\<lparr>pstate := PROCESS_READY\<rparr>) ?w else ?w);
             s4 = upd_proc ?n (\<lambda>pr. pr\<lparr>pstate := PROCESS_RUNNING\<rparr>) s3;
             s5 = s4\<lparr>current := ?n\<rparr>
         in (if page_table n \<noteq> 0 then tss_set_kernel_stack (kernel_stack n) s5 else s5))) (\<lambda>_ s7. Ret Switched s7)))"
    using n0 c i(1) wl c1(1) pl by (simp add: scheduler_tick_def deref_def timer_ticks_def Let_def split: option.split)
  show ?thesis
  proof (cases "?n = ?c")
    case True
    then show ?thesis by (simp add: head)
  next
    case False
    have "x \<in> set (after ?c (idle s # ps)) \<Longrightarrow> \<exists>pr. procs ?w x = Some pr" for x
      using ring_member [OF rw, of x] after_props(1) [OF m d] by simp
    then obtain n where n: "procs ?w ?n = Some n" using first_runnable_some(2) [of _ "procs ?w" ?c] False by (metis chosen_def)
    show ?thesis using False n c1(1) by (simp only: head if_False deref_def option.case option.sel switch_hand_over [OF c1(1) n False [symmetric]] obind.simps)
  qed
qed

section \<open>The scheduler's invariant\<close>

abbreviation status :: "'a proc_state_scheme \<Rightarrow> u64 \<Rightarrow> process_status option" where
  "status s x \<equiv> map_option pstate (procs s x)"

text \<open>
  The processes form a ring with the current process on it; of the processes other than idle
  at most the current one is marked running; idle is running or ready, and running when it is
  the current one.
\<close>

definition sched_inv :: "'a sched_state_scheme \<Rightarrow> u64 list \<Rightarrow> bool" where
  "sched_inv s ps \<longleftrightarrow> ring s ps \<and> current s \<in> set (idle s # ps) \<and>
     (\<forall>x \<in> set ps. status s x = Some PROCESS_RUNNING \<longrightarrow> x = current s) \<and>
     (status s (idle s) = Some PROCESS_RUNNING \<or> status s (idle s) = Some PROCESS_READY \<and> current s \<noteq> idle s)"

lemma sched_invD:
  assumes "sched_inv s ps"
  shows "ring s ps" "current s \<in> set (idle s # ps)" "distinct (idle s # ps)" "idle s \<notin> set ps" "current s \<noteq> NULL"
    "\<And>x. x \<in> set ps \<Longrightarrow> status s x = Some PROCESS_RUNNING \<Longrightarrow> x = current s"
    "status s (idle s) = Some PROCESS_RUNNING \<or> status s (idle s) = Some PROCESS_READY \<and> current s \<noteq> idle s"
  using assms by (auto simp: sched_inv_def ring_def)

lemma wake_running [simp]: "pstate (wake_sleeper now pr) = PROCESS_RUNNING \<longleftrightarrow> pstate pr = PROCESS_RUNNING"
  by (simp add: wake_sleeper_def)

lemma status_woken:
  "status (woken ps s) x = Some PROCESS_RUNNING \<longleftrightarrow> status s x = Some PROCESS_RUNNING"
  "x \<notin> set ps \<Longrightarrow> procs (woken ps s) x = procs s x"
  by (cases "procs s x"; simp add: woken_def map_procs_def)+

lemma woken_member: "sched_inv s ps \<Longrightarrow> x \<in> set (idle s # ps) \<Longrightarrow> \<exists>pr. procs (woken ps s) x = Some pr"
  using ring_member [OF ring_woken [OF sched_invD(1)], of s ps x] by simp

lemma sched_inv_woken: "sched_inv s ps \<Longrightarrow> sched_inv (woken ps s) ps"
proof -
  assume inv: "sched_inv s ps"
  note i = sched_invD [OF inv]
  have "status (woken ps s) (idle s) = status s (idle s)" by (simp add: status_woken(2) [OF i(4)])
  then show ?thesis
    unfolding sched_inv_def status_woken woken_simps using ring_woken [OF i(1)] i(2,6,7) by simp
qed

text \<open>Only when idle runs and nothing else can does a tick leave the current process running.\<close>

lemma chosen_current:
  assumes inv: "sched_inv s ps" and c: "chosen ps s = current s"
  shows "current s = idle s"
proof (rule ccontr)
  assume ne: "current s \<noteq> idle s"
  note i = sched_invD [OF inv]
  let ?a = "after (current s) (idle s # ps)"
  have "idle s \<in> set ?a" using after_props(1) [OF i(2,3)] ne by simp
  then obtain ys zs where sp: "?a = ys @ idle s # zs" by (meson split_list)
  obtain n where n: "procs (woken ps s) (idle s) = Some n" using woken_member [OF inv, of "idle s"] by auto
  then have "procs s (idle s) = Some n" using status_woken(2) [OF i(4)] by metis
  then have "\<not> not_runnable n" using i(7) by (auto simp: not_runnable_def)
  moreover have "\<exists>pr. procs (woken ps s) x = Some pr" if "x \<in> set ?a" for x
    using woken_member [OF inv, of x] that after_props(1) [OF i(2,3)] by simp
  ultimately have "chosen ps s \<in> set (ys @ [idle s])" unfolding chosen_def by (intro first_runnable_least [of ?a "procs (woken ps s)" ys "idle s" zs n] sp n)
  then have "chosen ps s \<in> set ?a" by (auto simp: sp)
  then show False using c after_props(3) [OF i(2,3)] by simp
qed

lemma chosen_runnable:
  assumes inv: "sched_inv s ps" and c: "chosen ps s \<noteq> current s"
  shows "chosen ps s \<in> set (idle s # ps)" "\<exists>n. procs (woken ps s) (chosen ps s) = Some n \<and> \<not> not_runnable n"
proof -
  note i = sched_invD [OF inv]
  have "\<exists>pr. procs (woken ps s) x = Some pr" if "x \<in> set (after (current s) (idle s # ps))" for x
    using woken_member [OF inv, of x] that after_props(1) [OF i(2,3)] by simp
  note f = first_runnable_some [OF this c [unfolded chosen_def], folded chosen_def]
  show "chosen ps s \<in> set (idle s # ps)" using f(1) after_props(1) [OF i(2,3)] by auto
  show "\<exists>n. procs (woken ps s) (chosen ps s) = Some n \<and> \<not> not_runnable n" by (rule f(2))
qed

lemma sched_inv_hand_over:
  assumes inv: "sched_inv s ps" and m: "nxt \<in> set (idle s # ps)" "nxt \<noteq> current s"
    and c: "procs s (current s) = Some c" and n: "procs s nxt = Some n" "\<not> not_runnable n"
  shows "sched_inv (hand_over (current s) c nxt n s) ps"
proof -
  note i = sched_invD [OF inv]
  let ?t = "hand_over (current s) c nxt n s"
  have "ring ?t ps" using i(1) by (rule ring_cong) (use c n in \<open>auto simp: hand_over_def\<close>)
  moreover have "current ?t = nxt" "idle ?t = idle s" by (simp_all add: hand_over_def)
  moreover have "x = nxt" if "x \<in> set ps" "status ?t x = Some PROCESS_RUNNING" for x
    using that i(6) [OF that(1)] by (auto simp: hand_over_def split: if_splits)
  moreover have "status ?t (idle s) = Some PROCESS_RUNNING \<or> status ?t (idle s) = Some PROCESS_READY \<and> nxt \<noteq> idle s"
    using i(7) c n m(2) by (auto simp: hand_over_def)
  ultimately show ?thesis using m(1) by (simp add: sched_inv_def)
qed

lemma tick_runs:
  assumes inv: "sched_inv s ps"
  shows "\<exists>ctl s'. scheduler_tick s = Ret ctl s' \<and> sched_inv s' ps \<and> current s' = chosen ps s \<and> idle s' = idle s \<and>
    status s' (current s') = Some PROCESS_RUNNING \<and> (ctl = Switched \<longleftrightarrow> current s' \<noteq> current s) \<and> ticks s' = ticks s"
proof -
  note i = sched_invD [OF inv]
  note w = sched_inv_woken [OF inv]
  show ?thesis
  proof (cases "chosen ps s = current s")
    case True
    then have "status (woken ps s) (current s) = Some PROCESS_RUNNING"
      using chosen_current [OF inv] i(7) status_woken(1) [of ps s "idle s"] by auto
    then show ?thesis using True w by (simp add: tick_effect [OF i(1,2)] woken_def)
  next
    case False
    obtain n where n: "procs (woken ps s) (chosen ps s) = Some n" "\<not> not_runnable n" using chosen_runnable(2) [OF inv False] by blast
    obtain c where c: "procs (woken ps s) (current s) = Some c" using woken_member [OF inv i(2)] by blast
    let ?t = "hand_over (current s) c (chosen ps s) n (woken ps s)"
    have "sched_inv ?t ps"
      using sched_inv_hand_over [OF w, of "chosen ps s" c n] chosen_runnable(1) [OF inv False] False n c by simp
    moreover have "current ?t = chosen ps s" "idle ?t = idle s" "status ?t (current ?t) = Some PROCESS_RUNNING" "ticks ?t = ticks s"
      by (simp_all add: hand_over_def woken_def)
    moreover have "scheduler_tick s = Ret Switched ?t" by (simp only: tick_effect [OF i(1,2)] False if_False n(1) c option.sel)
    ultimately show ?thesis using False by auto
  qed
qed

section \<open>Start-up, new processes and key presses\<close>

lemma sched_invI:
  assumes "ring s ps" and "current s = c" and "idle s = i" and "c \<in> set (i # ps)"
    and "\<And>x. x \<in> set ps \<Longrightarrow> status s x = Some PROCESS_RUNNING \<Longrightarrow> x = c"
    and "status s i = Some PROCESS_RUNNING \<or> status s i = Some PROCESS_READY \<and> c \<noteq> i"
  shows "sched_inv s ps"
  using assms(1,4-6) unfolding sched_inv_def assms(2,3) by blast

lemma sched_inv_cong:
  "procs s' = procs s \<Longrightarrow> idle s' = idle s \<Longrightarrow> current s' = current s \<Longrightarrow> sched_inv s' ps = sched_inv s ps"
  by (simp add: sched_inv_def ring_def)

lemma sched_console:
  assumes "console_only s t"
  shows "idle t = idle s" "current t = current s" "procs t = procs s" "ticks t = ticks s" "port_log t = port_log s"
  using assms by (auto simp: console_only_def)

lemmas console_only_sched = sched_console [OF console_only_print [OF console_only_refl]]

lemma init_effect:
  assumes "process_create syms (idle_fn syms) s = Ret p s1" and "p \<noteq> NULL" and "procs s1 p = Some pr"
  shows "\<exists>s'. scheduler_init syms s = Ret () s' \<and> sched_inv s' [] \<and> idle s' = p \<and> current s' = p \<and>
    procs s' = (procs s1)(p \<mapsto> pr\<lparr>pstate := PROCESS_RUNNING, pnext := p\<rparr>) \<and> mem s' = mem s1"
  using assms by (auto simp: scheduler_init_def deref_def upd_proc_def sched_inv_def ring_def Let_def)

lemma add_effect:
  assumes inv: "sched_inv s ps" and p: "p \<noteq> NULL" "p \<notin> set (idle s # ps)" "procs s p = Some pr"
  shows "\<exists>s'. scheduler_add p s = Ret () s' \<and> sched_inv s' (ps @ [p]) \<and> current s' = current s \<and> idle s' = idle s \<and>
    status s' p = Some PROCESS_READY \<and> (\<forall>x \<in> set (idle s # ps). status s' x = status s x) \<and> ticks s' = ticks s \<and>
    console_only (s\<lparr>procs := procs s'\<rparr>) s' \<and> (\<forall>x. map_option pcontext (procs s' x) = map_option pcontext (procs s x))"
proof -
  note i = sched_invD [OF inv]
  obtain tt where tt: "tt = last (idle s # ps)" by simp
  let ?s1 = "upd_proc p (\<lambda>pr. pr\<lparr>pstate := PROCESS_READY\<rparr>) s"
  have "chain (procs ?s1) (idle s) (idle s # ps) (idle s)"
    using i(1) p(2) by (subst chain_cong [where pm' = "procs s"]) (auto simp: ring_def upd_proc_def)
  then have ft: "find_tail (idle ?s1) ?s1 = Some (Ret tt ?s1)"
    using find_tail_ring [of ?s1 "idle s" "idle s # ps"] i(4) by (simp add: upd_proc_def tt)
  have tm: "tt \<in> set (idle s # ps)" unfolding tt by (rule last_in_set) simp
  obtain tl where tl: "procs s tt = Some tl" using ring_member [OF i(1) tm] by blast
  from tm have tp: "tt \<noteq> p" using p(2) by metis
  let ?m = "(procs s)(p \<mapsto> pr\<lparr>pstate := PROCESS_READY, pnext := idle s\<rparr>, tt \<mapsto> tl\<lparr>pnext := p\<rparr>)"
  obtain t where run: "scheduler_add p s = Ret () t" and co: "console_only (s\<lparr>procs := ?m\<rparr>) t"
  proof
    show "scheduler_add p s = Ret () (vga_print (str ''[SCHEDULER] ADDED PROCESS'' @ [0x0A]) (s\<lparr>procs := ?m\<rparr>))"
      using p ft tl tp by (simp add: scheduler_add_def deref_def Let_def upd_proc_def del: str_simps str_append)
  qed (rule console_only_print [OF console_only_refl])
  note t = sched_console [OF co]
  have st: "status t x = status s x" if "x \<noteq> p" for x using that tl by (auto simp: t)
  obtain qs where qs: "idle s # ps = qs @ [tt]" using append_butlast_last_id [of "idle s # ps"] unfolding tt by (metis list.distinct(1))
  have tq: "tt \<notin> set qs" using i(3) qs by (metis distinct.simps(2) distinct_append distinct_rev rev.simps(2) rev_rev_ident set_rev)
  have "chain (procs s) (idle s) (qs @ [tt]) (idle s)" using i(1) unfolding ring_def by (simp only: qs [symmetric])
  then have "chain (procs s) (idle s) qs tt" by (auto simp: chain_append split: option.splits)
  then have "chain ?m (idle s) qs tt" by (subst chain_cong [where pm' = "procs s"]) (use tq qs p(2) in auto)
  then have "chain ?m (idle s) (qs @ [tt] @ [p]) (idle s)" using tp by (auto simp: chain_append)
  then have "chain ?m (idle s) ((idle s # ps) @ [p]) (idle s)" by (simp only: qs append_assoc)
  moreover have "distinct (idle s # ps @ [p])" "NULL \<notin> set (idle s # ps @ [p])" using i(1,3) p by (auto simp: ring_def)
  ultimately have "ring t (ps @ [p])" by (simp add: ring_def t)
  moreover have "status t p = Some PROCESS_READY" using tp by (simp add: t)
  moreover have "status t (idle s) = status s (idle s)" using st p(2) by auto
  moreover have "x = current s" if "x \<in> set (ps @ [p])" "status t x = Some PROCESS_RUNNING" for x
  proof (cases "x = p")
    case True
    then show ?thesis using that(2) \<open>status t p = Some PROCESS_READY\<close> by (simp del: map_option_eq_Some)
  next
    case False
    then show ?thesis using that i(6) [of x] st [OF False] by (simp del: map_option_eq_Some)
  qed
  moreover have "current t = current s" "idle t = idle s" "current s \<in> set (idle s # (ps @ [p]))" using t(1,2) i(2) by auto
  ultimately have "sched_inv t (ps @ [p])" using i(7) by (intro sched_invI [of t _ "current s" "idle s"]) (simp_all only:)
  moreover have "\<forall>x \<in> set (idle s # ps). status t x = status s x" using st p(2) by metis
  moreover have "console_only (s\<lparr>procs := procs t\<rparr>) t" using co t(3) by simp
  moreover have "\<forall>x. map_option pcontext (procs t x) = map_option pcontext (procs s x)" using t(3) p(3) tl by simp
  ultimately show ?thesis using run t(1,2,4) \<open>status t p = Some PROCESS_READY\<close> by (simp del: map_option_eq_Some)
qed

lemma wake_key_effect:
  assumes inv: "sched_inv s ps"
  shows "scheduler_wake_key_waiter s = Ret ()
    (case List.find (\<lambda>x. \<exists>pr. procs s x = Some pr \<and> pstate pr = PROCESS_BLOCKED \<and> wait_reason pr = WAIT_KEY) ps of
       None \<Rightarrow> s
     | Some x \<Rightarrow> upd_proc x (\<lambda>pr. pr\<lparr>pstate := PROCESS_READY, wait_reason := WAIT_NONE\<rparr>) s)"
proof -
  note i = sched_invD [OF inv]
  obtain d where "procs s (idle s) = Some d" "chain (procs s) (pnext d) ps (idle s)"
    using i(1) by (auto simp: ring_def split: option.splits)
  with key_loop_ring [OF this(2) i(4)] show ?thesis by (simp add: scheduler_wake_key_waiter_def deref_def)
qed

lemma sched_inv_upd:
  assumes inv: "sched_inv s ps" and f: "\<And>pr. pnext (f pr) = pnext pr" "\<And>pr. pstate (f pr) \<noteq> PROCESS_RUNNING" and x: "x \<in> set ps"
  shows "sched_inv (upd_proc x f s) ps"
proof -
  note i = sched_invD [OF inv]
  have "ring (upd_proc x f s) ps" using i(1) by (rule ring_cong) (auto simp: upd_proc_def option.map_comp comp_def f(1))
  moreover have "status (upd_proc x f s) (idle s) = status s (idle s)" using x i(4) by (auto simp: upd_proc_def)
  moreover have "status (upd_proc x f s) y = Some PROCESS_RUNNING \<Longrightarrow> status s y = Some PROCESS_RUNNING" for y
    using f(2) by (auto simp: upd_proc_def split: if_splits)
  ultimately show ?thesis using i(2,6,7) by (simp add: sched_inv_def upd_proc_def)
qed

lemma sched_inv_wake_key:
  assumes inv: "sched_inv s ps"
  shows "\<exists>s'. scheduler_wake_key_waiter s = Ret () s' \<and> sched_inv s' ps \<and> current s' = current s \<and> idle s' = idle s \<and> ticks s' = ticks s"
proof (cases "List.find (\<lambda>x. \<exists>pr. procs s x = Some pr \<and> pstate pr = PROCESS_BLOCKED \<and> wait_reason pr = WAIT_KEY) ps")
  case None
  then show ?thesis using inv by (simp add: wake_key_effect [OF inv])
next
  case (Some x)
  then have "x \<in> set ps" by (auto simp: find_Some_iff)
  from sched_inv_upd [OF inv _ _ this, of "\<lambda>pr. pr\<lparr>pstate := PROCESS_READY, wait_reason := WAIT_NONE\<rparr>"] Some
  show ?thesis by (simp add: wake_key_effect [OF inv] upd_proc_def)
qed

lemma start_effect:
  assumes inv: "sched_inv s ps" and c: "current s = idle s"
  shows "\<exists>s'. scheduler_start s = Ret Switched s' \<and> sched_inv s' ps \<and> current s' = hd (ps @ [idle s]) \<and> idle s' = idle s \<and>
    status s' (current s') = Some PROCESS_RUNNING \<and> (\<forall>x. x \<noteq> current s' \<longrightarrow> procs s' x = procs s x) \<and> ticks s' = ticks s \<and>
    sched_state.more s' = sched_state.more s \<and> isr_handlers s' = isr_handlers s \<and> mem s' = mem s \<and>
    (\<forall>n. procs s (current s') = Some n \<longrightarrow> cpu_rip s' = load64 (mem s) (ctx_rsp (pcontext n)) \<and> cpu_rsp s' = ctx_rsp (pcontext n) + 8)"
proof -
  note i = sched_invD [OF inv]
  obtain d where d: "procs s (idle s) = Some d" "chain (procs s) (pnext d) ps (idle s)"
    using i(1) by (auto simp: ring_def split: option.splits)
  obtain nx where nx: "nx = hd (ps @ [idle s])" by simp
  have dn: "pnext d = nx" using d(2) by (cases ps) (auto simp: nx)
  have nm: "nx \<in> set (idle s # ps)" by (cases ps) (auto simp: nx)
  then have "nx \<noteq> NULL" using i(1) by (auto simp: ring_def)
  obtain n where n: "procs s nx = Some n" using ring_member [OF i(1) nm] by blast
  let ?n' = "n\<lparr>pstate := PROCESS_RUNNING\<rparr>"
  let ?s = "s\<lparr>procs := (procs s)(nx \<mapsto> ?n'), current := nx,
       tss := if page_table n \<noteq> 0 then (tss s)\<lparr>tss_rsp0 := kernel_stack n\<rparr> else tss s,
       cr3 := if page_table n \<noteq> 0 then page_table n else cr3 s,
       boot_context := (boot_context s)\<lparr>pcontext := (pcontext (boot_context s))\<lparr>ctx_rsp := cpu_rsp s\<rparr>\<rparr>,
       cpu_rip := load64 (mem s) (ctx_rsp (pcontext n)), cpu_rsp := ctx_rsp (pcontext n) + 8\<rparr>"
  have run: "scheduler_start s = Ret Switched ?s"
    using i(5) c d(1) dn n \<open>nx \<noteq> NULL\<close>
    by (simp add: scheduler_start_def deref_def Let_def context_switch_def save_rsp_def upd_proc_def tss_set_kernel_stack_def)
  have "ring ?s ps" using i(1) by (rule ring_cong) (use n in auto)
  moreover have "status ?s x = Some PROCESS_RUNNING \<Longrightarrow> x = nx" if "x \<in> set ps" for x
    using that i(4,6) c by (cases "x = nx") auto
  moreover have "status ?s (idle s) = Some PROCESS_RUNNING \<or> status ?s (idle s) = Some PROCESS_READY \<and> nx \<noteq> idle s"
    using i(7) c by (cases "idle s = nx") auto
  moreover have "current ?s = nx" "idle ?s = idle s" by simp_all
  ultimately have "sched_inv ?s ps" using nm by (intro sched_invI [of ?s _ nx "idle s"])
  then show ?thesis using run n by (intro exI [of _ ?s]) (simp add: nx)
qed

section \<open>Properties\<close>

text \<open>C12. On a ring of processes a tick always returns, keeps the invariant and is round robin: every
  sleeper whose time has come becomes ready, and control goes to the first process after the current one,
  in ring order, that is neither blocked nor dead, which is then marked running. When control
  moves, the old process becomes ready if it was running and its stack pointer is saved,
  execution goes on at the address on top of the new process's stack, and a user process brings its page table
  and its kernel stack for interrupts.\<close>

theorem scheduler_tick_round_robin:
  fixes s :: "'a sched_state_scheme"
  assumes "sched_inv s ps"
  shows "scheduler_tick s =
      (if chosen ps s = current s then Ret Returned (woken ps s)
       else Ret Switched (hand_over (current s) (the (procs (woken ps s) (current s)))
                            (chosen ps s) (the (procs (woken ps s) (chosen ps s))) (woken ps s))) \<and>
    (\<exists>ctl s'. scheduler_tick s = Ret ctl s' \<and> sched_inv s' ps \<and> current s' = chosen ps s \<and>
       status s' (current s') = Some PROCESS_RUNNING)"
  using tick_effect [OF sched_invD(1,2) [OF assms]] tick_runs [OF assms] by blast

text \<open>Idle is current, one process sleeps until tick 5 and one is ready.\<close>

definition sched_demo :: sched_state where
  "sched_demo = idt_state.extend (idt_blank\<lparr>procs := [0x1000 \<mapsto> process_zero\<lparr>pstate := PROCESS_RUNNING, pnext := 0x2000\<rparr>,
       0x2000 \<mapsto> process_zero\<lparr>pstate := PROCESS_BLOCKED, wait_reason := WAIT_SLEEP, wake_tick := 5, pnext := 0x3000\<rparr>,
       0x3000 \<mapsto> process_zero\<lparr>pnext := 0x1000\<rparr>]\<rparr>)
     \<lparr>ticks = 4, current = 0x1000, idle = 0x1000, boot_context = process_zero, cpu_rsp = 0x9000, cpu_rip = 0\<rparr>"

lemma sched_demo_simps:
  "procs sched_demo = [0x1000 \<mapsto> process_zero\<lparr>pstate := PROCESS_RUNNING, pnext := 0x2000\<rparr>,
       0x2000 \<mapsto> process_zero\<lparr>pstate := PROCESS_BLOCKED, wait_reason := WAIT_SLEEP, wake_tick := 5, pnext := 0x3000\<rparr>,
       0x3000 \<mapsto> process_zero\<lparr>pnext := 0x1000\<rparr>]"
  "idle sched_demo = 0x1000" "current sched_demo = 0x1000" "ticks sched_demo = 4"
  by (simp_all add: sched_demo_def idt_state.defs)

lemma sched_demo_inv: "sched_inv sched_demo [0x2000, 0x3000]"
  by (simp add: sched_inv_def ring_def sched_demo_simps process_zero_def)

theorem scheduler_tick_round_robin_witness:
  "\<exists>s'. scheduler_tick sched_demo = Ret Switched s' \<and> sched_inv s' [0x2000, 0x3000] \<and> current s' = 0x3000"
proof -
  have "chosen [0x2000, 0x3000] sched_demo = 0x3000"
    by (simp add: chosen_def woken_def map_procs_def wake_sleeper_def after_def not_runnable_def sched_demo_simps process_zero_def)
  then show ?thesis using scheduler_tick_round_robin [OF sched_demo_inv] by (auto simp: sched_demo_simps(3))
qed

end
