(* ===== verification/Timer.thy ===== *)
theory Timer
  imports Scheduler_Ring
begin

text \<open>
  The programmable interval timer of \<open>src/drivers/timer.c\<close>: its divisor, and the interrupt handler that
  counts a tick and runs the scheduler. When the scheduler switches, the end of the
  handler (the end-of-interrupt command) is not executed until the interrupted process is
  resumed.
\<close>

section \<open>Operations\<close>

definition timer_handler :: "registers \<Rightarrow> 'a sched_state_scheme \<Rightarrow> ('a sched_state_scheme, control) outcome" where
  "timer_handler regs s =
     obind (scheduler_tick (s\<lparr>ticks := ticks s + 1\<rparr>)) (\<lambda>ctl s1.
       case ctl of Switched \<Rightarrow> Ret Switched s1 | Returned \<Rightarrow> Ret Returned (pic_send_eoi 0 s1))"

text \<open>A division by zero raises an exception in place of a result.\<close>

definition timer_init :: "u32 \<Rightarrow> 'a sched_state_scheme \<Rightarrow> ('a sched_state_scheme, unit) outcome" where
  "timer_init frequency s =
     (if frequency = 0 then Fault
      else
        let divisor = 1193182 div frequency;
            s1 = outb 0x43 0x36 s;
            s2 = outb 0x40 (ucast (divisor AND 0xFF)) s1;
            s3 = outb 0x40 (ucast (drop_bit 8 divisor AND 0xFF)) s2;
            s4 = idt_register_handler 32 (Some Timer_Handler) s3
        in Ret () (pic_unmask 0 s4))"

section \<open>The divisor\<close>

lemma divisor_bytes:
  "unat (ucast (d AND 0xFF) :: u8) + 256 * unat (ucast (drop_bit 8 d AND 0xFF) :: u8) = unat (d :: u32) mod 65536"
proof -
  have m: "(0xFF :: u32) = mask 8" by (simp add: mask_numerals)
  have a: "unat (ucast (d AND 0xFF) :: u8) = unat d mod 256"
    unfolding m by (simp add: unsigned_ucast_eq unsigned_and_eq take_bit_eq_mod unat_mod flip: take_bit_eq_mask)
  have "unat (drop_bit 8 d) = unat d div 256" by (simp add: drop_bit_eq_div unat_div)
  then have b: "unat (ucast (drop_bit 8 d AND 0xFF) :: u8) = unat d div 256 mod 256"
    unfolding m by (simp add: unsigned_ucast_eq unsigned_and_eq take_bit_eq_mod unat_mod flip: take_bit_eq_mask)
  show ?thesis unfolding a b using mod_mult2_eq [of "unat d" 256 256] by simp
qed

section \<open>Ticks\<close>

lemma timer_handler_runs:
  assumes "sched_inv s ps"
  shows "\<exists>ctl s'. timer_handler regs s = Ret ctl s' \<and> sched_inv s' ps \<and> idle s' = idle s \<and>
    current s' = chosen ps (s\<lparr>ticks := ticks s + 1\<rparr>) \<and> status s' (current s') = Some PROCESS_RUNNING \<and>
    ticks s' = ticks s + 1"
proof -
  let ?s = "s\<lparr>ticks := ticks s + 1\<rparr>"
  have "sched_inv ?s ps" using assms by (simp add: sched_inv_cong [of ?s s])
  from tick_runs [OF this] obtain ctl s' where t: "scheduler_tick ?s = Ret ctl s'" "sched_inv s' ps"
    "current s' = chosen ps ?s" "idle s' = idle s" "status s' (current s') = Some PROCESS_RUNNING" "ticks s' = ticks s + 1" by auto
  show ?thesis
  proof (cases ctl)
    case Returned
    let ?t = "pic_send_eoi 0 s'"
    have "timer_handler regs s = Ret Returned ?t" using t(1) Returned by (simp add: timer_handler_def)
    moreover have e: "procs ?t = procs s'" "idle ?t = idle s'" "current ?t = current s'" "ticks ?t = ticks s'"
      by (simp_all add: pic_send_eoi_def outb_def)
    ultimately show ?thesis using t(2-6) sched_inv_cong [of ?t s', OF e(1-3)] e by simp
  next
    case Switched
    then show ?thesis using t by (simp add: timer_handler_def)
  qed
qed

lemma after_conv: "x \<notin> set xs \<Longrightarrow> after x (xs @ x # ys) = ys @ xs"
  by (auto simp: after_def dropWhile_append takeWhile_append)

lemma after_shift:
  assumes "distinct rs" and "c \<in> set rs" and "after c rs = ys @ x # zs"
  shows "after x rs = zs @ c # ys"
proof -
  obtain as bs where s: "rs = as @ c # bs" "after c rs = bs @ as" "c \<notin> set as" using after_split [OF assms(2)] by metis
  then have "bs @ as = ys @ x # zs" using assms(3) by simp
  then consider us where "bs = ys @ x # us" "zs = us @ as" | us where "as = us @ x # zs" "ys = bs @ us"
    by (auto simp: append_eq_append_conv2 append_eq_Cons_conv)
  then show ?thesis
  proof cases
    case 1
    have "x \<notin> set (as @ c # ys)" using assms(1) s(1) 1 by auto
    from after_conv [OF this, of us] show ?thesis by (simp add: s(1) 1)
  next
    case 2
    have "x \<notin> set us" using assms(1) s(1) 2 by auto
    from after_conv [OF this, of "zs @ c # bs"] show ?thesis by (simp add: s(1) 2)
  qed
qed

text \<open>How many processes the ring visits after \<open>c\<close> before it comes to \<open>p\<close>.\<close>

definition ring_dist :: "u64 list \<Rightarrow> u64 \<Rightarrow> u64 \<Rightarrow> nat" where
  "ring_dist rs c p = length (takeWhile (\<lambda>x. x \<noteq> p) (after c rs))"

lemma ring_dist_less:
  assumes d: "distinct rs" and c: "c \<in> set rs" and p: "p \<in> set rs"
    and a: "after c rs = ys @ x # zs" and np: "p \<notin> set ys" "p \<noteq> x"
  shows "ring_dist rs x p < ring_dist rs c p"
proof -
  have "takeWhile (\<lambda>x. x \<noteq> p) (after c rs) = ys @ x # takeWhile (\<lambda>x. x \<noteq> p) zs"
    unfolding a using np by (subst takeWhile_append2) auto
  then have dc: "ring_dist rs c p = Suc (length ys + length (takeWhile (\<lambda>x. x \<noteq> p) zs))" by (simp add: ring_dist_def)
  have dx: "ring_dist rs x p = length (takeWhile (\<lambda>x. x \<noteq> p) (zs @ c # ys))" by (simp add: ring_dist_def after_shift [OF d c a])
  show ?thesis
  proof (cases "p \<in> set zs")
    case True
    then have "takeWhile (\<lambda>x. x \<noteq> p) (zs @ c # ys) = takeWhile (\<lambda>x. x \<noteq> p) zs" by (rule takeWhile_append1) simp
    then show ?thesis by (simp add: dc dx)
  next
    case False
    have "p = c" using p after_props(1) [OF c d] a np False by auto
    have z: "takeWhile (\<lambda>x. x \<noteq> p) zs = zs" using False by (auto simp: takeWhile_eq_all_conv)
    have cz: "takeWhile (\<lambda>x. x \<noteq> p) (zs @ c # ys) = zs" using False \<open>p = c\<close> by (subst takeWhile_append2) auto
    show ?thesis unfolding dc dx z cz by simp
  qed
qed

lemma ring_dist_le: "c \<in> set rs \<Longrightarrow> distinct rs \<Longrightarrow> ring_dist rs c p < length rs"
proof -
  assume "c \<in> set rs" "distinct rs"
  then obtain as bs where "rs = as @ c # bs" "after c rs = bs @ as" using after_split by metis
  then show ?thesis unfolding ring_dist_def using length_takeWhile_le [of "\<lambda>x. x \<noteq> p" "bs @ as"] by (simp del: length_takeWhile_le)
qed

text \<open>A ready process is not passed over: a tick picks it or comes nearer to it.\<close>

lemma chosen_nearer:
  assumes inv: "sched_inv s ps" and p: "p \<in> set ps" "status s p = Some PROCESS_READY"
  shows "chosen ps s = p \<or>
    chosen ps s \<noteq> current s \<and> ring_dist (idle s # ps) (chosen ps s) p < ring_dist (idle s # ps) (current s) p"
proof -
  note i = sched_invD [OF inv]
  let ?rs = "idle s # ps" and ?w = "procs (woken ps s)"
  obtain pr where "procs s p = Some pr" "pstate pr = PROCESS_READY" using p(2) by auto
  then have "?w p = Some pr" "\<not> not_runnable pr"
    using p(1) by (simp_all add: woken_def map_procs_def wake_sleeper_def not_runnable_def)
  then have ready: "\<exists>n. ?w p = Some n \<and> \<not> not_runnable n" by blast
  have mem: "\<exists>pr. ?w x = Some pr" if "x \<in> set (after (current s) ?rs)" for x
    using woken_member [OF inv, of x] that after_props(1) [OF i(2,3)] by simp
  show ?thesis
  proof (cases "chosen ps s = p")
    case False
    have ne: "chosen ps s \<noteq> current s"
    proof
      assume c: "chosen ps s = current s"
      then have ci: "current s = idle s" by (rule chosen_current [OF inv])
      then have "p \<in> set (after (current s) ?rs)" using after_props(1) [OF i(2,3)] p(1) i(4) by auto
      then obtain us vs where "after (current s) ?rs = us @ p # vs" by (meson split_list)
      from first_runnable_least [of _ ?w us p vs, OF mem this] ready
      have "chosen ps s \<in> set (us @ [p])" by (auto simp: chosen_def)
      then show False using c after_props(3) [OF i(2,3)] \<open>after (current s) ?rs = us @ p # vs\<close> by auto
    qed
    have "chosen ps s \<in> set (after (current s) ?rs)"
      using first_runnable_some(1) [OF mem ne [unfolded chosen_def]] by (simp only: chosen_def)
    then obtain ys zs where sp: "after (current s) ?rs = ys @ chosen ps s # zs" by (meson split_list)
    have dn: "distinct (ys @ chosen ps s # zs)" using after_props(2) [OF i(2,3)] sp by simp
    have "p \<notin> set ys"
    proof
      assume "p \<in> set ys"
      then obtain us vs where ys: "ys = us @ p # vs" by (meson split_list)
      from first_runnable_least [of _ ?w us p "vs @ chosen ps s # zs", OF mem] ready
      have "first_runnable ?w (after (current s) ?rs) (current s) \<in> set (us @ [p])" by (metis append.assoc append_Cons sp ys)
      then have "chosen ps s \<in> set (us @ [p])" by (simp only: chosen_def)
      then show False using dn ys by auto
    qed
    then show ?thesis using ne False ring_dist_less [OF i(3,2) _ sp, of p] p(1) by auto
  qed simp
qed


lemma tick_keeps_ready:
  assumes inv: "sched_inv s ps" and p: "p \<in> set ps" "status s p = Some PROCESS_READY" "chosen ps s \<noteq> p"
    and run: "scheduler_tick s = Ret ctl s'"
  shows "status s' p = Some PROCESS_READY"
proof -
  note i = sched_invD [OF inv]
  obtain pr where "procs s p = Some pr" "pstate pr = PROCESS_READY" using p(2) by auto
  then have w: "procs (woken ps s) p = Some pr" "pstate pr = PROCESS_READY"
    using p(1) by (simp_all add: woken_def map_procs_def wake_sleeper_def)
  show ?thesis
  proof (cases "chosen ps s = current s")
    case True
    then show ?thesis using run w by (simp add: tick_effect [OF i(1,2)])
  next
    case False
    then have "s' = hand_over (current s) (the (procs (woken ps s) (current s))) (chosen ps s)
        (the (procs (woken ps s) (chosen ps s))) (woken ps s)" using run by (simp add: tick_effect [OF i(1,2)])
    then show ?thesis using w p(3) by (cases "p = current s") (simp_all add: hand_over_def)
  qed
qed

text \<open>So many timer interrupts in a row.\<close>

primrec timer_run :: "nat \<Rightarrow> registers \<Rightarrow> 'a sched_state_scheme \<Rightarrow> ('a sched_state_scheme, unit) outcome" where
  "timer_run 0 regs s = Ret () s"
| "timer_run (Suc n) regs s = obind (timer_handler regs s) (\<lambda>_ s1. timer_run n regs s1)"

lemma timer_step:
  assumes inv: "sched_inv s ps" and p: "p \<in> set ps" "status s p = Some PROCESS_READY"
  shows "\<exists>ctl s'. timer_handler regs s = Ret ctl s' \<and> sched_inv s' ps \<and> idle s' = idle s \<and>
    (current s' = p \<and> status s' p = Some PROCESS_RUNNING \<or>
     status s' p = Some PROCESS_READY \<and> ring_dist (idle s # ps) (current s') p < ring_dist (idle s # ps) (current s) p)"
proof -
  let ?s = "s\<lparr>ticks := ticks s + 1\<rparr>"
  have inv': "sched_inv ?s ps" using inv by (simp add: sched_inv_cong [of ?s s])
  obtain ctl s' where t: "timer_handler regs s = Ret ctl s'" "sched_inv s' ps" "idle s' = idle s"
    "current s' = chosen ps ?s" "status s' (current s') = Some PROCESS_RUNNING" using timer_handler_runs [OF inv] by blast
  show ?thesis
  proof (cases "chosen ps ?s = p")
    case True
    then show ?thesis using t by auto
  next
    case False
    obtain ctl' t' where r: "scheduler_tick ?s = Ret ctl' t'" using tick_runs [OF inv'] by blast
    have "procs s' = procs t'" using t(1) r by (cases ctl') (auto simp: timer_handler_def pic_send_eoi_def outb_def)
    then have "status s' p = Some PROCESS_READY" using tick_keeps_ready [OF inv' p(1) _ False r] p(2) by simp
    then show ?thesis using t(1-4) chosen_nearer [OF inv' p(1)] p(2) False by auto
  qed
qed

lemma timer_run_reaches:
  assumes "sched_inv s ps" and "p \<in> set ps" and "status s p = Some PROCESS_READY"
    and "ring_dist (idle s # ps) (current s) p < n"
  shows "\<exists>k \<le> n. \<exists>s'. timer_run k regs s = Ret () s' \<and> current s' = p \<and> status s' p = Some PROCESS_RUNNING \<and> sched_inv s' ps"
  using assms
proof (induction n arbitrary: s)
  case (Suc n)
  obtain ctl s1 where s1: "timer_handler regs s = Ret ctl s1" "sched_inv s1 ps" "idle s1 = idle s"
    and c: "current s1 = p \<and> status s1 p = Some PROCESS_RUNNING \<or>
     status s1 p = Some PROCESS_READY \<and> ring_dist (idle s # ps) (current s1) p < ring_dist (idle s # ps) (current s) p"
    using timer_step [OF Suc.prems(1-3)] by blast
  from c show ?case
  proof
    assume "current s1 = p \<and> status s1 p = Some PROCESS_RUNNING"
    then show ?thesis using s1 by (intro exI [of _ "Suc 0"]) simp
  next
    assume a: "status s1 p = Some PROCESS_READY \<and> ring_dist (idle s # ps) (current s1) p < ring_dist (idle s # ps) (current s) p"
    then have "ring_dist (idle s1 # ps) (current s1) p < n" using Suc.prems(4) s1(3) by simp
    from Suc.IH [OF s1(2) Suc.prems(2) _ this] a obtain k s' where "k \<le> n" "timer_run k regs s1 = Ret () s'" "current s' = p"
      "status s' p = Some PROCESS_RUNNING" "sched_inv s' ps" by blast
    then show ?thesis using s1(1) by (intro exI [of _ "Suc k"]) simp
  qed
qed simp

section \<open>Properties\<close>

text \<open>C13. No ready process is starved by the timer: whatever the other processes on the ring are doing, a ready
  process becomes the running one after at most as many timer interrupts as there are processes.\<close>

theorem ready_process_runs:
  fixes s :: "'a sched_state_scheme"
  assumes "sched_inv s ps" and "p \<in> set ps" and "status s p = Some PROCESS_READY"
  shows "\<exists>k \<le> length (idle s # ps). \<exists>s'. timer_run k regs s = Ret () s' \<and> current s' = p \<and>
    status s' p = Some PROCESS_RUNNING \<and> sched_inv s' ps"
  using timer_run_reaches [OF assms ring_dist_le] sched_invD(2,3) [OF assms(1)] by blast

theorem ready_process_runs_witness:
  "\<exists>k \<le> 3. \<exists>s'. timer_run k regs_zero sched_demo = Ret () s' \<and> current s' = 0x3000"
  using ready_process_runs [OF sched_demo_inv, of "0x3000" regs_zero] by (auto simp: sched_demo_simps process_zero_def numeral_3_eq_3)

text \<open>The timer interrupt counts one tick. Control that stays ends with the end-of-interrupt command for
  line 0; when the scheduler switches, no command has been sent to the interrupt controllers
  by the time the next process runs.\<close>

theorem timer_switch_sends_no_eoi:
  fixes s :: "'a sched_state_scheme"
  assumes "sched_inv s ps"
  shows "\<exists>ctl s'. timer_handler regs s = Ret ctl s' \<and> sched_inv s' ps \<and> ticks s' = ticks s + 1 \<and>
    (ctl = Switched \<longrightarrow> port_log s' = port_log s) \<and> (ctl = Returned \<longrightarrow> port_log s' = port_log s @ [PortOut PIC1_CMD 0x20])"
proof -
  let ?s = "s\<lparr>ticks := ticks s + 1\<rparr>"
  have inv: "sched_inv ?s ps" using assms by (simp add: sched_inv_cong [of ?s s])
  obtain ctl s' where t: "timer_handler regs s = Ret ctl s'" "sched_inv s' ps" "ticks s' = ticks s + 1"
    using timer_handler_runs [OF assms] by blast
  moreover obtain ctl' t' where r: "scheduler_tick ?s = Ret ctl' t'" using tick_runs [OF inv] by blast
  moreover have "port_log t' = port_log s"
    using r tick_effect [OF sched_invD(1,2) [OF inv]] by (auto simp: woken_def hand_over_def split: if_splits)
  ultimately show ?thesis
    by (cases ctl') (auto simp: timer_handler_def pic_send_eoi_def)
qed

theorem timer_switch_sends_no_eoi_witness:
  "\<exists>ctl s'. timer_handler regs_zero sched_demo = Ret ctl s' \<and> ticks s' = 5"
  using timer_switch_sends_no_eoi [OF sched_demo_inv, of regs_zero] by (auto simp: sched_demo_simps)

text \<open>For every frequency but zero \<open>timer_init\<close> returns, and the two bytes it writes to the counter are
  the low and the high byte of the divisor cut to 16 bits; from 19 Hz on nothing is cut. The
  timer's handler is registered for vector 32. At zero the division faults.\<close>

theorem timer_init_divisor:
  fixes s :: "'a sched_state_scheme"
  shows "timer_init 0 s = Fault \<and>
    (\<forall>f. f \<noteq> 0 \<longrightarrow> (\<exists>s' lo hi. timer_init f s = Ret () s' \<and>
       sent_to 0x40 (port_log s') = sent_to 0x40 (port_log s) @ [lo, hi] \<and>
       unat lo + 256 * unat hi = 1193182 div unat f mod 65536 \<and>
       (19 \<le> unat f \<longrightarrow> unat lo + 256 * unat hi = 1193182 div unat f) \<and>
       isr_handlers s' = (isr_handlers s)[32 := Some Timer_Handler]))"
proof (intro conjI allI impI)
  fix f :: u32 assume f: "f \<noteq> 0"
  let ?d = "1193182 div f"
  let ?lo = "ucast (?d AND 0xFF) :: u8" and ?hi = "ucast (drop_bit 8 ?d AND 0xFF) :: u8"
  have d: "unat ?lo + 256 * unat ?hi = 1193182 div unat f mod 65536" unfolding divisor_bytes by (simp add: unat_div)
  have "1193182 div unat f mod 65536 = 1193182 div unat f" if "19 \<le> unat f"
  proof -
    have "1193182 div unat f \<le> 1193182 div 19" using that by (intro div_le_mono2) simp_all
    then show ?thesis by simp
  qed
  moreover obtain s' where "timer_init f s = Ret () s'" "sent_to 0x40 (port_log s') = sent_to 0x40 (port_log s) @ [?lo, ?hi]"
    "isr_handlers s' = (isr_handlers s)[32 := Some Timer_Handler]"
    using f by (simp add: timer_init_def Let_def pic_unmask_def idt_register_handler_def inb_def outb_def)
  ultimately show "\<exists>s' lo hi. timer_init f s = Ret () s' \<and>
       sent_to 0x40 (port_log s') = sent_to 0x40 (port_log s) @ [lo, hi] \<and>
       unat lo + 256 * unat hi = 1193182 div unat f mod 65536 \<and>
       (19 \<le> unat f \<longrightarrow> unat lo + 256 * unat hi = 1193182 div unat f) \<and>
       isr_handlers s' = (isr_handlers s)[32 := Some Timer_Handler]" using d by auto
qed (simp add: timer_init_def)

theorem timer_init_divisor_witness:
  "\<exists>s' lo hi. timer_init 100 sched_demo = Ret () s' \<and> unat (lo :: u8) + 256 * unat (hi :: u8) = 11931 \<and>
     sent_to 0x40 (port_log s') = sent_to 0x40 (port_log sched_demo) @ [lo, hi]"
  using timer_init_divisor [of sched_demo, THEN conjunct2, THEN spec, of 100] by auto

end
