(* ===== verification/Ring_Buffer.thy ===== *)
theory Ring_Buffer
  imports Kernel_Prelude
begin

text \<open>
  Circular buffers in an array of \<open>n\<close> slots with a read and a write position, one slot always left
  free, seen as the list of the elements they hold; and the interface of a bounded first-in
  first-out queue with the facts its clients use.
\<close>

section \<open>Arrays with a read and a write position\<close>

definition rb_contents :: "nat \<Rightarrow> nat \<Rightarrow> nat \<Rightarrow> 'e list \<Rightarrow> 'e list" where
  "rb_contents n r w buf = map (\<lambda>i. buf ! ((r + i) mod n)) [0..<(w + n - r) mod n]"

definition rb_ok :: "nat \<Rightarrow> nat \<Rightarrow> nat \<Rightarrow> 'e list \<Rightarrow> bool" where
  "rb_ok n r w buf \<longleftrightarrow> r < n \<and> w < n \<and> length buf = n"

lemma rb_length: "rb_ok n r w buf \<Longrightarrow> length (rb_contents n r w buf) = (if r \<le> w then w - r else w + n - r)"
proof -
  assume "rb_ok n r w buf"
  then have "r < n" "w < n" by (simp_all add: rb_ok_def)
  have "(w + n - r) mod n = w - r" if "r \<le> w"
  proof -
    have "w + n - r = (w - r) + n" using that by simp
    then show ?thesis using \<open>w < n\<close> by (simp only: mod_add_self2) simp
  qed
  then show ?thesis using \<open>r < n\<close> \<open>w < n\<close> by (auto simp: rb_contents_def)
qed

lemma rb_nth: "i < length (rb_contents n r w buf) \<Longrightarrow> rb_contents n r w buf ! i = buf ! ((r + i) mod n)"
  by (simp add: rb_contents_def)

lemma rb_full: "rb_ok n r w buf \<Longrightarrow> (w + 1) mod n = r \<longleftrightarrow> \<not> length (rb_contents n r w buf) < n - 1"
  by (cases "w + 1 = n") (auto simp: rb_length rb_ok_def)

lemma rb_empty: "rb_ok n r w buf \<Longrightarrow> rb_contents n r w buf = [] \<longleftrightarrow> r = w"
  using rb_length [of n r w buf] by (auto simp: rb_ok_def simp flip: length_0_conv split: if_splits)

lemma rb_put:
  assumes ok: "rb_ok n r w buf" and room: "(w + 1) mod n \<noteq> r"
  shows "rb_contents n r ((w + 1) mod n) (buf[w := x]) = rb_contents n r w buf @ [x]"
proof -
  have b: "r < n" "w < n" "length buf = n" using ok by (simp_all add: rb_ok_def)
  let ?k = "length (rb_contents n r w buf)"
  have k: "?k < n - 1" using rb_full [OF ok] room by blast
  have kw: "(r + ?k) mod n = w" using b by (auto simp: rb_length [OF ok])
  have ok': "rb_ok n r ((w + 1) mod n) (buf[w := x])" using b by (simp add: rb_ok_def)
  have len: "length (rb_contents n r ((w + 1) mod n) (buf[w := x])) = Suc ?k"
    using b room unfolding rb_length [OF ok] rb_length [OF ok'] by (cases "w + 1 = n") auto
  have other: "(r + i) mod n \<noteq> w" if "i < ?k" for i
  proof
    assume "(r + i) mod n = w"
    then have "(r + i) mod n = (r + ?k) mod n" using kw by simp
    then have "i mod n = ?k mod n" by (simp add: nat_mod_eq_iff)
    then show False using that k by simp
  qed
  show ?thesis
  proof (rule nth_equalityI)
    fix i assume "i < length (rb_contents n r ((w + 1) mod n) (buf[w := x]))"
    then have i: "i < Suc ?k" by (simp only: len)
    then have "rb_contents n r ((w + 1) mod n) (buf[w := x]) ! i = buf[w := x] ! ((r + i) mod n)"
      using len by (intro rb_nth) simp
    then show "rb_contents n r ((w + 1) mod n) (buf[w := x]) ! i = (rb_contents n r w buf @ [x]) ! i"
      using i kw b other [of i] by (cases "i = ?k") (auto simp: nth_append rb_nth)
  qed (simp only: len length_append list.size)
qed

lemma rb_get:
  assumes ok: "rb_ok n r w buf" and ne: "r \<noteq> w"
  shows "rb_contents n r w buf = buf ! r # rb_contents n ((r + 1) mod n) w buf"
proof -
  have b: "r < n" "w < n" using ok by (simp_all add: rb_ok_def)
  have ok': "rb_ok n ((r + 1) mod n) w buf" using ok by (simp add: rb_ok_def)
  have len: "length (rb_contents n r w buf) = Suc (length (rb_contents n ((r + 1) mod n) w buf))"
    using b ne unfolding rb_length [OF ok] rb_length [OF ok'] by (cases "r + 1 = n") auto
  show ?thesis
  proof (rule nth_equalityI)
    fix i assume "i < length (rb_contents n r w buf)"
    then show "rb_contents n r w buf ! i = (buf ! r # rb_contents n ((r + 1) mod n) w buf) ! i"
      using len b by (cases i) (auto simp: rb_nth mod_simps)
  qed (simp only: len list.size)
qed

section \<open>Bounded queues\<close>

text \<open>So many elements taken one after the other.\<close>

primrec drain :: "('s \<Rightarrow> 'e option \<times> 's) \<Rightarrow> nat \<Rightarrow> 's \<Rightarrow> 'e option list \<times> 's" where
  "drain get 0 s = ([], s)"
| "drain get (Suc k) s = (case get s of (x, t) \<Rightarrow> case drain get k t of (xs, u) \<Rightarrow> (x # xs, u))"

locale bounded_queue =
  fixes inv :: "'s \<Rightarrow> bool" and contents :: "'s \<Rightarrow> 'e list" and valid :: "'e \<Rightarrow> bool"
    and put :: "'e \<Rightarrow> 's \<Rightarrow> 's" and get :: "'s \<Rightarrow> 'e option \<times> 's" and cap :: nat
  assumes put_inv: "inv s \<Longrightarrow> valid x \<Longrightarrow> inv (put x s)"
    and put_contents: "inv s \<Longrightarrow> contents (put x s) = (if length (contents s) < cap then contents s @ [x] else contents s)"
    and get_inv: "inv s \<Longrightarrow> inv (snd (get s))"
    and get_empty: "inv s \<Longrightarrow> contents s = [] \<Longrightarrow> get s = (None, s)"
    and get_some: "inv s \<Longrightarrow> contents s = x # xs \<Longrightarrow> fst (get s) = Some x \<and> contents (snd (get s)) = xs"
    and bounded: "inv s \<Longrightarrow> length (contents s) \<le> cap"
begin

lemma put_all:
  assumes "inv s" and "\<forall>x \<in> set xs. valid x"
  shows "inv (fold put xs s) \<and> contents (fold put xs s) = contents s @ take (cap - length (contents s)) xs"
  using assms
proof (induction xs arbitrary: s)
  case (Cons x xs)
  have i: "inv (put x s)" using Cons.prems put_inv by simp
  with Cons.IH [OF i] Cons.prems(2) bounded [OF Cons.prems(1)] show ?case
    by (cases "length (contents s) < cap") (auto simp: put_contents [OF Cons.prems(1)] take_Cons')
qed simp

lemma drain_all:
  assumes "inv s"
  shows "fst (drain get (length (contents s)) s) = map Some (contents s)"
    and "inv (snd (drain get (length (contents s)) s)) \<and> contents (snd (drain get (length (contents s)) s)) = []"
proof -
  have "fst (drain get (length xs) s) = map Some xs \<and> inv (snd (drain get (length xs) s)) \<and>
      contents (snd (drain get (length xs) s)) = []" if "inv s" "contents s = xs" for s xs
    using that
  proof (induction xs arbitrary: s)
    case (Cons x xs)
    obtain y t where g: "get s = (y, t)" by (cases "get s")
    then have "y = Some x" "contents t = xs" "inv t" using get_some [OF Cons.prems] get_inv [OF Cons.prems(1)] by auto
    then show ?case using Cons.IH [of t] g by (auto split: prod.split)
  qed simp
  from this [OF assms refl] show "fst (drain get (length (contents s)) s) = map Some (contents s)"
    and "inv (snd (drain get (length (contents s)) s)) \<and> contents (snd (drain get (length (contents s)) s)) = []" by blast+
qed

text \<open>What is put into an empty queue comes out in the same order, up to the capacity.\<close>

lemma fifo:
  assumes "inv s" and "contents s = []" and "\<forall>x \<in> set xs. valid x"
  shows "fst (drain get (length (take cap xs)) (fold put xs s)) = map Some (take cap xs)"
  using put_all [OF assms(1,3)] drain_all(1) [of "fold put xs s"] assms(2) by simp

end

end
