(* ===== verification/Keyboard.thy ===== *)
theory Keyboard
  imports Timer Ring_Buffer
begin

text \<open>
  The keyboard of \<open>src/drivers/keyboard.c\<close>: an interrupt handler that reads a scancode, keeps raw
  make and break events in one circular buffer and translated characters in another, and the
  operations that take from them. The positions are C integers that only ever hold indices of the
  buffers. The controller that answers reads of port 0x60 is part of the machine's
  device parameter; the handler reads the port twice for a key press.
\<close>

section \<open>State and operations\<close>

abbreviation KB_BUFFER_SIZE :: nat where "KB_BUFFER_SIZE \<equiv> 64"
abbreviation KB_EVENT_BUF :: nat where "KB_EVENT_BUF \<equiv> 32"

record key_event =
  scancode :: u8
  pressed :: u8

record kb_state = sched_state +
  kb_buf :: "u8 list"
  key_events :: "key_event list"
  kb_read_pos :: nat
  kb_write_pos :: nat
  event_head :: nat
  event_tail :: nat

definition scancode_table :: "u8 list" where
  "scancode_table =
     [0, 0] @ str ''1234567890-='' @ [0x08] @
     [0x09] @ str ''qwertyuiop[]'' @ [0x0A] @
     [0] @ str ''asdfghjkl;'' @ [0x27, 0x60] @
     [0, 0x5C] @ str ''zxcvbnm,./'' @ [0] @
     str ''*'' @ [0] @ str '' '' @ replicate 70 0"

text \<open>The two places where the handler stores into a buffer, or drops when it is full.\<close>

definition event_put :: "key_event \<Rightarrow> 'a kb_state_scheme \<Rightarrow> 'a kb_state_scheme" where
  "event_put e s =
     (let nxt = (event_tail s + 1) mod KB_EVENT_BUF
      in if nxt \<noteq> event_head s
         then s\<lparr>key_events := (key_events s)[event_tail s := e], event_tail := nxt\<rparr>
         else s)"

definition kb_put :: "u8 \<Rightarrow> 'a kb_state_scheme \<Rightarrow> 'a kb_state_scheme" where
  "kb_put c s =
     (let nxt = (kb_write_pos s + 1) mod KB_BUFFER_SIZE
      in if nxt \<noteq> kb_read_pos s
         then s\<lparr>kb_buf := (kb_buf s)[kb_write_pos s := c], kb_write_pos := nxt\<rparr>
         else s)"

definition keyboard_handler :: "registers \<Rightarrow> 'a kb_state_scheme \<Rightarrow> ('a kb_state_scheme, control) outcome" where
  "keyboard_handler regs s =
     (case inb 0x60 s of (sc, s1) \<Rightarrow>
      let event = \<lparr>scancode = sc AND 0x7F, pressed = if sc AND 0x80 = 0 then 1 else 0\<rparr>;
          s2 = event_put event s1
      in if sc AND 0x80 \<noteq> 0 then Ret Returned (pic_send_eoi 1 s2)
         else case inb 0x60 s2 of (code, s3) \<Rightarrow>
           obind
             (if code < 128 \<and> scancode_table ! unat code \<noteq> 0
              then let c = scancode_table ! unat code
                   in scheduler_wake_key_waiter (vga_putchar c (kb_put c s3))
              else Ret () s3)
             (\<lambda>_ s4. Ret Returned (pic_send_eoi 1 s4)))"

definition keyboard_init :: "'a kb_state_scheme \<Rightarrow> 'a kb_state_scheme" where
  "keyboard_init s = pic_unmask 1 (idt_register_handler 33 (Some Keyboard_Handler) s)"

definition keyboard_has_char :: "'a kb_state_scheme \<Rightarrow> bool" where
  "keyboard_has_char s \<longleftrightarrow> kb_read_pos s \<noteq> kb_write_pos s"

definition keyboard_getchar :: "'a kb_state_scheme \<Rightarrow> u8 \<times> 'a kb_state_scheme" where
  "keyboard_getchar s =
     (if kb_read_pos s = kb_write_pos s then (0, s)
      else (kb_buf s ! kb_read_pos s, s\<lparr>kb_read_pos := (kb_read_pos s + 1) mod KB_BUFFER_SIZE\<rparr>))"

text \<open>\<open>None\<close> for the result 0, under which \<open>*event\<close> is not written.\<close>

definition keyboard_get_event :: "'a kb_state_scheme \<Rightarrow> key_event option \<times> 'a kb_state_scheme" where
  "keyboard_get_event s =
     (if event_head s = event_tail s then (None, s)
      else (Some (key_events s ! event_head s), s\<lparr>event_head := (event_head s + 1) mod KB_EVENT_BUF\<rparr>))"

section \<open>The buffers as queues\<close>

definition kb_chars :: "'a kb_state_scheme \<Rightarrow> u8 list" where
  "kb_chars s = rb_contents KB_BUFFER_SIZE (kb_read_pos s) (kb_write_pos s) (kb_buf s)"

definition kb_events :: "'a kb_state_scheme \<Rightarrow> key_event list" where
  "kb_events s = rb_contents KB_EVENT_BUF (event_head s) (event_tail s) (key_events s)"

text \<open>Zero is the result of \<open>keyboard_getchar\<close> on an empty buffer; it is never stored.\<close>

definition kb_inv :: "'a kb_state_scheme \<Rightarrow> bool" where
  "kb_inv s \<longleftrightarrow> rb_ok KB_BUFFER_SIZE (kb_read_pos s) (kb_write_pos s) (kb_buf s) \<and>
     rb_ok KB_EVENT_BUF (event_head s) (event_tail s) (key_events s) \<and> 0 \<notin> set (kb_chars s)"

definition kb_get :: "'a kb_state_scheme \<Rightarrow> u8 option \<times> 'a kb_state_scheme" where
  "kb_get s = (case keyboard_getchar s of (c, t) \<Rightarrow> (if c = 0 then None else Some c, t))"

lemma kb_put_chars:
  assumes "kb_inv s"
  shows "kb_chars (kb_put c s) = (if length (kb_chars s) < 63 then kb_chars s @ [c] else kb_chars s)"
    and "kb_events (kb_put c s) = kb_events s" and "c \<noteq> 0 \<Longrightarrow> kb_inv (kb_put c s)"
proof -
  have ok: "rb_ok KB_BUFFER_SIZE (kb_read_pos s) (kb_write_pos s) (kb_buf s)" using assms by (simp add: kb_inv_def)
  have full: "(kb_write_pos s + 1) mod KB_BUFFER_SIZE = kb_read_pos s \<longleftrightarrow> \<not> length (kb_chars s) < 63"
    using rb_full [OF ok] by (simp add: kb_chars_def)
  show ch: "kb_chars (kb_put c s) = (if length (kb_chars s) < 63 then kb_chars s @ [c] else kb_chars s)"
    using full rb_put [OF ok, of c] by (auto simp: kb_chars_def kb_put_def Let_def)
  show "kb_events (kb_put c s) = kb_events s" by (simp add: kb_events_def kb_put_def Let_def)
  have "rb_ok KB_BUFFER_SIZE (kb_read_pos (kb_put c s)) (kb_write_pos (kb_put c s)) (kb_buf (kb_put c s))"
    using ok by (simp add: rb_ok_def kb_put_def Let_def)
  moreover have "key_events (kb_put c s) = key_events s" "event_head (kb_put c s) = event_head s" "event_tail (kb_put c s) = event_tail s"
    by (simp_all add: kb_put_def Let_def)
  ultimately show "kb_inv (kb_put c s)" if "c \<noteq> 0" using assms that ch by (auto simp: kb_inv_def)
qed

lemma event_put_events:
  assumes "kb_inv s"
  shows "kb_events (event_put e s) = (if length (kb_events s) < 31 then kb_events s @ [e] else kb_events s)"
    and "kb_chars (event_put e s) = kb_chars s" and "kb_inv (event_put e s)"
proof -
  have ok: "rb_ok KB_EVENT_BUF (event_head s) (event_tail s) (key_events s)" using assms by (simp add: kb_inv_def)
  have full: "(event_tail s + 1) mod KB_EVENT_BUF = event_head s \<longleftrightarrow> \<not> length (kb_events s) < 31"
    using rb_full [OF ok] by (simp add: kb_events_def)
  show "kb_events (event_put e s) = (if length (kb_events s) < 31 then kb_events s @ [e] else kb_events s)"
    using full rb_put [OF ok, of e] by (auto simp: kb_events_def event_put_def Let_def)
  show ch: "kb_chars (event_put e s) = kb_chars s" by (simp add: kb_chars_def event_put_def Let_def)
  have "rb_ok KB_EVENT_BUF (event_head (event_put e s)) (event_tail (event_put e s)) (key_events (event_put e s))"
    using ok by (simp add: rb_ok_def event_put_def Let_def)
  moreover have "kb_buf (event_put e s) = kb_buf s" "kb_read_pos (event_put e s) = kb_read_pos s"
    "kb_write_pos (event_put e s) = kb_write_pos s" by (simp_all add: event_put_def Let_def)
  ultimately show "kb_inv (event_put e s)" using assms ch by (simp add: kb_inv_def)
qed

interpretation char_queue: bounded_queue kb_inv kb_chars "\<lambda>c. c \<noteq> 0" kb_put kb_get 63
proof
  fix s :: "'a kb_state_scheme" and x :: u8 and xs
  assume inv: "kb_inv s"
  then have ok: "rb_ok KB_BUFFER_SIZE (kb_read_pos s) (kb_write_pos s) (kb_buf s)" by (simp add: kb_inv_def)
  let ?t = "s\<lparr>kb_read_pos := (kb_read_pos s + 1) mod KB_BUFFER_SIZE\<rparr>"
  have ne: "kb_read_pos s \<noteq> kb_write_pos s \<Longrightarrow> kb_chars s = kb_buf s ! kb_read_pos s # kb_chars ?t"
    using rb_get [OF ok] by (simp add: kb_chars_def)
  have g: "kb_read_pos s \<noteq> kb_write_pos s \<Longrightarrow> kb_get s = (Some (kb_buf s ! kb_read_pos s), ?t)"
    using ne inv by (auto simp: kb_get_def keyboard_getchar_def kb_inv_def)
  have e: "kb_read_pos s = kb_write_pos s \<longleftrightarrow> kb_chars s = []" using rb_empty [OF ok] by (simp add: kb_chars_def)
  show "x \<noteq> 0 \<Longrightarrow> kb_inv (kb_put x s)" by (rule kb_put_chars(3) [OF inv])
  show "kb_chars (kb_put x s) = (if length (kb_chars s) < 63 then kb_chars s @ [x] else kb_chars s)" by (rule kb_put_chars(1) [OF inv])
  show "kb_get s = (None, s)" if "kb_chars s = []" using e that by (simp add: kb_get_def keyboard_getchar_def)
  show "fst (kb_get s) = Some x \<and> kb_chars (snd (kb_get s)) = xs" if "kb_chars s = x # xs"
    using e that g ne by auto
  show "kb_inv (snd (kb_get s))"
  proof (cases "kb_read_pos s = kb_write_pos s")
    case True
    then show ?thesis using inv by (simp add: kb_get_def keyboard_getchar_def)
  next
    case False
    then have "0 \<notin> set (kb_chars ?t)" using ne [OF False] inv by (simp add: kb_inv_def)
    then show ?thesis using g [OF False] inv ok by (simp add: kb_inv_def rb_ok_def)
  qed
  show "length (kb_chars s) \<le> 63" using rb_length [OF ok] ok by (auto simp: kb_chars_def rb_ok_def)
qed

interpretation event_queue: bounded_queue kb_inv kb_events "\<lambda>_. True" event_put keyboard_get_event 31
proof
  fix s :: "'a kb_state_scheme" and x :: key_event and xs
  assume inv: "kb_inv s"
  then have ok: "rb_ok KB_EVENT_BUF (event_head s) (event_tail s) (key_events s)" by (simp add: kb_inv_def)
  let ?t = "s\<lparr>event_head := (event_head s + 1) mod KB_EVENT_BUF\<rparr>"
  have ne: "event_head s \<noteq> event_tail s \<Longrightarrow> kb_events s = key_events s ! event_head s # kb_events ?t"
    using rb_get [OF ok] by (simp add: kb_events_def)
  have e: "event_head s = event_tail s \<longleftrightarrow> kb_events s = []" using rb_empty [OF ok] by (simp add: kb_events_def)
  show "kb_inv (event_put x s)" by (rule event_put_events(3) [OF inv])
  show "kb_events (event_put x s) = (if length (kb_events s) < 31 then kb_events s @ [x] else kb_events s)"
    by (rule event_put_events(1) [OF inv])
  show "keyboard_get_event s = (None, s)" if "kb_events s = []" using e that by (simp add: keyboard_get_event_def)
  show "fst (keyboard_get_event s) = Some x \<and> kb_events (snd (keyboard_get_event s)) = xs" if "kb_events s = x # xs"
    using e that ne by (auto simp: keyboard_get_event_def)
  have "kb_inv ?t" using inv ok by (simp add: kb_inv_def rb_ok_def kb_chars_def)
  then show "kb_inv (snd (keyboard_get_event s))" using inv by (simp add: keyboard_get_event_def)
  show "length (kb_events s) \<le> 31" using rb_length [OF ok] ok by (auto simp: kb_events_def rb_ok_def)
qed

section \<open>The handler\<close>

lemma kb_put_other [simp]:
  "procs (kb_put c s) = procs s" "idle (kb_put c s) = idle s" "current (kb_put c s) = current s" "port_log (kb_put c s) = port_log s"
  by (simp_all add: kb_put_def Let_def)

lemma event_put_other [simp]:
  "procs (event_put e s) = procs s" "idle (event_put e s) = idle s" "current (event_put e s) = current s"
  "port_log (event_put e s) = port_log s" "port_dev (event_put e s) = port_dev s"
  by (simp_all add: event_put_def Let_def)

text \<open>The part of the state that the keyboard's buffers and the scheduler do not share.\<close>

definition kb_same :: "'a kb_state_scheme \<Rightarrow> 'a kb_state_scheme \<Rightarrow> bool" where
  "kb_same s t \<longleftrightarrow> kb_buf t = kb_buf s \<and> key_events t = key_events s \<and> kb_read_pos t = kb_read_pos s \<and>
     kb_write_pos t = kb_write_pos s \<and> event_head t = event_head s \<and> event_tail t = event_tail s"

lemma kb_same_queues: "kb_same s t \<Longrightarrow> kb_inv t = kb_inv s" "kb_same s t \<Longrightarrow> kb_chars t = kb_chars s" "kb_same s t \<Longrightarrow> kb_events t = kb_events s"
  by (simp_all add: kb_same_def kb_inv_def kb_chars_def kb_events_def)

lemma kb_same_ops:
  "kb_same s (snd (inb p s))" "kb_same s (pic_send_eoi i s)" "console_only s t \<Longrightarrow> kb_same s t" "kb_same s (upd_proc x f s)"
  by (auto simp: kb_same_def inb_def pic_send_eoi_def outb_def console_only_def upd_proc_def)

lemma wake_key_kb:
  assumes "sched_inv s ps"
  shows "\<exists>s'. scheduler_wake_key_waiter s = Ret () s' \<and> sched_inv s' ps \<and> current s' = current s \<and> kb_same s s' \<and> port_log s' = port_log s"
proof -
  obtain s' where s': "scheduler_wake_key_waiter s = Ret () s'" "sched_inv s' ps" "current s' = current s"
    using sched_inv_wake_key [OF assms] by blast
  moreover have "kb_same s s' \<and> port_log s' = port_log s"
    using s'(1) unfolding wake_key_effect [OF assms] by (auto simp: kb_same_def upd_proc_def split: option.splits)
  ultimately show ?thesis by blast
qed

text \<open>The second half of the handler, for a key press.\<close>

lemma key_press:
  assumes kb: "kb_inv s" and sch: "sched_inv s ps"
  shows "\<exists>s'. (if code < 128 \<and> scancode_table ! unat code \<noteq> 0
      then let c = scancode_table ! unat code in scheduler_wake_key_waiter (vga_putchar c (kb_put c s)) else Ret () s) = Ret () s' \<and>
    kb_inv s' \<and> sched_inv s' ps \<and> current s' = current s \<and> port_log s' = port_log s \<and> kb_events s' = kb_events s \<and>
    kb_chars s' = (if code < 128 \<and> scancode_table ! unat code \<noteq> 0 \<and> length (kb_chars s) < 63
                   then kb_chars s @ [scancode_table ! unat code] else kb_chars s)"
proof (cases "code < 128 \<and> scancode_table ! unat code \<noteq> 0")
  case False
  then show ?thesis using kb sch by auto
next
  case True
  let ?c = "scancode_table ! unat code"
  let ?t = "vga_putchar ?c (kb_put ?c s)"
  have co: "console_only (kb_put ?c s) ?t" by simp
  note v = sched_console [OF co]
  have "sched_inv ?t ps" using sch sched_inv_cong [of ?t s ps] v by simp
  from wake_key_kb [OF this] obtain s' where s': "scheduler_wake_key_waiter ?t = Ret () s'" "sched_inv s' ps"
    "current s' = current s" "kb_same ?t s'" "port_log s' = port_log s" using v by auto
  note k = kb_same_queues [OF s'(4)] kb_same_queues [OF kb_same_ops(3) [OF co]]
  have "kb_inv s'" "kb_events s' = kb_events s"
    "kb_chars s' = (if length (kb_chars s) < 63 then kb_chars s @ [?c] else kb_chars s)"
    using k kb_put_chars [OF kb, of ?c] True by simp_all
  then show ?thesis using s' True by (auto simp: Let_def)
qed

lemma keyboard_handler_effect:
  fixes s :: "'a kb_state_scheme"
  assumes "kb_inv s" and "sched_inv s ps"
  defines "sc \<equiv> port_dev s (port_log s) 0x60" and "code \<equiv> port_dev s (port_log s @ [PortIn 0x60]) 0x60"
  shows "\<exists>s'. keyboard_handler regs s = Ret Returned s' \<and> kb_inv s' \<and> sched_inv s' ps \<and> current s' = current s \<and>
    sent_to PIC1_CMD (port_log s') = sent_to PIC1_CMD (port_log s) @ [0x20] \<and>
    kb_events s' = (if length (kb_events s) < 31
      then kb_events s @ [\<lparr>scancode = sc AND 0x7F, pressed = if sc AND 0x80 = 0 then 1 else 0\<rparr>] else kb_events s) \<and>
    kb_chars s' = (if sc AND 0x80 = 0 \<and> code < 128 \<and> scancode_table ! unat code \<noteq> 0 \<and> length (kb_chars s) < 63
      then kb_chars s @ [scancode_table ! unat code] else kb_chars s)"
proof -
  let ?e = "\<lparr>scancode = sc AND 0x7F, pressed = if sc AND 0x80 = 0 then 1 else 0\<rparr>"
  define s1 where "s1 = snd (inb 0x60 s)"
  define s2 where "s2 = event_put ?e s1"
  define s3 where "s3 = snd (inb 0x60 s2)"
  note k1 = kb_same_queues [OF kb_same_ops(1), of "0x60" s]
  have e2: "kb_inv s2" "kb_chars s2 = kb_chars s"
    "kb_events s2 = (if length (kb_events s) < 31 then kb_events s @ [?e] else kb_events s)"
    using event_put_events [of s1 ?e] assms(1) by (simp_all add: k1 s2_def s1_def)
  have k3: "kb_inv s3" "kb_chars s3 = kb_chars s2" "kb_events s3 = kb_events s2"
    using kb_same_queues [OF kb_same_ops(1), of "0x60" s2] e2(1) by (simp_all add: s3_def)
  have l: "procs s3 = procs s" "idle s3 = idle s" "current s3 = current s" "port_log s3 = port_log s @ [PortIn 0x60, PortIn 0x60]"
      "procs s2 = procs s" "idle s2 = idle s" "current s2 = current s" "port_log s2 = port_log s @ [PortIn 0x60]"
    by (simp_all add: s3_def s2_def s1_def inb_def)
  have sch: "sched_inv s3 ps" "sched_inv s2 ps" using sched_inv_cong [of s3 s ps] sched_inv_cong [of s2 s ps] l assms(2) by simp_all
  have in1: "inb 0x60 s = (sc, s1)" "inb 0x60 s2 = (code, s3)"
    unfolding sc_def code_def s3_def using l(8) by (simp_all add: inb_def s2_def s1_def)
  have fin: "kb_inv (pic_send_eoi 1 t)" "sched_inv (pic_send_eoi 1 t) ps" "kb_chars (pic_send_eoi 1 t) = kb_chars t"
    "kb_events (pic_send_eoi 1 t) = kb_events t" "current (pic_send_eoi 1 t) = current t"
    "sent_to PIC1_CMD (port_log (pic_send_eoi 1 t)) = sent_to PIC1_CMD (port_log t) @ [0x20]"
    if "kb_inv t" "sched_inv t ps" for t :: "'a kb_state_scheme"
    using that kb_same_queues [OF kb_same_ops(2), of 1 t] sched_inv_cong [of "pic_send_eoi 1 t" t ps]
    by (simp_all add: pic_send_eoi_def outb_def)
  show ?thesis
  proof (cases "sc AND 0x80 = 0")
    case False
    have "keyboard_handler regs s = Ret Returned (pic_send_eoi 1 s2)"
      unfolding keyboard_handler_def in1(1) prod.case Let_def using False by (simp add: s2_def)
    then show ?thesis using False fin [OF e2(1) sch(2)] e2 l by simp
  next
    case True
    obtain s4 where s4: "(if code < 128 \<and> scancode_table ! unat code \<noteq> 0
        then let c = scancode_table ! unat code in scheduler_wake_key_waiter (vga_putchar c (kb_put c s3)) else Ret () s3) = Ret () s4"
      "kb_inv s4" "sched_inv s4 ps" "current s4 = current s3" "port_log s4 = port_log s3" "kb_events s4 = kb_events s3"
      "kb_chars s4 = (if code < 128 \<and> scancode_table ! unat code \<noteq> 0 \<and> length (kb_chars s3) < 63
                   then kb_chars s3 @ [scancode_table ! unat code] else kb_chars s3)" using key_press [OF k3(1) sch(1)] by blast
    have "keyboard_handler regs s = Ret Returned (pic_send_eoi 1 s4)"
      unfolding keyboard_handler_def in1(1) prod.case Let_def
      using True in1(2) [unfolded s2_def] s4(1)
      by (cases "code < 128 \<and> scancode_table ! unat code \<noteq> 0") (auto simp: Let_def)
    then show ?thesis using True fin [OF s4(2,3)] s4(4-7) k3 e2 l by simp
  qed
qed

section \<open>Properties\<close>

text \<open>C33. The keyboard handler always returns to the interrupted code, having sent exactly one
  end-of-interrupt command to the first controller. It appends the make or break event to the event queue unless
  31 are waiting. For a press whose second read of the port gives a code with a translation it appends
  that character to the character queue unless 63 are waiting. It keeps the invariants of
  the buffers and of the scheduler, and the current process.\<close>

theorem keyboard_handler_queues:
  fixes s :: "'a kb_state_scheme"
  assumes "kb_inv s" and "sched_inv s ps"
  defines "sc \<equiv> port_dev s (port_log s) 0x60" and "code \<equiv> port_dev s (port_log s @ [PortIn 0x60]) 0x60"
  shows "\<exists>s'. keyboard_handler regs s = Ret Returned s' \<and> kb_inv s' \<and> sched_inv s' ps \<and> current s' = current s \<and>
    sent_to PIC1_CMD (port_log s') = sent_to PIC1_CMD (port_log s) @ [0x20] \<and>
    kb_events s' = (if length (kb_events s) < 31
      then kb_events s @ [\<lparr>scancode = sc AND 0x7F, pressed = if sc AND 0x80 = 0 then 1 else 0\<rparr>] else kb_events s) \<and>
    kb_chars s' = (if sc AND 0x80 = 0 \<and> code < 128 \<and> scancode_table ! unat code \<noteq> 0 \<and> length (kb_chars s) < 63
      then kb_chars s @ [scancode_table ! unat code] else kb_chars s)"
  using keyboard_handler_effect [OF assms(1,2), of regs] unfolding sc_def code_def .

text \<open>Empty buffers; the controller answers with the make code of the key A.\<close>

definition kb_demo :: kb_state where
  "kb_demo = sched_state.extend (sched_demo\<lparr>port_dev := \<lambda>_ _. 0x1E\<rparr>)
     \<lparr>kb_buf = replicate 64 0, key_events = replicate 32 \<lparr>scancode = 0, pressed = 0\<rparr>, kb_read_pos = 0, kb_write_pos = 0,
      event_head = 0, event_tail = 0\<rparr>"

lemma kb_demo_props:
  "kb_inv kb_demo" "kb_chars kb_demo = []" "kb_events kb_demo = []" "sched_inv kb_demo [0x2000, 0x3000]"
  "port_dev kb_demo = (\<lambda>_ _. 0x1E)"
proof -
  have "procs kb_demo = procs sched_demo" "idle kb_demo = idle sched_demo" "current kb_demo = current sched_demo"
    by (simp_all add: kb_demo_def sched_state.defs)
  then show "sched_inv kb_demo [0x2000, 0x3000]" using sched_demo_inv by (simp add: sched_inv_def ring_def)
qed (simp_all add: kb_demo_def sched_state.defs kb_inv_def rb_ok_def kb_chars_def kb_events_def rb_contents_def)

theorem keyboard_handler_queues_witness:
  "\<exists>s'. keyboard_handler regs_zero kb_demo = Ret Returned s' \<and> kb_chars s' = str ''a'' \<and>
     kb_events s' = [\<lparr>scancode = 0x1E, pressed = 1\<rparr>]"
  using keyboard_handler_queues [OF kb_demo_props(1,4), of regs_zero]
  by (auto simp: kb_demo_props scancode_table_def nth_append)

text \<open>C34. Both buffers are first-in first-out queues: characters (none of them zero) put into an
  empty buffer are returned by \<open>keyboard_getchar\<close> in the order of their arrival, the first 63 of
  them, and events by \<open>keyboard_get_event\<close>, the first 31.\<close>

theorem keyboard_buffers_fifo:
  fixes s :: "'a kb_state_scheme"
  assumes "kb_inv s"
  shows "(kb_chars s = [] \<and> 0 \<notin> set cs \<longrightarrow>
      fst (drain kb_get (length (take 63 cs)) (fold kb_put cs s)) = map Some (take 63 cs)) \<and>
    (kb_events s = [] \<longrightarrow>
      fst (drain keyboard_get_event (length (take 31 es)) (fold event_put es s)) = map Some (take 31 es))"
proof (intro conjI impI)
  assume "kb_chars s = [] \<and> 0 \<notin> set cs"
  then have "kb_chars s = []" "\<forall>x \<in> set cs. x \<noteq> 0" by auto
  then show "fst (drain kb_get (length (take 63 cs)) (fold kb_put cs s)) = map Some (take 63 cs)"
    by (rule char_queue.fifo [OF assms])
next
  assume "kb_events s = []"
  then show "fst (drain keyboard_get_event (length (take 31 es)) (fold event_put es s)) = map Some (take 31 es)"
    by (intro event_queue.fifo [OF assms]) simp_all
qed

theorem keyboard_buffers_fifo_witness:
  "fst (drain kb_get 2 (fold kb_put (str ''ab'') kb_demo)) = map Some (str ''ab'') \<and>
   fst (drain keyboard_get_event 1 (fold event_put [\<lparr>scancode = 1, pressed = 1\<rparr>] kb_demo)) = [Some \<lparr>scancode = 1, pressed = 1\<rparr>]"
proof -
  have "(0 :: u8) \<notin> set (str ''ab'')" "length (take 63 (str ''ab'')) = 2" "take 63 (str ''ab'') = str ''ab''" by simp_all
  moreover have "length (take 31 [\<lparr>scancode = 1, pressed = 1\<rparr>]) = 1" "take 31 [\<lparr>scancode = 1, pressed = 1\<rparr>] = [\<lparr>scancode = 1, pressed = 1\<rparr>]"
    by simp_all
  ultimately show ?thesis
    using keyboard_buffers_fifo [OF kb_demo_props(1), of "str ''ab''" "[\<lparr>scancode = 1, pressed = 1\<rparr>]"] kb_demo_props(2,3)
    by (simp del: str_simps drain.simps)
qed

end
