(* ===== verification/Framebuffer.thy ===== *)
theory Framebuffer
  imports Keyboard
begin

text \<open>
  The 320 by 200 graphics mode of \<open>src/drivers/framebuffer.c\<close>: the register programming as port
  output, and drawing into the bytes at \<open>FB_PHYS\<close>. A C \<open>int\<close> coordinate is a 32-bit word, as the
  bounds test reads it; additions of coordinates are taken modulo \<open>2 ^ 32\<close>.
\<close>

section \<open>Operations\<close>

abbreviation FB_WIDTH :: u32 where "FB_WIDTH \<equiv> 320"
abbreviation FB_HEIGHT :: u32 where "FB_HEIGHT \<equiv> 200"
abbreviation FB_PHYS :: u64 where "FB_PHYS \<equiv> 0xA0000"

definition fb_seq :: "u8 list" where
  "fb_seq = [0x03, 0x01, 0x0F, 0x00, 0x0E]"

definition fb_crtc :: "u8 list" where
  "fb_crtc = [0x5F, 0x4F, 0x50, 0x82, 0x54, 0x80, 0xBF, 0x1F,
     0x00, 0x41, 0x00, 0x00, 0x00, 0x00, 0x00, 0x00,
     0x9C, 0x0E, 0x8F, 0x28, 0x40, 0x96, 0xB9, 0xA3, 0xFF]"

definition fb_gc :: "u8 list" where
  "fb_gc = [0x00, 0x00, 0x00, 0x00, 0x00, 0x40, 0x05, 0x0F, 0xFF]"

definition fb_ac :: "u8 list" where
  "fb_ac = [0x00, 0x01, 0x02, 0x03, 0x04, 0x05, 0x06, 0x07,
     0x08, 0x09, 0x0A, 0x0B, 0x0C, 0x0D, 0x0E, 0x0F,
     0x41, 0x00, 0x0F, 0x00, 0x00]"

text \<open>A loop that writes an index to one port and the value of that index to another.\<close>

definition fb_write_regs :: "u16 \<Rightarrow> u16 \<Rightarrow> u8 list \<Rightarrow> 'a io_state_scheme \<Rightarrow> 'a io_state_scheme" where
  "fb_write_regs ip vp vs s = for_upd (length vs) 0 (\<lambda>i t. outb vp (vs ! i) (outb ip (of_nat i) t)) s"

definition fb_init :: "'a io_state_scheme \<Rightarrow> 'a io_state_scheme" where
  "fb_init s =
     (let s1 = outb 0x3C2 0x63 s;
          s2 = fb_write_regs 0x3C4 0x3C5 fb_seq s1;
          s3 = outb 0x3D4 0x11 s2
      in case inb 0x3D5 s3 of (v, s4) \<Rightarrow>
         let s5 = outb 0x3D5 (v AND NOT 0x80) s4;
             s6 = fb_write_regs 0x3D4 0x3D5 fb_crtc s5;
             s7 = fb_write_regs 0x3CE 0x3CF fb_gc s6;
             s8 = snd (inb 0x3DA s7);
             s9 = fb_write_regs 0x3C0 0x3C0 fb_ac s8
         in outb 0x3C0 0x20 s9)"

definition fb_set_palette :: "u8 \<Rightarrow> u8 \<Rightarrow> u8 \<Rightarrow> u8 \<Rightarrow> 'a io_state_scheme \<Rightarrow> 'a io_state_scheme" where
  "fb_set_palette index r g b s =
     outb 0x3C9 (drop_bit 2 b) (outb 0x3C9 (drop_bit 2 g) (outb 0x3C9 (drop_bit 2 r) (outb 0x3C8 index s)))"

definition fb_clear :: "u8 \<Rightarrow> 'a vmm_state_scheme \<Rightarrow> 'a vmm_state_scheme" where
  "fb_clear colour s = for_upd (320 * 200) 0 (\<lambda>i t. t\<lparr>mem := (mem t)(FB_PHYS + of_nat i := colour)\<rparr>) s"

definition fb_put_pixel :: "u32 \<Rightarrow> u32 \<Rightarrow> u8 \<Rightarrow> 'a vmm_state_scheme \<Rightarrow> 'a vmm_state_scheme" where
  "fb_put_pixel x y colour s =
     (if FB_WIDTH \<le> x \<or> FB_HEIGHT \<le> y then s
      else s\<lparr>mem := (mem s)(FB_PHYS + ucast (y * FB_WIDTH + x) := colour)\<rparr>)"

definition fb_draw_rect :: "u32 \<Rightarrow> u32 \<Rightarrow> u32 \<Rightarrow> u32 \<Rightarrow> u8 \<Rightarrow> 'a vmm_state_scheme \<Rightarrow> 'a vmm_state_scheme" where
  "fb_draw_rect x y w h colour s =
     for_upd (nat (sint h)) 0 (\<lambda>dy t.
       for_upd (nat (sint w)) 0 (\<lambda>dx. fb_put_pixel (x + of_nat dx) (y + of_nat dy) colour) t) s"

section \<open>Pixels\<close>

text \<open>The address of a pixel on the screen, and the state seen as an image.\<close>

definition pixel_addr :: "nat \<Rightarrow> nat \<Rightarrow> u64" where
  "pixel_addr i j = FB_PHYS + of_nat (320 * j + i)"

lemma pixel_addr_inject:
  assumes "i < 320" "j < 200" "i' < 320" "j' < 200"
  shows "pixel_addr i j = pixel_addr i' j' \<longleftrightarrow> i = i' \<and> j = j'"
proof
  assume "pixel_addr i j = pixel_addr i' j'"
  then have "(of_nat (320 * j + i) :: u64) = of_nat (320 * j' + i')" by (simp add: pixel_addr_def del: of_nat_add of_nat_mult)
  then have "unat (of_nat (320 * j + i) :: u64) = unat (of_nat (320 * j' + i') :: u64)" by (simp only:)
  then have "320 * j + i = 320 * j' + i'" using assms by (simp add: unat_of_nat_small del: of_nat_add of_nat_mult)
  moreover have "(320 * j + i) div 320 = j" "(320 * j' + i') div 320 = j'" "(320 * j + i) mod 320 = i" "(320 * j' + i') mod 320 = i'"
    using assms by simp_all
  ultimately show "i = i' \<and> j = j'" by metis
qed simp

lemma put_pixel_mem:
  "mem (fb_put_pixel x y c s) =
     (if unat x < 320 \<and> unat y < 200 then (mem s)(pixel_addr (unat x) (unat y) := c) else mem s)"
proof (cases "unat x < 320 \<and> unat y < 200")
  case True
  then have "unat (y * FB_WIDTH + x) = 320 * unat y + unat x" by (simp add: unat_word_ariths)
  then have "ucast (y * FB_WIDTH + x) = (of_nat (320 * unat y + unat x) :: u64)"
    by (metis of_nat_unat)
  then show ?thesis using True by (simp add: fb_put_pixel_def pixel_addr_def word_le_nat_alt)
next
  case False
  then show ?thesis by (auto simp: fb_put_pixel_def word_le_nat_alt)
qed

text \<open>Painting a set of cells in one colour.\<close>

definition paint :: "u64 set \<Rightarrow> u8 \<Rightarrow> memory \<Rightarrow> memory" where
  "paint A c m = (\<lambda>a. if a \<in> A then c else m a)"

definition cells :: "u32 \<Rightarrow> u32 \<Rightarrow> u64 set" where
  "cells x y = (if unat x < 320 \<and> unat y < 200 then {pixel_addr (unat x) (unat y)} else {})"

lemma put_pixel_paint: "fb_put_pixel x y c s = s\<lparr>mem := paint (cells x y) c (mem s)\<rparr>"
proof -
  obtain m where m: "fb_put_pixel x y c s = s\<lparr>mem := m\<rparr>"
    by (cases "FB_WIDTH \<le> x \<or> FB_HEIGHT \<le> y") (auto simp: fb_put_pixel_def intro: that [of "mem s"])
  moreover have "m = paint (cells x y) c (mem s)"
    using put_pixel_mem [of x y c s] m by (auto simp: paint_def cells_def fun_eq_iff)
  ultimately show ?thesis by simp
qed

lemma paint_loop:
  assumes "\<And>k t. f k t = t\<lparr>mem := paint (A k) c (mem t)\<rparr>"
  shows "for_upd n 0 f (s :: 'a vmm_state_scheme) = s\<lparr>mem := paint (\<Union>k<n. A k) c (mem s)\<rparr>"
proof (induction n)
  case (Suc n)
  have "f n (for_upd n 0 f s) = s\<lparr>mem := paint (A n) c (paint (\<Union>k<n. A k) c (mem s))\<rparr>" by (simp add: assms Suc)
  moreover have "paint (A n) c (paint (\<Union>k<n. A k) c (mem s)) = paint (\<Union>k<Suc n. A k) c (mem s)"
    by (auto simp: paint_def fun_eq_iff less_Suc_eq)
  ultimately show ?case unfolding for_upd_Suc_last add_0 by (simp only:)
qed (simp add: paint_def)

lemma draw_rect_paint:
  "fb_draw_rect x y w h c s =
     s\<lparr>mem := paint (\<Union>dy<nat (sint h). \<Union>dx<nat (sint w). cells (x + of_nat dx) (y + of_nat dy)) c (mem s)\<rparr>"
  unfolding fb_draw_rect_def by (rule paint_loop, rule paint_loop, rule put_pixel_paint)

lemma wrapped_coordinate:
  fixes x :: u32
  assumes "i < 2 ^ 31" and "n \<le> 2 ^ 31"
  shows "(\<exists>k < n. unat (x + of_nat k) = i) \<longleftrightarrow> sint x \<le> int i \<and> int i < sint x + int n"
proof -
  note sx = sint_u32 [of x]
  have ux: "uint x < 2 ^ 32" "0 \<le> uint x" using unsigned_less [where ?'a = int, of x] by simp_all
  have u: "int (unat (x + of_nat k)) = (uint x + int k) mod 2 ^ 32" for k
  proof -
    have "unat (x + of_nat k) = (unat x + k) mod 2 ^ 32" by (simp add: unat_word_ariths unat_of_nat mod_simps)
    then show ?thesis by (simp add: of_nat_mod)
  qed
  have m: "(uint x + int k) mod 2 ^ 32 = (if uint x + int k < 2 ^ 32 then uint x + int k else uint x + int k - 2 ^ 32)" if "k < n" for k
    using that assms(2) ux by (auto simp: mod_pos_pos_trivial intro!: int_mod_pos_eq [where q = 1])
  show ?thesis
  proof
    assume "\<exists>k < n. unat (x + of_nat k) = i"
    then obtain k where k: "k < n" "int i = (uint x + int k) mod 2 ^ 32" using u by metis
    then have "int i = (if uint x + int k < 2 ^ 32 then uint x + int k else uint x + int k - 2 ^ 32)" "int k < int n"
      using m [OF k(1)] by simp_all
    then show "sint x \<le> int i \<and> int i < sint x + int n" using sx ux assms by (auto split: if_splits)
  next
    assume r: "sint x \<le> int i \<and> int i < sint x + int n"
    define k where "k = nat (int i - sint x)"
    have ki: "int k = int i - sint x" using r by (simp add: k_def)
    then have kn: "k < n" using r by simp
    have "(uint x + int k) mod 2 ^ 32 = int i" unfolding m [OF kn] using ki sx ux assms(1) by (auto split: if_splits)
    with kn show "\<exists>k < n. unat (x + of_nat k) = i" using u [of k] by (metis of_nat_eq_iff)
  qed
qed


section \<open>Properties\<close>

text \<open>\<open>fb_draw_rect\<close> fills exactly the part of the rectangle that lies on the screen, also when it starts
  left of or above it or ends beyond it, and writes no byte outside the 64000 of the screen.\<close>

theorem fb_draw_rect_clips:
  fixes s :: "'a vmm_state_scheme"
  shows "\<exists>m. fb_draw_rect x y w h c s = s\<lparr>mem := m\<rparr> \<and>
    (\<forall>i < 320. \<forall>j < 200. m (pixel_addr i j) =
       (if sint x \<le> int i \<and> int i < sint x + sint w \<and> sint y \<le> int j \<and> int j < sint y + sint h then c else mem s (pixel_addr i j))) \<and>
    (\<forall>a. (\<forall>i < 320. \<forall>j < 200. a \<noteq> pixel_addr i j) \<longrightarrow> m a = mem s a)"
proof -
  define A where "A = (\<Union>dy<nat (sint h). \<Union>dx<nat (sint w). cells (x + of_nat dx) (y + of_nat dy))"
  have b: "nat (sint v) \<le> 2 ^ 31" for v :: u32
  proof -
    have "sint v \<le> 2 ^ 31" using sint_u32 [of v] unsigned_less [where ?'a = int, of v] by (cases "uint v < 2 ^ 31") simp_all
    then show ?thesis by (simp only: nat_le_iff) simp
  qed
  have "pixel_addr i j \<in> A \<longleftrightarrow> sint x \<le> int i \<and> int i < sint x + sint w \<and> sint y \<le> int j \<and> int j < sint y + sint h"
    if ij: "i < 320" "j < 200" for i j
  proof -
    have "pixel_addr i j \<in> cells u v \<longleftrightarrow> unat u = i \<and> unat v = j" for u v
      using ij pixel_addr_inject [OF ij, of "unat u" "unat v"] by (auto simp: cells_def)
    then have "pixel_addr i j \<in> A \<longleftrightarrow> (\<exists>dx < nat (sint w). unat (x + of_nat dx) = i) \<and> (\<exists>dy < nat (sint h). unat (y + of_nat dy) = j)"
      by (auto simp: A_def)
    also have "\<dots> \<longleftrightarrow> (sint x \<le> int i \<and> int i < sint x + int (nat (sint w))) \<and> (sint y \<le> int j \<and> int j < sint y + int (nat (sint h)))"
      using wrapped_coordinate [OF _ b, of i w x] wrapped_coordinate [OF _ b, of j h y] ij by simp
    finally show ?thesis by auto
  qed
  moreover have "\<forall>a \<in> A. \<exists>i < 320. \<exists>j < 200. a = pixel_addr i j"
    by (fastforce simp: A_def cells_def split: if_splits)
  then have "a \<notin> A" if "\<forall>i < 320. \<forall>j < 200. a \<noteq> pixel_addr i j" for a using that by blast
  ultimately show ?thesis unfolding draw_rect_paint A_def [symmetric] by (intro exI [of _ "paint A c (mem s)"]) (simp add: paint_def)
qed

theorem fb_draw_rect_clips_witness:
  "mem (fb_draw_rect (-1) 0 3 1 9 kb_demo) (pixel_addr 1 0) = 9 \<and>
   mem (fb_draw_rect (-1) 0 3 1 9 kb_demo) (pixel_addr 2 0) = mem kb_demo (pixel_addr 2 0)"
proof -
  obtain m where m: "fb_draw_rect (-1) 0 3 1 9 kb_demo = kb_demo\<lparr>mem := m\<rparr>"
    "\<forall>i < 320. \<forall>j < 200. m (pixel_addr i j) = (if sint (-1::u32) \<le> int i \<and> int i < sint (-1::u32) + sint (3::u32) \<and>
       sint (0::u32) \<le> int j \<and> int j < sint (0::u32) + sint (1::u32) then 9 else mem kb_demo (pixel_addr i j))"
    using fb_draw_rect_clips [of "-1" 0 3 1 9 kb_demo] by blast
  have "sint (-1::u32) = -1" "sint (3::u32) = 3" "sint (0::u32) = 0" "sint (1::u32) = 1" by (simp, simp_all add: sint_u32)
  then have "m (pixel_addr 1 0) = 9" "m (pixel_addr 2 0) = mem kb_demo (pixel_addr 2 0)" using m(2) by simp_all
  then show ?thesis using m(1) by simp
qed

end
