(* ===== verification/User_Memory.thy ===== *)
theory User_Memory
  imports Framebuffer
begin

text \<open>
  Memory accesses of the kernel through a pointer it did not make itself. The kernel's own
  addresses (the identity-mapped first gigabyte and the heap) are used as they are; any other address
  goes through the page tables at CR3, as the processor resolves it, and an address without a
  mapping is a page fault.
\<close>

definition kernel_addr :: "u64 \<Rightarrow> bool" where
  "kernel_addr v \<longleftrightarrow> v < 0x40000000 \<or> HEAP_START \<le> v \<and> v < HEAP_START + 0x400000"

definition mmu :: "u64 \<Rightarrow> 'a vmm_state_scheme \<Rightarrow> u64 option" where
  "mmu v s =
     (if kernel_addr v then Some v
      else
        let e4 = load64 (mem s) (entry_addr (ENTRY_ADDR (cr3 s)) (PML4_INDEX v))
        in if e4 AND PTE_PRESENT = 0 then None else
           let e3 = load64 (mem s) (entry_addr (ENTRY_ADDR e4) (PDPT_INDEX v))
           in if e3 AND PTE_PRESENT = 0 then None
              else if e3 AND PTE_HUGE \<noteq> 0 then Some (ENTRY_ADDR e3 + (v AND 0x3FFFFFFF)) else
              let e2 = load64 (mem s) (entry_addr (ENTRY_ADDR e3) (PD_INDEX v))
              in if e2 AND PTE_PRESENT = 0 then None
                 else if e2 AND PTE_HUGE \<noteq> 0 then Some (ENTRY_ADDR e2 + (v AND 0x1FFFFF)) else
                 let e1 = load64 (mem s) (entry_addr (ENTRY_ADDR e2) (PT_INDEX v))
                 in if e1 AND PTE_PRESENT = 0 then None else Some (ENTRY_ADDR e1 + (v AND 0xFFF)))"

definition peek :: "u64 \<Rightarrow> 'a vmm_state_scheme \<Rightarrow> u8 option" where
  "peek v s = map_option (mem s) (mmu v s)"

definition poke :: "u64 \<Rightarrow> u8 \<Rightarrow> 'a vmm_state_scheme \<Rightarrow> ('a vmm_state_scheme, unit) outcome" where
  "poke v b s = (case mmu v s of None \<Rightarrow> Fault | Some p \<Rightarrow> Ret () (s\<lparr>mem := (mem s)(p := b)\<rparr>))"

lemma kernel_access [simp]:
  assumes "kernel_addr v"
  shows "peek v s = Some (mem s v)" "poke v b s = Ret () (s\<lparr>mem := (mem s)(v := b)\<rparr>)"
  using assms by (simp_all add: peek_def poke_def mmu_def)

lemma poke_mem: "poke v b s = Ret () t \<Longrightarrow> \<exists>m. t = s\<lparr>mem := m\<rparr>"
  by (auto simp: poke_def split: option.splits)

lemma mmu_cong: "mem t = mem s \<Longrightarrow> cr3 t = cr3 s \<Longrightarrow> mmu v t = mmu v s"
  by (simp add: mmu_def Let_def)

lemma peek_cong: "mem t = mem s \<Longrightarrow> cr3 t = cr3 s \<Longrightarrow> peek v t = peek v s"
  by (simp add: peek_def mmu_cong [of t s])

text \<open>
  Byte \<open>i\<close> of the buffer lies at the physical address \<open>pa i\<close>, and writing to the buffer does not change that: it overlaps
  neither the page tables that map it nor itself.
\<close>

definition buffer_at :: "u64 \<Rightarrow> nat \<Rightarrow> (nat \<Rightarrow> u64) \<Rightarrow> 'a vmm_state_scheme \<Rightarrow> bool" where
  "buffer_at buf n pa s \<longleftrightarrow> inj_on pa {..<n} \<and>
     (\<forall>m. (\<forall>a. a \<notin> pa ` {..<n} \<longrightarrow> m a = mem s a) \<longrightarrow> (\<forall>i < n. mmu (buf + of_nat i) (s\<lparr>mem := m\<rparr>) = Some (pa i)))"

lemma buffer_atD:
  assumes "buffer_at buf n pa s" and "\<forall>a. a \<notin> pa ` {..<n} \<longrightarrow> mem t a = mem s a" and "cr3 t = cr3 s" and "i < n"
  shows "mmu (buf + of_nat i) t = Some (pa i)"
  using assms mmu_cong [of t "s\<lparr>mem := mem t\<rparr>" "buf + of_nat i"] by (auto simp: buffer_at_def)

text \<open>The kernel's own addresses are such a buffer.\<close>

lemma buffer_kernel:
  assumes "\<And>i. i < n \<Longrightarrow> kernel_addr (buf + of_nat i)" and "n \<le> 2 ^ 64"
  shows "buffer_at buf n (\<lambda>i. buf + of_nat i) s"
  unfolding buffer_at_def
proof (intro conjI allI impI inj_onI)
  fix i j assume "i \<in> {..<n}" "j \<in> {..<n}" "buf + of_nat i = buf + of_nat j"
  then have "unat (of_nat i :: u64) = unat (of_nat j :: u64)" "i < n" "j < n" by simp_all
  then show "i = j" using assms(2) by (simp add: unat_of_nat_small)
qed (simp add: mmu_def assms(1))

end
