(* ===== verification/Ramdisk.thy ===== *)
theory Ramdisk
  imports User_Memory
begin

text \<open>
  The read-only archive of \<open>src/filesystem/ramdisk.c\<close>: files of a USTAR archive that lies in the
  kernel image, opened by path, read and positioned through a table of 64 descriptors. The
  bounds of the archive come from the linker. A C string is an address; the archive is kernel memory,
  while a path and a read buffer may belong to a user process.
\<close>

section \<open>State and operations\<close>

abbreviation MAX_FDS :: nat where "MAX_FDS \<equiv> 64"

record fd_entry =
  fd_data :: u64
  fd_size :: u64
  fd_pos :: u64
  in_use :: bool

record initrd_syms =
  tar_start :: u64
  tar_end :: u64

record rd_state = kb_state +
  fds :: "fd_entry list"

primrec octal_loop :: "nat \<Rightarrow> memory \<Rightarrow> u64 \<Rightarrow> u64 \<Rightarrow> u64" where
  "octal_loop 0 m a v = v"
| "octal_loop (Suc n) m a v =
     (if 0x30 \<le> m a \<and> m a \<le> 0x37 then octal_loop n m (a + 1) (v * 8 + ucast (m a - 0x30)) else v)"

definition octal :: "memory \<Rightarrow> u64 \<Rightarrow> nat \<Rightarrow> u64" where
  "octal m a n = octal_loop n m a 0"

partial_function (option) match_loop :: "u64 \<Rightarrow> u64 \<Rightarrow> 'a vmm_state_scheme \<Rightarrow> ('a vmm_state_scheme, bool) outcome option" where
  "match_loop arc want s =
     (case peek want s of
        None \<Rightarrow> Some Fault
      | Some w \<Rightarrow>
          if mem s arc \<noteq> 0 \<and> w \<noteq> 0 \<and> mem s arc = w then match_loop (arc + 1) (want + 1) s
          else Some (Ret (mem s arc = 0 \<and> w = 0) s))"

definition path_match :: "u64 \<Rightarrow> u64 \<Rightarrow> 'a vmm_state_scheme \<Rightarrow> ('a vmm_state_scheme, bool) outcome" where
  "path_match arc want s =
     (let arc' = (if mem s arc = 0x2E \<and> mem s (arc + 1) = 0x2F then arc + 2 else arc)
      in case peek want s of
           None \<Rightarrow> Fault
         | Some w \<Rightarrow> of_loop (match_loop arc' (if w = 0x2F then want + 1 else want) s))"

definition ramdisk_init :: "'a rd_state_scheme \<Rightarrow> 'a rd_state_scheme" where
  "ramdisk_init s = for_upd MAX_FDS 0 (\<lambda>i t. t\<lparr>fds := (fds t)[i := (fds t ! i)\<lparr>in_use := False\<rparr>]\<rparr>) s"

text \<open>The inner loop of \<open>ramdisk_open\<close>: the first free slot.\<close>

primrec take_slot :: "nat \<Rightarrow> nat \<Rightarrow> u64 \<Rightarrow> u64 \<Rightarrow> 'a rd_state_scheme \<Rightarrow> int \<times> 'a rd_state_scheme" where
  "take_slot 0 i p sz s = (-1, s)"
| "take_slot (Suc n) i p sz s =
     (if \<not> in_use (fds s ! i)
      then (int i + 3, s\<lparr>fds := (fds s)[i := \<lparr>fd_data = p + 512, fd_size = sz, fd_pos = 0, in_use = True\<rparr>]\<rparr>)
      else take_slot n (Suc i) p sz s)"

definition tar_size :: "memory \<Rightarrow> u64 \<Rightarrow> u64" where
  "tar_size m p = octal m (p + 124) 11"

definition tar_next :: "memory \<Rightarrow> u64 \<Rightarrow> u64" where
  "tar_next m p = p + (512 + ((tar_size m p + 511) AND NOT 511))"

partial_function (option) open_loop :: "initrd_syms \<Rightarrow> u64 \<Rightarrow> u64 \<Rightarrow> 'a rd_state_scheme \<Rightarrow> ('a rd_state_scheme, int) outcome option" where
  "open_loop disk path p s =
     (if p + 512 \<le> tar_end disk \<and> mem s p \<noteq> 0 then
        let sz = tar_size (mem s) p; typ = mem s (p + 156)
        in case (if typ = 0x30 \<or> typ = 0 then path_match p path s else Ret False s) of
             Ret found s1 \<Rightarrow>
               if found then Some (case take_slot MAX_FDS 0 p sz s1 of (fd, s2) \<Rightarrow> Ret fd s2)
               else open_loop disk path (tar_next (mem s1) p) s1
           | Halt s1 \<Rightarrow> Some (Halt s1)
           | Hang \<Rightarrow> Some Hang
           | Fault \<Rightarrow> Some Fault
      else Some (Ret (-1) s))"

definition ramdisk_open :: "initrd_syms \<Rightarrow> u64 \<Rightarrow> 'a rd_state_scheme \<Rightarrow> ('a rd_state_scheme, int) outcome" where
  "ramdisk_open disk path s = of_loop (open_loop disk path (tar_start disk) s)"

text \<open>The test at the start of every operation on a descriptor.\<close>

definition bad_fd :: "int \<Rightarrow> 'a rd_state_scheme \<Rightarrow> bool" where
  "bad_fd fd s \<longleftrightarrow> fd < 0 \<or> int MAX_FDS \<le> fd \<or> \<not> in_use (fds s ! nat fd)"

definition ramdisk_read :: "int \<Rightarrow> u64 \<Rightarrow> u64 \<Rightarrow> 'a rd_state_scheme \<Rightarrow> ('a rd_state_scheme, int) outcome" where
  "ramdisk_read fd0 buf len0 s =
     (let fd = fd0 - 3
      in if bad_fd fd s then Ret (-1) s
         else
           let f = fds s ! nat fd
           in if fd_size f \<le> fd_pos f then Ret 0 s
              else
                let len = (if fd_size f < fd_pos f + len0 then fd_size f - fd_pos f else len0);
                    src = fd_data f + fd_pos f
                in obind (for_loop (unat len) 0 (\<lambda>i t. poke (buf + of_nat i) (mem t (src + of_nat i)) t) s) (\<lambda>_ s1.
                     Ret (sint (ucast len :: u32)) (s1\<lparr>fds := (fds s1)[nat fd := f\<lparr>fd_pos := fd_pos f + len\<rparr>]\<rparr>)))"

definition ramdisk_seek :: "int \<Rightarrow> u64 \<Rightarrow> int \<Rightarrow> 'a rd_state_scheme \<Rightarrow> int \<times> 'a rd_state_scheme" where
  "ramdisk_seek fd0 off whence s =
     (let fd = fd0 - 3
      in if bad_fd fd s then (-1, s)
         else
           let f = fds s ! nat fd;
               target = (if whence = 0 then Some off
                         else if whence = 1 then Some (fd_pos f + off)
                         else if whence = 2 then Some (fd_size f + off)
                         else None)
           in case target of
                None \<Rightarrow> (-1, s)
              | Some np0 \<Rightarrow>
                  let np1 = (if sint np0 < 0 then 0 else np0);
                      np = (if fd_size f < np1 then fd_size f else np1)
                  in (sint (ucast np :: u32), s\<lparr>fds := (fds s)[nat fd := f\<lparr>fd_pos := np\<rparr>]\<rparr>))"

definition ramdisk_close :: "int \<Rightarrow> 'a rd_state_scheme \<Rightarrow> 'a rd_state_scheme" where
  "ramdisk_close fd0 s =
     (let fd = fd0 - 3
      in if 0 \<le> fd \<and> fd < int MAX_FDS then s\<lparr>fds := (fds s)[nat fd := (fds s ! nat fd)\<lparr>in_use := False\<rparr>]\<rparr> else s)"

definition ramdisk_size :: "int \<Rightarrow> 'a rd_state_scheme \<Rightarrow> int" where
  "ramdisk_size fd0 s =
     (let fd = fd0 - 3 in if bad_fd fd s then -1 else sint (fd_size (fds s ! nat fd)))"

section \<open>Paths and headers\<close>

text \<open>A string of the current address space, and the name in a header compared with a string.\<close>

definition ustr :: "'a vmm_state_scheme \<Rightarrow> u64 \<Rightarrow> u8 list \<Rightarrow> bool" where
  "ustr s a cs \<longleftrightarrow> 0 \<notin> set cs \<and> (\<forall>i < length cs. peek (a + of_nat i) s = Some (cs ! i)) \<and> peek (a + of_nat (length cs)) s = Some 0"

definition arc_is :: "memory \<Rightarrow> u64 \<Rightarrow> u8 list \<Rightarrow> bool" where
  "arc_is m a cs \<longleftrightarrow> (\<forall>i < length cs. m (a + of_nat i) = cs ! i) \<and> m (a + of_nat (length cs)) = 0"

lemma ustr_Nil: "ustr s a [] \<longleftrightarrow> peek a s = Some 0"
  by (simp add: ustr_def)

lemma ustr_Cons: "ustr s a (c # cs) \<longleftrightarrow> c \<noteq> 0 \<and> peek a s = Some c \<and> ustr s (a + 1) cs"
  by (auto simp: ustr_def add.assoc add.commute [of 1] less_Suc_eq_0_disj)

lemma arc_is_Nil: "arc_is m a [] \<longleftrightarrow> m a = 0"
  by (simp add: arc_is_def)

lemma arc_is_Cons: "arc_is m a (c # cs) \<longleftrightarrow> m a = c \<and> arc_is m (a + 1) cs"
  by (auto simp: arc_is_def add.assoc add.commute [of 1] less_Suc_eq_0_disj)

lemma match_loop_arc:
  "ustr s want cs \<Longrightarrow> match_loop arc want s = Some (Ret (arc_is (mem s) arc cs) s)"
proof (induction cs arbitrary: arc want)
  case Nil
  then show ?case by (subst match_loop.simps) (auto simp: ustr_Nil arc_is_Nil)
next
  case (Cons c cs)
  then show ?case by (subst match_loop.simps) (auto simp: ustr_Cons arc_is_Cons)
qed

definition strip_slash :: "u8 list \<Rightarrow> u8 list" where
  "strip_slash cs = (case cs of [] \<Rightarrow> [] | c # ds \<Rightarrow> if c = 0x2F then ds else cs)"

definition strip_dot :: "memory \<Rightarrow> u64 \<Rightarrow> u64" where
  "strip_dot m a = (if m a = 0x2E \<and> m (a + 1) = 0x2F then a + 2 else a)"

text \<open>The header at \<open>p\<close> is one of a regular file with this name.\<close>

definition file_named :: "memory \<Rightarrow> u8 list \<Rightarrow> u64 \<Rightarrow> bool" where
  "file_named m cs p \<longleftrightarrow> (m (p + 156) = 0x30 \<or> m (p + 156) = 0) \<and> arc_is m (strip_dot m p) (strip_slash cs)"

lemma path_match_arc:
  assumes "ustr s want cs"
  shows "path_match arc want s = Ret (arc_is (mem s) (strip_dot (mem s) arc) (strip_slash cs)) s"
proof (cases cs)
  case Nil
  then have "peek want s = Some 0" using assms by (simp add: ustr_Nil)
  then show ?thesis using match_loop_arc [OF assms] Nil by (simp add: path_match_def strip_dot_def strip_slash_def Let_def)
next
  case (Cons c ds)
  then have "peek want s = Some c" "ustr s (want + 1) ds" using assms by (simp_all add: ustr_Cons)
  then show ?thesis using match_loop_arc [OF assms] match_loop_arc [of s "want + 1" ds] Cons
    by (simp add: path_match_def strip_dot_def strip_slash_def Let_def)
qed

text \<open>The headers the archive has from \<open>p\<close> on.\<close>

primrec tar_list :: "memory \<Rightarrow> u64 \<Rightarrow> u64 \<Rightarrow> u64 list \<Rightarrow> bool" where
  "tar_list m e p [] \<longleftrightarrow> \<not> (p + 512 \<le> e \<and> m p \<noteq> 0)"
| "tar_list m e p (h # hs) \<longleftrightarrow> h = p \<and> p + 512 \<le> e \<and> m p \<noteq> 0 \<and> tar_list m e (tar_next m p) hs"

lemma open_loop_list:
  assumes path: "ustr s path cs"
  shows "tar_list (mem s) (tar_end disk) p hs \<Longrightarrow>
    open_loop disk path p s = Some (case List.find (file_named (mem s) cs) hs of
       None \<Rightarrow> Ret (-1) s
     | Some h \<Rightarrow> (case take_slot MAX_FDS 0 h (tar_size (mem s) h) s of (fd, s2) \<Rightarrow> Ret fd s2))"
proof (induction hs arbitrary: p)
  case Nil
  then show ?case by (subst open_loop.simps) auto
next
  case (Cons h hs)
  then have h: "h = p" "p + 512 \<le> tar_end disk \<and> mem s p \<noteq> 0" "tar_list (mem s) (tar_end disk) (tar_next (mem s) p) hs" by auto
  have m: "(if mem s (p + 156) = 0x30 \<or> mem s (p + 156) = 0 then path_match p path s else Ret False s) =
      Ret (file_named (mem s) cs p) s" by (simp add: path_match_arc [OF path] file_named_def)
  show ?case
    by (subst open_loop.simps) (use h Cons.IH [OF h(3)] in \<open>simp add: m Let_def\<close>)
qed

lemma octal_loop_bound: "unat v < 8 ^ k \<Longrightarrow> k + n \<le> 20 \<Longrightarrow> unat (octal_loop n m a v) < 8 ^ (k + n)"
proof (induction n arbitrary: a v k)
  case 0
  then show ?case by simp
next
  case (Suc n)
  show ?case
  proof (cases "0x30 \<le> m a \<and> m a \<le> 0x37")
    case True
    then have d: "unat (m a - 0x30) < 8" by (auto simp: word_le_nat_alt unat_sub)
    have "unat (ucast (m a - 0x30) :: u64) = unat (m a - 0x30)" by (simp add: unsigned_ucast_eq take_bit_eq_mod) (use d in simp)
    moreover have "(8 :: nat) ^ Suc k \<le> 8 ^ 20" using Suc.prems(2) by (intro power_increasing) simp_all
    moreover have "unat v * 8 + 7 < 8 ^ Suc k" using Suc.prems(1) by simp
    ultimately have "unat (v * 8 + ucast (m a - 0x30) :: u64) = unat v * 8 + unat (m a - 0x30)"
      using d by (simp add: unat_word_ariths)
    then have "unat (v * 8 + ucast (m a - 0x30) :: u64) < 8 ^ Suc k" using Suc.prems(1) d by simp
    from Suc.IH [OF this] show ?thesis using True Suc.prems(2) by simp
  next
    case False
    have "(8 :: nat) ^ k \<le> 8 ^ (k + Suc n)" by (intro power_increasing) simp_all
    then have "unat v < 8 ^ (k + Suc n)" using Suc.prems(1) by (rule order.strict_trans2 [rotated])
    moreover have "octal_loop (Suc n) m a v = v" using False by auto
    ultimately show ?thesis by (simp only:)
  qed
qed

lemma tar_size_bound: "unat (tar_size m p) < 2 ^ 33"
  using octal_loop_bound [of 0 0 11 m "p + 124"] by (simp add: tar_size_def octal_def)

lemma tar_next_after:
  assumes "unat p < 2 ^ 62"
  shows "unat p + 512 \<le> unat (tar_next m p)" "unat (tar_next m p) < 2 ^ 63"
proof -
  let ?z = "(tar_size m p + 511) AND NOT 511"
  have "unat (tar_size m p + 511) < 2 ^ 34" using tar_size_bound [of m p] by (simp add: unat_word_ariths)
  moreover have "?z \<le> tar_size m p + 511" by (rule word_and_le2)
  ultimately have z: "unat ?z < 2 ^ 34" by (simp add: word_le_nat_alt)
  have "unat (512 + ?z) = 512 + unat ?z" using z by (simp only: unat_word_ariths) simp
  then have "unat (tar_next m p) = unat p + (512 + unat ?z)"
    using z assms unfolding tar_next_def by (simp only: unat_word_ariths(1) [of p]) simp
  then show "unat p + 512 \<le> unat (tar_next m p)" "unat (tar_next m p) < 2 ^ 63" using z assms by simp_all
qed

text \<open>Every archive below the half of the address space has a finite list of headers.\<close>

lemma tar_list_exists:
  assumes "unat e < 2 ^ 62"
  shows "unat p < 2 ^ 63 \<Longrightarrow> \<exists>hs. tar_list m e p hs"
proof (induction "unat e - unat p" arbitrary: p rule: less_induct)
  case less
  show ?case
  proof (cases "p + 512 \<le> e \<and> m p \<noteq> 0")
    case False
    then have "tar_list m e p []" by simp
    then show ?thesis by blast
  next
    case True
    have "unat (p + 512) = unat p + 512" using less.prems by (simp add: unat_word_ariths)
    then have le: "unat p + 512 \<le> unat e" using True by (simp add: word_le_nat_alt)
    then have "unat p < 2 ^ 62" using assms by simp
    note n = tar_next_after [OF this, of m]
    have "unat e - unat (tar_next m p) < unat e - unat p" using n(1) le by linarith
    from less.hyps [OF this n(2)] obtain hs where "tar_list m e (tar_next m p) hs" by blast
    then have "tar_list m e p (p # hs)" using True by simp
    then show ?thesis by blast
  qed
qed

text \<open>The lowest free descriptor slot.\<close>

lemma take_slot_first:
  "take_slot n i p sz s =
     (case List.find (\<lambda>j. \<not> in_use (fds s ! j)) [i..<i + n] of
        None \<Rightarrow> (-1, s)
      | Some j \<Rightarrow> (int j + 3, s\<lparr>fds := (fds s)[j := \<lparr>fd_data = p + 512, fd_size = sz, fd_pos = 0, in_use = True\<rparr>]\<rparr>))"
proof (induction n arbitrary: i)
  case (Suc n)
  have "[i..<i + Suc n] = i # [Suc i..<Suc i + n]" by (simp add: upt_rec)
  then show ?case using Suc by simp
qed simp

section \<open>Reading and positioning\<close>

text \<open>Memory after \<open>n\<close> bytes from \<open>src\<close> have been copied to \<open>buf\<close>.\<close>

definition copied :: "memory \<Rightarrow> u64 \<Rightarrow> u64 \<Rightarrow> nat \<Rightarrow> memory" where
  "copied m buf src n = (\<lambda>a. if unat (a - buf) < n then m (src + (a - buf)) else m a)"

lemma copy_bytes_loop:
  assumes k: "\<And>i. i < n \<Longrightarrow> kernel_addr (buf + of_nat i)"
    and d: "\<And>i. i < n \<Longrightarrow> n \<le> unat (src + of_nat i - buf)" and n: "n \<le> 2 ^ 64"
  shows "for_loop n 0 (\<lambda>i t. poke (buf + of_nat i) (mem t (src + of_nat i)) t) s = Ret () (s\<lparr>mem := copied (mem s) buf src n\<rparr>)"
proof -
  let ?P = "\<lambda>j t. t = s\<lparr>mem := copied (mem s) buf src j\<rparr>"
  have z: "copied (mem s) buf src 0 = mem s" by (simp add: copied_def)
  have "\<exists>t. for_loop n 0 (\<lambda>i t. poke (buf + of_nat i) (mem t (src + of_nat i)) t) s = Ret () t \<and> ?P (0 + n) t"
  proof (rule for_loop_rule)
    show "?P 0 s" by (simp add: z)
  next
    fix j t assume j: "j < 0 + n" and t: "?P j t"
    have src: "mem t (src + of_nat j) = mem s (src + of_nat j)" using d [of j] j by (simp add: t copied_def)
    have "unat (of_nat j :: u64) = j" using j n by (simp add: unat_of_nat_small)
    then have "unat (a - buf) = j \<longleftrightarrow> a = buf + of_nat j" for a by (metis add_diff_cancel_left' diff_add_cancel add.commute of_nat_unat ucast_id)
    then have "(copied (mem s) buf src j)(buf + of_nat j := mem s (src + of_nat j)) = copied (mem s) buf src (Suc j)"
      by (auto simp: copied_def fun_eq_iff less_Suc_eq)
    then show "\<exists>t'. poke (buf + of_nat j) (mem t (src + of_nat j)) t = Ret () t' \<and> ?P (Suc j) t'"
      using k [of j] j by (simp add: src) (simp add: t)
  qed
  then show ?thesis by simp
qed

text \<open>The same for any buffer that is mapped, and of which the source is no part.\<close>

lemma copy_mapped_loop:
  assumes b: "buffer_at buf n pa s" and d: "\<And>i. i < n \<Longrightarrow> src + of_nat i \<notin> pa ` {..<n}"
  shows "\<exists>m. for_loop n 0 (\<lambda>i t. poke (buf + of_nat i) (mem t (src + of_nat i)) t) s = Ret () (s\<lparr>mem := m\<rparr>) \<and>
    (\<forall>i < n. m (pa i) = mem s (src + of_nat i)) \<and> (\<forall>a. a \<notin> pa ` {..<n} \<longrightarrow> m a = mem s a)"
proof -
  let ?P = "\<lambda>j t. \<exists>m. t = s\<lparr>mem := m\<rparr> \<and> (\<forall>i < j. m (pa i) = mem s (src + of_nat i)) \<and> (\<forall>a. a \<notin> pa ` {..<n} \<longrightarrow> m a = mem s a)"
  have "\<exists>t. for_loop n 0 (\<lambda>i t. poke (buf + of_nat i) (mem t (src + of_nat i)) t) s = Ret () t \<and> ?P (0 + n) t"
  proof (rule for_loop_rule)
    show "?P 0 s" by (rule exI [of _ "mem s"]) simp
  next
    fix j t assume j: "j < 0 + n" and "?P j t"
    then obtain m where m: "t = s\<lparr>mem := m\<rparr>" "\<forall>i < j. m (pa i) = mem s (src + of_nat i)" "\<forall>a. a \<notin> pa ` {..<n} \<longrightarrow> m a = mem s a" by blast
    have p: "mmu (buf + of_nat j) t = Some (pa j)" by (rule buffer_atD [OF b]) (use m j in simp_all)
    have "mem t (src + of_nat j) = mem s (src + of_nat j)" using d [of j] m(1,3) j by simp
    then have run: "poke (buf + of_nat j) (mem t (src + of_nat j)) t = Ret () (s\<lparr>mem := m(pa j := mem s (src + of_nat j))\<rparr>)" unfolding poke_def p by (simp add: m(1))
    have "inj_on pa {..<n}" using b by (simp add: buffer_at_def)
    then have "pa i \<noteq> pa j" if "i < j" for i using that j by (auto simp: inj_on_def)
    then have "?P (Suc j) (s\<lparr>mem := m(pa j := mem s (src + of_nat j))\<rparr>)" using m(2,3) j
      by (intro exI [of _ "m(pa j := mem s (src + of_nat j))"]) (auto simp: less_Suc_eq)
    with run show "\<exists>t'. poke (buf + of_nat j) (mem t (src + of_nat j)) t = Ret () t' \<and> ?P (Suc j) t'" by blast
  qed
  then show ?thesis unfolding add_0 by blast
qed

text \<open>No descriptor in use is positioned past the end of its file.\<close>

definition fds_ok :: "'a rd_state_scheme \<Rightarrow> bool" where
  "fds_ok s \<longleftrightarrow> length (fds s) = MAX_FDS \<and> (\<forall>f \<in> set (fds s). in_use f \<longrightarrow> fd_pos f \<le> fd_size f)"

lemma fds_ok_update:
  "fds_ok s \<Longrightarrow> (in_use f \<Longrightarrow> fd_pos f \<le> fd_size f) \<Longrightarrow> fds_ok (s\<lparr>fds := (fds s)[i := f]\<rparr>)"
  by (auto simp: fds_ok_def dest!: set_update_subset_insert [THEN subsetD])

lemma fds_ok_mem [simp]: "fds_ok (s\<lparr>mem := m\<rparr>) = fds_ok s"
  by (simp add: fds_ok_def)

lemma fd_entry_ok:
  assumes "fds_ok s" and "\<not> bad_fd (fd - 3) s"
  shows "nat (fd - 3) < length (fds s)" "in_use (fds s ! nat (fd - 3))" "fd_pos (fds s ! nat (fd - 3)) \<le> fd_size (fds s ! nat (fd - 3))"
  using assms by (auto simp: fds_ok_def bad_fd_def)

lemma ucast_of_nat_u32: "ucast (of_nat n :: u64) = (of_nat n :: u32)"
  by (rule word_unat_eq_iff [THEN iffD2]) (simp add: unsigned_ucast_eq unat_of_nat take_bit_eq_mod mod_mod_cancel)

lemma read_run:
  assumes ok: "fds_ok s" and fd: "\<not> bad_fd (fd - 3) s" and f: "f = fds s ! nat (fd - 3)"
    and n: "n = min (unat len) (unat (fd_size f) - unat (fd_pos f))" and w: "unat (fd_pos f) + unat len < 2 ^ 64"
    and l: "for_loop n 0 (\<lambda>i t. poke (buf + of_nat i) (mem t (fd_data f + fd_pos f + of_nat i)) t) s = Ret () (s\<lparr>mem := m\<rparr>)"
  shows "ramdisk_read fd buf len s = Ret (sint (of_nat n :: u32)) (s\<lparr>mem := m, fds := (fds s)[nat (fd - 3) := f\<lparr>fd_pos := fd_pos f + of_nat n\<rparr>]\<rparr>)"
proof (cases "fd_size f \<le> fd_pos f")
  case True
  then have "n = 0" by (simp add: n word_le_nat_alt)
  moreover have "ramdisk_read fd buf len s = Ret 0 s" unfolding ramdisk_read_def Let_def f [symmetric] using True fd by simp
  moreover have "(fds s)[nat (fd - 3) := f] = fds s" by (simp add: f)
  moreover have "s = s\<lparr>mem := m\<rparr>" using l \<open>n = 0\<close> by simp
  ultimately show ?thesis by simp
next
  case False
  let ?len = "if fd_size f < fd_pos f + len then fd_size f - fd_pos f else len"
  have "unat (fd_pos f + len) = unat (fd_pos f) + unat len" using w by (simp add: unat_word_ariths)
  moreover have "unat (fd_size f - fd_pos f) = unat (fd_size f) - unat (fd_pos f)" using False by (intro unat_sub) simp
  ultimately have ul: "unat ?len = n" by (auto simp: n word_less_nat_alt)
  have lw: "?len = of_nat n" unfolding ul [symmetric] of_nat_unat ucast_id ..
  have "unat (of_nat n :: u64) = n" using ul lw by metis
  with l show ?thesis using False fd unfolding ramdisk_read_def Let_def f [symmetric] lw by (simp add: ucast_of_nat_u32)
qed

lemma read_effect:
  assumes "fds_ok s" "\<not> bad_fd (fd - 3) s" "f = fds s ! nat (fd - 3)" and n: "n = min (unat len) (unat (fd_size f) - unat (fd_pos f))"
    and "unat (fd_pos f) + unat len < 2 ^ 64" and k: "\<And>i. i < n \<Longrightarrow> kernel_addr (buf + of_nat i)"
    and d: "\<And>i. i < n \<Longrightarrow> n \<le> unat (fd_data f + fd_pos f + of_nat i - buf)"
  shows "ramdisk_read fd buf len s = Ret (sint (of_nat n :: u32))
    (s\<lparr>mem := copied (mem s) buf (fd_data f + fd_pos f) n, fds := (fds s)[nat (fd - 3) := f\<lparr>fd_pos := fd_pos f + of_nat n\<rparr>]\<rparr>)"
proof (rule read_run [OF assms(1-5) copy_bytes_loop])
  show "n \<le> 2 ^ 64" using unat_less_u64 [of len] by (simp add: n)
qed (use k d in blast)+

lemma seek_effect:
  assumes fd: "\<not> bad_fd (fd - 3) s" and f: "f = fds s ! nat (fd - 3)" and sz: "unat (fd_size f) < 2 ^ 63"
    and wh: "whence = 0 \<and> b = 0 \<or> whence = 1 \<and> b = fd_pos f \<or> whence = 2 \<and> b = fd_size f"
    and pos: "fd_pos f \<le> fd_size f" and r: "- (2 ^ 63) \<le> int (unat b) + sint off" "int (unat b) + sint off < 2 ^ 63"
    and t: "t = min (int (unat (fd_size f))) (max 0 (int (unat b) + sint off))"
  shows "ramdisk_seek fd off whence s = (sint (of_int t :: u32), s\<lparr>fds := (fds s)[nat (fd - 3) := f\<lparr>fd_pos := of_int t\<rparr>]\<rparr>)"
proof -
  have "unat b < 2 ^ 63" using wh sz pos by (auto simp: word_le_nat_alt)
  then have "uint b < 2 ^ 63" by (simp flip: nat_uint_eq add: nat_less_iff)
  then have sb: "sint b = int (unat b)" by (simp add: sint_u64)
  have st: "sint (b + off) = int (unat b) + sint off"
    using r sb by (simp add: signed_take_bit_int_eq_self_iff sint_word_ariths(1))
  define np1 where "np1 = (if sint (b + off) < 0 then 0 else b + off)"
  have n1: "int (unat np1) = max 0 (int (unat b) + sint off)"
    using sint_u64 [of "b + off"] unsigned_less [where ?'a = int, of "b + off"] unfolding np1_def st by (auto split: if_splits)
  have np: "(if fd_size f < np1 then fd_size f else np1) = of_int t"
  proof (cases "fd_size f < np1")
    case True
    then have "int (unat (fd_size f)) < int (unat np1)" by (simp only: word_less_nat_alt of_nat_less_iff)
    then have "t = int (unat (fd_size f))" unfolding t n1 [symmetric] by simp
    then show ?thesis using True by simp
  next
    case False
    then have "int (unat np1) \<le> int (unat (fd_size f))" by (simp only: not_less word_le_nat_alt of_nat_le_iff)
    then have "t = int (unat np1)" unfolding t n1 [symmetric] by simp
    then show ?thesis using False by simp
  qed
  have "(if whence = 0 then Some off else if whence = 1 then Some (fd_pos f + off)
      else if whence = 2 then Some (fd_size f + off) else None) = Some (b + off)" using wh by auto
  then have "ramdisk_seek fd off whence s =
      (sint (ucast (if fd_size f < np1 then fd_size f else np1) :: u32), s\<lparr>fds := (fds s)[nat (fd - 3) := f\<lparr>fd_pos := if fd_size f < np1 then fd_size f else np1\<rparr>]\<rparr>)"
    using fd unfolding ramdisk_seek_def Let_def f [symmetric] np1_def by simp
  moreover have "ucast (of_int t :: u64) = (of_int t :: u32)"
  proof -
    have "t = int (nat t)" using t by simp
    then show ?thesis using ucast_of_nat_u32 [of "nat t"] by (metis of_int_of_nat_eq)
  qed
  ultimately show ?thesis by (simp only: np)
qed

section \<open>Properties\<close>

text \<open>C22. \<open>ramdisk_open\<close> returns for every archive that ends below \<open>2 ^ 62\<close> and every path that is a string
  of the address space, whatever the archive's bytes are. With the list of the headers it visits, the result is -1 with
  nothing changed when none of them is of a regular file with that name or when no descriptor is free; otherwise
  it is three more than the lowest free slot, which then describes the data and the size of the
  first such file, at position zero.\<close>

theorem ramdisk_open_finds:
  fixes s :: "'a rd_state_scheme"
  assumes "unat (tar_end disk) < 2 ^ 62" and "unat (tar_start disk) < 2 ^ 63" and "ustr s path cs"
  shows "\<exists>hs. tar_list (mem s) (tar_end disk) (tar_start disk) hs \<and>
    ramdisk_open disk path s =
      (case List.find (file_named (mem s) cs) hs of
         None \<Rightarrow> Ret (-1) s
       | Some h \<Rightarrow> (case List.find (\<lambda>j. \<not> in_use (fds s ! j)) [0..<MAX_FDS] of
           None \<Rightarrow> Ret (-1) s
         | Some j \<Rightarrow> Ret (int j + 3) (s\<lparr>fds := (fds s)[j := \<lparr>fd_data = h + 512, fd_size = tar_size (mem s) h, fd_pos = 0, in_use = True\<rparr>]\<rparr>)))"
proof -
  obtain hs where hs: "tar_list (mem s) (tar_end disk) (tar_start disk) hs" using tar_list_exists [OF assms(1,2)] by blast
  with open_loop_list [OF assms(3) hs] show ?thesis
    by (intro exI [of _ hs]) (auto simp: ramdisk_open_def take_slot_first split: option.split)
qed

text \<open>An archive with one file named h that holds five bytes, and the path /h.\<close>

definition tar_demo :: memory where
  "tar_demo = (\<lambda>_. 0)(0x200000 := 0x68, 0x20007C := 0x35, 0x200200 := 0x68, 0x200201 := 0x65, 0x200202 := 0x6C,
     0x200203 := 0x6C, 0x200204 := 0x6F, 0x300000 := 0x2F, 0x300001 := 0x68)"

definition disk_demo :: initrd_syms where
  "disk_demo = \<lparr>tar_start = 0x200000, tar_end = 0x200600\<rparr>"

definition rd_demo :: rd_state where
  "rd_demo = kb_state.extend (kb_demo\<lparr>mem := tar_demo\<rparr>)
     \<lparr>fds = replicate 64 \<lparr>fd_data = 0, fd_size = 0, fd_pos = 0, in_use = False\<rparr>\<rparr>"

lemma rd_demo_simps:
  "mem rd_demo = tar_demo" "fds rd_demo = replicate 64 \<lparr>fd_data = 0, fd_size = 0, fd_pos = 0, in_use = False\<rparr>"
  by (simp_all add: rd_demo_def kb_state.defs)

lemma octal_loop_numeral [simp]:
  "octal_loop (numeral k) m a v =
     (if 0x30 \<le> m a \<and> m a \<le> 0x37 then octal_loop (pred_numeral k) m (a + 1) (v * 8 + ucast (m a - 0x30)) else v)"
  by (simp add: numeral_eq_Suc)

lemma tar_demo_list: "tar_list tar_demo (tar_end disk_demo) (tar_start disk_demo) hs \<longleftrightarrow> hs = [0x200000]"
proof -
  have n: "tar_next tar_demo 0x200000 = 0x200400"
    by (simp add: tar_next_def tar_size_def octal_def tar_demo_def)
  have h: "tar_demo 0x200000 \<noteq> 0" by (simp add: tar_demo_def)
  have z: "tar_list tar_demo 0x200600 0x200400 xs \<longleftrightarrow> xs = []" for xs by (cases xs) (simp_all add: tar_demo_def)
  have "tar_list tar_demo 0x200600 0x200000 hs \<longleftrightarrow> hs = [0x200000]"
    using h by (cases hs) (auto simp: n z)
  then show ?thesis by (simp add: disk_demo_def)
qed

lemma tar_demo_size: "tar_size tar_demo 0x200000 = 5"
  by (simp add: tar_size_def octal_def tar_demo_def)

lemma tar_demo_path: "ustr rd_demo 0x300000 [0x2F, 0x68]" "file_named tar_demo [0x2F, 0x68] 0x200000"
  by (simp_all add: ustr_Cons ustr_Nil kernel_addr_def rd_demo_simps file_named_def strip_dot_def strip_slash_def arc_is_Cons arc_is_Nil
      tar_demo_def)

theorem ramdisk_open_finds_witness:
  "\<exists>s'. ramdisk_open disk_demo 0x300000 rd_demo = Ret 3 s' \<and>
    fds s' ! 0 = \<lparr>fd_data = 0x200200, fd_size = 5, fd_pos = 0, in_use = True\<rparr>"
proof -
  have "unat (tar_end disk_demo) < 2 ^ 62" "unat (tar_start disk_demo) < 2 ^ 63" by (simp_all add: disk_demo_def)
  from ramdisk_open_finds [OF this tar_demo_path(1)] show ?thesis
    by (auto simp: tar_demo_list rd_demo_simps tar_demo_path(2) tar_demo_size upt_conv_Cons)
qed

text \<open>C23. Reading from an open file into a mapped buffer, of the kernel or of the current address space, that holds neither the page tables of its own
  translation nor the file's data returns the smaller of the requested length and what is left of the file, when this fits an \<open>int\<close> and
  position plus length does not overflow. Exactly that many bytes of the file, from the position on, are in the buffer; no
  other byte of memory changes, and the position advances by their number and stays within the file.\<close>

theorem ramdisk_read_copies:
  fixes s :: "'a rd_state_scheme"
  assumes "fds_ok s" and "\<not> bad_fd (fd - 3) s" and "f = fds s ! nat (fd - 3)"
    and "n = min (unat len) (unat (fd_size f) - unat (fd_pos f))" and "n < 2 ^ 31" and "unat (fd_pos f) + unat len < 2 ^ 64"
    and "buffer_at buf n pa s" and "\<And>i. i < n \<Longrightarrow> fd_data f + fd_pos f + of_nat i \<notin> pa ` {..<n}"
  shows "\<exists>s'. ramdisk_read fd buf len s = Ret (int n) s' \<and> fds_ok s' \<and>
    (\<forall>i < n. peek (buf + of_nat i) s' = Some (mem s (fd_data f + fd_pos f + of_nat i))) \<and>
    (\<forall>a. a \<notin> pa ` {..<n} \<longrightarrow> mem s' a = mem s a) \<and>
    fds s' = (fds s)[nat (fd - 3) := f\<lparr>fd_pos := fd_pos f + of_nat n\<rparr>]"
proof -
  obtain m where m: "for_loop n 0 (\<lambda>i t. poke (buf + of_nat i) (mem t (fd_data f + fd_pos f + of_nat i)) t) s = Ret () (s\<lparr>mem := m\<rparr>)"
    "\<forall>i < n. m (pa i) = mem s (fd_data f + fd_pos f + of_nat i)" "\<forall>a. a \<notin> pa ` {..<n} \<longrightarrow> m a = mem s a"
    using copy_mapped_loop [OF assms(7,8)] by blast
  let ?s = "s\<lparr>mem := m, fds := (fds s)[nat (fd - 3) := f\<lparr>fd_pos := fd_pos f + of_nat n\<rparr>]\<rparr>"
  have run: "ramdisk_read fd buf len s = Ret (sint (of_nat n :: u32)) ?s" by (rule read_run [OF assms(1-4,6) m(1)])
  have "sint (of_nat n :: u32) = int n" using assms(5) by (simp add: sint_u32 uint_nat unat_of_nat_small)
  moreover have p: "unat (fd_pos f) \<le> unat (fd_size f)" using fd_entry_ok(3) [OF assms(1,2)] assms(3) by (simp add: word_le_nat_alt)
  have "unat (of_nat n :: u64) = n" using assms(5) by (simp add: unat_of_nat_small)
  then have "unat (fd_pos f + of_nat n) = unat (fd_pos f) + n" "unat (fd_pos f) + n \<le> unat (fd_size f)"
    using p assms(4,6) by (auto simp: unat_word_ariths)
  then have "fd_pos f + of_nat n \<le> fd_size f" by (simp add: word_le_nat_alt)
  then have "fds_ok ?s" using fds_ok_update [of s "f\<lparr>fd_pos := fd_pos f + of_nat n\<rparr>" "nat (fd - 3)"] assms(1) by (simp add: fds_ok_def)
  moreover have "peek (buf + of_nat i) ?s = Some (mem s (fd_data f + fd_pos f + of_nat i))" if "i < n" for i
    using buffer_atD [OF assms(7), of ?s i] m(2,3) that by (simp add: peek_def)
  ultimately show ?thesis using run m(3) by (intro exI [of _ ?s]) simp
qed

text \<open>A process that has opened the file of the example and has one page, at \<open>0x8000000000\<close>, in the frame \<open>0x405000\<close>.\<close>

definition user_demo :: memory where
  "user_demo = tar_demo(0x401008 := 0x03, 0x401009 := 0x20, 0x40100A := 0x40, 0x402000 := 0x03, 0x402001 := 0x30, 0x402002 := 0x40,
     0x403000 := 0x03, 0x403001 := 0x40, 0x403002 := 0x40, 0x404000 := 0x03, 0x404001 := 0x50, 0x404002 := 0x40)"

definition rd_user :: rd_state where
  "rd_user = rd_demo\<lparr>mem := user_demo, cr3 := 0x401000, fds := (fds rd_demo)[0 := \<lparr>fd_data = 0x200200, fd_size = 5, fd_pos = 0, in_use = True\<rparr>]\<rparr>"

lemma lt_five: "i < 5 \<Longrightarrow> i = 0 \<or> i = 1 \<or> i = 2 \<or> i = 3 \<or> i = (4::nat)"
  by auto

lemma user_demo_buffer: "buffer_at 0x8000000000 5 (\<lambda>i. 0x405000 + of_nat i) rd_user"
proof -
  have "inj_on (\<lambda>i. 0x405000 + of_nat i :: u64) {..<5}" by (auto simp: inj_on_def dest!: lt_five)
  moreover have "mmu (0x8000000000 + of_nat i) (rd_user\<lparr>mem := m\<rparr>) = Some (0x405000 + of_nat i)"
    if o: "\<forall>a. a \<notin> (\<lambda>i. 0x405000 + of_nat i) ` {..<5} \<longrightarrow> m a = mem rd_user a" and i: "i < 5" for m i
  proof -
    have m: "m a = user_demo a" if "a < 0x405000" for a
    proof -
      have "a \<notin> (\<lambda>i. 0x405000 + of_nat i) ` {..<5}" using that by (auto dest!: lt_five)
      then show ?thesis using o by (simp add: rd_user_def)
    qed
    have l: "load64 m 0x401008 = 0x402003" "load64 m 0x402000 = 0x403003" "load64 m 0x403000 = 0x404003" "load64 m 0x404000 = 0x405003"
      by (simp_all add: load64_def m user_demo_def tar_demo_def push_bit_eq_mult)
    show ?thesis using lt_five [OF i]
      by (elim disjE) (simp_all add: mmu_def kernel_addr_def HEAP_START_def rd_user_def PML4_INDEX_def PDPT_INDEX_def PD_INDEX_def PT_INDEX_def
        entry_addr_def ENTRY_ADDR_def drop_bit_eq_div l)
  qed
  ultimately show ?thesis by (auto simp: buffer_at_def)
qed

theorem ramdisk_read_copies_witness:
  "\<exists>t. ramdisk_read 3 0x8000000000 100 rd_user = Ret 5 t \<and> peek 0x8000000001 t = Some 0x65 \<and> fd_pos (fds t ! 0) = 5"
proof -
  let ?f = "\<lparr>fd_data = 0x200200, fd_size = 5, fd_pos = 0, in_use = True\<rparr>"
  have f: "fds_ok rd_user" "\<not> bad_fd (3 - 3) rd_user" "?f = fds rd_user ! nat (3 - 3)" "length (fds rd_user) = 64"
    by (auto simp: rd_user_def fds_ok_def bad_fd_def rd_demo_simps dest!: set_update_subset_insert [THEN subsetD])
  have "\<exists>s'. ramdisk_read 3 0x8000000000 100 rd_user = Ret (int 5) s' \<and> fds_ok s' \<and>
    (\<forall>i < 5. peek (0x8000000000 + of_nat i) s' = Some (mem rd_user (fd_data ?f + fd_pos ?f + of_nat i))) \<and>
    (\<forall>a. a \<notin> (\<lambda>i. 0x405000 + of_nat i) ` {..<5} \<longrightarrow> mem s' a = mem rd_user a) \<and>
    fds s' = (fds rd_user)[nat (3 - 3) := ?f\<lparr>fd_pos := fd_pos ?f + of_nat 5\<rparr>]"
  proof (rule ramdisk_read_copies [OF f(1-3) _ _ _ user_demo_buffer])
    show "fd_data ?f + fd_pos ?f + of_nat i \<notin> (\<lambda>i. 0x405000 + of_nat i) ` {..<5}" if "i < 5" for i
      using lt_five [OF that] by (auto dest!: lt_five)
  qed simp_all
  then obtain t where t: "ramdisk_read 3 0x8000000000 100 rd_user = Ret 5 t"
    "\<forall>i < 5. peek (0x8000000000 + of_nat i) t = Some (mem rd_user (0x200200 + of_nat i))" "fds t = (fds rd_user)[0 := ?f\<lparr>fd_pos := 5\<rparr>]" by auto
  have "peek 0x8000000001 t = Some 0x65" using t(2) [rule_format, of 1] by (simp add: rd_user_def user_demo_def tar_demo_def)
  then show ?thesis using t(1,3) f(4) by simp
qed

text \<open>Positioning in an open file of less than \<open>2 ^ 63\<close> bytes never leaves the file: the new position is the
  requested one, counted from the start, the current position or the end, cut to the range from
  zero to the size, when the sum is representable; it is also the result, cut to an \<open>int\<close>. The
  invariant of the descriptor table is kept.\<close>

theorem ramdisk_seek_clamps:
  fixes s :: "'a rd_state_scheme"
  assumes "fds_ok s" and "\<not> bad_fd (fd - 3) s" and "f = fds s ! nat (fd - 3)" and "unat (fd_size f) < 2 ^ 63"
    and "whence = 0 \<and> b = 0 \<or> whence = 1 \<and> b = fd_pos f \<or> whence = 2 \<and> b = fd_size f"
    and "- (2 ^ 63) \<le> int (unat b) + sint off" and "int (unat b) + sint off < 2 ^ 63"
  shows "\<exists>p s'. ramdisk_seek fd off whence s = (sint (ucast p :: u32), s') \<and>
    int (unat p) = min (int (unat (fd_size f))) (max 0 (int (unat b) + sint off)) \<and>
    s' = s\<lparr>fds := (fds s)[nat (fd - 3) := f\<lparr>fd_pos := p\<rparr>]\<rparr> \<and> fds_ok s'"
proof -
  have pos: "fd_pos f \<le> fd_size f" using fd_entry_ok(3) [OF assms(1,2)] assms(3) by simp
  define t where "t = min (int (unat (fd_size f))) (max 0 (int (unat b) + sint off))"
  have t: "0 \<le> t" "t \<le> int (unat (fd_size f))" "t < 2 ^ 63" using assms(4,7) by (auto simp: t_def)
  define p :: u64 where "p = of_int t"
  have "p = of_nat (nat t)" using t(1) by (simp add: p_def)
  then have p: "unat p = nat t" "ucast p = (of_int t :: u32)"
    using t(1) ucast_of_nat_u32 [of "nat t"] unat_of_nat_small [of "nat t", where ?'a = 64] t(3) by (simp_all add: nat_less_iff)
  have "p \<le> fd_size f" using t p(1) by (simp add: word_le_nat_alt nat_le_iff)
  then have "fds_ok (s\<lparr>fds := (fds s)[nat (fd - 3) := f\<lparr>fd_pos := p\<rparr>]\<rparr>)" by (intro fds_ok_update [OF assms(1)]) simp
  moreover have "ramdisk_seek fd off whence s = (sint (ucast p :: u32), s\<lparr>fds := (fds s)[nat (fd - 3) := f\<lparr>fd_pos := p\<rparr>]\<rparr>)"
    using seek_effect [OF assms(2-5) pos assms(6,7) t_def] by (simp only: p(2)) (simp only: p_def)
  moreover have "int (unat p) = t" using p(1) t(1) by (simp only: nat_0_le)
  ultimately show ?thesis unfolding t_def by blast
qed

theorem ramdisk_seek_clamps_witness:
  "\<exists>s'. ramdisk_seek 3 100 0 (rd_demo\<lparr>fds := replicate 64 \<lparr>fd_data = 0x200200, fd_size = 5, fd_pos = 0, in_use = True\<rparr>\<rparr>) = (5, s')"
proof -
  let ?s = "rd_demo\<lparr>fds := replicate 64 \<lparr>fd_data = 0x200200, fd_size = 5, fd_pos = 0, in_use = True\<rparr>\<rparr>"
  have f: "fds_ok ?s" "\<not> bad_fd (3 - 3) ?s" "\<lparr>fd_data = 0x200200, fd_size = 5, fd_pos = 0, in_use = True\<rparr> = fds ?s ! nat (3 - 3)"
    by (simp_all add: fds_ok_def bad_fd_def)
  let ?f = "\<lparr>fd_data = 0x200200, fd_size = 5, fd_pos = 0, in_use = True\<rparr>"
  have "unat (fd_size ?f) < 2 ^ 63" "(0::int) = 0 \<and> (0::u64) = 0 \<or> (0::int) = 1 \<and> (0::u64) = fd_pos ?f \<or> (0::int) = 2 \<and> 0 = fd_size ?f"
    "- (2 ^ 63) \<le> int (unat (0::u64)) + sint (100 :: u64)" "int (unat (0::u64)) + sint (100 :: u64) < 2 ^ 63" by (simp_all add: sint_u64)
  from ramdisk_seek_clamps [OF f this] obtain p :: u64 and s' where r: "ramdisk_seek 3 100 0 ?s = (sint (ucast p :: u32), s')"
    "int (unat p) = min (int (unat (fd_size ?f))) (max 0 (int (unat (0::u64)) + sint (100 :: u64)))" by blast
  from r(2) have "uint p = 5" by (simp add: sint_u64)
  with r(1) have "ramdisk_seek 3 100 0 ?s = (sint (ucast p :: u32), s')" "uint p = 5" by blast+
  moreover from this(2) have "p = 5" by (simp add: word_uint_eq_iff)
  moreover have "sint (ucast (5 :: u64) :: u32) = 5" by (simp add: sint_u32)
  ultimately show ?thesis by auto
qed

end
