(* ===== verification/Elf.thy ===== *)
theory Elf
  imports Ramdisk
begin

text \<open>
  The program loader of \<open>src/filesystem/elf.c\<close>. The two local variables that hold the file header and a
  program header lie on the kernel stack, at the addresses \<open>ehdr\<close> and \<open>phdr\<close>; their fields are read from
  memory where the code reads them. The loader copies a segment through the new process's page tables,
  so a segment address without a mapping is a page fault.
\<close>

section \<open>Headers\<close>

definition load16 :: "memory \<Rightarrow> u64 \<Rightarrow> u16" where
  "load16 m a = ucast (m a) OR push_bit 8 (ucast (m (a + 1)))"

abbreviation EM_X86_64 :: u16 where "EM_X86_64 \<equiv> 0x3E"
abbreviation PT_LOAD :: u32 where "PT_LOAD \<equiv> 1"

text \<open>The packed \<open>Elf64_Ehdr\<close> (64 bytes) and \<open>Elf64_Phdr\<close> (56 bytes).\<close>

definition e_ident :: "memory \<Rightarrow> u64 \<Rightarrow> nat \<Rightarrow> u8" where "e_ident m eh i = m (eh + of_nat i)"
definition e_machine :: "memory \<Rightarrow> u64 \<Rightarrow> u16" where "e_machine m eh = load16 m (eh + 18)"
definition e_entry :: "memory \<Rightarrow> u64 \<Rightarrow> u64" where "e_entry m eh = load64 m (eh + 24)"
definition e_phoff :: "memory \<Rightarrow> u64 \<Rightarrow> u64" where "e_phoff m eh = load64 m (eh + 32)"
definition e_phnum :: "memory \<Rightarrow> u64 \<Rightarrow> u16" where "e_phnum m eh = load16 m (eh + 56)"

definition p_type :: "memory \<Rightarrow> u64 \<Rightarrow> u32" where "p_type m ph = load32 m ph"
definition p_offset :: "memory \<Rightarrow> u64 \<Rightarrow> u64" where "p_offset m ph = load64 m (ph + 8)"
definition p_vaddr :: "memory \<Rightarrow> u64 \<Rightarrow> u64" where "p_vaddr m ph = load64 m (ph + 16)"
definition p_filesz :: "memory \<Rightarrow> u64 \<Rightarrow> u64" where "p_filesz m ph = load64 m (ph + 32)"
definition p_memsz :: "memory \<Rightarrow> u64 \<Rightarrow> u64" where "p_memsz m ph = load64 m (ph + 40)"

definition bad_header :: "memory \<Rightarrow> u64 \<Rightarrow> bool" where
  "bad_header m eh \<longleftrightarrow> e_ident m eh 0 \<noteq> 0x7F \<or> e_ident m eh 1 \<noteq> 0x45 \<or>
     e_ident m eh 2 \<noteq> 0x4C \<or> e_ident m eh 3 \<noteq> 0x46 \<or>
     e_ident m eh 4 \<noteq> 2 \<or> e_machine m eh \<noteq> EM_X86_64"

section \<open>Loading\<close>

text \<open>The page loop of one segment; \<open>False\<close> when a frame cannot be allocated.\<close>

partial_function (option) map_segment :: "u64 \<Rightarrow> u64 \<Rightarrow> u64 \<Rightarrow> 'a vmm_state_scheme \<Rightarrow> ('a vmm_state_scheme, bool) outcome option" where
  "map_segment pt v vend s =
     (if v < vend then
        (case pmm_alloc s of (frame, s1) \<Rightarrow>
           if frame = NULL then Some (Ret False s1)
           else case vmm_map_in pt v frame (PTE_PRESENT OR PTE_USER OR PTE_WRITABLE) s1 of
                  Ret _ s2 \<Rightarrow> map_segment pt (v + PAGE_SIZE) vend s2
                | Halt s2 \<Rightarrow> Some (Halt s2)
                | Hang \<Rightarrow> Some Hang
                | Fault \<Rightarrow> Some Fault)
      else Some (Ret True s))"

text \<open>The loop body over the program headers: \<open>None\<close> is the early return, \<open>Some\<close> the end of the highest segment so far.\<close>

definition load_segment :: "u64 \<Rightarrow> u64 \<Rightarrow> u64 \<Rightarrow> int \<Rightarrow> u64 \<Rightarrow> nat \<Rightarrow> u64 \<Rightarrow> 'a rd_state_scheme \<Rightarrow>
    ('a rd_state_scheme, u64 option) outcome" where
  "load_segment ehdr phdr pt fd saved_cr3 i last_vend s =
     (case ramdisk_seek fd (e_phoff (mem s) ehdr + of_nat i * 56) 0 s of (_, s1) \<Rightarrow>
      obind (ramdisk_read fd phdr 56 s1) (\<lambda>_ s2.
        let m = mem s2
        in if p_type m phdr \<noteq> PT_LOAD \<or> p_memsz m phdr = 0 then Ret (Some last_vend) s2
           else
             let vstart = p_vaddr m phdr AND NOT 0xFFF;
                 vend = (p_vaddr m phdr + p_memsz m phdr + 0xFFF) AND NOT 0xFFF;
                 last_vend' = (if last_vend < vend then vend else last_vend)
             in obind (of_loop (map_segment pt vstart vend s2)) (\<lambda>mapped s3.
                  if \<not> mapped then Ret None (ramdisk_close fd s3)
                  else
                    let s4 = vmm_switch_address_space pt s3;
                        seg = p_vaddr (mem s4) phdr
                    in obind (for_loop (unat (p_memsz (mem s4) phdr)) 0 (\<lambda>z. poke (seg + of_nat z) 0) s4) (\<lambda>_ s5.
                       case ramdisk_seek fd (p_offset (mem s5) phdr) 0 s5 of (_, s6) \<Rightarrow>
                       obind (ramdisk_read fd (p_vaddr (mem s6) phdr) (p_filesz (mem s6) phdr) s6) (\<lambda>_ s7.
                         Ret (Some last_vend') (vmm_switch_address_space saved_cr3 s7))))))"

partial_function (option) load_segments :: "u64 \<Rightarrow> u64 \<Rightarrow> u64 \<Rightarrow> int \<Rightarrow> u64 \<Rightarrow> nat \<Rightarrow> u64 \<Rightarrow> 'a rd_state_scheme \<Rightarrow>
    ('a rd_state_scheme, u64 option) outcome option" where
  "load_segments ehdr phdr pt fd saved_cr3 i last_vend s =
     (if i < unat (e_phnum (mem s) ehdr) then
        (case load_segment ehdr phdr pt fd saved_cr3 i last_vend s of
           Ret r s1 \<Rightarrow>
             (case r of
                None \<Rightarrow> Some (Ret None s1)
              | Some last_vend' \<Rightarrow> load_segments ehdr phdr pt fd saved_cr3 (i + 1) last_vend' s1)
         | Halt s1 \<Rightarrow> Some (Halt s1)
         | Hang \<Rightarrow> Some Hang
         | Fault \<Rightarrow> Some Fault)
      else Some (Ret (Some last_vend) s))"

text \<open>The end of the loader: the heap begins after the highest segment, and the first switch to the process enters user mode.\<close>

definition elf_start :: "kernel_syms \<Rightarrow> u64 \<Rightarrow> u64 \<Rightarrow> u64 \<Rightarrow> 'a rd_state_scheme \<Rightarrow> ('a rd_state_scheme, u64) outcome" where
  "elf_start syms ehdr proc hs s =
     deref proc s (\<lambda>p.
       let sp1 = kernel_stack p - 8; m1 = store64 (mem s) sp1 (user_stack p);
           sp2 = sp1 - 8; m2 = store64 m1 sp2 (e_entry m1 ehdr);
           sp3 = sp2 - 8; m3 = store64 m2 sp3 (process_user_trampoline_fn syms);
           s1 = upd_proc proc (\<lambda>p. p\<lparr>heap_start := hs, heap_end := hs,
                  pcontext := (pcontext p)\<lparr>ctx_rsp := sp3\<rparr>\<rparr>) (s\<lparr>mem := m3\<rparr>)
       in obind (serial_print (str ''ELF loaded: entry='') s1) (\<lambda>_ s2.
          obind (serial_print_hex (e_entry (mem s2) ehdr) s2) (\<lambda>_ s3.
          obind (serial_print [0x0A] s3) (\<lambda>_ s4. Ret proc s4))))"

text \<open>What the loader does with a new process: its address space, its stack and its segments.\<close>

definition elf_load :: "kernel_syms \<Rightarrow> u64 \<Rightarrow> u64 \<Rightarrow> u8 \<Rightarrow> int \<Rightarrow> u64 \<Rightarrow> 'a rd_state_scheme \<Rightarrow> ('a rd_state_scheme, u64) outcome" where
  "elf_load syms ehdr phdr linux_abi fd proc s =
     (case vmm_create_address_space s of (pt, s1) \<Rightarrow>
        let s2 = upd_proc proc (\<lambda>p. p\<lparr>page_table := pt\<rparr>) s1
        in if pt = 0 then obind (process_destroy proc s2) (\<lambda>_ s3. Ret NULL (ramdisk_close fd s3))
           else obind (map_user_stack USER_STACK_PAGES 0 pt s2) (\<lambda>done s3.
             if \<not> done then Ret NULL (ramdisk_close fd s3)
             else
               let s4 = upd_proc proc (\<lambda>p. p\<lparr>user_stack := USER_STACK_VIRT - 8, use_linux_abi := linux_abi\<rparr>) s3;
                   saved_cr3 = cr3 s4
               in obind (of_loop (load_segments ehdr phdr pt fd saved_cr3 0 0 s4)) (\<lambda>r s5.
                 case r of
                   None \<Rightarrow> Ret NULL s5
                 | Some last_vend \<Rightarrow>
                     elf_start syms ehdr proc (if last_vend \<noteq> 0 then last_vend else USER_HEAP_BASE) (ramdisk_close fd s5))))"

definition process_create_elf :: "kernel_syms \<Rightarrow> initrd_syms \<Rightarrow> u64 \<Rightarrow> u64 \<Rightarrow> u64 \<Rightarrow> u8 \<Rightarrow> 'a rd_state_scheme \<Rightarrow>
    ('a rd_state_scheme, u64) outcome" where
  "process_create_elf syms disk ehdr phdr path linux_abi s =
     obind (ramdisk_open disk path s) (\<lambda>fd s1.
       if fd < 0 then obind (serial_print (str ''ELF: file not found'' @ [0x0A]) s1) (\<lambda>_ s2. Ret NULL s2)
       else obind (ramdisk_read fd ehdr 64 s1) (\<lambda>_ s2.
         if bad_header (mem s2) ehdr
         then obind (serial_print (str ''ELF: bad header'' @ [0x0A]) s2) (\<lambda>_ s3. Ret NULL (ramdisk_close fd s3))
         else obind (process_alloc s2) (\<lambda>proc s3.
           if proc = NULL then Ret NULL (ramdisk_close fd s3)
           else elf_load syms ehdr phdr linux_abi fd proc s3)))"

end
