(* ===== verification/Syscall.thy ===== *)
theory Syscall
  imports Elf
begin

text \<open>
  The system calls of \<open>src/syscall/syscall.c\<close> and their two dispatchers, for the kernel's own numbers
  and for those of Linux. A call ends in one of two ways: with a value for the caller (\<open>Done\<close>), or
  by giving the processor to another process (\<open>Away\<close>); in the second case the rest of the call runs
  when the caller is scheduled again. A pointer argument is a user address and is resolved
  byte by byte through the page tables. Numbers of type \<open>int64_t\<close> are 64-bit words, so -1 is the
  largest of them.
\<close>

section \<open>State\<close>

abbreviation USER_FB_VIRT :: u64 where "USER_FB_VIRT \<equiv> 0x9000000000"

datatype sysret = Done u64 | Away

record sys_state = rd_state +
  linux_first :: bool

text \<open>The rest of a call after \<open>scheduler_tick\<close>, when control stays.\<close>

definition after_tick :: "'a sched_state_scheme \<Rightarrow> ('a sched_state_scheme \<Rightarrow> ('a sched_state_scheme, sysret) outcome) \<Rightarrow>
    ('a sched_state_scheme, sysret) outcome" where
  "after_tick s k = obind (scheduler_tick s) (\<lambda>ctl s1. case ctl of Switched \<Rightarrow> Ret Away s1 | Returned \<Rightarrow> k s1)"

definition peek64 :: "u64 \<Rightarrow> 'a vmm_state_scheme \<Rightarrow> u64 option" where
  "peek64 v s =
     (if \<forall>i \<in> set [0..<8]. peek (v + of_nat i) s \<noteq> None
      then Some (foldr (\<lambda>i w. push_bit 8 w OR ucast (the (peek (v + of_nat i) s))) [0..<8] 0)
      else None)"

section \<open>Calls\<close>

definition sys_write :: "u64 \<Rightarrow> u64 \<Rightarrow> 'a sys_state_scheme \<Rightarrow> ('a sys_state_scheme, sysret) outcome" where
  "sys_write str_ptr len s =
     (if str_ptr < 0x1000 then Ret (Done (-1)) s
      else obind (for_loop (unat len) 0 (\<lambda>i t.
             case peek (str_ptr + of_nat i) t of
               None \<Rightarrow> Fault
             | Some c \<Rightarrow>
                 let t1 = vga_putchar c t
                 in case peek (str_ptr + of_nat i) t1 of None \<Rightarrow> Fault | Some c' \<Rightarrow> serial_putchar c' t1) s)
           (\<lambda>_ s1. Ret (Done len) s1))"

definition sys_exit :: "u64 \<Rightarrow> 'a sched_state_scheme \<Rightarrow> ('a sched_state_scheme, sysret) outcome" where
  "sys_exit exit_code s =
     (let cur = scheduler_current s
      in if cur = NULL then after_tick s Halt
         else deref cur s (\<lambda>_. after_tick (upd_proc cur (\<lambda>p. p\<lparr>pstate := PROCESS_DEAD\<rparr>) s) Halt))"

definition sys_yield :: "'a sched_state_scheme \<Rightarrow> ('a sched_state_scheme, sysret) outcome" where
  "sys_yield s = after_tick s (\<lambda>s1. Ret (Done 0) s1)"

definition sys_sleep :: "u64 \<Rightarrow> 'a sched_state_scheme \<Rightarrow> ('a sched_state_scheme, sysret) outcome" where
  "sys_sleep n s =
     (let cur = scheduler_current s
      in if cur = NULL then Ret (Done (-1)) s
         else deref cur s (\<lambda>_.
           after_tick (upd_proc cur (\<lambda>p. p\<lparr>wake_tick := timer_ticks s + n, wait_reason := WAIT_SLEEP, pstate := PROCESS_BLOCKED\<rparr>) s)
             (\<lambda>s1. Ret (Done 0) s1)))"

text \<open>The loop of \<open>sys_read\<close> from index \<open>i\<close> on. A caller that had to wait goes on with it at the same index.\<close>

partial_function (option) read_loop :: "u64 \<Rightarrow> u64 \<Rightarrow> u64 \<Rightarrow> 'a kb_state_scheme \<Rightarrow> ('a kb_state_scheme, sysret) outcome option" where
  "read_loop buf len i s =
     (if i < len then
        (if keyboard_has_char s then
           (case keyboard_getchar s of (c, s1) \<Rightarrow>
              case poke (buf + i) c s1 of
                Ret _ s2 \<Rightarrow> if c = 0x0A then Some (Ret (Done (i + 1)) s2) else read_loop buf len (i + 1) s2
              | Halt s2 \<Rightarrow> Some (Halt s2)
              | Hang \<Rightarrow> Some Hang
              | Fault \<Rightarrow> Some Fault)
         else
           (case procs s (scheduler_current s) of
              None \<Rightarrow> Some Fault
            | Some _ \<Rightarrow>
                (case scheduler_tick (upd_proc (scheduler_current s) (\<lambda>p. p\<lparr>wait_reason := WAIT_KEY, pstate := PROCESS_BLOCKED\<rparr>) s) of
                   Ret ctl s1 \<Rightarrow> (case ctl of Switched \<Rightarrow> Some (Ret Away s1) | Returned \<Rightarrow> read_loop buf len i s1)
                 | Halt s1 \<Rightarrow> Some (Halt s1)
                 | Hang \<Rightarrow> Some Hang
                 | Fault \<Rightarrow> Some Fault)))
      else Some (Ret (Done len) s))"

definition sys_read :: "u64 \<Rightarrow> u64 \<Rightarrow> 'a kb_state_scheme \<Rightarrow> ('a kb_state_scheme, sysret) outcome" where
  "sys_read buf len s =
     (if buf = NULL \<or> len = 0 then Ret (Done (-1)) s else of_loop (read_loop buf len 0 s))"

definition sys_getpid :: "'a sched_state_scheme \<Rightarrow> ('a sched_state_scheme, sysret) outcome" where
  "sys_getpid s =
     (let cur = scheduler_current s
      in if cur = NULL then Ret (Done (-1)) s else deref cur s (\<lambda>p. Ret (Done (ucast (pid p))) s))"

definition sys_map_fb :: "'a sched_state_scheme \<Rightarrow> ('a sched_state_scheme, sysret) outcome" where
  "sys_map_fb s =
     (let cur = scheduler_current s
      in if cur = NULL then Ret (Done (-1)) s
         else deref cur s (\<lambda>p.
           if page_table p = 0 then Ret (Done (-1)) s
           else obind (for_loop 16 0 (\<lambda>i. vmm_map_in (page_table p) (USER_FB_VIRT + of_nat i * 0x1000) (0xA0000 + of_nat i * 0x1000)
                        (PTE_PRESENT OR PTE_WRITABLE OR PTE_USER)) s) (\<lambda>_ s1. Ret (Done USER_FB_VIRT) s1)))"

definition sys_getkey :: "'a kb_state_scheme \<Rightarrow> ('a kb_state_scheme, sysret) outcome" where
  "sys_getkey s =
     (if keyboard_has_char s then case keyboard_getchar s of (c, s1) \<Rightarrow> Ret (Done (scast c)) s1 else Ret (Done 0) s)"

text \<open>\<open>serial_print\<close> of a string that a user pointer names.\<close>

partial_function (option) serial_print_user :: "u64 \<Rightarrow> 'a vmm_state_scheme \<Rightarrow> ('a vmm_state_scheme, unit) outcome option" where
  "serial_print_user p s =
     (case peek p s of
        None \<Rightarrow> Some Fault
      | Some c \<Rightarrow>
          if c = 0 then Some (Ret () s)
          else (case serial_putchar c s of
                  Ret _ s1 \<Rightarrow> serial_print_user (p + 1) s1
                | Halt s1 \<Rightarrow> Some (Halt s1)
                | Hang \<Rightarrow> Some Hang
                | Fault \<Rightarrow> Some Fault))"

definition sys_open :: "initrd_syms \<Rightarrow> u64 \<Rightarrow> 'a rd_state_scheme \<Rightarrow> ('a rd_state_scheme, sysret) outcome" where
  "sys_open disk path s =
     obind (serial_print (str ''DOOM attempting to open file: '') s) (\<lambda>_ s1.
     obind (of_loop (serial_print_user path s1)) (\<lambda>_ s2.
     obind (serial_print [0x0A] s2) (\<lambda>_ s3.
     obind (ramdisk_open disk path s3) (\<lambda>fd s4. Ret (Done (of_int fd)) s4))))"

text \<open>The cast of an argument to \<open>int\<close>.\<close>

definition to_int :: "u64 \<Rightarrow> int" where
  "to_int v = sint (ucast v :: u32)"

definition sys_fread :: "u64 \<Rightarrow> u64 \<Rightarrow> u64 \<Rightarrow> 'a rd_state_scheme \<Rightarrow> ('a rd_state_scheme, sysret) outcome" where
  "sys_fread fd buf n s = obind (ramdisk_read (to_int fd) buf n s) (\<lambda>r s1. Ret (Done (of_int r)) s1)"

definition sys_fseek :: "u64 \<Rightarrow> u64 \<Rightarrow> u64 \<Rightarrow> 'a rd_state_scheme \<Rightarrow> ('a rd_state_scheme, sysret) outcome" where
  "sys_fseek fd off w s = (case ramdisk_seek (to_int fd) off (to_int w) s of (r, s1) \<Rightarrow> Ret (Done (of_int r)) s1)"

definition sys_fclose :: "u64 \<Rightarrow> 'a rd_state_scheme \<Rightarrow> ('a rd_state_scheme, sysret) outcome" where
  "sys_fclose fd s = Ret (Done 0) (ramdisk_close (to_int fd) s)"

definition sys_fsize :: "u64 \<Rightarrow> 'a rd_state_scheme \<Rightarrow> ('a rd_state_scheme, sysret) outcome" where
  "sys_fsize fd s = Ret (Done (of_int (ramdisk_size (to_int fd) s))) s"

text \<open>The page loop of \<open>sys_sbrk\<close>, from page \<open>i\<close> of the heap on.\<close>

primrec sbrk_pages :: "nat \<Rightarrow> u64 \<Rightarrow> u64 \<Rightarrow> u64 \<Rightarrow> 'a vmm_state_scheme \<Rightarrow> ('a vmm_state_scheme, bool) outcome" where
  "sbrk_pages 0 i base pt s = Ret True s"
| "sbrk_pages (Suc n) i base pt s =
     (case pmm_alloc s of (frame, s1) \<Rightarrow>
        if frame = NULL then Ret False s1
        else obind (vmm_map_in pt (base + i * PAGE_SIZE) frame (PTE_PRESENT OR PTE_WRITABLE OR PTE_USER) s1)
               (\<lambda>_ s2. sbrk_pages n (i + 1) base pt s2))"

definition heap_page_count :: "u64 \<Rightarrow> u64 \<Rightarrow> u64" where
  "heap_page_count base e = (if base < e then (e - base + PAGE_SIZE - 1) div PAGE_SIZE else 0)"

definition sys_sbrk :: "u64 \<Rightarrow> 'a sched_state_scheme \<Rightarrow> ('a sched_state_scheme, sysret) outcome" where
  "sys_sbrk increment s =
     obind (if 0 < sint increment then serial_print (str ''DOOM expanding heap via sbrk'' @ [0x0A]) s else Ret () s) (\<lambda>_ s1.
       let cur = scheduler_current s
       in if cur = NULL then Ret (Done (-1)) s1
          else deref cur s1 (\<lambda>p.
            if heap_start p = 0 then Ret (Done (-1)) s1
            else if increment = 0 then Ret (Done (heap_end p)) s1
            else
              let base = heap_start p; old_end = heap_end p; new_end = old_end + increment;
                  old_pages = heap_page_count base old_end; new_pages = heap_page_count base new_end
              in obind (sbrk_pages (unat new_pages - unat old_pages) old_pages base (page_table p) s1) (\<lambda>mapped s2.
                   if \<not> mapped then Ret (Done (-1)) s2
                   else deref cur s2 (\<lambda>_. Ret (Done old_end) (upd_proc cur (\<lambda>p. p\<lparr>heap_end := new_end\<rparr>) s2)))))"

definition sys_gettime :: "'a sched_state_scheme \<Rightarrow> ('a sched_state_scheme, sysret) outcome" where
  "sys_gettime s = Ret (Done (timer_ticks s * 10)) s"

definition sys_setpalette :: "u64 \<Rightarrow> 'a vmm_state_scheme \<Rightarrow> ('a vmm_state_scheme, sysret) outcome" where
  "sys_setpalette ptr s =
     obind (for_loop 256 0 (\<lambda>i t.
       case (peek (ptr + of_nat (i * 3)) t, peek (ptr + of_nat (i * 3 + 1)) t, peek (ptr + of_nat (i * 3 + 2)) t) of
         (Some r, Some g, Some b) \<Rightarrow> Ret () (fb_set_palette (of_nat i) r g b t)
       | _ \<Rightarrow> Fault) s) (\<lambda>_ s1. Ret (Done 0) s1)"

definition sys_set_fs_base :: "u64 \<Rightarrow> 'a gdt_state_scheme \<Rightarrow> ('a gdt_state_scheme, sysret) outcome" where
  "sys_set_fs_base base s =
     (let lo = (ucast base :: u32); hi = (ucast (drop_bit 32 base) :: u32)
      in Ret (Done 0) (s\<lparr>msr := (msr s)(0xC0000100 := push_bit 32 (ucast hi) OR ucast lo)\<rparr>))"

definition sys_get_raw_key :: "u64 \<Rightarrow> 'a kb_state_scheme \<Rightarrow> ('a kb_state_scheme, sysret) outcome" where
  "sys_get_raw_key buf s =
     (case keyboard_get_event s of
        (None, s1) \<Rightarrow> Ret (Done 0) s1
      | (Some e, s1) \<Rightarrow>
          obind (poke buf (scancode e) s1) (\<lambda>_ s2.
          obind (poke (buf + 1) (pressed e) s2) (\<lambda>_ s3. Ret (Done 1) s3)))"

section \<open>The Linux calls\<close>

text \<open>\<open>mmap\<close>: the heap's end is moved up to a page boundary, then the heap grows by whole pages.\<close>

definition linux_mmap :: "u64 \<Rightarrow> 'a sched_state_scheme \<Rightarrow> ('a sched_state_scheme, sysret) outcome" where
  "linux_mmap arg2 s =
     (if sint arg2 \<le> 0 then Ret (Done (-1)) s
      else
        let proc = scheduler_current s;
            len = (arg2 + 4095) AND NOT 4095
        in if proc = NULL then sys_sbrk len s
           else deref proc s (\<lambda>p.
             sys_sbrk len (if heap_end p \<noteq> 0 then upd_proc proc (\<lambda>p. p\<lparr>heap_end := (heap_end p + 4095) AND NOT 4095\<rparr>) s else s)))"

text \<open>The page loop of \<open>brk\<close>. Without a frame the kernel prints a message and spins for ever.\<close>

partial_function (option) brk_loop :: "u64 \<Rightarrow> u64 \<Rightarrow> u64 \<Rightarrow> 'a vmm_state_scheme \<Rightarrow> ('a vmm_state_scheme, unit) outcome option" where
  "brk_loop pt vaddr end_page s =
     (if vaddr < end_page then
        (case pmm_alloc s of (frame, s1) \<Rightarrow>
           if frame = NULL
           then Some (obind (serial_print (str ''KERNEL PANIC: Out of physical memory backing the heap!'' @ [0x0A]) s1) (\<lambda>_ _. Hang))
           else case vmm_map_in pt vaddr frame (PTE_PRESENT OR PTE_USER OR PTE_WRITABLE) s1 of
                  Ret _ s2 \<Rightarrow> brk_loop pt (vaddr + 4096) end_page s2
                | Halt s2 \<Rightarrow> Some (Halt s2)
                | Hang \<Rightarrow> Some Hang
                | Fault \<Rightarrow> Some Fault)
      else Some (Ret () s))"

definition linux_brk :: "u64 \<Rightarrow> 'a sched_state_scheme \<Rightarrow> ('a sched_state_scheme, sysret) outcome" where
  "linux_brk target s =
     (let proc = scheduler_current s
      in deref proc s (\<lambda>p.
        if target = 0 \<or> target < heap_start p then Ret (Done (heap_end p)) s
        else
          obind (if heap_end p < target
                 then of_loop (brk_loop (page_table p) ((heap_end p + 0xFFF) AND NOT 0xFFF) ((target + 0xFFF) AND NOT 0xFFF) s)
                 else Ret () s) (\<lambda>_ s1.
            deref proc s1 (\<lambda>_. Ret (Done target) (upd_proc proc (\<lambda>p. p\<lparr>heap_end := target\<rparr>) s1)))))"

text \<open>The loops of \<open>readv\<close> and \<open>writev\<close> over the vectors that are left, with the total so far.\<close>

primrec readv_loop :: "nat \<Rightarrow> nat \<Rightarrow> u64 \<Rightarrow> u64 \<Rightarrow> u64 \<Rightarrow> 'a rd_state_scheme \<Rightarrow> ('a rd_state_scheme, sysret) outcome" where
  "readv_loop 0 i fd iov tot s = Ret (Done tot) s"
| "readv_loop (Suc n) i fd iov tot s =
     (case peek64 (iov + 16 * of_nat i + 8) s of
        None \<Rightarrow> Fault
      | Some len \<Rightarrow>
          if len = 0 then readv_loop n (Suc i) fd iov tot s
          else (case peek64 (iov + 16 * of_nat i) s of
             None \<Rightarrow> Fault
           | Some base \<Rightarrow>
               obind (ramdisk_read (to_int fd) base len s) (\<lambda>r s1.
                 if r \<le> 0 then Ret (Done (if tot = 0 then -1 else tot)) s1
                 else
                   let tot' = tot + of_int r
                   in case peek64 (iov + 16 * of_nat i + 8) s1 of
                        None \<Rightarrow> Fault
                      | Some len' \<Rightarrow> if of_int r < len' then Ret (Done tot') s1 else readv_loop n (Suc i) fd iov tot' s1)))"

primrec writev_loop :: "nat \<Rightarrow> nat \<Rightarrow> u64 \<Rightarrow> u64 \<Rightarrow> 'a sys_state_scheme \<Rightarrow> ('a sys_state_scheme, sysret) outcome" where
  "writev_loop 0 i iov tot s = Ret (Done tot) s"
| "writev_loop (Suc n) i iov tot s =
     (case peek64 (iov + 16 * of_nat i + 8) s of
        None \<Rightarrow> Fault
      | Some len \<Rightarrow>
          if len = 0 then writev_loop n (Suc i) iov tot s
          else (case peek64 (iov + 16 * of_nat i) s of
             None \<Rightarrow> Fault
           | Some base \<Rightarrow>
               obind (sys_write base len s) (\<lambda>_ s1.
                 case peek64 (iov + 16 * of_nat i + 8) s1 of
                   None \<Rightarrow> Fault
                 | Some len' \<Rightarrow> writev_loop n (Suc i) iov (tot + len') s1)))"

definition linux_syscall :: "initrd_syms \<Rightarrow> u64 \<Rightarrow> u64 \<Rightarrow> u64 \<Rightarrow> u64 \<Rightarrow> 'a sys_state_scheme \<Rightarrow> ('a sys_state_scheme, sysret) outcome" where
  "linux_syscall disk num arg1 arg2 arg3 s =
     (if num = 0 then sys_fread arg1 arg2 arg3 s
      else if num = 1 then sys_write arg2 arg3 s
      else if num = 2 then sys_open disk arg1 s
      else if num = 3 then sys_fclose arg1 s
      else if num = 5 then Ret (Done (-1)) s
      else if num = 7 then Ret (Done 0) s
      else if num = 8 then sys_fseek arg1 arg2 arg3 s
      else if num = 9 then linux_mmap arg2 s
      else if num = 10 \<or> num = 11 then Ret (Done 0) s
      else if num = 12 then linux_brk arg1 s
      else if num = 16 then Ret (Done 0) s
      else if num = 19 then readv_loop (nat (to_int arg3)) 0 arg1 arg2 0 s
      else if num = 20 then writev_loop (nat (to_int arg3)) 0 arg2 0 s
      else if num = 28 then Ret (Done 0) s
      else if num = 158 then (if arg1 = 0x1002 then sys_set_fs_base arg2 s else Ret (Done (-1)) s)
      else if num = 202 then Ret (Done 0) s
      else if num = 60 \<or> num = 231 then sys_exit arg1 s
      else if num = 257 then sys_open disk arg2 s
      else if num = 4 then sys_sleep arg1 s
      else if num = 6 then sys_map_fb s
      else if num = 177 then sys_getkey s
      else if num = 13 then sys_sbrk arg1 s
      else if num = 14 then sys_gettime s
      else if num = 15 then sys_setpalette arg1 s
      else if num = 18 then sys_get_raw_key arg1 s
      else Ret (Done (-1)) s)"

definition linux_syscall_dispatch ::
    "initrd_syms \<Rightarrow> u64 \<Rightarrow> u64 \<Rightarrow> u64 \<Rightarrow> u64 \<Rightarrow> 'a sys_state_scheme \<Rightarrow> ('a sys_state_scheme, sysret) outcome" where
  "linux_syscall_dispatch disk num arg1 arg2 arg3 s =
     obind (if linux_first s
            then obind (serial_print (str ''LINUX ABI DISPATCH ACTIVE'' @ [0x0A]) s) (\<lambda>_ s1. Ret () (s1\<lparr>linux_first := False\<rparr>))
            else Ret () s)
       (\<lambda>_ s2. linux_syscall disk num arg1 arg2 arg3 s2)"

section \<open>Dispatch\<close>

abbreviation SYS_WRITE :: u64 where "SYS_WRITE \<equiv> 0"
abbreviation SYS_EXIT :: u64 where "SYS_EXIT \<equiv> 1"
abbreviation SYS_YIELD :: u64 where "SYS_YIELD \<equiv> 2"
abbreviation SYSGETPID :: u64 where "SYSGETPID \<equiv> 3"
abbreviation SYS_SLEEP :: u64 where "SYS_SLEEP \<equiv> 4"
abbreviation SYS_READ :: u64 where "SYS_READ \<equiv> 5"
abbreviation SYS_MAP_FB :: u64 where "SYS_MAP_FB \<equiv> 6"
abbreviation SYS_OPEN :: u64 where "SYS_OPEN \<equiv> 8"
abbreviation SYS_FREAD :: u64 where "SYS_FREAD \<equiv> 9"
abbreviation SYS_FSEEK :: u64 where "SYS_FSEEK \<equiv> 10"
abbreviation SYS_FCLOSE :: u64 where "SYS_FCLOSE \<equiv> 11"
abbreviation SYS_FSIZE :: u64 where "SYS_FSIZE \<equiv> 12"
abbreviation SYS_SBRK :: u64 where "SYS_SBRK \<equiv> 13"
abbreviation SYS_GETTIME :: u64 where "SYS_GETTIME \<equiv> 14"
abbreviation SYS_SETPALETTE :: u64 where "SYS_SETPALETTE \<equiv> 15"
abbreviation SYS_SET_FS_BASE :: u64 where "SYS_SET_FS_BASE \<equiv> 16"
abbreviation SYS_GETKEY :: u64 where "SYS_GETKEY \<equiv> 177"

definition native_syscall :: "initrd_syms \<Rightarrow> u64 \<Rightarrow> u64 \<Rightarrow> u64 \<Rightarrow> u64 \<Rightarrow> 'a sys_state_scheme \<Rightarrow> ('a sys_state_scheme, sysret) outcome" where
  "native_syscall disk num arg1 arg2 arg3 s =
     (if num = SYS_WRITE then sys_write arg1 arg2 s
      else if num = SYS_EXIT then sys_exit arg1 s
      else if num = SYS_YIELD then sys_yield s
      else if num = SYSGETPID then sys_getpid s
      else if num = SYS_SLEEP then sys_sleep arg1 s
      else if num = SYS_READ then sys_read arg1 arg2 s
      else if num = SYS_MAP_FB then sys_map_fb s
      else if num = SYS_GETKEY then sys_getkey s
      else if num = SYS_OPEN then sys_open disk arg1 s
      else if num = SYS_FREAD then sys_fread arg1 arg2 arg3 s
      else if num = SYS_FSEEK then sys_fseek arg1 arg2 arg3 s
      else if num = SYS_FCLOSE then sys_fclose arg1 s
      else if num = SYS_FSIZE then sys_fsize arg1 s
      else if num = SYS_SBRK then sys_sbrk arg1 s
      else if num = SYS_GETTIME then sys_gettime s
      else if num = SYS_SETPALETTE then sys_setpalette arg1 s
      else if num = SYS_SET_FS_BASE then sys_set_fs_base arg1 s
      else Ret (Done (-1)) s)"

definition syscall_dispatch :: "initrd_syms \<Rightarrow> u64 \<Rightarrow> u64 \<Rightarrow> u64 \<Rightarrow> u64 \<Rightarrow> 'a sys_state_scheme \<Rightarrow> ('a sys_state_scheme, sysret) outcome" where
  "syscall_dispatch disk num arg1 arg2 arg3 s =
     (let cur = scheduler_current s
      in if cur = NULL then native_syscall disk num arg1 arg2 arg3 s
         else deref cur s (\<lambda>p.
           if use_linux_abi p \<noteq> 0 then linux_syscall_dispatch disk num arg1 arg2 arg3 s
           else native_syscall disk num arg1 arg2 arg3 s))"

end
