(* ===== verification/Syscall_Safety.thy ===== *)
theory Syscall_Safety
  imports Syscall
begin

text \<open>
  What every system call keeps, whatever its number and arguments are: the ring of processes, the
  invariant of the scheduler and the keyboard queues. Most calls only touch the console, the
  ports, the memory and the page tables; that such operations keep every property of the state
  above them is proved once, in the locale \<open>upper_state\<close>.
\<close>

section \<open>Operations below the scheduler\<close>

lemma console_only_more: "console_only s t \<Longrightarrow> vmm_state.more t = vmm_state.more s"
  by (auto simp: console_only_def)

lemma pmm_alloc_more: "vmm_state.more (snd (pmm_alloc s)) = vmm_state.more s"
  by (cases "free_set s = {}") (auto simp: pmm_alloc_none pmm_alloc_some take_frame_def bitmap_set_def)

lemma goc_more: "yields (\<lambda>_ t. vmm_state.more t = vmm_state.more s) (get_or_create_table e fl s)"
  using pmm_alloc_more [of s] by (cases "pmm_alloc s") (auto simp: get_or_create_table_def Let_def)

text \<open>
  A property that output does not touch: one that depends neither on the console nor on the history of
  the ports. Everything the kernel prints keeps it, and so does the palette.
\<close>

locale quiet_state =
  fixes K :: "'a vmm_state_scheme \<Rightarrow> bool"
  assumes console: "console_only s t \<Longrightarrow> K s \<Longrightarrow> K t"
    and ports: "K s \<Longrightarrow> K (s\<lparr>port_log := l\<rparr>)"
begin

lemma putchar: "K s \<Longrightarrow> K (vga_putchar c s)"
  by (rule console) simp_all

lemma wait_ready: "K s \<Longrightarrow> serial_wait s = Some t \<Longrightarrow> K t"
proof -
  assume "K s" and r: "serial_wait s = Some t"
  have "K s \<longrightarrow> K t"
  proof (rule serial_wait.raw_induct [of "\<lambda>s t. K s \<longrightarrow> K t", OF _ r])
    fix f and s t :: "'a vmm_state_scheme"
    assume IH: "\<And>s t. f s = Some t \<Longrightarrow> K s \<longrightarrow> K t"
      and e: "(case inb (COM1 + 5) s of (v, t) \<Rightarrow> if v AND 0x20 = 0 then f t else Some t) = Some t"
    show "K s \<longrightarrow> K t" using e by (auto simp: inb_def intro: ports dest!: IH split: if_splits)
  qed
  with \<open>K s\<close> show ?thesis by blast
qed

lemma serial_char: "K s \<Longrightarrow> yields (\<lambda>_. K) (serial_putchar c s)"
  unfolding serial_putchar_def by (cases "serial_wait s") (auto simp: outb_def intro: ports wait_ready)

lemma serial: "K s \<Longrightarrow> yields (\<lambda>_. K) (serial_print cs s)"
  by (induction cs arbitrary: s) (auto intro!: yields_mono [OF serial_char])

lemma palette: "K s \<Longrightarrow> K (fb_set_palette i r g b s)"
  by (simp add: fb_set_palette_def outb_def ports)

lemma print_user: "K s \<Longrightarrow> serial_print_user p s = Some r \<Longrightarrow> yields (\<lambda>_. K) r"
proof -
  have "K s \<longrightarrow> yields (\<lambda>_. K) r" if "serial_print_user p s = Some r" for p s r
  proof (rule serial_print_user.raw_induct [of "\<lambda>p s r. K s \<longrightarrow> yields (\<lambda>_. K) r", OF _ that], rule impI)
    fix f p and s :: "'a vmm_state_scheme" and r
    assume IH: "\<And>p s r. f p s = Some r \<Longrightarrow> K s \<longrightarrow> yields (\<lambda>_. K) r" and K: "K s"
      and e: "(case peek p s of None \<Rightarrow> Some Fault | Some c \<Rightarrow> if c = 0 then Some (Ret () s)
        else (case serial_putchar c s of Ret _ s1 \<Rightarrow> f (p + 1) s1 | Halt s1 \<Rightarrow> Some (Halt s1) | Hang \<Rightarrow> Some Hang | Fault \<Rightarrow> Some Fault)) = Some r"
    have "K t" if "serial_putchar c s = Ret () t" for c t using serial_char [OF K, of c] that by simp
    then show "yields (\<lambda>_. K) r" using e K IH serial_char [OF K] by (auto split: option.splits outcome.splits if_splits)
  qed
  then show "K s \<Longrightarrow> serial_print_user p s = Some r \<Longrightarrow> yields (\<lambda>_. K) r" by blast
qed

end

text \<open>A property that survives an allocation of a frame and a mapping in the address space \<open>pt\<close> survives the page loops of \<open>sbrk\<close> and \<open>brk\<close>.\<close>

locale paging_state = quiet_state K for K :: "'a vmm_state_scheme \<Rightarrow> bool" +
  fixes pt :: u64
  assumes frame: "K s \<Longrightarrow> pmm_alloc s = (f, t) \<Longrightarrow> K t"
    and page: "K s \<Longrightarrow> yields (\<lambda>_. K) (vmm_map_in pt v f fl s)"
begin

lemma sbrk: "K s \<Longrightarrow> yields (\<lambda>_. K) (sbrk_pages n i base pt s)"
proof (induction n arbitrary: i s)
  case (Suc n)
  obtain f t where a: "pmm_alloc s = (f, t)" by (cases "pmm_alloc s")
  have "K t" using frame [OF Suc.prems a] .
  then show ?case using a by (auto intro!: yields_mono [OF page] Suc.IH)
qed simp

lemma brk: "K s \<Longrightarrow> brk_loop pt v e s = Some r \<Longrightarrow> yields (\<lambda>_. K) r"
proof -
  have "p = pt \<longrightarrow> K s \<longrightarrow> yields (\<lambda>_. K) r" if "brk_loop p v e s = Some r" for p v e s r
  proof (rule brk_loop.raw_induct [of "\<lambda>p v e s r. p = pt \<longrightarrow> K s \<longrightarrow> yields (\<lambda>_. K) r", OF _ that], intro impI)
    fix f p v e and s :: "'a vmm_state_scheme" and r
    assume IH: "\<And>p v e s r. f p v e s = Some r \<Longrightarrow> p = pt \<longrightarrow> K s \<longrightarrow> yields (\<lambda>_. K) r" and p: "p = pt" and K: "K s"
      and b: "(if v < e then (case pmm_alloc s of (frame, s1) \<Rightarrow>
           if frame = NULL
           then Some (obind (serial_print (str ''KERNEL PANIC: Out of physical memory backing the heap!'' @ [0x0A]) s1) (\<lambda>_ _. Hang))
           else case vmm_map_in p v frame (PTE_PRESENT OR PTE_USER OR PTE_WRITABLE) s1 of
                  Ret _ s2 \<Rightarrow> f p (v + 4096) e s2 | Halt s2 \<Rightarrow> Some (Halt s2) | Hang \<Rightarrow> Some Hang | Fault \<Rightarrow> Some Fault)
         else Some (Ret () s)) = Some r"
    have hang: "yields (\<lambda>_. K) (obind (serial_print cs s1) (\<lambda>_ _. Hang))" for cs s1 by (cases "serial_print cs s1") auto
    have mi: "yields (\<lambda>_. K) (vmm_map_in pt v fr fl s1)" if "pmm_alloc s = (fr, s1)" for fr s1 fl by (rule page [OF frame [OF K that]])
    have step: "K t" if "pmm_alloc s = (fr, s1)" "vmm_map_in pt v fr fl s1 = Ret () t" for fr s1 fl t
      using mi [OF that(1), of fl] that(2) by simp
    show "yields (\<lambda>_. K) r"
      using b K IH step hang mi p by (auto simp del: str_simps str_append yields_obind split: prod.splits outcome.splits if_splits)
  qed
  then show "K s \<Longrightarrow> brk_loop pt v e s = Some r \<Longrightarrow> yields (\<lambda>_. K) r" by blast
qed

end

text \<open>
  A property of the machine above its memory (processes, queues, descriptors): one that does not
  depend on the console, the ports, the frames, the memory or CR3. The operations below the scheduler
  keep every such property.
\<close>

locale upper_state =
  fixes K :: "'a vmm_state_scheme \<Rightarrow> bool"
  assumes more: "vmm_state.more t = vmm_state.more s \<Longrightarrow> K s \<Longrightarrow> K t"

sublocale upper_state \<subseteq> quiet_state K
proof
  fix s t :: "'a vmm_state_scheme" and l
  show "K t" if "console_only s t" "K s" by (rule more [OF _ that(2)]) (rule console_only_more [OF that(1)])
  show "K (s\<lparr>port_log := l\<rparr>)" if "K s" by (rule more [OF _ that]) simp
qed

context upper_state begin

lemma alloc: "K s \<Longrightarrow> pmm_alloc s = (f, t) \<Longrightarrow> K t"
  using pmm_alloc_more [of s] more by auto

lemma map: "K s \<Longrightarrow> yields (\<lambda>_. K) (vmm_map v f fl s)"
proof -
  assume K: "K s"
  have goc: "yields (\<lambda>_. K) (get_or_create_table e fl t)" if "K t" for e fl t
    using goc_more by (rule yields_mono) (erule more [OF _ that])
  have "K (t\<lparr>mem := m\<rparr>)" if "K t" for t m using that by (rule more [rotated]) simp
  then show ?thesis unfolding vmm_map_def Let_def by (auto intro!: yields_mono [OF goc] K)
qed

lemma map_in: "K s \<Longrightarrow> yields (\<lambda>_. K) (vmm_map_in pt v f fl s)"
proof -
  assume "K s"
  have sw: "K (vmm_switch_address_space c t)" if "K t" for c t
    using that by (rule more [rotated]) (simp add: vmm_switch_address_space_def)
  show ?thesis unfolding vmm_map_in_def Let_def by (auto intro!: yields_mono [OF map [OF sw [OF \<open>K s\<close>]]] sw)
qed

lemma poke: "K s \<Longrightarrow> yields (\<lambda>_. K) (poke v b s)"
  unfolding poke_def by (auto split: option.split intro: more)

end

sublocale upper_state \<subseteq> paging: paging_state K pt for pt
  by unfold_locales (fact alloc, fact map_in)

section \<open>Files\<close>

lemma match_loop_same: "match_loop a w s = Some r \<Longrightarrow> yields (\<lambda>_ t. t = s) r"
proof (rule match_loop.raw_induct [of "\<lambda>a w s r. yields (\<lambda>_ t. t = s) r"])
  fix f a w and s :: "'a vmm_state_scheme" and r
  assume IH: "\<And>a w s r. f a w s = Some r \<Longrightarrow> yields (\<lambda>_ t. t = s) r"
    and e: "(case peek w s of None \<Rightarrow> Some Fault
      | Some x \<Rightarrow> if mem s a \<noteq> 0 \<and> x \<noteq> 0 \<and> mem s a = x then f (a + 1) (w + 1) s
          else Some (Ret (mem s a = 0 \<and> x = 0) s)) = Some r"
  show "yields (\<lambda>_ t. t = s) r" using e by (auto split: option.splits if_splits dest: IH)
qed

lemma path_match_same: "yields (\<lambda>_ t. t = s) (path_match a w s)"
  unfolding path_match_def Let_def by (auto split: option.split intro: yields_of_loop match_loop_same)

text \<open>A property that updates of the descriptor table keep, as long as no position passes the end of its file.\<close>

locale fd_state =
  fixes K :: "'a rd_state_scheme \<Rightarrow> bool"
  assumes fds_upd: "K s \<Longrightarrow> (in_use f \<Longrightarrow> fd_pos f \<le> fd_size f) \<Longrightarrow> K (s\<lparr>fds := (fds s)[i := f]\<rparr>)"
begin

lemma slot: "K s \<Longrightarrow> K (snd (take_slot n i p sz s))"
  by (induction n arbitrary: i) (auto intro: fds_upd)

lemma open_walk: "K s \<Longrightarrow> open_loop disk path p s = Some r \<Longrightarrow> yields (\<lambda>_. K) r"
proof -
  have "K s \<longrightarrow> yields (\<lambda>_. K) r" if "open_loop disk path p s = Some r" for p r s
  proof (rule open_loop.raw_induct [of "\<lambda>disk path p s r. K s \<longrightarrow> yields (\<lambda>_. K) r", OF _ that], rule impI)
    fix f disk "path" p and s :: "'a rd_state_scheme" and r
    assume IH: "\<And>disk path p s r. f disk path p s = Some r \<Longrightarrow> K s \<longrightarrow> yields (\<lambda>_. K) r" and k: "K s"
      and e: "(if p + 512 \<le> tar_end disk \<and> mem s p \<noteq> 0 then
        let sz = tar_size (mem s) p; typ = mem s (p + 156)
        in case (if typ = 0x30 \<or> typ = 0 then path_match p path s else Ret False s) of
             Ret found s1 \<Rightarrow> if found then Some (case take_slot MAX_FDS 0 p sz s1 of (fd, s2) \<Rightarrow> Ret fd s2)
               else f disk path (tar_next (mem s1) p) s1
           | Halt s1 \<Rightarrow> Some (Halt s1) | Hang \<Rightarrow> Some Hang | Fault \<Rightarrow> Some Fault
      else Some (Ret (-1) s)) = Some r"
    have m: "yields (\<lambda>_ t. t = s) (if ty = 0x30 \<or> ty = 0 then path_match p path s else Ret False s)" for ty :: u8
      using path_match_same [of s p path] by simp
    show "yields (\<lambda>_. K) r"
      using e k m [of "mem s (p + 156)"] slot [OF k, of MAX_FDS 0 p "tar_size (mem s) p"]
      by (auto simp: Let_def split: if_splits outcome.splits prod.splits dest: IH)
  qed
  then show "K s \<Longrightarrow> open_loop disk path p s = Some r \<Longrightarrow> yields (\<lambda>_. K) r" by blast
qed

lemma file_open: "K s \<Longrightarrow> yields (\<lambda>_. K) (ramdisk_open disk path s)"
  unfolding ramdisk_open_def by (rule yields_of_loop) (rule open_walk)

lemma file_seek: "K s \<Longrightarrow> K (snd (ramdisk_seek fd off w s))"
  by (auto simp: ramdisk_seek_def Let_def intro!: fds_upd split: option.split)

lemma file_close: "K s \<Longrightarrow> K (ramdisk_close fd s)"
  by (auto simp: ramdisk_close_def Let_def intro!: fds_upd)

text \<open>A read writes at most the length asked for.\<close>

lemma read_into:
  assumes k: "K s" and w: "\<And>i b t. i < unat n \<Longrightarrow> K t \<Longrightarrow> yields (\<lambda>_. K) (poke (buf + of_nat i) b t)"
  shows "yields (\<lambda>_. K) (ramdisk_read fd buf n s)"
proof -
  let ?f = "fds s ! nat (fd - 3)"
  let ?l = "if fd_size ?f < fd_pos ?f + n then fd_size ?f - fd_pos ?f else n"
  have le: "?l \<le> n" if "\<not> fd_size ?f \<le> fd_pos ?f"
  proof (cases "fd_size ?f < fd_pos ?f + n")
    case True
    have "unat (fd_pos ?f + n) \<le> unat (fd_pos ?f) + unat n" by (simp add: unat_word_ariths)
    moreover have "unat (fd_size ?f - fd_pos ?f) = unat (fd_size ?f) - unat (fd_pos ?f)" using that by (intro unat_sub) simp
    ultimately have "unat (fd_size ?f - fd_pos ?f) \<le> unat n" using True unfolding word_less_nat_alt by linarith
    then show ?thesis using True by (simp add: word_le_nat_alt)
  qed simp
  have "yields (\<lambda>_. K) (for_loop m i (\<lambda>i t. poke (buf + of_nat i) (mem t (src + of_nat i)) t) t)" if "i + m \<le> unat n" "K t" for i m src t
    using that
  proof (induction m arbitrary: i t)
    case (Suc m)
    have "yields (\<lambda>_. K) (poke (buf + of_nat i) (mem t (src + of_nat i)) t)" using Suc.prems by (intro w) simp_all
    then show ?case unfolding for_loop.simps yields_obind by (rule yields_mono) (rule Suc.IH, use Suc.prems(1) in simp_all)
  qed simp
  then have lp: "yields (\<lambda>_. K) (for_loop (unat ?l) 0 (\<lambda>i t. poke (buf + of_nat i) (mem t (src + of_nat i)) t) s)"
    if "\<not> fd_size ?f \<le> fd_pos ?f" for src using le [OF that] k unfolding word_le_nat_alt by simp
  have cp: "yields (\<lambda>_ t. K (t\<lparr>fds := (fds t)[j := f]\<rparr>))
      (for_loop (unat ?l) 0 (\<lambda>i t. poke (buf + of_nat i) (mem t (src + of_nat i)) t) s)"
    if "\<not> fd_size ?f \<le> fd_pos ?f" "in_use f \<Longrightarrow> fd_pos f \<le> fd_size f" for src j f
    by (rule yields_mono [OF lp [OF that(1)]]) (rule fds_upd [OF _ that(2)])
  have "fd_pos ?f + ?l \<le> fd_size ?f" by (simp add: not_less)
  then show ?thesis unfolding ramdisk_read_def Let_def using k cp by (simp del: if_split)
qed

end

text \<open>A property that the file operations keep whatever they write to memory.\<close>

locale file_state = upper_state K + fd_state K for K :: "'a rd_state_scheme \<Rightarrow> bool"
begin

lemma file_read: "K s \<Longrightarrow> yields (\<lambda>_. K) (ramdisk_read fd buf n s)"
  by (rule read_into [OF _ poke])

end

section \<open>The kernel's invariant\<close>

text \<open>
  The scheduler, the keyboard queues and the descriptor table are in order, and the timer and the keyboard
  have their handlers.
\<close>

definition irq_table :: "'a idt_state_scheme \<Rightarrow> bool" where
  "irq_table s \<longleftrightarrow> length (isr_handlers s) = 256 \<and> isr_handlers s ! 32 = Some Timer_Handler \<and>
     isr_handlers s ! 33 = Some Keyboard_Handler"

definition kernel_inv :: "u64 list \<Rightarrow> 'a rd_state_scheme \<Rightarrow> bool" where
  "kernel_inv ps s \<longleftrightarrow> sched_inv s ps \<and> kb_inv s \<and> fds_ok s \<and> irq_table s"

text \<open>Process \<open>c\<close>, which is not idle, is in the kernel.\<close>

definition kinv :: "u64 list \<Rightarrow> u64 \<Rightarrow> 'a rd_state_scheme \<Rightarrow> bool" where
  "kinv ps c s \<longleftrightarrow> kernel_inv ps s \<and> current s = c \<and> c \<noteq> idle s"

lemma kinvD: "kinv ps c s \<Longrightarrow> sched_inv s ps" "kinv ps c s \<Longrightarrow> kb_inv s" "kinv ps c s \<Longrightarrow> current s = c" "kinv ps c s \<Longrightarrow> c \<noteq> idle s"
  "kinv ps c s \<Longrightarrow> fds_ok s" "kinv ps c s \<Longrightarrow> irq_table s"
  by (simp_all add: kinv_def kernel_inv_def)

text \<open>The part of the state the invariant reads, the process table apart.\<close>

definition rest_same :: "'a rd_state_scheme \<Rightarrow> 'a rd_state_scheme \<Rightarrow> bool" where
  "rest_same s t \<longleftrightarrow> kb_same s t \<and> fds t = fds s \<and> isr_handlers t = isr_handlers s"

lemma rest_sameD: "rest_same s t \<Longrightarrow> kb_inv t = kb_inv s" "rest_same s t \<Longrightarrow> fds_ok t = fds_ok s" "rest_same s t \<Longrightarrow> irq_table t = irq_table s"
  by (auto simp: rest_same_def kb_same_queues(1) fds_ok_def irq_table_def)

lemma rest_same_ops:
  "rest_same s (snd (inb p s))" "rest_same s (pic_send_eoi i s)" "console_only s t \<Longrightarrow> rest_same s t" "rest_same s (upd_proc x f s)"
  by (simp_all add: rest_same_def kb_same_ops) (auto simp: inb_def pic_send_eoi_def outb_def console_only_def upd_proc_def)

lemma kernel_inv_cong:
  "procs t = procs s \<Longrightarrow> idle t = idle s \<Longrightarrow> current t = current s \<Longrightarrow> rest_same s t \<Longrightarrow> kernel_inv ps t = kernel_inv ps s"
  by (simp add: kernel_inv_def sched_inv_cong [of t s] rest_sameD)

lemma kinv_cong:
  "procs t = procs s \<Longrightarrow> idle t = idle s \<Longrightarrow> current t = current s \<Longrightarrow> rest_same s t \<Longrightarrow> kinv ps c t = kinv ps c s"
  by (simp add: kinv_def kernel_inv_cong [of t s])

lemma more_fields:
  fixes s t :: "'a rd_state_scheme"
  assumes "vmm_state.more t = vmm_state.more s"
  shows "procs t = procs s" "idle t = idle s" "current t = current s" "rest_same s t"
  using assms by (cases s, cases t, simp add: rest_same_def kb_same_def)+

lemma kernel_inv_fds: "kernel_inv ps s \<Longrightarrow> (in_use f \<Longrightarrow> fd_pos f \<le> fd_size f) \<Longrightarrow> kernel_inv ps (s\<lparr>fds := (fds s)[i := f]\<rparr>)"
  using fds_ok_update [of s f i] sched_inv_cong [of "s\<lparr>fds := (fds s)[i := f]\<rparr>" s]
  by (simp add: kernel_inv_def irq_table_def kb_inv_def kb_chars_def)

lemma kinv_fds: "kinv ps c s \<Longrightarrow> (in_use f \<Longrightarrow> fd_pos f \<le> fd_size f) \<Longrightarrow> kinv ps c (s\<lparr>fds := (fds s)[i := f]\<rparr>)"
  unfolding kinv_def using kernel_inv_fds [of ps s f i] by simp

interpretation kernel_upper: file_state "kinv ps c" for ps c
proof
  fix s t :: "'a rd_state_scheme"
  assume m: "vmm_state.more t = vmm_state.more s" and k: "kinv ps c s"
  show "kinv ps c t" using kinv_cong [OF more_fields [OF m]] k by simp
qed (rule kinv_fds)

text \<open>How a call may end: with a value for the caller, or with another process running.\<close>

definition sysok :: "u64 list \<Rightarrow> u64 \<Rightarrow> sysret \<Rightarrow> 'a rd_state_scheme \<Rightarrow> bool" where
  "sysok ps c r t \<longleftrightarrow> (case r of
      Done v \<Rightarrow> kinv ps c t
    | Away \<Rightarrow> kernel_inv ps t \<and> current t \<noteq> c \<and> status t (current t) = Some PROCESS_RUNNING)"

lemma sysok_Done [simp]: "sysok ps c (Done v) t \<longleftrightarrow> kinv ps c t"
  by (simp add: sysok_def)

lemma tick_rest:
  assumes "sched_inv s ps" and "scheduler_tick s = Ret ctl t"
  shows "rest_same s t"
  using assms(2) unfolding tick_effect [OF sched_invD(1,2) [OF assms(1)]]
  by (auto simp: woken_def hand_over_def kb_same_def rest_same_def split: if_splits)

lemma after_tick_away:
  assumes k: "kinv ps c s"
  shows "\<exists>t. after_tick s rest = Ret Away t \<and> sysok ps c Away t"
proof -
  note i = kinvD [OF k]
  obtain ctl t where t: "scheduler_tick s = Ret ctl t" "sched_inv t ps" "current t = chosen ps s"
    "status t (current t) = Some PROCESS_RUNNING" "ctl = Switched \<longleftrightarrow> current t \<noteq> current s" using tick_runs [OF i(1)] by blast
  have ne: "current t \<noteq> c" using chosen_current [OF i(1)] t(3) i(3,4) by auto
  then have "ctl = Switched" using t(5) i(3) by simp
  moreover have "kernel_inv ps t" using rest_sameD [OF tick_rest [OF i(1) t(1)]] i t(2) by (simp add: kernel_inv_def)
  ultimately show ?thesis using t ne by (auto simp: after_tick_def sysok_def)
qed

lemma kinv_current: "kinv ps c s \<Longrightarrow> c \<in> set ps" "kinv ps c s \<Longrightarrow> c \<noteq> NULL" "kinv ps c s \<Longrightarrow> \<exists>p. procs s c = Some p"
proof -
  assume k: "kinv ps c s"
  note i = kinvD [OF k]
  show "c \<in> set ps" "c \<noteq> NULL" using sched_invD(2,5) [OF i(1)] i(3,4) by auto
  then show "\<exists>p. procs s c = Some p" using ring_member [OF sched_invD(1) [OF i(1)], of c] by simp
qed

lemma kinv_block:
  assumes "kinv ps c s" and "\<And>p. pnext (f p) = pnext p" and "\<And>p. pstate (f p) \<noteq> PROCESS_RUNNING"
  shows "kinv ps c (upd_proc c f s)"
  using sched_inv_upd [OF kinvD(1) [OF assms(1)] assms(2,3) kinv_current(1) [OF assms(1)]] assms(1)
    rest_sameD [OF rest_same_ops(4) [of s c f]]
  by (simp add: kinv_def kernel_inv_def) (simp add: upd_proc_def)

lemma kinv_update:
  assumes k: "kinv ps c s" and f: "\<And>p. pnext (f p) = pnext p" "\<And>p. pstate (f p) = pstate p"
  shows "kinv ps c (upd_proc c f s)"
proof -
  let ?t = "upd_proc c f s"
  note i = sched_invD [OF kinvD(1) [OF k]]
  have st: "status ?t x = status s x" for x by (auto simp: upd_proc_def option.map_comp comp_def f(2))
  have o: "idle ?t = idle s" "current ?t = current s" by (simp_all add: upd_proc_def)
  have "ring ?t ps" using i(1) by (rule ring_cong) (auto simp: upd_proc_def option.map_comp comp_def f(1))
  then have "sched_inv ?t ps" using i(2,6,7) by (intro sched_invI [of ?t ps "current s" "idle s"]) (simp_all only: st o)
  then show ?thesis using k rest_sameD [OF rest_same_ops(4) [of s c f]] o by (simp add: kinv_def kernel_inv_def)
qed

lemma kinv_queues:
  assumes k: "kinv ps c s" and "kb_inv t" and "procs t = procs s" "idle t = idle s" "current t = current s"
    and "fds t = fds s" "isr_handlers t = isr_handlers s"
  shows "kinv ps c t"
  using assms by (simp add: kinv_def kernel_inv_def sched_inv_cong [of t s] fds_ok_def irq_table_def)

lemma kinv_getchar: "kinv ps c s \<Longrightarrow> kinv ps c (snd (keyboard_getchar s))"
proof -
  assume k: "kinv ps c s"
  have "snd (kb_get s) = snd (keyboard_getchar s)" by (simp add: kb_get_def split: prod.split)
  then have "kb_inv (snd (keyboard_getchar s))" using char_queue.get_inv [OF kinvD(2) [OF k]] by simp
  then show ?thesis by (rule kinv_queues [OF k]) (simp_all add: keyboard_getchar_def)
qed

lemma kinv_get_event: "kinv ps c s \<Longrightarrow> kinv ps c (snd (keyboard_get_event s))"
  by (rule kinv_queues [of ps c s, OF _ event_queue.get_inv]) (auto simp: kinvD keyboard_get_event_def)

section \<open>Call by call\<close>

lemma write_ok: "kinv ps c s \<Longrightarrow> yields (sysok ps c) (sys_write p n s)"
proof -
  assume k: "kinv ps c s"
  have "yields (\<lambda>_. kinv ps c) (case peek (p + of_nat i) t of None \<Rightarrow> Fault
     | Some ch \<Rightarrow> let t1 = vga_putchar ch t
         in case peek (p + of_nat i) t1 of None \<Rightarrow> Fault | Some c' \<Rightarrow> serial_putchar c' t1)"
    if "kinv ps c t" for i and t :: "'a sys_state_scheme"
    using that by (auto simp: Let_def split: option.split intro!: kernel_upper.serial_char kernel_upper.putchar)
  from yields_for_loop [of "kinv ps c", OF k this] show ?thesis
    using k unfolding sys_write_def by (auto intro: yields_mono)
qed

lemma switching_ok:
  assumes k: "kinv ps c s"
  shows "yields (sysok ps c) (sys_exit x s)" "yields (sysok ps c) (sys_yield s)" "yields (sysok ps c) (sys_sleep n s)"
proof -
  obtain p where p: "procs s c = Some p" using kinv_current(3) [OF k] by blast
  have cur: "scheduler_current s = c" using kinvD(3) [OF k] by (simp add: scheduler_current_def)
  have away: "yields (sysok ps c) (after_tick t rest)" if "kinv ps c t" for t rest
    using after_tick_away [OF that, of rest] by auto
  show "yields (sysok ps c) (sys_exit x s)" using kinv_current(2) [OF k]
    unfolding sys_exit_def cur Let_def deref_def p option.case
    by (simp only: if_False) (rule away, rule kinv_block [OF k], simp_all)
  show "yields (sysok ps c) (sys_sleep n s)" using kinv_current(2) [OF k]
    unfolding sys_sleep_def cur Let_def deref_def p option.case
    by (simp only: if_False) (rule away, rule kinv_block [OF k], simp_all)
  show "yields (sysok ps c) (sys_yield s)" by (simp add: sys_yield_def away [OF k])
qed

lemma read_loop_ok: "kinv ps c s \<Longrightarrow> read_loop buf len i s = Some r \<Longrightarrow> yields (sysok ps c) r"
proof -
  have "kinv ps c s \<longrightarrow> yields (sysok ps c) r" if "read_loop buf len i s = Some r" for i and s :: "'a rd_state_scheme" and r
  proof (rule read_loop.raw_induct [of "\<lambda>buf len i s r. kinv ps c s \<longrightarrow> yields (sysok ps c) r", OF _ that], rule impI)
    fix f buf len i and s :: "'a rd_state_scheme" and r
    assume IH: "\<And>buf len i s r. f buf len i s = Some r \<Longrightarrow> kinv ps c s \<longrightarrow> yields (sysok ps c) r" and k: "kinv ps c s"
      and e: "(if i < len then
        (if keyboard_has_char s then
           (case keyboard_getchar s of (ch, s1) \<Rightarrow>
              case poke (buf + i) ch s1 of
                Ret _ s2 \<Rightarrow> if ch = 0x0A then Some (Ret (Done (i + 1)) s2) else f buf len (i + 1) s2
              | Halt s2 \<Rightarrow> Some (Halt s2) | Hang \<Rightarrow> Some Hang | Fault \<Rightarrow> Some Fault)
         else
           (case procs s (scheduler_current s) of
              None \<Rightarrow> Some Fault
            | Some _ \<Rightarrow>
                (case scheduler_tick (upd_proc (scheduler_current s) (\<lambda>p. p\<lparr>wait_reason := WAIT_KEY, pstate := PROCESS_BLOCKED\<rparr>) s) of
                   Ret ctl s1 \<Rightarrow> (case ctl of Switched \<Rightarrow> Some (Ret Away s1) | Returned \<Rightarrow> f buf len i s1)
                 | Halt s1 \<Rightarrow> Some (Halt s1) | Hang \<Rightarrow> Some Hang | Fault \<Rightarrow> Some Fault)))
      else Some (Ret (Done len) s)) = Some r"
    let ?u = "upd_proc c (\<lambda>p. p\<lparr>wait_reason := WAIT_KEY, pstate := PROCESS_BLOCKED\<rparr>) s"
    have "kinv ps c ?u" by (rule kinv_block [OF k]) simp_all
    from after_tick_away [OF this, of "\<lambda>_. Fault"] obtain t where t: "scheduler_tick ?u = Ret Switched t" "sysok ps c Away t"
      by (cases "scheduler_tick ?u") (auto simp: after_tick_def split: control.splits)
    have pk: "yields (\<lambda>_. kinv ps c) (poke v b (snd (keyboard_getchar s)))" for v b
      by (rule kernel_upper.poke [OF kinv_getchar [OF k]])
    have cur: "scheduler_current s = c" using kinvD(3) [OF k] by (simp add: scheduler_current_def)
    show "yields (sysok ps c) r"
    proof (cases "i < len \<and> \<not> keyboard_has_char s")
      case True
      then have "r = Fault \<or> r = Ret Away t" using e t(1) unfolding cur by (auto split: option.splits)
      then show ?thesis using t(2) by auto
    next
      case False
      then show ?thesis using e k IH pk [of "buf + i" "fst (keyboard_getchar s)"]
        by (cases "keyboard_getchar s"; cases "poke (buf + i) (fst (keyboard_getchar s)) (snd (keyboard_getchar s))") (auto split: if_splits)
    qed
  qed
  then show "kinv ps c s \<Longrightarrow> read_loop buf len i s = Some r \<Longrightarrow> yields (sysok ps c) r" by blast
qed


lemma current_cases:
  assumes k: "kinv ps c s"
  shows "scheduler_current s = c" "c \<noteq> NULL" "deref c s g = g (the (procs s c))"
  using kinvD(3) [OF k] kinv_current(2,3) [OF k] by (auto simp: scheduler_current_def deref_def)

lemma query_ok:
  assumes k: "kinv ps c s"
  shows "yields (sysok ps c) (sys_getpid s)" "yields (sysok ps c) (sys_gettime s)" "yields (sysok ps c) (sys_getkey s)"
    "yields (sysok ps c) (sys_read buf n s)" "yields (sysok ps c) (sys_get_raw_key buf s)"
proof -
  note q = current_cases [OF k]
  show "yields (sysok ps c) (sys_getpid s)" "yields (sysok ps c) (sys_gettime s)"
    using k q(1,2) kinv_current(3) [OF k] by (auto simp: sys_getpid_def sys_gettime_def Let_def deref_def)
  show "yields (sysok ps c) (sys_getkey s)"
    using k kinv_getchar [OF k] by (cases "keyboard_getchar s") (auto simp: sys_getkey_def)
  show "yields (sysok ps c) (sys_read buf n s)"
    unfolding sys_read_def using k by (auto intro: yields_of_loop dest: read_loop_ok [OF k])
  note e = kinv_get_event [OF k]
  show "yields (sysok ps c) (sys_get_raw_key buf s)"
  proof (cases "keyboard_get_event s")
    case (Pair o' s1)
    then have "kinv ps c s1" using e by simp
    then show ?thesis using Pair
      by (cases o') (auto simp: sys_get_raw_key_def intro!: yields_mono [OF kernel_upper.poke])
  qed
qed

lemma map_fb_ok: "kinv ps c s \<Longrightarrow> yields (sysok ps c) (sys_map_fb s)"
proof -
  assume k: "kinv ps c s"
  note q = current_cases [OF k]
  let ?pt = "page_table (the (procs s c))"
  have "yields (\<lambda>_. kinv ps c) (for_loop 16 0 (\<lambda>i. vmm_map_in ?pt (USER_FB_VIRT + of_nat i * 0x1000) (0xA0000 + of_nat i * 0x1000)
          (PTE_PRESENT OR PTE_WRITABLE OR PTE_USER)) s)"
    by (rule yields_for_loop [of "kinv ps c", OF k]) (rule kernel_upper.map_in)
  then have "yields (sysok ps c) (obind (for_loop 16 0 (\<lambda>i. vmm_map_in ?pt (USER_FB_VIRT + of_nat i * 0x1000) (0xA0000 + of_nat i * 0x1000)
          (PTE_PRESENT OR PTE_WRITABLE OR PTE_USER)) s) (\<lambda>_ s1. Ret (Done USER_FB_VIRT) s1))"
    unfolding yields_obind by (rule yields_mono) simp
  then show ?thesis using k q(2) unfolding sys_map_fb_def q(1) Let_def q(3) by (simp only: if_False) (simp split: if_split)
qed

lemma setpalette_ok: "kinv ps c s \<Longrightarrow> yields (sysok ps c) (sys_setpalette p s)"
proof -
  assume k: "kinv ps c s"
  have "yields (\<lambda>_. kinv ps c) (for_loop 256 0 (\<lambda>i t.
       case (peek (p + of_nat (i * 3)) t, peek (p + of_nat (i * 3 + 1)) t, peek (p + of_nat (i * 3 + 2)) t) of
         (Some r, Some g, Some b) \<Rightarrow> Ret () (fb_set_palette (of_nat i) r g b t)
       | _ \<Rightarrow> Fault) s)"
    by (rule yields_for_loop [of "kinv ps c", OF k]) (auto split: option.split intro: kernel_upper.palette)
  then show ?thesis unfolding sys_setpalette_def by (auto intro: yields_mono)
qed

lemma sbrk_ok: "kinv ps c s \<Longrightarrow> yields (sysok ps c) (sys_sbrk n s)"
proof -
  assume k: "kinv ps c s"
  note q = current_cases [OF k]
  have grown: "yields (sysok ps c) (deref c t (\<lambda>p.
            if heap_start p = 0 then Ret (Done (-1)) t
            else if n = 0 then Ret (Done (heap_end p)) t
            else
              let base = heap_start p; old_end = heap_end p; new_end = old_end + n;
                  old_pages = heap_page_count base old_end; new_pages = heap_page_count base new_end
              in obind (sbrk_pages (unat new_pages - unat old_pages) old_pages base (page_table p) t) (\<lambda>mapped s2.
                   if \<not> mapped then Ret (Done (-1)) s2
                   else deref c s2 (\<lambda>_. Ret (Done old_end) (upd_proc c (\<lambda>p. p\<lparr>heap_end := new_end\<rparr>) s2)))))"
    if t: "kinv ps c t" for t :: "'a rd_state_scheme"
  proof -
    have fin: "yields (sysok ps c) (deref c s2 (\<lambda>_. Ret (Done v) (upd_proc c (\<lambda>p. p\<lparr>heap_end := e\<rparr>) s2)))"
      if "kinv ps c s2" for v e and s2 :: "'a rd_state_scheme"
      using that unfolding current_cases(3) [OF that] by (auto intro: kinv_update)
    show ?thesis using t unfolding current_cases(3) [OF t] Let_def
      by (auto simp only: if_splits yields.simps sysok_Done yields_obind intro!: yields_mono [OF kernel_upper.paging.sbrk] fin)
  qed
  have "yields (\<lambda>_. kinv ps c) (if 0 < sint n then serial_print (str ''DOOM expanding heap via sbrk'' @ [0x0A]) s else Ret () s)"
    using k kernel_upper.serial [OF k] by (simp only: yields.simps split: if_split) blast
  then show ?thesis unfolding sys_sbrk_def q(1) Let_def yields_obind
    by (rule yields_mono) (use q(2) grown [unfolded Let_def] in simp)
qed

section \<open>Calls on files\<close>

lemma kinv_msr [simp]: "kinv ps c (s\<lparr>msr := m\<rparr>) = kinv ps c (s :: 'a sys_state_scheme)"
  by (rule kinv_cong) (simp_all add: rest_same_def kb_same_def)

lemma kinv_first [simp]: "kinv ps c (s\<lparr>linux_first := b\<rparr>) = kinv ps c s"
  by (rule kinv_cong) (simp_all add: rest_same_def kb_same_def)

lemma file_ok:
  assumes k: "kinv ps c s"
  shows "yields (sysok ps c) (sys_open disk path s)" "yields (sysok ps c) (sys_fread fd buf n s)"
    "yields (sysok ps c) (sys_fseek fd off w s)" "yields (sysok ps c) (sys_fclose fd s)"
    "yields (sysok ps c) (sys_fsize fd s)" "yields (sysok ps c) (sys_set_fs_base b (s :: 'a sys_state_scheme))"
proof -
  show "yields (sysok ps c) (sys_open disk path s)" unfolding sys_open_def yields_obind
    by (rule yields_mono [OF kernel_upper.serial [OF k]], rule yields_mono [OF yields_of_loop [OF kernel_upper.print_user]], assumption+,
        rule yields_mono [OF kernel_upper.serial], assumption, rule yields_mono [OF kernel_upper.file_open], assumption, simp)
  show "yields (sysok ps c) (sys_fread fd buf n s)" unfolding sys_fread_def yields_obind
    by (rule yields_mono [OF kernel_upper.file_read [OF k]]) simp
  show "yields (sysok ps c) (sys_fseek fd off w s)" "yields (sysok ps c) (sys_fclose fd s)" "yields (sysok ps c) (sys_fsize fd s)"
    "yields (sysok ps c) (sys_set_fs_base b s)"
    using kernel_upper.file_seek [OF k] kernel_upper.file_close [OF k] k
    by (auto simp: sys_fseek_def sys_fclose_def sys_fsize_def sys_set_fs_base_def Let_def split: prod.split) (metis snd_conv)
qed

section \<open>The Linux calls\<close>

lemma mmap_ok: "kinv ps c s \<Longrightarrow> yields (sysok ps c) (linux_mmap n s)"
proof -
  assume k: "kinv ps c s"
  note q = current_cases [OF k]
  have "kinv ps c (upd_proc c (\<lambda>p. p\<lparr>heap_end := (heap_end p + 4095) AND NOT 4095\<rparr>) s)" by (rule kinv_update [OF k]) simp_all
  then show ?thesis using k q(2) unfolding linux_mmap_def q(1) Let_def q(3) by (auto intro: sbrk_ok)
qed

lemma brk_ok: "kinv ps c s \<Longrightarrow> yields (sysok ps c) (linux_brk n s)"
proof -
  assume k: "kinv ps c s"
  note q = current_cases [OF k]
  have fin: "yields (sysok ps c) (deref c s2 (\<lambda>_. Ret (Done v) (upd_proc c (\<lambda>p. p\<lparr>heap_end := e\<rparr>) s2)))"
    if "kinv ps c s2" for v e and s2 :: "'a rd_state_scheme"
    using that unfolding current_cases(3) [OF that] by (auto intro: kinv_update)
  have b: "yields (\<lambda>_. kinv ps c) (of_loop (brk_loop pt v e s))" for pt v e
    by (rule yields_of_loop) (rule kernel_upper.paging.brk [OF k])
  have "yields (\<lambda>_ t. yields (sysok ps c) (deref c t (\<lambda>_. Ret (Done x) (upd_proc c (\<lambda>p. p\<lparr>heap_end := x\<rparr>) t))))
    (of_loop (brk_loop pt v e s))" for x pt v e
    by (rule yields_mono [OF b]) (rule fin)
  then show ?thesis using k kinv_update [OF k, of "\<lambda>p. p\<lparr>heap_end := n\<rparr>"]
    unfolding linux_brk_def q(1) Let_def q(3) yields_obind by (simp add: q(3) split: if_split)
qed

lemma readv_ok: "kinv ps c s \<Longrightarrow> yields (sysok ps c) (readv_loop n i fd iov tot s)"
proof (induction n arbitrary: i tot s)
  case (Suc n)
  show ?case unfolding readv_loop.simps Let_def
    by (auto split: option.split intro!: Suc.IH Suc.prems yields_mono [OF kernel_upper.file_read [OF Suc.prems]])
qed simp

lemma writev_ok: "kinv ps c s \<Longrightarrow> yields (sysok ps c) (writev_loop n i iov tot s)"
proof (induction n arbitrary: i tot s)
  case (Suc n)
  have "yields (\<lambda>_. kinv ps c) (sys_write p l s)" for p l
    using write_ok [OF Suc.prems, of p l] unfolding sys_write_def by (cases "p < 0x1000") auto
  then have w: "yields Q (sys_write p l s)" if "\<And>x t. kinv ps c t \<Longrightarrow> Q x t" for Q p l using that by (rule yields_mono)
  show ?case unfolding writev_loop.simps
    by (auto split: option.split intro!: Suc.IH Suc.prems w)
qed simp

lemma linux_ok: "kinv ps c s \<Longrightarrow> yields (sysok ps c) (linux_syscall disk num a b d s)"
  unfolding linux_syscall_def
  by (simp add: file_ok write_ok switching_ok query_ok map_fb_ok setpalette_ok sbrk_ok mmap_ok brk_ok readv_ok writev_ok)

lemma native_ok: "kinv ps c s \<Longrightarrow> yields (sysok ps c) (native_syscall disk num a b d s)"
  unfolding native_syscall_def
  by (simp add: file_ok write_ok switching_ok query_ok map_fb_ok setpalette_ok sbrk_ok)

lemma dispatch_ok:
  assumes k: "kinv ps c s"
  shows "yields (sysok ps c) (syscall_dispatch disk num a b d s)"
proof -
  note q = current_cases [OF k]
  have "yields (\<lambda>_. kinv ps c) (if linux_first s
     then obind (serial_print (str ''LINUX ABI DISPATCH ACTIVE'' @ [0x0A]) s) (\<lambda>_ s1. Ret () (s1\<lparr>linux_first := False\<rparr>)) else Ret () s)"
    using k kernel_upper.serial [OF k] by (simp only: yields.simps yields_obind kinv_first split: if_split) blast
  then have "yields (sysok ps c) (linux_syscall_dispatch disk num a b d s)"
    unfolding linux_syscall_dispatch_def yields_obind by (rule yields_mono) (rule linux_ok)
  then show ?thesis using q(2) native_ok [OF k] unfolding syscall_dispatch_def q(1) Let_def q(3) by simp
qed

end
