(* ===== verification/Kernel_Frame.thy ===== *)
theory Kernel_Frame
  imports Syscall_Safety
begin

text \<open>
  Which bytes of memory a system call may write. In the model the kernel's processes, queues and tables are fields of the state,
  while in the machine they are bytes that any unchecked pointer can reach. The
  lemmas here close that gap: a call whose pointers lead elsewhere, and whose page tables were built clear of
  the kernel's data, leaves every byte of that data as it was. \<open>call_apart\<close> says what is needed of each call.
\<close>

section \<open>Page tables\<close>

lemma small_offset:
  assumes "page_aligned t" and "unat x < 4096"
  shows "ENTRY_ADDR (t + x) = t"
proof -
  have m: "(0xFFF :: u64) = mask 12" by (simp add: mask_eq_exp_minus_1)
  have x: "take_bit 12 x = x" using assms(2)
    by (simp add: word_unat_eq_iff unsigned_take_bit_eq take_bit_eq_mod unat_mod)
  have t: "take_bit 12 t = 0" using assms(1) by (simp add: page_aligned_mask m take_bit_eq_mask)
  have "t AND x = 0"
  proof (rule bit_word_eqI)
    fix n
    have "bit (take_bit 12 t) n = bit (0::u64) n" "bit (take_bit 12 x) n = bit x n" unfolding t x by simp_all
    then have "bit t n \<Longrightarrow> \<not> n < 12" "bit x n \<Longrightarrow> n < 12" by (auto simp: bit_take_bit_iff)
    then show "bit (t AND x) n = bit (0::u64) n" by (auto simp: bit_and_iff)
  qed
  then have "t + x = t OR x" by (rule disjunctive_add_eq_or)
  moreover have "x AND NOT 0xFFF = 0"
  proof -
    have "take_bit 12 x AND NOT (mask 12) = 0" unfolding take_bit_eq_mask by (simp add: and.assoc)
    then show ?thesis using x m by simp
  qed
  ultimately show ?thesis using ENTRY_ADDR_or [OF assms(1), of x] by simp
qed

lemma entry_byte_page:
  assumes "page_aligned t" and "unat i < 512" and "unat k < 8"
  shows "ENTRY_ADDR (entry_addr t i + k) = t"
proof -
  have "unat (8 * i) = 8 * unat i" using assms(2) by (simp add: unat_word_ariths)
  then have "unat (8 * i + k) = 8 * unat i + unat k" using assms(2,3) by (simp add: unat_word_ariths)
  then have "unat (8 * i + k) < 4096" using assms(2,3) by linarith
  from small_offset [OF assms(1) this] show ?thesis by (simp add: entry_addr_def add.assoc)
qed

lemma store_entry_frame:
  assumes "page_aligned t" and "unat i < 512" and "ENTRY_ADDR a \<noteq> t"
  shows "store64 m (entry_addr t i) v a = m a"
  by (rule store64_outside) (use entry_byte_page [OF assms(1,2)] assms(3) in auto)

lemma clear_table_frame:
  assumes "page_aligned t" and "ENTRY_ADDR a \<noteq> t"
  shows "for_upd 512 0 (\<lambda>i m. store64 m (entry_addr t (of_nat i)) 0) m a = m a"
proof -
  let ?P = "\<lambda>(_::nat) m'. m' a = m a"
  have "?P (0 + 512) (for_upd 512 0 (\<lambda>i m. store64 m (entry_addr t (of_nat i)) 0) m)"
  proof (rule for_upd_rule [where P = ?P])
    fix j :: nat and m' :: memory
    assume "j < 0 + 512" "m' a = m a"
    moreover from this(1) have "unat (of_nat j :: u64) < 512" using unat_of_nat_small [of j, where ?'a = 64] by simp
    ultimately show "store64 m' (entry_addr t (of_nat j)) 0 a = m a" using store_entry_frame [OF assms(1) _ assms(2)] by simp
  qed simp
  then show ?thesis .
qed

lemma alloc_frame:
  assumes "pmm_inv s" and "pmm_alloc s = (f, s1)" and "f \<noteq> NULL"
  shows "f \<in> avail s" "avail s1 = avail s - {f}" "pmm_inv s1"
  using bitmap_pmm.alloc_take [OF assms(1)] bitmap_pmm.alloc_null_iff [OF assms(1)] assms(2,3) by auto

text \<open>The pages a routine of the virtual memory manager may write: the table it was given and the free frames.\<close>

lemma goc_bytes:
  assumes "pmm_inv s" and "page_aligned t" and "unat i < 512" and r: "get_or_create_table (entry_addr t i) fl s = Ret t' s'"
    and "ENTRY_ADDR a \<noteq> t" and "ENTRY_ADDR a \<notin> avail s"
  shows "mem s' a = mem s a"
proof (cases "load64 (mem s) (entry_addr t i) AND PTE_PRESENT = 0")
  case True
  obtain f s1 where al: "pmm_alloc s = (f, s1)" by (cases "pmm_alloc s")
  then have "f \<noteq> NULL" using r True by (auto simp: get_or_create_table_def)
  then have f: "f \<in> avail s" using alloc_frame [OF assms(1) al] by simp
  then have fp: "page_aligned f" using bitmap_pmm.frames_page [OF assms(1) f] by (simp add: page_aligned_mask)
  have "ENTRY_ADDR a \<noteq> f" using f assms(6) by auto
  then show ?thesis using r True al \<open>f \<noteq> NULL\<close> pmm_alloc_vmm [OF al] store_entry_frame [OF assms(2,3,5)] clear_table_frame [OF fp]
    by (auto simp: get_or_create_table_def Let_def)
next
  case False
  then show ?thesis using r store_entry_frame [OF assms(2,3,5)]
    by (auto simp: get_or_create_table_def or_entry_def Let_def split: if_splits)
qed

lemma goc_Ret:
  assumes wf: "as_wf r s" and p: "vpath p" "length p \<le> 2" "pview (mem s) r p = Some (t, False)" "unat i < 512"
    and run: "get_or_create_table (entry_addr t i) (PTE_WRITABLE OR PTE_USER) s = Ret t' s'"
  shows "as_wf r s'" "cr3 s' = cr3 s" "avail s' \<subseteq> avail s" "pview (mem s) r (i # p) = Some (t', False) \<or> t' \<in> avail s"
    and "vpath q \<Longrightarrow> length q \<le> 4 \<Longrightarrow> pview (mem s') r q = (if q = i # p then Some (t', False) else pview (mem s) r q)"
    and "ENTRY_ADDR a \<noteq> t \<Longrightarrow> ENTRY_ADDR a \<notin> avail s \<Longrightarrow> mem s' a = mem s a"
proof -
  let ?e = "load64 (mem s) (entry_addr t i)"
  have nh: "pview (mem s) r (i # p) \<noteq> Some (a, True)" for a
    using run p(3) by (auto simp: get_or_create_table_def eview_def Let_def split: if_splits)
  have av: "avail s \<noteq> {}" if "pview (mem s) r (i # p) = None"
  proof
    assume "avail s = {}"
    then have "pmm_alloc s = (NULL, s)" by (rule bitmap_pmm.alloc_empty [OF as_wfD(1) [OF wf]])
    moreover have "?e AND PTE_PRESENT = 0" using that p(3) by (simp add: eview_None_bits)
    ultimately show False using run by (simp add: get_or_create_table_def)
  qed
  from goc_ok [OF wf p nh av] run show "as_wf r s'" "cr3 s' = cr3 s" "avail s' \<subseteq> avail s"
      "pview (mem s) r (i # p) = Some (t', False) \<or> t' \<in> avail s"
      "vpath q \<Longrightarrow> length q \<le> 4 \<Longrightarrow> pview (mem s') r q = (if q = i # p then Some (t', False) else pview (mem s) r q)"
    by (auto simp del: pview.simps)
  show "mem s' a = mem s a" if "ENTRY_ADDR a \<noteq> t" "ENTRY_ADDR a \<notin> avail s"
    by (rule goc_bytes [OF as_wfD(1) [OF wf] pview_aligned [OF as_wfD(2) [OF wf] p(3)] p(4) run that])
qed

text \<open>
  The address space with root \<open>r\<close> is built clear of the bytes in \<open>K\<close>: it is well formed, none of its tables
  and no free frame shares a page with a byte of \<open>K\<close>.
\<close>

definition space_apart :: "u64 set \<Rightarrow> u64 \<Rightarrow> 'a vmm_state_scheme \<Rightarrow> bool" where
  "space_apart K r s \<longleftrightarrow> as_wf r s \<and> avail s \<inter> ENTRY_ADDR ` K = {} \<and>
     (\<forall>q t. vpath q \<longrightarrow> length q \<le> 3 \<longrightarrow> pview (mem s) r q = Some (t, False) \<longrightarrow> t \<notin> ENTRY_ADDR ` K)"

lemma space_apartD:
  assumes "space_apart K r s"
  shows "as_wf r s" "f \<in> avail s \<Longrightarrow> f \<notin> ENTRY_ADDR ` K"
    "vpath q \<Longrightarrow> length q \<le> 3 \<Longrightarrow> pview (mem s) r q = Some (t, False) \<Longrightarrow> t \<notin> ENTRY_ADDR ` K"
  using assms unfolding space_apart_def by blast+

definition same_bytes :: "u64 set \<Rightarrow> 'a vmm_state_scheme \<Rightarrow> 'a vmm_state_scheme \<Rightarrow> bool" where
  "same_bytes K s t \<longleftrightarrow> (\<forall>a \<in> K. mem t a = mem s a)"

lemma same_bytesI: "(\<And>a. a \<in> K \<Longrightarrow> mem t a = mem s a) \<Longrightarrow> same_bytes K s t"
  by (simp add: same_bytes_def)

lemma same_bytes_trans [trans]: "same_bytes K s t \<Longrightarrow> same_bytes K t u \<Longrightarrow> same_bytes K s u"
  by (simp add: same_bytes_def)

lemma same_bytes_mem: "mem t = mem s \<Longrightarrow> same_bytes K s t"
  by (simp add: same_bytes_def)

lemma goc_apart:
  assumes sa: "space_apart K r s" and p: "vpath p" "length p \<le> 2" "pview (mem s) r p = Some (t, False)" "unat i < 512"
    and run: "get_or_create_table (entry_addr t i) (PTE_WRITABLE OR PTE_USER) s = Ret t' s'"
  shows "space_apart K r s'" "same_bytes K s s'" "cr3 s' = cr3 s" "pview (mem s') r (i # p) = Some (t', False)"
proof -
  note d = space_apartD [OF sa] and g = goc_Ret [OF space_apartD(1) [OF sa] p run]
  have ip: "vpath (i # p)" "length (i # p) \<le> 3" using p by (simp_all add: vpath_def)
  show pv: "pview (mem s') r (i # p) = Some (t', False)" using g(5) [of "i # p"] ip by simp
  show "cr3 s' = cr3 s" by (rule g(2))
  have "t \<notin> ENTRY_ADDR ` K" using d(3) [OF p(1) _ p(3)] p(2) by simp
  then show "same_bytes K s s'" by (intro same_bytesI g(6)) (use d(2) in blast)+
  have t': "t' \<notin> ENTRY_ADDR ` K" using g(4) d(2) d(3) [OF ip] by blast
  have "u \<notin> ENTRY_ADDR ` K" if "vpath q" "length q \<le> 3" "pview (mem s') r q = Some (u, False)" for q u
  proof (cases "q = i # p")
    case True
    then show ?thesis using that(3) pv t' by simp
  next
    case False
    then show ?thesis using that g(5) [of q] d(3) [of q u] by simp
  qed
  then show "space_apart K r s'" unfolding space_apart_def using g(1,3) d(2) by blast
qed

lemma map_apart:
  assumes sa: "space_apart K r s" and r: "r = ENTRY_ADDR (cr3 s)"
  shows "yields (\<lambda>_ t. space_apart K r t \<and> same_bytes K s t) (vmm_map v f fl s)"
proof (cases "vmm_map v f fl s")
  case (Ret x s')
  let ?q1 = "[PML4_INDEX v]" and ?q2 = "[PDPT_INDEX v, PML4_INDEX v]" and ?q3 = "[PD_INDEX v, PDPT_INDEX v, PML4_INDEX v]"
  obtain t3 s1 t2 s2 t1 s3 where
    1: "get_or_create_table (entry_addr r (PML4_INDEX v)) (PTE_WRITABLE OR PTE_USER) s = Ret t3 s1" and
    2: "get_or_create_table (entry_addr t3 (PDPT_INDEX v)) (PTE_WRITABLE OR PTE_USER) s1 = Ret t2 s2" and
    3: "get_or_create_table (entry_addr t2 (PD_INDEX v)) (PTE_WRITABLE OR PTE_USER) s2 = Ret t1 s3" and
    s': "s' = s3\<lparr>mem := store64 (mem s3) (entry_addr t1 (PT_INDEX v)) (f OR fl OR PTE_PRESENT)\<rparr>"
    using Ret unfolding vmm_map_def Let_def r [symmetric] obind_eq_Ret by auto
  have vp: "vpath []" "vpath ?q1" "vpath ?q2" "vpath ?q3" by (simp_all add: vpath_def)
  note g1 = goc_apart [OF sa vp(1) _ pview.simps(1) index_bounds(1) 1]
  note g2 = goc_apart [OF g1(1) vp(2) _ g1(4) index_bounds(2) 2]
  note g3 = goc_apart [OF g2(1) vp(3) _ g2(4) index_bounds(3) 3]
  have sb: "same_bytes K s s3" using g1(2) g2(2) g3(2) by (auto intro: same_bytes_trans)
  have sa3: "space_apart K r s3" and p3: "pview (mem s3) r ?q3 = Some (t1, False)" using g3(1,4) by simp_all
  note wf = space_apartD(1) [OF sa3]
  have ms: "mem s' = store64 (mem s3) (entry_addr t1 (PT_INDEX v)) (f OR fl OR PTE_PRESENT)" unfolding s' by simp
  have leaf: "pview (mem s') r q = pview (mem s3) r q" if "vpath q" "length q \<le> 3" for q
  proof -
    have "q' = ?q3" if "vpath q'" "length q' \<le> 3" "pview (mem s3) r q' = Some (t1, False)" for q'
      using as_wfD(3) [OF wf that(1) vp(4) that(2) _ that(3) p3] by simp
    moreover have "length ?q3 \<le> 3" "length ?q3 = 3 \<or> eview (f OR fl OR PTE_PRESENT) = pview (mem s3) r (PT_INDEX v # ?q3)" "length q \<le> 4"
      using that(2) by simp_all
    ultimately have "pview (store64 (mem s3) (entry_addr t1 (PT_INDEX v)) (f OR fl OR PTE_PRESENT)) r q =
        (if q = PT_INDEX v # ?q3 then eview (f OR fl OR PTE_PRESENT) else pview (mem s3) r q)"
      using pview_store_entry [OF _ as_wfD(2) [OF wf] vp(4) _ p3 index_bounds(4) _ that(1)] by blast
    moreover have "q \<noteq> PT_INDEX v # ?q3" using that(2) by auto
    ultimately show ?thesis unfolding ms by (simp only: if_False)
  qed
  have t1: "t1 \<notin> ENTRY_ADDR ` K" using space_apartD(3) [OF sa3 vp(4) _ p3] by simp
  have "as_wf r s'"
    by (rule as_wf_upd [OF wf, where p = "[]" and f = r])
      (use leaf as_wfD(1) [OF wf] as_wfD(4) [OF wf vp(1), of r] in \<open>simp_all add: s'\<close>)
  then have "space_apart K r s'"
    using space_apartD(2,3) [OF sa3] leaf unfolding space_apart_def by (auto simp: s' simp del: pview.simps)
  moreover have "same_bytes K s3 s'"
  proof (rule same_bytesI)
    fix a assume "a \<in> K"
    then have "ENTRY_ADDR a \<noteq> t1" using t1 by auto
    then show "mem s' a = mem s3 a"
      unfolding ms by (rule store_entry_frame [OF pview_aligned [OF as_wfD(2) [OF wf] p3] index_bounds(4)])
  qed
  ultimately show ?thesis using Ret same_bytes_trans [OF sb] by simp
qed simp_all

lemma space_apart_cr3 [simp]: "space_apart K r (s\<lparr>cr3 := c\<rparr>) = space_apart K r s"
  by (simp add: space_apart_def)

lemma same_bytes_cr3 [simp]: "same_bytes K (s\<lparr>cr3 := c\<rparr>) t = same_bytes K s t" "same_bytes K s (t\<lparr>cr3 := c\<rparr>) = same_bytes K s t"
  by (simp_all add: same_bytes_def)

lemma map_in_apart:
  assumes "space_apart K (ENTRY_ADDR pt) s"
  shows "yields (\<lambda>_ t. space_apart K (ENTRY_ADDR pt) t \<and> same_bytes K s t) (vmm_map_in pt v f fl s)"
proof -
  have "space_apart K (ENTRY_ADDR pt) (s\<lparr>cr3 := pt\<rparr>)" using assms by (simp only: space_apart_cr3)
  moreover have "ENTRY_ADDR pt = ENTRY_ADDR (cr3 (s\<lparr>cr3 := pt\<rparr>))" by simp
  ultimately have "yields (\<lambda>_ t. space_apart K (ENTRY_ADDR pt) t \<and> same_bytes K s t) (vmm_map v f fl (s\<lparr>cr3 := pt\<rparr>))"
    using map_apart [of K "ENTRY_ADDR pt" "s\<lparr>cr3 := pt\<rparr>" v f fl] by (simp only: same_bytes_cr3)
  then show ?thesis unfolding vmm_map_in_def vmm_switch_address_space_def Let_def yields_obind
    by (rule yields_mono) (simp only: yields.simps space_apart_cr3 same_bytes_cr3)
qed

lemma alloc_walk_apart:
  assumes sa: "space_apart K r s" and al: "pmm_alloc s = (f, s1)"
  shows "space_apart K r s1" "same_bytes K s s1"
proof -
  note wf = space_apartD(1) [OF sa]
  have m: "mem s1 = mem s" using pmm_alloc_vmm [OF al] by simp
  then show "same_bytes K s s1" by (rule same_bytes_mem)
  have i: "pmm_inv s1 \<and> avail s1 \<subseteq> avail s"
  proof (cases "avail s = {}")
    case True
    then show ?thesis using bitmap_pmm.alloc_empty [OF as_wfD(1) [OF wf] True] al as_wfD(1) [OF wf] by simp
  next
    case False
    then show ?thesis using bitmap_pmm.alloc_take [OF as_wfD(1) [OF wf] False] al by auto
  qed
  then have "as_wf r s1" by (intro as_wf_same [OF wf]) (simp_all add: m)
  then show "space_apart K r s1" using sa i m unfolding space_apart_def by auto
qed

section \<open>Stores through a pointer\<close>

text \<open>The bytes the processor reads to translate an address: an entry at each of the four levels.\<close>

definition walk_bytes :: "u64 \<Rightarrow> 'a vmm_state_scheme \<Rightarrow> u64 set" where
  "walk_bytes v s =
     (if kernel_addr v then {}
      else
        let a4 = entry_addr (ENTRY_ADDR (cr3 s)) (PML4_INDEX v);
            a3 = entry_addr (ENTRY_ADDR (load64 (mem s) a4)) (PDPT_INDEX v);
            a2 = entry_addr (ENTRY_ADDR (load64 (mem s) a3)) (PD_INDEX v);
            a1 = entry_addr (ENTRY_ADDR (load64 (mem s) a2)) (PT_INDEX v)
        in (\<Union>a \<in> {a4, a3, a2, a1}. (\<lambda>i. a + i) ` {0, 1, 2, 3, 4, 5, 6, 7}))"

text \<open>
  The addresses of \<open>V\<close> may be stored to and those of \<open>A\<close> read without harm to the bytes of \<open>K\<close>: no address of \<open>V\<close> resolves
  to a byte of \<open>K\<close>, to a page-table entry through which \<open>V\<close> or \<open>A\<close> are translated, or to a byte that \<open>A\<close> reads.
\<close>

definition protected :: "u64 set \<Rightarrow> u64 set \<Rightarrow> u64 set \<Rightarrow> 'a vmm_state_scheme \<Rightarrow> u64 set" where
  "protected K V A s = K \<union> (\<Union>w \<in> V \<union> A. walk_bytes w s) \<union> {p. \<exists>w \<in> A. mmu w s = Some p}"

definition stores_apart :: "u64 set \<Rightarrow> u64 set \<Rightarrow> u64 set \<Rightarrow> 'a vmm_state_scheme \<Rightarrow> bool" where
  "stores_apart K V A s \<longleftrightarrow> (\<forall>v \<in> V. \<forall>p. mmu v s = Some p \<longrightarrow> p \<notin> protected K V A s)"

lemma load64_bytes:
  assumes "\<forall>a \<in> (\<lambda>i. b + i) ` {0, 1, 2, 3, 4, 5, 6, 7}. m' a = m a"
  shows "load64 m' b = load64 m b"
  using assms by (simp add: load64_def)

lemma mmu_same:
  assumes "same_bytes (walk_bytes v s) s t" and "cr3 t = cr3 s"
  shows "mmu v t = mmu v s"
proof (cases "kernel_addr v")
  case False
  let ?a4 = "entry_addr (ENTRY_ADDR (cr3 s)) (PML4_INDEX v)"
  let ?a3 = "entry_addr (ENTRY_ADDR (load64 (mem s) ?a4)) (PDPT_INDEX v)"
  let ?a2 = "entry_addr (ENTRY_ADDR (load64 (mem s) ?a3)) (PD_INDEX v)"
  let ?a1 = "entry_addr (ENTRY_ADDR (load64 (mem s) ?a2)) (PT_INDEX v)"
  have "load64 (mem t) a = load64 (mem s) a" if "a \<in> {?a4, ?a3, ?a2, ?a1}" for a
    using assms(1) False that by (intro load64_bytes) (auto simp: same_bytes_def walk_bytes_def Let_def simp del: image_insert)
  then have "load64 (mem t) ?a4 = load64 (mem s) ?a4" "load64 (mem t) ?a3 = load64 (mem s) ?a3"
    "load64 (mem t) ?a2 = load64 (mem s) ?a2" "load64 (mem t) ?a1 = load64 (mem s) ?a1" by blast+
  then show ?thesis unfolding mmu_def Let_def assms(2) by (simp only: False if_False)
qed (simp add: mmu_def)

text \<open>The state \<open>t\<close> differs from \<open>s\<close> in no protected byte.\<close>

definition kept :: "u64 set \<Rightarrow> u64 set \<Rightarrow> u64 set \<Rightarrow> 'a vmm_state_scheme \<Rightarrow> 'a vmm_state_scheme \<Rightarrow> bool" where
  "kept K V A s t \<longleftrightarrow> cr3 t = cr3 s \<and> same_bytes (protected K V A s) s t"

lemma keptD:
  assumes "kept K V A s t"
  shows "cr3 t = cr3 s" "same_bytes K s t" "w \<in> V \<union> A \<Longrightarrow> mmu w t = mmu w s" "w \<in> A \<Longrightarrow> peek w t = peek w s"
proof -
  show c: "cr3 t = cr3 s" "same_bytes K s t" using assms by (simp_all add: kept_def same_bytes_def protected_def)
  show m: "mmu w t = mmu w s" if "w \<in> V \<union> A" for w
    using assms that by (intro mmu_same c) (auto simp: kept_def same_bytes_def protected_def)
  show "peek w t = peek w s" if "w \<in> A"
    using assms that m [of w] by (cases "mmu w s") (auto simp: peek_def kept_def same_bytes_def protected_def)
qed

lemma kept_cong: "mem t = mem t' \<Longrightarrow> cr3 t = cr3 t' \<Longrightarrow> kept K V A s t = kept K V A s t'"
  by (simp add: kept_def same_bytes_def)

lemma kept_refl [simp]: "kept K V A s s"
  by (simp add: kept_def same_bytes_def)

lemma kept_poke:
  assumes sa: "stores_apart K V A s" and k: "kept K V A s t" and v: "v \<in> V"
  shows "yields (\<lambda>_. kept K V A s) (poke v b t)"
proof (cases "mmu v s")
  case None
  then show ?thesis using keptD(3) [OF k, of v] v by (simp add: poke_def)
next
  case (Some p)
  then have "p \<notin> protected K V A s" using sa v by (simp add: stores_apart_def)
  then show ?thesis using keptD(3) [OF k, of v] v Some k by (auto simp: poke_def kept_def same_bytes_def)
qed

interpretation kept_quiet: quiet_state "kept K V A s" for K V A s
proof
  fix t t' :: "'a vmm_state_scheme" and l
  show "kept K V A s t'" if "console_only t t'" "kept K V A s t"
    using kept_cong [of t' t K V A s] that(2) console_only_vmm(1,2) [OF that(1)] by simp
  show "kept K V A s (t\<lparr>port_log := l\<rparr>)" if "kept K V A s t"
    using kept_cong [of "t\<lparr>port_log := l\<rparr>" t K V A s] that by simp
qed

interpretation kept_files: fd_state "\<lambda>t. kept K V A s t" for K V A and s :: "'a rd_state_scheme"
proof
  fix t :: "'a rd_state_scheme" and f i
  show "kept K V A s (t\<lparr>fds := (fds t)[i := f]\<rparr>)" if "kept K V A s t"
    using kept_cong [of "t\<lparr>fds := (fds t)[i := f]\<rparr>" t K V A s] that by simp
qed

section \<open>Call by call\<close>

lemma kept_bytes: "yields (\<lambda>_. kept K V A s) m \<Longrightarrow> yields (\<lambda>_ t. same_bytes K s t) m"
  by (erule yields_mono) (rule keptD(2))

lemma write_bytes: "kept K V A s0 s \<Longrightarrow> yields (\<lambda>_. kept K V A s0) (sys_write p n s)"
proof -
  assume k: "kept K V A s0 s"
  have "yields (\<lambda>_. kept K V A s0) (case peek (p + of_nat i) t of None \<Rightarrow> Fault
     | Some ch \<Rightarrow> let t1 = vga_putchar ch t
         in case peek (p + of_nat i) t1 of None \<Rightarrow> Fault | Some c' \<Rightarrow> serial_putchar c' t1)"
    if "kept K V A s0 t" for i and t :: "'a sys_state_scheme"
    using that by (auto simp: Let_def split: option.split intro!: kept_quiet.serial_char kept_quiet.putchar)
  from yields_for_loop [of "kept K V A s0", OF k this] show ?thesis
    using k unfolding sys_write_def by (auto intro: yields_mono)
qed

lemma after_tick_bytes: "kinv ps c s \<Longrightarrow> yields (\<lambda>_ t. mem t = mem s) (after_tick s rest)"
proof -
  assume k: "kinv ps c s"
  obtain t where t: "after_tick s rest = Ret Away t" "current t \<noteq> c" using after_tick_away [OF k, of rest] by (auto simp: sysok_def)
  have "scheduler_tick s = Ret Switched t"
    using t after_tick_away [OF k, of Halt] by (cases "scheduler_tick s") (auto simp: after_tick_def split: control.splits)
  then have "mem t = mem s" unfolding tick_effect [OF sched_invD(1,2) [OF kinvD(1) [OF k]]]
    by (auto simp: woken_def hand_over_def split: if_splits)
  then show ?thesis using t(1) by simp
qed

lemma upd_proc_mem [simp]: "mem (upd_proc x f s) = mem s" "cr3 (upd_proc x f s) = cr3 s"
  by (simp_all add: upd_proc_def)

lemma switching_bytes:
  assumes k: "kinv ps c s"
  shows "yields (\<lambda>_ t. mem t = mem s) (sys_exit x s)" "yields (\<lambda>_ t. mem t = mem s) (sys_yield s)"
    "yields (\<lambda>_ t. mem t = mem s) (sys_sleep n s)"
proof -
  note q = current_cases [OF k]
  have b: "yields (\<lambda>_ t. mem t = mem s) (after_tick (upd_proc c f s) rest)"
    if "\<And>p. pnext (f p) = pnext p" "\<And>p. pstate (f p) \<noteq> PROCESS_RUNNING" for f rest
    using after_tick_bytes [OF kinv_block [OF k that], of rest] by simp
  show "yields (\<lambda>_ t. mem t = mem s) (sys_exit x s)" using q(2) unfolding sys_exit_def q(1) Let_def q(3)
    by (simp only: if_False) (rule b, simp_all)
  show "yields (\<lambda>_ t. mem t = mem s) (sys_sleep n s)" using q(2) unfolding sys_sleep_def q(1) Let_def q(3)
    by (simp only: if_False) (rule b, simp_all)
  show "yields (\<lambda>_ t. mem t = mem s) (sys_yield s)" unfolding sys_yield_def by (rule after_tick_bytes [OF k])
qed

text \<open>The addresses of a buffer.\<close>

definition buffer :: "u64 \<Rightarrow> u64 \<Rightarrow> u64 set" where
  "buffer a n = (\<lambda>i. a + i) ` {i. i < n}"

lemma getchar_mem: "keyboard_getchar s = (ch, s1) \<Longrightarrow> mem s1 = mem s \<and> cr3 s1 = cr3 s"
  by (auto simp: keyboard_getchar_def split: if_splits)

lemma read_loop_bytes:
  assumes sa: "stores_apart K (buffer buf len) {} s0"
  shows "kinv ps c s \<Longrightarrow> kept K (buffer buf len) {} s0 s \<Longrightarrow> read_loop buf len i s = Some r \<Longrightarrow> yields (\<lambda>_ t. same_bytes K s0 t) r"
proof -
  let ?K = "kept K (buffer buf len) {} s0"
  have "b = buf \<longrightarrow> l = len \<longrightarrow> kinv ps c s \<longrightarrow> ?K s \<longrightarrow> yields (\<lambda>_ t. same_bytes K s0 t) r"
    if "read_loop b l i s = Some r" for b l i and s :: "'a rd_state_scheme" and r
  proof (rule read_loop.raw_induct [of "\<lambda>b l i s r. b = buf \<longrightarrow> l = len \<longrightarrow> kinv ps c s \<longrightarrow> ?K s \<longrightarrow> yields (\<lambda>_ t. same_bytes K s0 t) r", OF _ that], intro impI)
    fix f b l i and s :: "'a rd_state_scheme" and r
    assume IH: "\<And>b l i s r. f b l i s = Some r \<Longrightarrow> b = buf \<longrightarrow> l = len \<longrightarrow> kinv ps c s \<longrightarrow> ?K s \<longrightarrow> yields (\<lambda>_ t. same_bytes K s0 t) r"
      and bl: "b = buf" "l = len" and k: "kinv ps c s" and kk: "?K s"
      and e: "(if i < l then
        (if keyboard_has_char s then
           (case keyboard_getchar s of (ch, s1) \<Rightarrow>
              case poke (b + i) ch s1 of
                Ret _ s2 \<Rightarrow> if ch = 0x0A then Some (Ret (Done (i + 1)) s2) else f b l (i + 1) s2
              | Halt s2 \<Rightarrow> Some (Halt s2) | Hang \<Rightarrow> Some Hang | Fault \<Rightarrow> Some Fault)
         else
           (case procs s (scheduler_current s) of
              None \<Rightarrow> Some Fault
            | Some _ \<Rightarrow>
                (case scheduler_tick (upd_proc (scheduler_current s) (\<lambda>p. p\<lparr>wait_reason := WAIT_KEY, pstate := PROCESS_BLOCKED\<rparr>) s) of
                   Ret ctl s1 \<Rightarrow> (case ctl of Switched \<Rightarrow> Some (Ret Away s1) | Returned \<Rightarrow> f b l i s1)
                 | Halt s1 \<Rightarrow> Some (Halt s1) | Hang \<Rightarrow> Some Hang | Fault \<Rightarrow> Some Fault)))
      else Some (Ret (Done l) s)) = Some r"
    let ?u = "upd_proc c (\<lambda>p. p\<lparr>wait_reason := WAIT_KEY, pstate := PROCESS_BLOCKED\<rparr>) s"
    have ku: "kinv ps c ?u" by (rule kinv_block [OF k]) simp_all
    from after_tick_away [OF this, of "\<lambda>_. Fault"] obtain t where t: "scheduler_tick ?u = Ret Switched t"
      by (cases "scheduler_tick ?u") (auto simp: after_tick_def split: control.splits)
    have mt: "mem t = mem s" using after_tick_bytes [OF ku, of "\<lambda>_. Fault"] t by (simp add: after_tick_def)
    have cur: "scheduler_current s = c" using kinvD(3) [OF k] by (simp add: scheduler_current_def)
    show "yields (\<lambda>_ t. same_bytes K s0 t) r"
    proof (cases "i < l \<and> \<not> keyboard_has_char s")
      case True
      then have "r = Fault \<or> r = Ret Away t" using e t(1) unfolding cur by (auto split: option.splits)
      then show ?thesis using keptD(2) [OF kk] mt by (auto simp: same_bytes_def)
    next
      case False
      obtain ch s1 where g: "keyboard_getchar s = (ch, s1)" by (cases "keyboard_getchar s")
      have k1: "kinv ps c s1" using kinv_getchar [OF k] g by simp
      have kk1: "?K s1" using kept_cong [of s1 s] getchar_mem [OF g] kk by simp
      show ?thesis
      proof (cases "i < l")
        case True
        have "b + i \<in> buffer buf len" using True bl by (simp add: buffer_def)
        from kept_poke [OF sa kk1 this, of ch] kernel_upper.poke [OF k1, of "b + i" ch] show ?thesis
          using e False True g IH [of b l "i + 1"] keptD(2) bl
          by (cases "poke (b + i) ch s1") (auto split: if_splits)
      qed (use e keptD(2) [OF kk] in auto)
    qed
  qed
  then show "kinv ps c s \<Longrightarrow> ?K s \<Longrightarrow> read_loop buf len i s = Some r \<Longrightarrow> yields (\<lambda>_ t. same_bytes K s0 t) r" by blast
qed

lemma event_mem: "keyboard_get_event s = (e, s1) \<Longrightarrow> mem s1 = mem s \<and> cr3 s1 = cr3 s"
  by (auto simp: keyboard_get_event_def split: if_splits)

lemma raw_key_bytes:
  assumes "stores_apart K {buf, buf + 1} {} s"
  shows "yields (\<lambda>_ t. same_bytes K s t) (sys_get_raw_key buf s)"
proof (rule kept_bytes [where V = "{buf, buf + 1}" and A = "{}"])
  let ?K = "kept K {buf, buf + 1} {} s"
  obtain e s1 where e: "keyboard_get_event s = (e, s1)" by (cases "keyboard_get_event s")
  have k1: "?K s1" using kept_cong [of s1 s] event_mem [OF e] by simp
  show "yields (\<lambda>_. ?K) (sys_get_raw_key buf s)" using k1
    by (cases e) (auto simp: sys_get_raw_key_def e intro!: yields_mono [OF kept_poke [OF assms]])
qed

lemma fread_bytes:
  assumes "stores_apart K V A s0" and "buffer buf n \<subseteq> V" and "kept K V A s0 s"
  shows "yields (\<lambda>_. kept K V A s0) (ramdisk_read fd buf n s)"
proof (rule kept_files.read_into [OF assms(3)])
  fix i b and t :: "'a rd_state_scheme" assume "i < unat n" "kept K V A s0 t"
  moreover from this(1) have "of_nat i < n"
  proof -
    have "unat (of_nat i :: u64) = i" using \<open>i < unat n\<close> unsigned_less [where ?'a = nat, of n] by (intro unat_of_nat_small) simp
    then show ?thesis using \<open>i < unat n\<close> by (simp add: word_less_nat_alt)
  qed
  ultimately show "yields (\<lambda>_. kept K V A s0) (poke (buf + of_nat i) b t)"
    using assms(2) by (intro kept_poke [OF assms(1)]) (auto simp: buffer_def)
qed

lemma query_bytes:
  assumes k: "kinv ps c s"
  shows "yields (\<lambda>_ t. mem t = mem s) (sys_getpid s)" "yields (\<lambda>_ t. mem t = mem s) (sys_gettime s)"
    "yields (\<lambda>_ t. mem t = mem s) (sys_getkey s)" "yields (\<lambda>_ t. mem t = mem s) (sys_fseek fd off w s)"
    "yields (\<lambda>_ t. mem t = mem s) (sys_fclose fd s)" "yields (\<lambda>_ t. mem t = mem s) (sys_fsize fd s)"
    "yields (\<lambda>_ t. mem t = mem s) (sys_set_fs_base b (s :: 'a sys_state_scheme))"
proof -
  note q = current_cases [OF k]
  have "mem (snd (ramdisk_seek fd off w s)) = mem s" for fd off w
    by (auto simp: ramdisk_seek_def Let_def split: option.split)
  then have sk: "ramdisk_seek fd off w s = (r, t) \<Longrightarrow> mem t = mem s" for fd off w r t by (metis snd_conv)
  have cl: "mem (ramdisk_close fd s) = mem s" for fd by (auto simp: ramdisk_close_def Let_def)
  show "yields (\<lambda>_ t. mem t = mem s) (sys_getpid s)" using q(2) unfolding sys_getpid_def q(1) Let_def q(3) by simp
  show "yields (\<lambda>_ t. mem t = mem s) (sys_getkey s)" using getchar_mem [of s]
    by (cases "keyboard_getchar s") (auto simp: sys_getkey_def)
  show "yields (\<lambda>_ t. mem t = mem s) (sys_gettime s)" "yields (\<lambda>_ t. mem t = mem s) (sys_fseek fd off w s)"
    "yields (\<lambda>_ t. mem t = mem s) (sys_fclose fd s)" "yields (\<lambda>_ t. mem t = mem s) (sys_fsize fd s)"
    "yields (\<lambda>_ t. mem t = mem s) (sys_set_fs_base b s)"
    using sk cl by (auto simp: sys_gettime_def sys_fseek_def sys_fclose_def sys_fsize_def sys_set_fs_base_def Let_def split: prod.split)
qed

lemma open_bytes: "yields (\<lambda>_. kept K {} {} s) (sys_open disk path s)"
  unfolding sys_open_def yields_obind
  by (rule yields_mono [OF kept_quiet.serial [OF kept_refl]], rule yields_mono [OF yields_of_loop [OF kept_quiet.print_user]], assumption+,
      rule yields_mono [OF kept_quiet.serial], assumption, rule yields_mono [OF kept_files.file_open], assumption, simp)

lemma setpalette_bytes: "yields (\<lambda>_. kept K {} {} s) (sys_setpalette p s)"
proof -
  have "yields (\<lambda>_. kept K {} {} s) (for_loop 256 0 (\<lambda>i t.
       case (peek (p + of_nat (i * 3)) t, peek (p + of_nat (i * 3 + 1)) t, peek (p + of_nat (i * 3 + 2)) t) of
         (Some r, Some g, Some b) \<Rightarrow> Ret () (fb_set_palette (of_nat i) r g b t)
       | _ \<Rightarrow> Fault) s)"
    by (rule yields_for_loop [of "kept K {} {} s", OF kept_refl]) (auto split: option.split intro: kept_quiet.palette)
  then show ?thesis unfolding sys_setpalette_def by (auto intro: yields_mono)
qed

section \<open>Calls that map pages\<close>

text \<open>From \<open>s0\<close> on only tables and free frames were written, and the address space is still clear of \<open>K\<close>.\<close>

definition paged :: "u64 set \<Rightarrow> u64 \<Rightarrow> 'a vmm_state_scheme \<Rightarrow> 'a vmm_state_scheme \<Rightarrow> bool" where
  "paged K pt s0 s \<longleftrightarrow> space_apart K (ENTRY_ADDR pt) s \<and> same_bytes K s0 s"

lemma paged_cong:
  "mem t = mem s \<Longrightarrow> avail t = avail s \<Longrightarrow> pmm_inv t = pmm_inv s \<Longrightarrow> paged K pt s0 t = paged K pt s0 s"
  by (simp add: paged_def space_apart_def as_wf_def same_bytes_def)

interpretation paged: paging_state "paged K pt s0" pt for K pt s0
proof
  fix s t :: "'a vmm_state_scheme" and l f v fl
  show "paged K pt s0 t" if "console_only s t" "paged K pt s0 s"
    using paged_cong [OF console_only_vmm(1,3,4) [OF that(1)], of K pt s0] that(2) by simp
  have "avail (s\<lparr>port_log := l\<rparr>) = avail s" "pmm_inv (s\<lparr>port_log := l\<rparr>) = pmm_inv s"
    by (simp_all add: avail_def free_set_def bitmap_test_def pmm_inv_def)
  then show "paged K pt s0 (s\<lparr>port_log := l\<rparr>)" if "paged K pt s0 s"
    using paged_cong [of "s\<lparr>port_log := l\<rparr>" s K pt s0] that by simp
  show "paged K pt s0 t" if "paged K pt s0 s" "pmm_alloc s = (f, t)"
    using that alloc_walk_apart [of K "ENTRY_ADDR pt" s f t] unfolding paged_def by (auto intro: same_bytes_trans)
  show "yields (\<lambda>_. paged K pt s0) (vmm_map_in pt v f fl s)" if "paged K pt s0 s"
    using that unfolding paged_def by (elim conjE, intro yields_mono [OF map_in_apart]) (auto intro: same_bytes_trans)
qed

interpretation rest_upper: upper_state "\<lambda>t. vmm_state.more t = x" for x
  by unfold_locales simp

lemma yields_both: "yields P m \<Longrightarrow> yields Q m \<Longrightarrow> yields (\<lambda>x t. P x t \<and> Q x t) m"
  by (cases m) auto

lemma paged_bytes: "paged K pt s0 s \<Longrightarrow> same_bytes K s0 s"
  by (simp add: paged_def)

lemma deref_bytes: "same_bytes K s0 s \<Longrightarrow> yields (\<lambda>_ t. same_bytes K s0 t) (deref c s (\<lambda>_. Ret v (upd_proc x f s)))"
  by (auto simp: deref_def same_bytes_def split: option.split)

lemma map_fb_bytes:
  assumes k: "kinv ps c s" and p: "paged K (page_table (the (procs s c))) s0 s"
  shows "yields (\<lambda>_ t. same_bytes K s0 t) (sys_map_fb s)"
proof -
  note q = current_cases [OF k]
  let ?pt = "page_table (the (procs s c))"
  have "yields (\<lambda>_. paged K ?pt s0) (for_loop 16 0 (\<lambda>i. vmm_map_in ?pt (USER_FB_VIRT + of_nat i * 0x1000) (0xA0000 + of_nat i * 0x1000)
          (PTE_PRESENT OR PTE_WRITABLE OR PTE_USER)) s)"
    by (rule yields_for_loop [of "paged K ?pt s0", OF p]) (rule paged.page)
  then have "yields (\<lambda>_ t. same_bytes K s0 t) (obind (for_loop 16 0 (\<lambda>i. vmm_map_in ?pt (USER_FB_VIRT + of_nat i * 0x1000) (0xA0000 + of_nat i * 0x1000)
          (PTE_PRESENT OR PTE_WRITABLE OR PTE_USER)) s) (\<lambda>_ s1. Ret (Done USER_FB_VIRT) s1))"
    unfolding yields_obind by (rule yields_mono) (simp add: paged_bytes)
  then show ?thesis using paged_bytes [OF p] q(2) unfolding sys_map_fb_def q(1) Let_def q(3) by (simp only: if_False) (simp split: if_split)
qed

lemma sbrk_bytes:
  assumes k: "kinv ps c s" and p: "paged K (page_table (the (procs s c))) s0 s"
  shows "yields (\<lambda>_ t. same_bytes K s0 t) (sys_sbrk n s)"
proof -
  note q = current_cases [OF k]
  let ?pt = "page_table (the (procs s c))"
  have grown: "yields (\<lambda>_ t. same_bytes K s0 t) (deref c t (\<lambda>p.
            if heap_start p = 0 then Ret (Done (-1)) t
            else if n = 0 then Ret (Done (heap_end p)) t
            else
              let base = heap_start p; old_end = heap_end p; new_end = old_end + n;
                  old_pages = heap_page_count base old_end; new_pages = heap_page_count base new_end
              in obind (sbrk_pages (unat new_pages - unat old_pages) old_pages base (page_table p) t) (\<lambda>mapped s2.
                   if \<not> mapped then Ret (Done (-1)) s2
                   else deref c s2 (\<lambda>_. Ret (Done old_end) (upd_proc c (\<lambda>p. p\<lparr>heap_end := new_end\<rparr>) s2)))))"
    if t: "kinv ps c t" "paged K ?pt s0 t" "procs t = procs s" for t :: "'a rd_state_scheme"
    unfolding current_cases(3) [OF t(1)] Let_def t(3) using paged_bytes [OF t(2)]
    by (auto simp only: if_splits yields.simps yields_obind simp_thms intro!: yields_mono [OF paged.sbrk [OF t(2)]] deref_bytes paged_bytes)
  let ?m = "if 0 < sint n then serial_print (str ''DOOM expanding heap via sbrk'' @ [0x0A]) s else Ret () s"
  have "yields (\<lambda>_. kinv ps c) ?m" "yields (\<lambda>_. paged K ?pt s0) ?m" "yields (\<lambda>_ t. vmm_state.more t = vmm_state.more s) ?m"
    using k kernel_upper.serial [OF k] p paged.serial [OF p] rest_upper.serial [OF refl]
    by (simp_all only: yields.simps split: if_split) blast+
  from yields_both [OF yields_both [OF this(1,2)] this(3)]
  show ?thesis unfolding sys_sbrk_def q(1) Let_def yields_obind
    by (rule yields_mono) (use q(2) grown [unfolded Let_def] more_fields(1) in auto)
qed

lemma mmap_bytes:
  assumes k: "kinv ps c s" and p: "paged K (page_table (the (procs s c))) s0 s"
  shows "yields (\<lambda>_ t. same_bytes K s0 t) (linux_mmap n s)"
proof -
  note q = current_cases [OF k]
  let ?u = "upd_proc c (\<lambda>p. p\<lparr>heap_end := (heap_end p + 4095) AND NOT 4095\<rparr>) s"
  have ku: "kinv ps c ?u" by (rule kinv_update [OF k]) simp_all
  obtain pr where pr: "procs s c = Some pr" using kinv_current(3) [OF k] by blast
  have "page_table (the (procs ?u c)) = page_table (the (procs s c))" using pr by (simp add: upd_proc_def)
  moreover have "paged K pt s0 ?u = paged K pt s0 s" for pt
    by (rule paged_cong) (simp_all add: upd_proc_def avail_def free_set_def bitmap_test_def pmm_inv_def)
  ultimately have "paged K (page_table (the (procs ?u c))) s0 ?u" using p by simp
  from sbrk_bytes [OF ku this] sbrk_bytes [OF k p] show ?thesis
    using paged_bytes [OF p] q(2) unfolding linux_mmap_def q(1) Let_def q(3) by auto
qed

lemma brk_bytes:
  assumes k: "kinv ps c s" and p: "paged K (page_table (the (procs s c))) s0 s"
  shows "yields (\<lambda>_ t. same_bytes K s0 t) (linux_brk n s)"
proof -
  note q = current_cases [OF k]
  let ?pt = "page_table (the (procs s c))"
  have "yields (\<lambda>_ t. yields (\<lambda>_ t. same_bytes K s0 t) (deref c t (\<lambda>_. Ret (Done x) (upd_proc c (\<lambda>p. p\<lparr>heap_end := x\<rparr>) t))))
    (of_loop (brk_loop ?pt v e s))" for x v e
    by (rule yields_mono [OF yields_of_loop [OF paged.brk [OF p]]], assumption) (intro deref_bytes paged_bytes)
  moreover have "same_bytes K s0 (upd_proc c f s)" for f using paged_bytes [OF p] by (simp add: same_bytes_def)
  ultimately show ?thesis using paged_bytes [OF p]
    unfolding linux_brk_def q(1) Let_def q(3) yields_obind by (simp add: q(3) split: if_split)
qed

section \<open>Vectors\<close>

definition iovec :: "u64 \<Rightarrow> nat \<Rightarrow> u64 set" where
  "iovec iov n = (\<lambda>j. iov + of_nat j) ` {..<16 * n}"

definition iovec_targets :: "u64 \<Rightarrow> nat \<Rightarrow> 'a vmm_state_scheme \<Rightarrow> u64 set" where
  "iovec_targets iov n s = {v. \<exists>i < n. \<exists>base len. peek64 (iov + 16 * of_nat i) s = Some base \<and>
     peek64 (iov + 16 * of_nat i + 8) s = Some len \<and> v \<in> buffer base len}"

lemma peek64_kept:
  assumes k: "kept K V (iovec iov n) s t" and i: "i < n"
  shows "peek64 (iov + 16 * of_nat i) t = peek64 (iov + 16 * of_nat i) s"
    "peek64 (iov + 16 * of_nat i + 8) t = peek64 (iov + 16 * of_nat i + 8) s"
proof -
  have "peek (iov + 16 * of_nat i + of_nat j) t = peek (iov + 16 * of_nat i + of_nat j) s" if "j < 16" for j
  proof (rule keptD(4) [OF k])
    have "iov + 16 * of_nat i + of_nat j = iov + of_nat (16 * i + j)" "16 * i + j < 16 * n" using i that by simp_all
    then show "iov + 16 * of_nat i + of_nat j \<in> iovec iov n" unfolding iovec_def by (metis imageI lessThan_iff)
  qed
  note b = this
  have "peek (iov + 16 * of_nat i + of_nat j) t = peek (iov + 16 * of_nat i + of_nat j) s" if "j \<in> set [0..<8]" for j
    using b [of j] that by simp
  then show "peek64 (iov + 16 * of_nat i) t = peek64 (iov + 16 * of_nat i) s"
    unfolding peek64_def by (simp only: cong: foldr_cong ball_cong)
  have "peek (iov + 16 * of_nat i + 8 + of_nat j) t = peek (iov + 16 * of_nat i + 8 + of_nat j) s" if "j \<in> set [0..<8]" for j
    using b [of "8 + j"] that by (simp add: add.assoc)
  then show "peek64 (iov + 16 * of_nat i + 8) t = peek64 (iov + 16 * of_nat i + 8) s"
    unfolding peek64_def by (simp only: cong: foldr_cong ball_cong)
qed

lemma readv_bytes:
  assumes sa: "stores_apart K (iovec_targets iov m s0) (iovec iov m) s0"
  shows "kept K (iovec_targets iov m s0) (iovec iov m) s0 s \<Longrightarrow> i + n \<le> m \<Longrightarrow>
    yields (\<lambda>_. kept K (iovec_targets iov m s0) (iovec iov m) s0) (readv_loop n i fd iov tot s)"
proof (induction n arbitrary: i tot s)
  case (Suc n)
  let ?K = "kept K (iovec_targets iov m s0) (iovec iov m) s0"
  have i: "i < m" using Suc.prems(2) by simp
  note p = peek64_kept [OF Suc.prems(1) i]
  have rd: "yields (\<lambda>_. ?K) (ramdisk_read (to_int fd) base len s)"
    if "peek64 (iov + 16 * of_nat i) s = Some base" "peek64 (iov + 16 * of_nat i + 8) s = Some len" for base len
    by (rule fread_bytes [OF sa _ Suc.prems(1)]) (use that i p in \<open>auto simp: iovec_targets_def\<close>)
  have later: "yields (\<lambda>_. ?K) (readv_loop n (Suc i) fd iov tot' t)" if "?K t" for tot' t
    by (rule Suc.IH [OF that]) (use Suc.prems(2) in simp)
  show ?case unfolding readv_loop.simps Let_def
    using Suc.prems(1) by (auto split: option.split intro!: later yields_mono [OF rd])
qed simp

lemma writev_bytes: "kept K V A s0 s \<Longrightarrow> yields (\<lambda>_. kept K V A s0) (writev_loop n i iov tot s)"
proof (induction n arbitrary: i tot s)
  case (Suc n)
  show ?case unfolding writev_loop.simps
    by (auto split: option.split intro!: Suc.IH Suc.prems yields_mono [OF write_bytes [OF Suc.prems]])
qed simp

section \<open>Every call\<close>

text \<open>
  Where the kernel's own structures lie: the bytes \<open>I\<close> of its image and of the frames behind its heap, and a
  \<open>process_t\<close> for each process.
\<close>

definition kernel_data :: "u64 set \<Rightarrow> u64 list \<Rightarrow> u64 set" where
  "kernel_data I ps = I \<union> (\<Union>x \<in> set ps. buffer x PROCESS_SIZE)"

text \<open>
  What a call needs so that it does not write to \<open>K\<close>. No call checks its pointers, so this has to be known of the caller: the
  calls that store through a pointer must have been given one that leads elsewhere, and the calls that
  map pages must work on an address space that was built clear of \<open>K\<close>. All other calls need nothing.
\<close>

definition native_apart :: "u64 set \<Rightarrow> u64 \<Rightarrow> u64 \<Rightarrow> u64 \<Rightarrow> u64 \<Rightarrow> process \<Rightarrow> 'a vmm_state_scheme \<Rightarrow> bool" where
  "native_apart K num arg1 arg2 arg3 p s =
     (if num = SYS_READ then stores_apart K (buffer arg1 arg2) {} s
      else if num = SYS_FREAD then stores_apart K (buffer arg2 arg3) {} s
      else if num = SYS_MAP_FB \<or> num = SYS_SBRK then space_apart K (ENTRY_ADDR (page_table p)) s
      else True)"

definition linux_apart :: "u64 set \<Rightarrow> u64 \<Rightarrow> u64 \<Rightarrow> u64 \<Rightarrow> u64 \<Rightarrow> process \<Rightarrow> 'a vmm_state_scheme \<Rightarrow> bool" where
  "linux_apart K num arg1 arg2 arg3 p s =
     (if num = 0 then stores_apart K (buffer arg2 arg3) {} s
      else if num = 19 then (let n = nat (to_int arg3) in stores_apart K (iovec_targets arg2 n s) (iovec arg2 n) s)
      else if num = 18 then stores_apart K {arg1, arg1 + 1} {} s
      else if num = 9 \<or> num = 12 \<or> num = 6 \<or> num = 13 then space_apart K (ENTRY_ADDR (page_table p)) s
      else True)"

definition call_apart :: "u64 set \<Rightarrow> u64 \<Rightarrow> u64 \<Rightarrow> u64 \<Rightarrow> u64 \<Rightarrow> 'a sys_state_scheme \<Rightarrow> bool" where
  "call_apart K num arg1 arg2 arg3 s =
     (case procs s (current s) of
        None \<Rightarrow> True
      | Some p \<Rightarrow> if use_linux_abi p \<noteq> 0 then linux_apart K num arg1 arg2 arg3 p s else native_apart K num arg1 arg2 arg3 p s)"

lemma read_bytes:
  assumes "kinv ps c s" and "stores_apart K (buffer buf n) {} s"
  shows "yields (\<lambda>_ t. same_bytes K s t) (sys_read buf n s)"
  unfolding sys_read_def
  by (auto intro!: yields_of_loop simp: same_bytes_mem intro: read_loop_bytes [OF assms(2,1) kept_refl])

lemma sys_fread_bytes:
  assumes "stores_apart K (buffer buf n) {} s"
  shows "yields (\<lambda>_ t. same_bytes K s t) (sys_fread fd buf n s)"
  unfolding sys_fread_def yields_obind
  by (rule yields_mono [OF fread_bytes [OF assms subset_refl kept_refl]]) (auto dest: keptD(2))

lemma mem_bytes: "yields (\<lambda>_ t. mem t = mem s) m \<Longrightarrow> yields (\<lambda>_ t. same_bytes K s t) m"
  by (erule yields_mono) (rule same_bytes_mem)

lemmas still_bytes = write_bytes [OF kept_refl, THEN kept_bytes] open_bytes [THEN kept_bytes] setpalette_bytes [THEN kept_bytes]
  writev_bytes [OF kept_refl, THEN kept_bytes]

lemma same_bytes_refl [simp]: "same_bytes K s s"
  by (simp add: same_bytes_def)

lemma pagedI: "space_apart K (ENTRY_ADDR pt) s \<Longrightarrow> paged K pt s s"
  by (simp add: paged_def)

lemma native_bytes:
  assumes "kinv ps c s" and "procs s c = Some p" and "native_apart K num arg1 arg2 arg3 p s"
  shows "yields (\<lambda>_ t. same_bytes K s t) (native_syscall disk num arg1 arg2 arg3 s)"
  using assms(3) unfolding native_apart_def native_syscall_def
  by (simp add: assms(1,2) still_bytes switching_bytes [OF assms(1), THEN mem_bytes] query_bytes [OF assms(1), THEN mem_bytes] read_bytes [OF assms(1)] sys_fread_bytes
      map_fb_bytes [OF assms(1)] sbrk_bytes [OF assms(1)] pagedI split: if_splits)

lemma linux_bytes:
  assumes "kinv ps c s" and "procs s c = Some p" and "linux_apart K num arg1 arg2 arg3 p s"
  shows "yields (\<lambda>_ t. same_bytes K s t) (linux_syscall disk num arg1 arg2 arg3 s)"
proof (cases "num = 18")
  case True
  then show ?thesis using assms(3) raw_key_bytes [of K arg1 s] by (simp add: linux_apart_def linux_syscall_def)
next
  case False
  with assms(3) show ?thesis unfolding linux_apart_def linux_syscall_def Let_def
    by (simp add: assms(1,2) still_bytes switching_bytes [OF assms(1), THEN mem_bytes] query_bytes [OF assms(1), THEN mem_bytes] sys_fread_bytes readv_bytes [THEN kept_bytes]
      map_fb_bytes [OF assms(1)] sbrk_bytes [OF assms(1)] mmap_bytes [OF assms(1)] brk_bytes [OF assms(1)] pagedI split: if_splits)
qed

text \<open>The two states agree on everything translations and mappings depend on.\<close>

definition same_tables :: "'a vmm_state_scheme \<Rightarrow> 'a vmm_state_scheme \<Rightarrow> bool" where
  "same_tables s t \<longleftrightarrow> mem t = mem s \<and> cr3 t = cr3 s \<and> avail t = avail s \<and> pmm_inv t = pmm_inv s"

lemma same_tables_ports [simp]: "same_tables s (t\<lparr>port_log := l\<rparr>) = same_tables s t"
  by (simp add: same_tables_def avail_def free_set_def bitmap_test_def pmm_inv_def)

lemma same_tables_first [simp]: "same_tables s (t\<lparr>linux_first := b\<rparr>) = same_tables s t"
  by (simp add: same_tables_def avail_def free_set_def bitmap_test_def pmm_inv_def)

interpretation tables_quiet: quiet_state "same_tables s" for s
proof
  fix t t' :: "'a vmm_state_scheme" and l
  show "same_tables s t'" if "console_only t t'" "same_tables s t" using that(2) by (simp add: same_tables_def console_only_vmm [OF that(1)])
  show "same_tables s (t\<lparr>port_log := l\<rparr>)" if "same_tables s t" using that by simp
qed

lemma linux_apart_cong:
  assumes "same_tables s t"
  shows "linux_apart K num arg1 arg2 arg3 p t = linux_apart K num arg1 arg2 arg3 p s"
proof -
  note e = assms [unfolded same_tables_def]
  have m: "mmu v t = mmu v s" "walk_bytes v t = walk_bytes v s" for v using e by (simp_all add: mmu_def walk_bytes_def Let_def)
  then have pk: "peek v t = peek v s" for v using e by (simp add: peek_def)
  have "stores_apart K V A t = stores_apart K V A s" for V A by (simp only: stores_apart_def protected_def m)
  moreover have "peek64 v t = peek64 v s" for v by (simp only: peek64_def pk)
  then have "iovec_targets iov n t = iovec_targets iov n s" for iov n by (simp only: iovec_targets_def)
  moreover have "space_apart K r t = space_apart K r s" for r using e by (simp add: space_apart_def as_wf_def)
  ultimately show ?thesis by (simp only: linux_apart_def)
qed

lemma dispatch_bytes:
  assumes k: "kinv ps c s" and a: "call_apart K num arg1 arg2 arg3 s"
  shows "yields (\<lambda>_ t. same_bytes K s t) (syscall_dispatch disk num arg1 arg2 arg3 s)"
proof -
  note q = current_cases [OF k]
  obtain p where p: "procs s c = Some p" using kinv_current(3) [OF k] by blast
  have ap: "if use_linux_abi p \<noteq> 0 then linux_apart K num arg1 arg2 arg3 p s else native_apart K num arg1 arg2 arg3 p s"
    using a p kinvD(3) [OF k] by (simp add: call_apart_def)
  have "yields (\<lambda>_ t. same_bytes K s t) (linux_syscall_dispatch disk num arg1 arg2 arg3 s)" if lx: "linux_apart K num arg1 arg2 arg3 p s"
  proof -
    let ?m = "if linux_first s
     then obind (serial_print (str ''LINUX ABI DISPATCH ACTIVE'' @ [0x0A]) s) (\<lambda>_ s1. Ret () (s1\<lparr>linux_first := False\<rparr>)) else Ret () s"
    have s0: "same_tables s s" by (simp add: same_tables_def)
    have ser: "yields (\<lambda>_. K') ?m" if "K' s" "yields (\<lambda>_. K') (serial_print (str ''LINUX ABI DISPATCH ACTIVE'' @ [0x0A]) s)"
        "\<And>t. K' t \<Longrightarrow> K' (t\<lparr>linux_first := False\<rparr>)" for K' :: "'a sys_state_scheme \<Rightarrow> bool"
      using that(1) yields_mono [OF that(2), of "\<lambda>_ t. K' (t\<lparr>linux_first := False\<rparr>)"] that(3)
      by (simp only: yields.simps yields_obind split: if_split) blast
    have m: "yields (\<lambda>_. kinv ps c) ?m" "yields (\<lambda>_. same_tables s) ?m" "yields (\<lambda>_ t. procs t = procs s) ?m"
      by (rule ser [OF k kernel_upper.serial [OF k]], simp,
          rule ser [OF s0 tables_quiet.serial [OF s0]], simp,
          rule ser [OF refl yields_mono [OF rest_upper.serial [OF refl]]], rule more_fields(1), simp_all)
    have "yields (\<lambda>_ t. same_bytes K s t) (linux_syscall disk num arg1 arg2 arg3 t)"
      if t: "kinv ps c t" "same_tables s t" "procs t = procs s" for t
    proof -
      have "linux_apart K num arg1 arg2 arg3 p t" using lx linux_apart_cong [OF t(2)] by simp
      from linux_bytes [OF t(1) _ this] p t(3) show ?thesis
        by (auto intro: yields_mono simp: same_bytes_def t(2) [unfolded same_tables_def])
    qed
    then show ?thesis unfolding linux_syscall_dispatch_def yields_obind
      by (intro yields_mono [OF yields_both [OF yields_both [OF m(1,2)] m(3)]]) blast
  qed
  then show ?thesis using q(2) ap native_bytes [OF k p] unfolding syscall_dispatch_def q(1) Let_def q(3) by (simp add: p split: if_splits)
qed

end
