(* ===== verification/Interrupts.thy ===== *)
theory Interrupts
  imports Kernel_Frame
begin

text \<open>
  The kernel as its interrupts and system calls drive it. \<open>run_handler\<close> is the call through the function
  pointer of \<open>isr_handlers\<close>; with it the two common handlers of \<open>src/cpu/idt.c\<close> are the whole
  path of an interrupt. A step of the running kernel is one interrupt, one exception, one system call, the
  rest of a call or of the timer handler that a process was switched away from, or anything that leaves the
  kernel's own data alone: user code, the devices, memory. The invariant of the kernel holds after every sequence of such steps, in
  any order, and in every state with the invariant the interrupt path of the timer and the keyboard comes to its end.
\<close>

section \<open>The handlers behind the table\<close>

primrec run_handler :: "handler \<Rightarrow> registers \<Rightarrow> 'a kb_state_scheme \<Rightarrow> ('a kb_state_scheme, control) outcome" where
  "run_handler Page_Fault_Handler regs s = page_fault_handler regs s"
| "run_handler Ud_Handler regs s = ud_handler regs s"
| "run_handler Timer_Handler regs s = timer_handler regs s"
| "run_handler Keyboard_Handler regs s = keyboard_handler regs s"
| "run_handler Test_Breakpoint_Handler regs s = test_breakpoint_handler regs s"



lemma kernel_inv_eoi [simp]: "kernel_inv ps (pic_send_eoi i s) = kernel_inv ps s"
  by (rule kernel_inv_cong [OF _ _ _ rest_same_ops(2)]) (simp_all add: pic_send_eoi_def outb_def)














section \<open>Steps of the running kernel\<close>

text \<open>
  \<open>K\<close> is where the kernel's own structures lie. A system call counts as a step when its arguments keep it off \<open>K\<close>; what happens outside
  the kernel may write anywhere else.
\<close>

inductive kernel_step :: "u64 set \<Rightarrow> initrd_syms \<Rightarrow> 'a sys_state_scheme \<Rightarrow> 'a sys_state_scheme \<Rightarrow> bool" for K disk where
  interrupt: "irq_common_handler run_handler regs s = Ret ctl t \<Longrightarrow> kernel_step K disk s t"
| exception: "isr_common_handler run_handler regs s = Ret ctl t \<Longrightarrow> kernel_step K disk s t"
| system_call: "current s \<noteq> idle s \<Longrightarrow> call_apart K num arg1 arg2 arg3 s \<Longrightarrow>
    syscall_dispatch disk num arg1 arg2 arg3 s = Ret r t \<Longrightarrow> kernel_step K disk s t"
| resumed_read: "current s \<noteq> idle s \<Longrightarrow> stores_apart K (buffer buf len) {} s \<Longrightarrow>
    read_loop buf len i s = Some (Ret r t) \<Longrightarrow> kernel_step K disk s t"
| resumed_timer: "kernel_step K disk s (pic_send_eoi 0 s)"
| outside: "vmm_state.more t = vmm_state.more s \<Longrightarrow> same_bytes K s t \<Longrightarrow> kernel_step K disk s t"

inductive_cases kernel_stepE: "kernel_step K disk s t"

lemma kernel_inv_running: "kernel_inv ps s \<Longrightarrow> current s \<noteq> idle s \<Longrightarrow> kinv ps (current s) s"
  by (simp add: kinv_def)





section \<open>Sleeping\<close>

definition asleep :: "u64 \<Rightarrow> u64 \<Rightarrow> 'a sched_state_scheme \<Rightarrow> bool" where
  "asleep x w s \<longleftrightarrow> (\<exists>pr. procs s x = Some pr \<and> pstate pr = PROCESS_BLOCKED \<and> wait_reason pr = WAIT_SLEEP \<and> wake_tick pr = w)"

definition awake :: "u64 \<Rightarrow> 'a sched_state_scheme \<Rightarrow> bool" where
  "awake x s \<longleftrightarrow> status s x = Some PROCESS_READY \<or> status s x = Some PROCESS_RUNNING"

lemma tick_sleeper:
  assumes inv: "sched_inv s ps" and x: "x \<in> set ps" "asleep x w s" and run: "scheduler_tick s = Ret ctl t"
  shows "if w \<le> ticks s then awake x t else asleep x w t"
proof -
  note i = sched_invD [OF inv]
  obtain pr where pr: "procs s x = Some pr" "pstate pr = PROCESS_BLOCKED" "wait_reason pr = WAIT_SLEEP" "wake_tick pr = w"
    using x(2) by (auto simp: asleep_def)
  define q where "q = wake_sleeper (ticks s) pr"
  have wk: "procs (woken ps s) x = Some q" using x(1) pr(1) by (simp add: woken_def map_procs_def q_def)
  have q: "if w \<le> ticks s then pstate q = PROCESS_READY else pstate q = PROCESS_BLOCKED \<and> wait_reason q = WAIT_SLEEP \<and> wake_tick q = w"
    using pr by (simp add: q_def wake_sleeper_def)
  show ?thesis
  proof (cases "chosen ps s = current s")
    case True
    then have "t = woken ps s" using run by (simp add: tick_effect [OF i(1,2)])
    then show ?thesis using wk q by (auto simp: asleep_def awake_def)
  next
    case False
    let ?m = "procs (woken ps s)"
    have t: "t = hand_over (current s) (the (?m (current s))) (chosen ps s) (the (?m (chosen ps s))) (woken ps s)"
      using run False by (simp add: tick_effect [OF i(1,2)])
    consider "x = chosen ps s" | "x = current s" "x \<noteq> chosen ps s" | "x \<noteq> current s" "x \<noteq> chosen ps s" by blast
    then show ?thesis
    proof cases
      case 1
      then have "\<not> not_runnable q" using chosen_runnable(2) [OF inv False] wk by auto
      then show ?thesis using q 1 unfolding t by (auto simp: not_runnable_def awake_def hand_over_def split: if_splits)
    next
      case 2
      then have "procs t x = Some (q\<lparr>pstate := if pstate q = PROCESS_RUNNING then PROCESS_READY else pstate q,
          pcontext := (pcontext q)\<lparr>ctx_rsp := cpu_rsp s\<rparr>\<rparr>)" unfolding t using wk by (simp add: hand_over_def)
      then show ?thesis using q by (auto simp: asleep_def awake_def split: if_splits)
    next
      case 3
      then have "procs t x = Some q" unfolding t using wk by (simp add: hand_over_def)
      then show ?thesis using q by (auto simp: asleep_def awake_def split: if_splits)
    qed
  qed
qed

lemma timer_sleeper:
  assumes inv: "sched_inv s ps" and x: "x \<in> set ps" "asleep x w s"
  shows "\<exists>ctl t. timer_handler regs s = Ret ctl t \<and> sched_inv t ps \<and> ticks t = ticks s + 1 \<and>
    (if w \<le> ticks s + 1 then awake x t else asleep x w t)"
proof -
  let ?s = "s\<lparr>ticks := ticks s + 1\<rparr>"
  have inv': "sched_inv ?s ps" using inv by (simp add: sched_inv_cong [of ?s s])
  obtain ctl t where t: "scheduler_tick ?s = Ret ctl t" "sched_inv t ps" "ticks t = ticks s + 1" using tick_runs [OF inv'] by auto
  have sl: "if w \<le> ticks s + 1 then awake x t else asleep x w t"
    using tick_sleeper [OF inv' x(1) _ t(1), of w] x(2) by (simp add: asleep_def)
  have e: "sched_inv (pic_send_eoi 0 t) ps = sched_inv t ps" "ticks (pic_send_eoi 0 t) = ticks t" "procs (pic_send_eoi 0 t) = procs t"
    using sched_inv_cong [of "pic_send_eoi 0 t" t ps] by (simp_all add: pic_send_eoi_def outb_def)
  show ?thesis
  proof (cases ctl)
    case Returned
    then have "timer_handler regs s = Ret Returned (pic_send_eoi 0 t)" using t(1) by (simp add: timer_handler_def)
    moreover have "asleep x w (pic_send_eoi 0 t) = asleep x w t" "awake x (pic_send_eoi 0 t) = awake x t"
      using e(3) by (simp_all add: asleep_def awake_def)
    ultimately show ?thesis using t e(1,2) sl by simp
  next
    case Switched
    then have "timer_handler regs s = Ret Switched t" using t(1) by (simp add: timer_handler_def)
    then show ?thesis using t sl by auto
  qed
qed

lemma sleeper_run:
  assumes "sched_inv s ps" and "x \<in> set ps" and "asleep x w s" and "unat (ticks s) + d = unat w" and "k \<le> d" and "0 < d"
  shows "\<exists>t. timer_run k regs s = Ret () t \<and> sched_inv t ps \<and> (if k = d then awake x t else asleep x w t)"
  using assms
proof (induction k arbitrary: s d)
  case (Suc k)
  obtain ctl s1 where s1: "timer_handler regs s = Ret ctl s1" "sched_inv s1 ps" "ticks s1 = ticks s + 1"
    "if w \<le> ticks s + 1 then awake x s1 else asleep x w s1" using timer_sleeper [OF Suc.prems(1-3)] by blast
  have "unat (ticks s) + 1 < 2 ^ 64" using unsigned_less [where ?'a = nat, of w] Suc.prems(4,6) by simp
  then have u: "unat (ticks s + 1) = unat (ticks s) + 1" by (simp add: unat_word_ariths)
  have le: "w \<le> ticks s + 1 \<longleftrightarrow> d = 1" unfolding word_le_nat_alt u using Suc.prems(4,6) by auto
  show ?case
  proof (cases "d = 1")
    case True
    then show ?thesis using s1 le Suc.prems(5) by simp
  next
    case False
    then have "unat (ticks s1) + (d - 1) = unat w" "k \<le> d - 1" "0 < d - 1" "asleep x w s1"
      using s1(3,4) u le Suc.prems(4-6) by auto
    from Suc.IH [OF s1(2) Suc.prems(2) this(4,1-3)] show ?thesis using s1(1) False Suc.prems(6)
      by (auto simp: less_Suc_eq_0_disj)
  qed
qed simp

section \<open>Properties\<close>


text \<open>Process 0x3000 runs, 0x2000 sleeps until tick 5, the timer and the keyboard have their handlers.\<close>

definition sys_demo :: sys_state where
  "sys_demo = rd_state.extend (rd_demo\<lparr>procs := [0x1000 \<mapsto> process_zero\<lparr>pstate := PROCESS_READY, pnext := 0x2000\<rparr>,
       0x2000 \<mapsto> process_zero\<lparr>pstate := PROCESS_BLOCKED, wait_reason := WAIT_SLEEP, wake_tick := 5, pnext := 0x3000\<rparr>,
       0x3000 \<mapsto> process_zero\<lparr>pid := 2, pstate := PROCESS_RUNNING, pnext := 0x1000\<rparr>],
       current := 0x3000, isr_handlers := (replicate 256 None)[32 := Some Timer_Handler, 33 := Some Keyboard_Handler]\<rparr>)
     \<lparr>linux_first = True\<rparr>"

lemma sys_demo_simps:
  "procs sys_demo = [0x1000 \<mapsto> process_zero\<lparr>pstate := PROCESS_READY, pnext := 0x2000\<rparr>,
       0x2000 \<mapsto> process_zero\<lparr>pstate := PROCESS_BLOCKED, wait_reason := WAIT_SLEEP, wake_tick := 5, pnext := 0x3000\<rparr>,
       0x3000 \<mapsto> process_zero\<lparr>pid := 2, pstate := PROCESS_RUNNING, pnext := 0x1000\<rparr>]"
  "idle sys_demo = 0x1000" "current sys_demo = 0x3000" "ticks sys_demo = 4"
  "fds sys_demo = replicate 64 \<lparr>fd_data = 0, fd_size = 0, fd_pos = 0, in_use = False\<rparr>"
  "isr_handlers sys_demo = (replicate 256 None)[32 := Some Timer_Handler, 33 := Some Keyboard_Handler]"
  "kb_inv sys_demo"
proof -
  have "kb_inv sys_demo = kb_inv kb_demo"
    by (simp add: sys_demo_def rd_demo_def rd_state.defs kb_state.defs kb_inv_def kb_chars_def)
  then show "kb_inv sys_demo" using kb_demo_props(1) by simp
qed (simp_all add: sys_demo_def rd_demo_def rd_state.defs kb_state.defs kb_demo_def sched_state.defs sched_demo_def idt_state.defs)

lemma sys_demo_inv: "kernel_inv [0x2000, 0x3000] sys_demo" "current sys_demo \<noteq> idle sys_demo"
  by (simp_all add: kernel_inv_def sched_inv_def ring_def fds_ok_def irq_table_def sys_demo_simps process_zero_def)









text \<open>The condition on the pointers is needed: \<open>SYS_READ\<close> stores a typed character at any kernel address it is given, so a caller can overwrite a process
  descriptor, a table or the page tables.\<close>

theorem sys_read_overwrites_kernel:
  fixes s :: "'a sys_state_scheme"
  assumes "kernel_addr a" and "a \<noteq> NULL" and "procs s (current s) = Some p" and "current s \<noteq> NULL" and "use_linux_abi p = 0"
    and "kb_read_pos s \<noteq> kb_write_pos s"
  shows "\<exists>t. syscall_dispatch disk SYS_READ a 1 arg3 s = Ret (Done 1) t \<and> mem t = (mem s)(a := kb_buf s ! kb_read_pos s)"
  using assms by (simp add: syscall_dispatch_def native_syscall_def sys_read_def scheduler_current_def deref_def Let_def
      read_loop.simps [of _ _ 0] read_loop.simps [of _ _ 1] keyboard_has_char_def keyboard_getchar_def)



text \<open>C14. A process that sleeps for \<open>n > 0\<close> ticks, when the tick counter does not overflow meanwhile, gives the processor away at once. It
  stays blocked through the next \<open>n - 1\<close> timer interrupts and is ready, or already runs, after the \<open>n\<close>-th.\<close>

theorem sleep_wakes_on_time:
  fixes s :: "'a sys_state_scheme"
  assumes k: "kernel_inv ps s" and c: "current s \<noteq> idle s" and p: "procs s (current s) = Some p" "use_linux_abi p = 0"
    and n: "0 < n" "unat (ticks s) + unat n < 2 ^ 64"
  shows "\<exists>t. syscall_dispatch disk SYS_SLEEP n arg2 arg3 s = Ret Away t \<and> kernel_inv ps t \<and> current t \<noteq> current s \<and>
    (\<forall>j \<le> unat n. \<exists>u. timer_run j regs t = Ret () u \<and>
       (if j = unat n then status u (current s) = Some PROCESS_READY \<or> status u (current s) = Some PROCESS_RUNNING
        else status u (current s) = Some PROCESS_BLOCKED))"
proof -
  have ki: "kinv ps (current s) s" by (rule kernel_inv_running [OF k c])
  let ?w = "ticks s + n"
  let ?s = "upd_proc (current s) (\<lambda>p. p\<lparr>wake_tick := ?w, wait_reason := WAIT_SLEEP, pstate := PROCESS_BLOCKED\<rparr>) s"
  have k1: "kinv ps (current s) ?s" by (rule kinv_block [OF ki]) simp_all
  obtain ctl t where t: "scheduler_tick ?s = Ret ctl t" "ticks t = ticks ?s" using tick_runs [OF kinvD(1) [OF k1]] by blast
  have "syscall_dispatch disk SYS_SLEEP n arg2 arg3 s = after_tick ?s (\<lambda>s1. Ret (Done 0) s1)"
    using p kinv_current(2) [OF ki]
    by (simp add: syscall_dispatch_def native_syscall_def sys_sleep_def scheduler_current_def deref_def Let_def timer_ticks_def)
  then have d: "syscall_dispatch disk SYS_SLEEP n arg2 arg3 s = Ret Away t" "sysok ps (current s) Away t"
    using after_tick_away [OF k1, of "\<lambda>s1. Ret (Done 0) s1"] t(1) by (cases ctl; simp add: after_tick_def)+
  have tk: "ticks t = ticks s" using t(2) by (simp add: upd_proc_def)
  have w: "unat ?w = unat (ticks s) + unat n" using n(2) by (simp add: unat_word_ariths)
  have "0 < unat n" using n(1) by (simp add: word_less_nat_alt)
  then have "\<not> ?w \<le> ticks ?s" unfolding word_le_nat_alt by (simp add: w upd_proc_def)
  then have "asleep (current s) ?w t"
    using tick_sleeper [OF kinvD(1) [OF k1] kinv_current(1) [OF k1] _ t(1), of ?w] p(1) by (simp add: asleep_def upd_proc_def)
  moreover have "sched_inv t ps" using d(2) by (simp add: sysok_def kernel_inv_def)
  ultimately have "\<exists>u. timer_run j regs t = Ret () u \<and> (if j = unat n then awake (current s) u else asleep (current s) ?w u)"
    if "j \<le> unat n" for j
    using sleeper_run [OF _ kinv_current(1) [OF k1], of t ?w "unat n" j regs] that \<open>0 < unat n\<close> w tk by auto
  then have "\<forall>j \<le> unat n. \<exists>u. timer_run j regs t = Ret () u \<and>
       (if j = unat n then status u (current s) = Some PROCESS_READY \<or> status u (current s) = Some PROCESS_RUNNING
        else status u (current s) = Some PROCESS_BLOCKED)"
    unfolding asleep_def awake_def by (force split: if_splits)
  then show ?thesis using d by (auto simp: sysok_def)
qed

theorem sleep_wakes_on_time_witness:
  "\<exists>t. syscall_dispatch disk_demo SYS_SLEEP 3 0 0 sys_demo = Ret Away t \<and>
     (\<exists>u. timer_run 2 regs_zero t = Ret () u \<and> status u 0x3000 = Some PROCESS_BLOCKED)"
proof -
  have p: "procs sys_demo (current sys_demo) = Some (process_zero\<lparr>pid := 2, pstate := PROCESS_RUNNING, pnext := 0x1000\<rparr>)"
    by (simp add: sys_demo_simps)
  have "use_linux_abi (process_zero\<lparr>pid := 2, pstate := PROCESS_RUNNING, pnext := 0x1000\<rparr>) = 0" by (simp add: process_zero_def)
  from sleep_wakes_on_time [OF sys_demo_inv p this, of 3 disk_demo 0 0 regs_zero] obtain t where
    t: "syscall_dispatch disk_demo SYS_SLEEP 3 0 0 sys_demo = Ret Away t"
    "\<forall>j \<le> 3. \<exists>u. timer_run j regs_zero t = Ret () u \<and>
       (if j = 3 then status u 0x3000 = Some PROCESS_READY \<or> status u 0x3000 = Some PROCESS_RUNNING else status u 0x3000 = Some PROCESS_BLOCKED)"
    unfolding sys_demo_simps(3,4) by (simp del: map_option_eq_Some) blast
  from t(2) [rule_format, of 2] have "\<exists>u. timer_run 2 regs_zero t = Ret () u \<and> status u 0x3000 = Some PROCESS_BLOCKED"
    by (simp del: map_option_eq_Some)
  with t(1) show ?thesis by blast
qed

end
