(* ===== verification/Syscall_Effects.thy ===== *)
theory Syscall_Effects
  imports Interrupts
begin

text \<open>
  What single system calls do: the bytes \<open>write\<close> puts out, the line \<open>read\<close> delivers, the pages \<open>sbrk\<close> maps, and
  the numbers that are no calls.
\<close>

section \<open>Growing the heap\<close>

lemma map_in_current: "cr3 s = pt \<Longrightarrow> vmm_map v f fl s = Ret () t \<Longrightarrow> cr3 t = pt \<Longrightarrow> vmm_map_in pt v f fl s = Ret () t"
proof -
  have same: "u\<lparr>cr3 := p\<rparr> = u" if "cr3 u = p" for p and u :: "'a vmm_state_scheme" using that by auto
  assume "cr3 s = pt" "vmm_map v f fl s = Ret () t" "cr3 t = pt"
  then show ?thesis by (simp add: vmm_map_in_def vmm_switch_address_space_def same)
qed

lemma page_distinct:
  assumes "unat v mod 4096 = 0" "unat v < 2 ^ 48" "unat w mod 4096 = 0" "unat w < 2 ^ 48"
  shows "va_path v = va_path w \<longleftrightarrow> v = w"
proof -
  have "v AND 0xFFFFFFFFF000 = v" "w AND 0xFFFFFFFFF000 = w" by (rule low_page_mask [OF assms(1,2)], rule low_page_mask [OF assms(3,4)])
  then show ?thesis unfolding va_path_eq_iff by simp
qed

text \<open>Page \<open>k\<close> of a heap that starts at \<open>base\<close>.\<close>

definition uheap_page :: "u64 \<Rightarrow> nat \<Rightarrow> u64" where
  "uheap_page base k = base + of_nat k * PAGE_SIZE"

lemma unat_uheap_page:
  assumes "unat base + 4096 * k < 2 ^ 48"
  shows "unat (uheap_page base k) = unat base + 4096 * k"
proof -
  have "uheap_page base k = of_nat (unat base + 4096 * k)" by (simp add: uheap_page_def ac_simps)
  moreover have "unat base + 4096 * k < 2 ^ LENGTH(64)" using assms by simp
  ultimately show ?thesis by (simp only: unat_of_nat_small)
qed

lemma uheap_page_distinct:
  assumes "unat base mod 4096 = 0" and "unat base + 4096 * j < 2 ^ 48" and "unat base + 4096 * k < 2 ^ 48"
  shows "va_path (uheap_page base j) = va_path (uheap_page base k) \<longleftrightarrow> j = k"
proof -
  note u = unat_uheap_page [OF assms(2)] unat_uheap_page [OF assms(3)]
  have "va_path (uheap_page base j) = va_path (uheap_page base k) \<longleftrightarrow> uheap_page base j = uheap_page base k"
    by (rule page_distinct) (simp_all only: u mod_mult_self2 assms)
  also have "\<dots> \<longleftrightarrow> j = k"
  proof
    assume "uheap_page base j = uheap_page base k"
    then have "unat (uheap_page base j) = unat (uheap_page base k)" by (rule arg_cong)
    then show "j = k" unfolding u by linarith
  qed (rule arg_cong)
  finally show ?thesis .
qed

lemma sbrk_pages_effect:
  assumes "as_wf r s" and "r = ENTRY_ADDR (cr3 s)" and "cr3 s = pt" and "unat base mod 4096 = 0"
    and "unat base + 4096 * (i + n) \<le> 2 ^ 47" and "\<forall>k. i \<le> k \<and> k < i + n \<longrightarrow> no_huge r (uheap_page base k) (mem s)"
    and "4 * n \<le> card (avail s)"
  shows "\<exists>t fs. sbrk_pages n (of_nat i) base pt s = Ret True t \<and> as_wf r t \<and> cr3 t = cr3 s \<and>
    length fs = n \<and> distinct fs \<and> avail t \<subseteq> avail s \<and> set fs \<subseteq> avail s - avail t \<and>
    (\<forall>v. \<forall>j < n. va_path v = va_path (uheap_page base (i + j)) \<longrightarrow> vmm_get_phys v t = fs ! j) \<and>
    (\<forall>v. (\<forall>j < n. va_path v \<noteq> va_path (uheap_page base (i + j))) \<longrightarrow> vmm_get_phys v t = vmm_get_phys v s)"
  using assms
proof (induction n arbitrary: i s)
  case 0
  then show ?case by simp
next
  case (Suc n)
  have fl: "(PTE_PRESENT OR PTE_WRITABLE OR PTE_USER :: u64) AND NOT 0xFFF = 0" by simp
  have nh: "no_huge r (uheap_page base i) (mem s)" using Suc.prems(6) by simp
  have av: "4 \<le> card (avail s)" using Suc.prems(7) by simp
  from page_step [OF Suc.prems(1,2) nh av fl] obtain f s1 s' t3 t2 t1 where
    s': "pmm_alloc s = (f, s1)" "f \<noteq> NULL" "f \<in> avail s" "mem s1 = mem s" "cr3 s1 = cr3 s"
      "vmm_map (uheap_page base i) f (PTE_PRESENT OR PTE_WRITABLE OR PTE_USER) s1 = Ret () s'" "as_wf r s'" "cr3 s' = cr3 s"
      "avail s' \<subseteq> avail s - {f}" "card (avail s) \<le> card (avail s') + 4"
      "\<forall>v. vmm_get_phys v s' = (if va_path v = va_path (uheap_page base i) then f else vmm_get_phys v s)"
    and mp: "mapped r (uheap_page base i) (f OR (PTE_PRESENT OR PTE_WRITABLE OR PTE_USER) OR PTE_PRESENT) t3 t2 t1 s1 s'" by (elim exE conjE)
  have run: "vmm_map_in pt (base + of_nat i * PAGE_SIZE) f (PTE_PRESENT OR PTE_WRITABLE OR PTE_USER) s1 = Ret () s'"
    using map_in_current [OF _ s'(6)] unfolding uheap_page_def s'(5,8) Suc.prems(3) by blast
  have nh': "\<forall>k. Suc i \<le> k \<and> k < Suc i + n \<longrightarrow> no_huge r (uheap_page base k) (mem s')"
    using mapped_no_huge [OF mp] Suc.prems(6) s'(4) by simp
  have "r = ENTRY_ADDR (cr3 s')" "cr3 s' = pt" "unat base + 4096 * (Suc i + n) \<le> 2 ^ 47" "4 * n \<le> card (avail s')"
    using Suc.prems(2,3,5,7) s'(8,10) by simp_all
  from Suc.IH [OF s'(7) this(1,2) Suc.prems(4) this(3) nh' this(4)] obtain t fs where
    t: "sbrk_pages n (of_nat (Suc i)) base pt s' = Ret True t" "as_wf r t" "cr3 t = cr3 s'" "length fs = n" "distinct fs"
      "avail t \<subseteq> avail s'" "set fs \<subseteq> avail s' - avail t"
      "\<forall>v. \<forall>j < n. va_path v = va_path (uheap_page base (Suc i + j)) \<longrightarrow> vmm_get_phys v t = fs ! j"
      "\<forall>v. (\<forall>j < n. va_path v \<noteq> va_path (uheap_page base (Suc i + j))) \<longrightarrow> vmm_get_phys v t = vmm_get_phys v s'" by (elim exE conjE)
  have "sbrk_pages (Suc n) (of_nat i) base pt s = Ret True t" using s'(1,2) run t(1) by (simp add: add.commute)
  moreover have "vmm_get_phys v t = (f # fs) ! j" if j: "j < Suc n" "va_path v = va_path (uheap_page base (i + j))" for v j
  proof (cases j)
    case 0
    have "va_path v \<noteq> va_path (uheap_page base (Suc i + k))" if "k < n" for k
      using uheap_page_distinct [OF Suc.prems(4), of i "Suc i + k"] Suc.prems(5) that j(2) 0 by simp
    then show ?thesis using t(9) [rule_format, of v] s'(11) j(2) 0 by simp
  next
    case (Suc k)
    then show ?thesis using t(8) [rule_format, of k v] j by simp
  qed
  moreover have "vmm_get_phys v t = vmm_get_phys v s" if "\<forall>j < Suc n. va_path v \<noteq> va_path (uheap_page base (i + j))" for v
  proof -
    have "\<forall>j < n. va_path v \<noteq> va_path (uheap_page base (Suc i + j))" "va_path v \<noteq> va_path (uheap_page base i)"
      using that [rule_format, of 0] that [rule_format, of "Suc j" for j] by auto
    then show ?thesis using t(9) [rule_format, of v] s'(11) by simp
  qed
  moreover have "distinct (f # fs)" "avail t \<subseteq> avail s" "set (f # fs) \<subseteq> avail s - avail t" "length (f # fs) = Suc n"
    using t(4-7) s'(3,9) by auto
  moreover have "cr3 t = cr3 s" using t(3) s'(8) by simp
  ultimately show ?case using t(2) by blast
qed

lemma unat_page_count:
  assumes "base \<le> e" and "unat e < 2 ^ 47"
  shows "unat (heap_page_count base e) = (unat e - unat base + 4095) div 4096"
proof (cases "base = e")
  case True
  then show ?thesis by (simp add: heap_page_count_def)
next
  case False
  then have lt: "base < e" using assms(1) by simp
  have "unat (e - base) = unat e - unat base" using assms(1) by (rule unat_sub)
  moreover have c: "e - base + PAGE_SIZE - 1 = (e - base) + 4095" by simp
  ultimately have "unat (e - base + PAGE_SIZE - 1) = unat e - unat base + 4095"
    unfolding c using assms(2) by (simp add: unat_word_ariths)
  then show ?thesis using lt by (simp add: heap_page_count_def unat_div)
qed

section \<open>Writing\<close>

lemma putchar_log: "vga_putchar c (s\<lparr>port_log := l\<rparr>) = (vga_putchar c s)\<lparr>port_log := l\<rparr>"
  by (simp add: vga_putchar_def vga_scroll_cells Let_def)

lemma putchar_fields: "port_log (vga_putchar c s) = port_log s" "port_dev (vga_putchar c s) = port_dev s"
  using console_only_putchar1 [of s c] by (auto simp: console_only_def)

lemma putchar_mem:
  fixes s :: "'a vmm_state_scheme"
  shows "mem (vga_putchar c s) = mem s" "cr3 (vga_putchar c s) = cr3 s"
  using console_only_putchar1 [of s c] by (auto simp: console_only_def)

text \<open>The loop of \<open>sys_write\<close> from index \<open>i\<close> on.\<close>

lemma write_loop:
  fixes s :: "'a vmm_state_scheme"
  assumes "uart_ready (port_dev s)" and "\<forall>j < length bs. peek (p + of_nat (i + j)) s = Some (bs ! j)"
  shows "\<exists>es. for_loop (length bs) i (\<lambda>i t. case peek (p + of_nat i) t of None \<Rightarrow> Fault
      | Some c \<Rightarrow> let t1 = vga_putchar c t
          in case peek (p + of_nat i) t1 of None \<Rightarrow> Fault | Some c' \<Rightarrow> serial_putchar c' t1) s =
        Ret () ((fold vga_putchar bs s)\<lparr>port_log := port_log s @ es\<rparr>) \<and> sent_to COM1 es = bs"
  using assms
proof (induction bs arbitrary: i s)
  case Nil
  show ?case by (rule exI [of _ "[]"]) simp
next
  case (Cons b bs)
  let ?t1 = "vga_putchar b s"
  have pk: "peek (p + of_nat i) s = Some b" "peek (p + of_nat i) ?t1 = Some b"
    using Cons.prems(2) [rule_format, of 0] peek_cong [of ?t1 s] putchar_mem [of b s] by simp_all
  obtain t es where t: "serial_putchar b ?t1 = Ret () t" "t = ?t1\<lparr>port_log := port_log s @ es\<rparr>" "sent_to COM1 es = [b]"
    using serial_putchar_sends [of ?t1 b] Cons.prems(1) putchar_fields [of b s] by (auto simp: sent_def)
  have "peek (p + of_nat (Suc i + j)) t = Some (bs ! j)" if "j < length bs" for j
    using Cons.prems(2) [rule_format, of "Suc j"] that peek_cong [of t s] putchar_mem [of b s] by (simp add: t(2))
  then obtain fs where fs: "for_loop (length bs) (Suc i) (\<lambda>i t. case peek (p + of_nat i) t of None \<Rightarrow> Fault
      | Some c \<Rightarrow> let t1 = vga_putchar c t
          in case peek (p + of_nat i) t1 of None \<Rightarrow> Fault | Some c' \<Rightarrow> serial_putchar c' t1) t =
        Ret () ((fold vga_putchar bs t)\<lparr>port_log := port_log t @ fs\<rparr>)" "sent_to COM1 fs = bs"
    using Cons.IH [of t "Suc i"] Cons.prems(1) putchar_fields [of b s] t(2) by auto
  have fl: "fold vga_putchar xs (u\<lparr>port_log := l\<rparr>) = (fold vga_putchar xs u)\<lparr>port_log := l\<rparr>" for xs u l
    by (induction xs arbitrary: u) (simp_all add: putchar_log)
  have "(fold vga_putchar bs t)\<lparr>port_log := port_log t @ fs\<rparr> = (fold vga_putchar (b # bs) s)\<lparr>port_log := port_log s @ es @ fs\<rparr>"
    by (simp add: t(2) fl)
  then show ?case using pk t fs by (intro exI [of _ "es @ fs"]) (simp add: Let_def)
qed

section \<open>Reading a line\<close>

lemma getchar_head:
  assumes "kb_inv s" and "kb_chars s = c # cs"
  shows "keyboard_has_char s \<and> (\<exists>k. keyboard_getchar s = (c, s\<lparr>kb_read_pos := k\<rparr>) \<and> kb_inv (s\<lparr>kb_read_pos := k\<rparr>) \<and>
    kb_chars (s\<lparr>kb_read_pos := k\<rparr>) = cs)"
proof -
  have ne: "kb_read_pos s \<noteq> kb_write_pos s"
    using assms rb_empty [of KB_BUFFER_SIZE "kb_read_pos s" "kb_write_pos s" "kb_buf s"] by (auto simp: kb_inv_def kb_chars_def)
  note g = char_queue.get_some [OF assms] char_queue.get_inv [OF assms(1)]
  have "kb_get s = (if kb_buf s ! kb_read_pos s = 0 then None else Some (kb_buf s ! kb_read_pos s),
      s\<lparr>kb_read_pos := (kb_read_pos s + 1) mod KB_BUFFER_SIZE\<rparr>)" using ne by (simp add: kb_get_def keyboard_getchar_def)
  then show ?thesis using g ne by (auto simp: keyboard_has_char_def keyboard_getchar_def split: if_splits)
qed

lemma read_line_loop:
  fixes s :: "'a kb_state_scheme"
  assumes "kb_inv s" and "kb_chars s = cs @ 0x0A # rest" and "0x0A \<notin> set cs" and "i + length cs < unat len"
    and "buffer_at buf n pa s0" and "\<forall>a. a \<notin> pa ` {..<n} \<longrightarrow> mem s a = mem s0 a" and "cr3 s = cr3 s0" and "i + length cs < n"
  shows "\<exists>t. read_loop buf len (of_nat i) s = Some (Ret (Done (of_nat (i + length cs + 1))) t) \<and> kb_chars t = rest \<and> cr3 t = cr3 s0 \<and>
    (\<forall>j \<le> length cs. mem t (pa (i + j)) = (cs @ [0x0A]) ! j) \<and> (\<forall>a. a \<notin> pa ` {i..i + length cs} \<longrightarrow> mem t a = mem s a) \<and>
    (\<exists>k. t = s\<lparr>kb_read_pos := k, mem := mem t\<rparr>)"
  using assms
proof (induction cs arbitrary: i s)
  case Nil
  have w: "of_nat i < len" using Nil.prems(4) unat_less_u64 [of len] by (simp add: word_less_nat_alt unat_of_nat_small)
  obtain k where k: "keyboard_has_char s" "keyboard_getchar s = (0x0A, s\<lparr>kb_read_pos := k\<rparr>)" "kb_chars (s\<lparr>kb_read_pos := k\<rparr>) = rest"
    using getchar_head [OF Nil.prems(1), of "0x0A" rest] Nil.prems(2) by auto
  let ?s = "s\<lparr>kb_read_pos := k\<rparr>"
  have m: "mmu (buf + of_nat i) ?s = Some (pa i)" by (rule buffer_atD [OF Nil.prems(5)]) (use Nil.prems in auto)
  let ?t = "?s\<lparr>mem := (mem ?s)(pa i := 0x0A)\<rparr>"
  have "read_loop buf len (of_nat i) s = Some (Ret (Done (of_nat i + 1)) ?t)"
    using w k(1,2) m by (subst read_loop.simps) (simp add: poke_def)
  moreover have "kb_chars ?t = kb_chars ?s" by (simp add: kb_chars_def)
  ultimately show ?case using k(3) Nil.prems(7) by (intro exI [of _ ?t]) (simp add: add.commute, intro exI [of _ k], simp add: fun_upd_def)
next
  case (Cons c cs)
  have w: "of_nat i < len" using Cons.prems(4) unat_less_u64 [of len] by (simp add: word_less_nat_alt unat_of_nat_small)
  obtain k where k: "keyboard_has_char s" "keyboard_getchar s = (c, s\<lparr>kb_read_pos := k\<rparr>)" "kb_inv (s\<lparr>kb_read_pos := k\<rparr>)"
    "kb_chars (s\<lparr>kb_read_pos := k\<rparr>) = cs @ 0x0A # rest"
    using getchar_head [OF Cons.prems(1), of c "cs @ 0x0A # rest"] Cons.prems(2) by auto
  let ?s = "s\<lparr>kb_read_pos := k\<rparr>"
  have m: "mmu (buf + of_nat i) ?s = Some (pa i)" by (rule buffer_atD [OF Cons.prems(5)]) (use Cons.prems in auto)
  let ?u = "?s\<lparr>mem := (mem ?s)(pa i := c)\<rparr>"
  have step: "read_loop buf len (of_nat i) s = read_loop buf len (of_nat (Suc i)) ?u"
    using w k(1,2) m Cons.prems(3) by (subst read_loop.simps) (simp add: poke_def add.commute)
  have u: "kb_inv ?u" "kb_chars ?u = cs @ 0x0A # rest" "cr3 ?u = cr3 s0" using k(3,4) Cons.prems(7) by (simp_all add: kb_inv_def kb_chars_def)
  have o: "\<forall>a. a \<notin> pa ` {..<n} \<longrightarrow> mem ?u a = mem s0 a" using Cons.prems(6,8) by auto
  have "0x0A \<notin> set cs" "Suc i + length cs < unat len" "Suc i + length cs < n" using Cons.prems(3,4,8) by simp_all
  from Cons.IH [OF u(1,2) this(1,2) Cons.prems(5) o u(3) this(3)] obtain t k' where
    t: "read_loop buf len (of_nat (Suc i)) ?u = Some (Ret (Done (of_nat (Suc i + length cs + 1))) t)" "kb_chars t = rest" "cr3 t = cr3 s0"
      "\<forall>j \<le> length cs. mem t (pa (Suc i + j)) = (cs @ [0x0A]) ! j" "\<forall>a. a \<notin> pa ` {Suc i..Suc i + length cs} \<longrightarrow> mem t a = mem ?u a"
      "t = ?u\<lparr>kb_read_pos := k', mem := mem t\<rparr>" by (elim exE conjE)
  have "pa i \<notin> pa ` {Suc i..Suc i + length cs}"
  proof
    assume "pa i \<in> pa ` {Suc i..Suc i + length cs}"
    then obtain j where "pa i = pa j" "Suc i \<le> j" "j < n" using Cons.prems(8) by auto
    then show False using Cons.prems(5,8) by (auto simp: buffer_at_def dest: inj_onD)
  qed
  then have "mem t (pa i) = c" using t(5) by simp
  then have "\<forall>j \<le> length (c # cs). mem t (pa (i + j)) = ((c # cs) @ [0x0A]) ! j"
    using t(4) by (auto simp: less_Suc_eq_0_disj le_Suc_eq nth_Cons split: nat.split)
  moreover have "mem t a = mem s a" if "a \<notin> pa ` {i..i + length (c # cs)}" for a
  proof -
    have "a \<notin> pa ` {Suc i..Suc i + length cs}" "a \<noteq> pa i" using that by auto
    then show ?thesis using t(5) by simp
  qed
  moreover have "\<exists>k. t = s\<lparr>kb_read_pos := k, mem := mem t\<rparr>" by (rule exI [of _ k'], rule trans [OF t(6)]) simp
  ultimately show ?case using step t(1-3) by (intro exI [of _ t]) simp
qed

section \<open>Properties\<close>

text \<open>C17. \<open>sbrk\<close> with a positive increment, for a process whose page table is the current one and while frames last, returns the old end of
  the heap and moves the end by the increment. Each page that the heap now reaches into for the first time
  translates to a frame of its own that was free before and is no longer; every other address translates as before, and no other
  process descriptor changes.\<close>

theorem sbrk_maps_fresh_pages:
  fixes s :: "'a sched_state_scheme"
  assumes p: "current s \<noteq> NULL" "procs s (current s) = Some p" "heap_start p \<noteq> 0" "cr3 s = page_table p"
    and wf: "as_wf (ENTRY_ADDR (cr3 s)) s" and uart: "uart_ready (port_dev s)"
    and heap: "unat (heap_start p) mod 4096 = 0" "heap_start p \<le> heap_end p"
    and n: "0 < sint n" "unat (heap_end p) + unat n + 4096 < 2 ^ 47"
    and a: "a = (unat (heap_end p) - unat (heap_start p) + 4095) div 4096"
      "b = (unat (heap_end p) + unat n - unat (heap_start p) + 4095) div 4096"
    and nh: "\<forall>k. a \<le> k \<and> k < b \<longrightarrow> no_huge (ENTRY_ADDR (cr3 s)) (uheap_page (heap_start p) k) (mem s)"
    and av: "4 * (b - a) \<le> card (avail s)"
  shows "\<exists>t fs. sys_sbrk n s = Ret (Done (heap_end p)) t \<and> procs t = (procs s)(current s \<mapsto> p\<lparr>heap_end := heap_end p + n\<rparr>) \<and>
    as_wf (ENTRY_ADDR (cr3 s)) t \<and> length fs = b - a \<and> distinct fs \<and> set fs \<subseteq> avail s - avail t \<and>
    (\<forall>j < b - a. vmm_get_phys (uheap_page (heap_start p) (a + j)) t = fs ! j) \<and>
    (\<forall>v. (\<forall>j < b - a. va_path v \<noteq> va_path (uheap_page (heap_start p) (a + j))) \<longrightarrow> vmm_get_phys v t = vmm_get_phys v s)"
proof -
  let ?r = "ENTRY_ADDR (cr3 s)" and ?base = "heap_start p" and ?e = "heap_end p + n"
  have ue: "unat ?e = unat (heap_end p) + unat n" using n(2) by (simp add: unat_word_ariths)
  have "heap_end p \<le> ?e" unfolding word_le_nat_alt ue by simp
  then have be: "?base \<le> ?e" using heap(2) by (rule order_trans [rotated])
  have ca: "unat (heap_page_count ?base (heap_end p)) = a" unfolding a(1) using heap(2) n(2) by (intro unat_page_count) simp_all
  have cb: "unat (heap_page_count ?base ?e) = b" unfolding a(2) ue [symmetric] using be n(2) ue by (intro unat_page_count) simp_all
  have ab: "a \<le> b" unfolding a by (intro div_le_mono) simp
  have bl: "unat ?base + 4096 * (a + (b - a)) \<le> 2 ^ 47"
  proof -
    have "4096 * b \<le> unat (heap_end p) + unat n - unat ?base + 4095" unfolding a(2) by simp
    moreover have "unat ?base \<le> unat (heap_end p)" using heap(2) by (simp add: word_le_nat_alt)
    ultimately show ?thesis using n(2) ab by simp
  qed
  obtain s1 where s1: "serial_print (str ''DOOM expanding heap via sbrk'' @ [0x0A]) s = Ret () s1" "sent (str ''DOOM expanding heap via sbrk'' @ [0x0A]) s s1"
    using serial_print_sends [OF uart, of "str ''DOOM expanding heap via sbrk'' @ [0x0A]"] by (auto simp: str_def)
  obtain es where es: "s1 = s\<lparr>port_log := port_log s @ es\<rparr>" using s1(2) by (auto simp: sent_def)
  have f1: "procs s1 = procs s" "cr3 s1 = cr3 s" "mem s1 = mem s" "avail s1 = avail s" "pmm_inv s1 = pmm_inv s" "current s1 = current s"
    unfolding es by (simp_all add: avail_def free_set_def bitmap_test_def pmm_inv_def)
  have gp: "vmm_get_phys v s1 = vmm_get_phys v s" for v unfolding es by (simp add: vmm_get_phys_def Let_def)
  have wf1: "as_wf ?r s1" using wf unfolding as_wf_def f1 .
  from sbrk_pages_effect [OF wf1, of "page_table p" ?base a "b - a"] f1 p(4) heap(1) bl nh ab av obtain t fs where
    t: "sbrk_pages (b - a) (of_nat a) ?base (page_table p) s1 = Ret True t" "as_wf ?r t" "length fs = b - a" "distinct fs" "set fs \<subseteq> avail s - avail t"
      "\<forall>v. \<forall>j < b - a. va_path v = va_path (uheap_page ?base (a + j)) \<longrightarrow> vmm_get_phys v t = fs ! j"
      "\<forall>v. (\<forall>j < b - a. va_path v \<noteq> va_path (uheap_page ?base (a + j))) \<longrightarrow> vmm_get_phys v t = vmm_get_phys v s" unfolding gp by auto
  have "vmm_state.more t = vmm_state.more s1" using rest_upper.paging.sbrk [of s1 "vmm_state.more s1" "b - a" "of_nat a" ?base "page_table p"] t(1) by simp
  then have pt: "procs t = procs s" using f1(1) by (cases t, cases s1) simp
  have oa: "heap_page_count ?base (heap_end p) = of_nat a" unfolding ca [symmetric] by simp
  have ua: "unat (of_nat a :: u64) = a" using ca unfolding oa .
  let ?t = "upd_proc (current s) (\<lambda>p. p\<lparr>heap_end := ?e\<rparr>) t"
  have run: "sys_sbrk n s = Ret (Done (heap_end p)) ?t"
    using n(1) p(1-3) t(1) pt f1(1) ua unfolding sys_sbrk_def scheduler_current_def Let_def deref_def
    by (auto simp: s1(1) oa cb simp del: str_simps str_append)
  have "procs ?t = (procs s)(current s \<mapsto> p\<lparr>heap_end := ?e\<rparr>)" using pt p(2) by (simp add: upd_proc_def)
  moreover have "as_wf ?r ?t" "avail ?t = avail t" using t(2) unfolding as_wf_def
    by (simp_all add: upd_proc_def avail_def free_set_def bitmap_test_def pmm_inv_def)
  moreover have "vmm_get_phys v ?t = vmm_get_phys v t" for v by (simp add: upd_proc_def vmm_get_phys_def Let_def)
  ultimately show ?thesis using run t by (intro exI [of _ ?t] exI [of _ fs]) simp
qed

text \<open>A process of one page of heap to come, in an empty address space with four free frames; the transmitter is ready.\<close>

definition sbrk_demo :: sched_state where
  "sbrk_demo = sched_demo\<lparr>mem := \<lambda>_. 0, port_dev := \<lambda>_ _. 0x20, current := 0x3000,
     procs := [0x3000 \<mapsto> process_zero\<lparr>page_table := 0x1000, heap_start := 0x800000, heap_end := 0x800000\<rparr>]\<rparr>"

lemma sbrk_demo_simps:
  "procs sbrk_demo = [0x3000 \<mapsto> process_zero\<lparr>page_table := 0x1000, heap_start := 0x800000, heap_end := 0x800000\<rparr>]"
  "current sbrk_demo = 0x3000" "cr3 sbrk_demo = 0x1000" "mem sbrk_demo = (\<lambda>_. 0)" "port_dev sbrk_demo = (\<lambda>_ _. 0x20)"
  "free_set sbrk_demo = free_set vmm_four" "pmm_inv sbrk_demo"
proof -
  have b: "bitmap sbrk_demo = bitmap vmm_four" "free_frame_count sbrk_demo = free_frame_count vmm_four"
    by (simp_all add: sbrk_demo_def sched_demo_def idt_state.defs idt_blank_def proc_state.defs proc_fresh_def gdt_state.defs gdt_blank_def
        heap_state.defs heap_fresh_def vmm_state.defs)
  show fs: "free_set sbrk_demo = free_set vmm_four" using b by (simp add: free_set_def bitmap_test_def)
  show "pmm_inv sbrk_demo" using vmm_four_pmm(1) b fs by (simp add: pmm_inv_def)
  show "cr3 sbrk_demo = 0x1000"
    by (simp add: sbrk_demo_def sched_demo_def idt_state.defs idt_blank_def proc_state.defs proc_fresh_def gdt_state.defs gdt_blank_def
        heap_state.defs heap_fresh_def vmm_state.defs)
qed (simp_all add: sbrk_demo_def)

theorem sbrk_maps_fresh_pages_witness:
  "\<exists>t f. sys_sbrk 100 sbrk_demo = Ret (Done 0x800000) t \<and> vmm_get_phys 0x800000 t = f \<and> f \<in> avail sbrk_demo"
proof -
  have wf: "as_wf 0x1000 sbrk_demo"
    by (auto simp: as_wf_def sbrk_demo_simps pview_zero_iff avail_def vmm_four_pmm frame_addr_def page_aligned_def simp del: pview.simps(2))
  have av: "card (avail sbrk_demo) = 4" using avail_four by (simp add: avail_def sbrk_demo_simps)
  let ?p = "process_zero\<lparr>page_table := 0x1000, heap_start := 0x800000, heap_end := 0x800000\<rparr>"
  have s: "current sbrk_demo \<noteq> NULL" "procs sbrk_demo (current sbrk_demo) = Some ?p" "heap_start ?p \<noteq> 0" "cr3 sbrk_demo = page_table ?p"
    "as_wf (ENTRY_ADDR (cr3 sbrk_demo)) sbrk_demo" "uart_ready (port_dev sbrk_demo)" "unat (heap_start ?p) mod 4096 = 0" "heap_start ?p \<le> heap_end ?p"
    "0 < sint (100 :: u64)" "unat (heap_end ?p) + unat (100 :: u64) + 4096 < 2 ^ 47"
    "0 = (unat (heap_end ?p) - unat (heap_start ?p) + 4095) div 4096"
    "1 = (unat (heap_end ?p) + unat (100 :: u64) - unat (heap_start ?p) + 4095) div 4096"
    "\<forall>k. 0 \<le> k \<and> k < 1 \<longrightarrow> no_huge (ENTRY_ADDR (cr3 sbrk_demo)) (uheap_page (heap_start ?p) k) (mem sbrk_demo)"
    "4 * (1 - 0) \<le> card (avail sbrk_demo)"
    by (simp_all add: sbrk_demo_simps process_zero_def wf uart_ready_def av no_huge_zero)
  from sbrk_maps_fresh_pages [OF s] have "\<exists>t fs. sys_sbrk 100 sbrk_demo = Ret (Done 0x800000) t \<and> length fs = 1 \<and> set fs \<subseteq> avail sbrk_demo \<and>
      vmm_get_phys (uheap_page 0x800000 0) t = fs ! 0" by (force simp: process_zero_def)
  then show ?thesis by (auto simp: uheap_page_def length_Suc_conv)
qed

text \<open>C19. \<open>write\<close> of a mapped buffer, with a transmitter that becomes ready, returns the length, and exactly the bytes of the
  buffer have been put on the screen and sent on the serial line, in order; nothing else of the machine has changed.\<close>

theorem sys_write_outputs:
  fixes s :: "'a sys_state_scheme"
  assumes "0x1000 \<le> p" and "uart_ready (port_dev s)" and "unat len = length bs" and "\<forall>j < length bs. peek (p + of_nat j) s = Some (bs ! j)"
  shows "\<exists>es. sys_write p len s = Ret (Done len) ((fold vga_putchar bs s)\<lparr>port_log := port_log s @ es\<rparr>) \<and> sent_to COM1 es = bs"
  using write_loop [of s bs p 0] assms unfolding sys_write_def by auto

theorem sys_write_outputs_witness:
  "\<exists>es. sys_write 0x300000 2 (sys_demo\<lparr>port_dev := \<lambda>_ _. 0x20\<rparr>) =
      Ret (Done 2) ((fold vga_putchar [0x2F, 0x68] (sys_demo\<lparr>port_dev := \<lambda>_ _. 0x20\<rparr>))\<lparr>port_log := port_log sys_demo @ es\<rparr>) \<and> sent_to COM1 es = [0x2F, 0x68]"
proof -
  have "mem (sys_demo\<lparr>port_dev := \<lambda>_ _. 0x20\<rparr>) = tar_demo" by (simp add: sys_demo_def rd_state.defs rd_demo_simps)
  then have "\<forall>j < length [0x2F, 0x68 :: u8]. peek (0x300000 + of_nat j) (sys_demo\<lparr>port_dev := \<lambda>_ _. 0x20\<rparr>) = Some ([0x2F, 0x68] ! j)"
    by (auto simp: less_Suc_eq kernel_addr_def tar_demo_def)
  from sys_write_outputs [OF _ _ _ this, of 2] show ?thesis by (simp add: uart_ready_def)
qed

text \<open>C18. \<open>read\<close>, when a whole line is waiting and fits, does not block: it stores the line with its newline at the start of the
  buffer, returns its length, removes exactly these characters from the keyboard's queue and changes no other byte of memory.\<close>

theorem sys_read_delivers_line:
  fixes s :: "'a kb_state_scheme"
  assumes "kb_inv s" and "kb_chars s = cs @ 0x0A # rest" and "0x0A \<notin> set cs" and "length cs < unat len" and "buf \<noteq> NULL"
    and "buffer_at buf (length cs + 1) pa s"
  shows "\<exists>t. sys_read buf len s = Ret (Done (of_nat (length cs + 1))) t \<and> kb_chars t = rest \<and>
    (\<forall>j \<le> length cs. peek (buf + of_nat j) t = Some ((cs @ [0x0A]) ! j)) \<and> (\<forall>a. a \<notin> pa ` {..length cs} \<longrightarrow> mem t a = mem s a)"
proof -
  obtain t where t: "read_loop buf len 0 s = Some (Ret (Done (of_nat (length cs + 1))) t)" "kb_chars t = rest" "cr3 t = cr3 s"
    "\<forall>j \<le> length cs. mem t (pa j) = (cs @ [0x0A]) ! j" "\<forall>a. a \<notin> pa ` {0..length cs} \<longrightarrow> mem t a = mem s a"
    using read_line_loop [OF assms(1-3), of 0 len buf "length cs + 1" pa s] assms(4,6) by auto
  have o: "\<forall>a. a \<notin> pa ` {..<length cs + 1} \<longrightarrow> mem t a = mem s a" using t(5) by (simp add: atLeast0AtMost lessThan_Suc_atMost)
  have "peek (buf + of_nat j) t = Some ((cs @ [0x0A]) ! j)" if "j \<le> length cs" for j
    using buffer_atD [OF assms(6) o t(3), of j] t(4) that by (simp add: peek_def)
  moreover have "len \<noteq> 0" using assms(4) by auto
  ultimately show ?thesis using t(1,2,5) assms(5) by (intro exI [of _ t]) (simp add: sys_read_def atLeast0AtMost)
qed

theorem sys_read_delivers_line_witness:
  "\<exists>t. sys_read 0x400000 16 (fold kb_put [0x61, 0x0A] sys_demo) = Ret (Done 2) t \<and> kb_chars t = [] \<and> peek 0x400000 t = Some 0x61"
proof -
  let ?s = "fold kb_put [0x61, 0x0A] sys_demo"
  have e: "kb_chars sys_demo = []"
    using kb_demo_props(2) by (simp add: sys_demo_def rd_demo_def rd_state.defs kb_state.defs kb_chars_def)
  have q: "kb_inv ?s" "kb_chars ?s = [0x61] @ 0x0A # []"
    using char_queue.put_all [OF sys_demo_simps(7), of "[0x61, 0x0A]"] by (simp_all add: e)
  have "buffer_at 0x400000 (length [0x61 :: u8] + 1) (\<lambda>i. 0x400000 + of_nat i) ?s"
    by (auto simp: buffer_at_def mmu_def kernel_addr_def inj_on_def less_Suc_eq)
  from sys_read_delivers_line [OF q _ _ _ this, of 16] show ?thesis by auto
qed

text \<open>A number that is no system call of the caller's numbering is answered with -1 and changes nothing. In the kernel's own
  numbering this also holds for 18, which \<open>u_get_raw_key\<close> uses, and for 158, which \<open>u_set_fs_base\<close> uses.\<close>

theorem unknown_syscall_rejected:
  fixes s :: "'a sys_state_scheme"
  assumes "current s \<noteq> NULL" and "procs s (current s) = Some p" and "use_linux_abi p = 0" and "num \<notin> {0..6} \<union> {8..16} \<union> {177}"
  shows "syscall_dispatch disk num arg1 arg2 arg3 s = Ret (Done (-1)) s \<and>
    syscall_dispatch disk 18 arg1 arg2 arg3 s = Ret (Done (-1)) s \<and> syscall_dispatch disk 158 arg1 arg2 arg3 s = Ret (Done (-1)) s"
proof -
  have d: "syscall_dispatch disk k arg1 arg2 arg3 s = native_syscall disk k arg1 arg2 arg3 s" for k
    using assms(1-3) by (simp add: syscall_dispatch_def scheduler_current_def deref_def Let_def)
  have "k \<notin> {0..6} \<union> {8..16} \<union> {177} \<Longrightarrow> native_syscall disk k arg1 arg2 arg3 s = Ret (Done (-1)) s" for k
    unfolding native_syscall_def by auto
  then show ?thesis using assms(4) unfolding d by simp
qed

theorem unknown_syscall_rejected_witness:
  "syscall_dispatch disk_demo 7 0 0 0 sys_demo = Ret (Done (-1)) sys_demo"
  using unknown_syscall_rejected [of sys_demo _ 7 disk_demo 0 0 0] by (simp add: sys_demo_simps process_zero_def)

end
