(* ===== verification/User_Lib.thy ===== *)
theory User_Lib
  imports Syscall_Effects
begin

text \<open>
  The user library, \<open>src/user/user_lib.c\<close>: each function loads the number of a system call and its arguments into registers and executes
  \<open>syscall\<close>. The kernel's entry code hands RAX, RDI, RSI and RDX to \<open>syscall_dispatch\<close>; a register that a function does not
  load has the value it happened to have. A function that returns gives \<open>Some\<close> of its result, cut to the C type
  of the result; \<open>None\<close> is that the processor went to another process.
\<close>

section \<open>The wrappers\<close>

record user_regs =
  r_rdi :: u64
  r_rsi :: u64
  r_rdx :: u64

definition u_syscall :: "initrd_syms \<Rightarrow> u64 \<Rightarrow> user_regs \<Rightarrow> (u64 \<Rightarrow> 'r) \<Rightarrow> 'a sys_state_scheme \<Rightarrow> ('a sys_state_scheme, 'r option) outcome" where
  "u_syscall disk num r cast s =
     obind (syscall_dispatch disk num (r_rdi r) (r_rsi r) (r_rdx r) s) (\<lambda>x t. Ret (case x of Done v \<Rightarrow> Some (cast v) | Away \<Rightarrow> None) t)"

text \<open>A result of type \<open>void\<close>.\<close>

abbreviation no_result :: "u64 \<Rightarrow> unit" where "no_result \<equiv> \<lambda>_. ()"

definition u_write :: "initrd_syms \<Rightarrow> user_regs \<Rightarrow> u64 \<Rightarrow> u64 \<Rightarrow> 'a sys_state_scheme \<Rightarrow> ('a sys_state_scheme, unit option) outcome" where
  "u_write disk r buf len = u_syscall disk 0 (r\<lparr>r_rdi := buf, r_rsi := len\<rparr>) no_result"

definition u_sleep :: "initrd_syms \<Rightarrow> user_regs \<Rightarrow> u64 \<Rightarrow> 'a sys_state_scheme \<Rightarrow> ('a sys_state_scheme, unit option) outcome" where
  "u_sleep disk r n = u_syscall disk 4 (r\<lparr>r_rdi := n\<rparr>) no_result"

definition u_read :: "initrd_syms \<Rightarrow> user_regs \<Rightarrow> u64 \<Rightarrow> u64 \<Rightarrow> 'a sys_state_scheme \<Rightarrow> ('a sys_state_scheme, u64 option) outcome" where
  "u_read disk r buf len = u_syscall disk 5 (r\<lparr>r_rdi := buf, r_rsi := len\<rparr>) id"

definition u_yield :: "initrd_syms \<Rightarrow> user_regs \<Rightarrow> 'a sys_state_scheme \<Rightarrow> ('a sys_state_scheme, unit option) outcome" where
  "u_yield disk r = u_syscall disk 2 r no_result"

definition u_exit :: "initrd_syms \<Rightarrow> user_regs \<Rightarrow> 'a sys_state_scheme \<Rightarrow> ('a sys_state_scheme, unit option) outcome" where
  "u_exit disk r = u_syscall disk 1 r no_result"

definition u_map_fb :: "initrd_syms \<Rightarrow> user_regs \<Rightarrow> 'a sys_state_scheme \<Rightarrow> ('a sys_state_scheme, u64 option) outcome" where
  "u_map_fb disk r = u_syscall disk 6 r id"

definition u_getkey :: "initrd_syms \<Rightarrow> user_regs \<Rightarrow> 'a sys_state_scheme \<Rightarrow> ('a sys_state_scheme, u8 option) outcome" where
  "u_getkey disk r = u_syscall disk 177 r ucast"

definition u_open :: "initrd_syms \<Rightarrow> user_regs \<Rightarrow> u64 \<Rightarrow> 'a sys_state_scheme \<Rightarrow> ('a sys_state_scheme, u32 option) outcome" where
  "u_open disk r path = u_syscall disk 8 (r\<lparr>r_rdi := path\<rparr>) ucast"

text \<open>A descriptor is an \<open>int\<close>, which the cast to \<open>uint64_t\<close> extends with its sign.\<close>

definition u_fread :: "initrd_syms \<Rightarrow> user_regs \<Rightarrow> u32 \<Rightarrow> u64 \<Rightarrow> u64 \<Rightarrow> 'a sys_state_scheme \<Rightarrow> ('a sys_state_scheme, u32 option) outcome" where
  "u_fread disk r fd buf len = u_syscall disk 9 (r\<lparr>r_rdi := scast fd, r_rsi := buf, r_rdx := len\<rparr>) ucast"

definition u_fseek :: "initrd_syms \<Rightarrow> user_regs \<Rightarrow> u32 \<Rightarrow> u64 \<Rightarrow> u32 \<Rightarrow> 'a sys_state_scheme \<Rightarrow> ('a sys_state_scheme, u32 option) outcome" where
  "u_fseek disk r fd off whence = u_syscall disk 10 (r\<lparr>r_rdi := scast fd, r_rsi := off, r_rdx := scast whence\<rparr>) ucast"

definition u_fclose :: "initrd_syms \<Rightarrow> user_regs \<Rightarrow> u32 \<Rightarrow> 'a sys_state_scheme \<Rightarrow> ('a sys_state_scheme, unit option) outcome" where
  "u_fclose disk r fd = u_syscall disk 11 (r\<lparr>r_rdi := scast fd\<rparr>) no_result"

definition u_fsize :: "initrd_syms \<Rightarrow> user_regs \<Rightarrow> u32 \<Rightarrow> 'a sys_state_scheme \<Rightarrow> ('a sys_state_scheme, u64 option) outcome" where
  "u_fsize disk r fd = u_syscall disk 12 (r\<lparr>r_rdi := scast fd\<rparr>) id"

definition u_sbrk :: "initrd_syms \<Rightarrow> user_regs \<Rightarrow> u64 \<Rightarrow> 'a sys_state_scheme \<Rightarrow> ('a sys_state_scheme, u64 option) outcome" where
  "u_sbrk disk r increment = u_syscall disk 13 (r\<lparr>r_rdi := increment\<rparr>) id"

definition u_gettime :: "initrd_syms \<Rightarrow> user_regs \<Rightarrow> 'a sys_state_scheme \<Rightarrow> ('a sys_state_scheme, u64 option) outcome" where
  "u_gettime disk r = u_syscall disk 14 r id"

definition u_setpalette :: "initrd_syms \<Rightarrow> user_regs \<Rightarrow> u64 \<Rightarrow> 'a sys_state_scheme \<Rightarrow> ('a sys_state_scheme, unit option) outcome" where
  "u_setpalette disk r palette768 = u_syscall disk 15 (r\<lparr>r_rdi := palette768\<rparr>) no_result"

definition u_set_fs_base :: "initrd_syms \<Rightarrow> user_regs \<Rightarrow> u64 \<Rightarrow> 'a sys_state_scheme \<Rightarrow> ('a sys_state_scheme, unit option) outcome" where
  "u_set_fs_base disk r base = u_syscall disk 158 (r\<lparr>r_rdi := 0x1002, r_rsi := base\<rparr>) no_result"

definition u_get_raw_key :: "initrd_syms \<Rightarrow> user_regs \<Rightarrow> u64 \<Rightarrow> 'a sys_state_scheme \<Rightarrow> ('a sys_state_scheme, u32 option) outcome" where
  "u_get_raw_key disk r event = u_syscall disk 18 (r\<lparr>r_rdi := event\<rparr>) ucast"

lemmas u_defs = u_write_def u_sleep_def u_read_def u_yield_def u_exit_def u_map_fb_def u_getkey_def u_open_def u_fread_def u_fseek_def
  u_fclose_def u_fsize_def u_sbrk_def u_gettime_def u_setpalette_def u_set_fs_base_def u_get_raw_key_def

section \<open>Both numberings\<close>

text \<open>The process that runs uses the kernel's own numbers, or those of Linux.\<close>

definition native :: "'a sched_state_scheme \<Rightarrow> bool" where
  "native s \<longleftrightarrow> current s \<noteq> NULL \<and> (\<exists>p. procs s (current s) = Some p \<and> use_linux_abi p = 0)"

definition linux :: "'a sched_state_scheme \<Rightarrow> bool" where
  "linux s \<longleftrightarrow> current s \<noteq> NULL \<and> (\<exists>p. procs s (current s) = Some p \<and> use_linux_abi p \<noteq> 0)"

definition returns :: "(u64 \<Rightarrow> 'r) \<Rightarrow> ('s, sysret) outcome \<Rightarrow> ('s, 'r option) outcome" where
  "returns cast m = obind m (\<lambda>x t. Ret (case x of Done v \<Rightarrow> Some (cast v) | Away \<Rightarrow> None) t)"

lemma native_dispatch: "native s \<Longrightarrow> syscall_dispatch disk k a b c s = native_syscall disk k a b c s"
  by (auto simp: native_def syscall_dispatch_def scheduler_current_def deref_def Let_def)

lemma linux_dispatch: "linux s \<Longrightarrow> \<not> linux_first s \<Longrightarrow> syscall_dispatch disk k a b c s = linux_syscall disk k a b c s"
  by (auto simp: linux_def syscall_dispatch_def scheduler_current_def deref_def Let_def linux_syscall_dispatch_def)

lemma to_int_scast [simp]: "to_int (scast (x :: u32) :: u64) = sint x"
proof -
  have "ucast (scast x :: u64) = x" by (rule bit_word_eqI) (auto simp: bit_simps)
  then show ?thesis by (simp add: to_int_def)
qed

lemma ucast_int: "(ucast (of_int k :: u64) :: u32) = of_int k" "ucast (- 1 :: u64) = (- 1 :: u32)"
  by (rule bit_word_eqI, auto simp: bit_simps)+

text \<open>C25. In a process of the kernel's own kind every function of the user library reaches the handler of its name with its arguments, descriptors and
  \<open>whence\<close> with their sign, and whatever the other registers hold is of no account. Two functions do not: \<open>u_set_fs_base\<close> and
  \<open>u_get_raw_key\<close> use numbers the dispatcher does not know, and get -1.
\<close>

theorem user_lib_reaches_handlers:
  fixes s :: "'a sys_state_scheme"
  assumes "native s"
  shows "u_write disk r buf len s = returns no_result (sys_write buf len s) \<and> u_sleep disk r n s = returns no_result (sys_sleep n s) \<and>
    u_read disk r buf len s = returns id (sys_read buf len s) \<and> u_yield disk r s = returns no_result (sys_yield s) \<and>
    u_exit disk r s = returns no_result (sys_exit (r_rdi r) s) \<and> u_map_fb disk r s = returns id (sys_map_fb s) \<and>
    u_getkey disk r s = returns ucast (sys_getkey s) \<and> u_open disk r path s = returns ucast (sys_open disk path s) \<and>
    u_fread disk r fd buf len s = obind (ramdisk_read (sint fd) buf len s) (\<lambda>k t. Ret (Some (of_int k)) t) \<and>
    u_fseek disk r fd off w s = (case ramdisk_seek (sint fd) off (sint w) s of (k, t) \<Rightarrow> Ret (Some (of_int k)) t) \<and>
    u_fclose disk r fd s = Ret (Some ()) (ramdisk_close (sint fd) s) \<and>
    u_fsize disk r fd s = Ret (Some (of_int (ramdisk_size (sint fd) s))) s \<and>
    u_sbrk disk r inc s = returns id (sys_sbrk inc s) \<and> u_gettime disk r s = Ret (Some (ticks s * 10)) s \<and>
    u_setpalette disk r pal s = returns no_result (sys_setpalette pal s) \<and>
    u_set_fs_base disk r base s = Ret (Some ()) s \<and> u_get_raw_key disk r event s = Ret (Some (-1)) s"
  unfolding u_defs u_syscall_def native_dispatch [OF assms] returns_def native_syscall_def
  by (cases "ramdisk_read (sint fd) buf len s"; cases "ramdisk_seek (sint fd) off (sint w) s")
     (simp_all add: sys_fread_def sys_fseek_def sys_fclose_def sys_fsize_def sys_gettime_def timer_ticks_def ucast_int)

definition regs_demo :: user_regs where
  "regs_demo = \<lparr>r_rdi = 1, r_rsi = 2, r_rdx = 3\<rparr>"

theorem user_lib_reaches_handlers_witness:
  "u_gettime disk_demo regs_demo sys_demo = Ret (Some 40) sys_demo \<and>
   u_get_raw_key disk_demo regs_demo 0x400000 sys_demo = Ret (Some (-1)) sys_demo"
proof -
  have "native sys_demo" by (simp add: native_def sys_demo_simps process_zero_def)
  from user_lib_reaches_handlers [OF this, of disk_demo regs_demo] show ?thesis by (simp add: sys_demo_simps)
qed

text \<open>In a process with the Linux numbering, after its first call, the functions that Doom's platform code uses still reach their handlers, also the two that
  fail in a native process. \<open>u_exit\<close> does not end such a process: its number is Linux' \<open>write\<close>.
\<close>

theorem user_lib_under_linux:
  fixes s :: "'a sys_state_scheme"
  assumes "linux s" and "\<not> linux_first s"
  shows "u_sleep disk r n s = returns no_result (sys_sleep n s) \<and> u_map_fb disk r s = returns id (sys_map_fb s) \<and>
    u_getkey disk r s = returns ucast (sys_getkey s) \<and> u_sbrk disk r inc s = returns id (sys_sbrk inc s) \<and>
    u_gettime disk r s = Ret (Some (ticks s * 10)) s \<and> u_setpalette disk r pal s = returns no_result (sys_setpalette pal s) \<and>
    u_set_fs_base disk r base s = returns no_result (sys_set_fs_base base s) \<and> u_get_raw_key disk r event s = returns ucast (sys_get_raw_key event s) \<and>
    u_exit disk r s = returns no_result (sys_write (r_rsi r) (r_rdx r) s)"
  unfolding u_defs u_syscall_def linux_dispatch [OF assms] returns_def linux_syscall_def
  by (simp add: sys_gettime_def timer_ticks_def)

theorem user_lib_under_linux_witness:
  "\<exists>s :: sys_state. linux s \<and> u_gettime disk_demo regs_demo s = Ret (Some 40) s"
proof -
  let ?s = "sys_demo\<lparr>procs := (procs sys_demo)(0x3000 \<mapsto> process_zero\<lparr>use_linux_abi := 1\<rparr>), linux_first := False\<rparr>"
  have "linux ?s" by (simp add: linux_def sys_demo_simps)
  moreover have "\<not> linux_first ?s" by simp
  ultimately have "u_gettime disk_demo regs_demo ?s = Ret (Some (ticks ?s * 10)) ?s" using user_lib_under_linux [of ?s disk_demo regs_demo] by blast
  with \<open>linux ?s\<close> show ?thesis by (intro exI [of _ ?s]) (simp add: sys_demo_simps)
qed

end
