(* ===== verification/User_Malloc.thy ===== *)
theory User_Malloc
  imports User_Lib
begin

text \<open>
  The allocator of the user library, \<open>src/user/malloc.c\<close>: a doubly linked list of blocks in a heap that grows through \<open>u_sbrk\<close>. The program sees
  its own address space as a byte per address; the kernel is behind the function \<open>sbrk\<close>, an argument of the definitions, with what
  the allocator needs of it in the locale \<open>program_break\<close>. A call that does not come back to the program is \<open>None\<close>.
\<close>

section \<open>Blocks\<close>

abbreviation USED_MAGIC :: u32 where "USED_MAGIC \<equiv> 0xA110CA7E"
abbreviation FREE_MAGIC :: u32 where "FREE_MAGIC \<equiv> 0xFEEEFEEE"

definition ALIGN8 :: "u64 \<Rightarrow> u64" where
  "ALIGN8 n = (n + 7) AND NOT 7"

text \<open>A \<open>blk_t\<close> is 32 bytes: \<open>size\<close> at 0, \<open>magic\<close> at 8, \<open>free\<close> at 12, \<open>next\<close> at 16, \<open>prev\<close> at 24.\<close>

definition b_size :: "memory \<Rightarrow> u64 \<Rightarrow> u64" where "b_size m b = load64 m b"
definition b_magic :: "memory \<Rightarrow> u64 \<Rightarrow> u32" where "b_magic m b = load32 m (b + 8)"
definition b_free :: "memory \<Rightarrow> u64 \<Rightarrow> u32" where "b_free m b = load32 m (b + 12)"
definition b_next :: "memory \<Rightarrow> u64 \<Rightarrow> u64" where "b_next m b = load64 m (b + 16)"
definition b_prev :: "memory \<Rightarrow> u64 \<Rightarrow> u64" where "b_prev m b = load64 m (b + 24)"

definition set_size :: "u64 \<Rightarrow> u64 \<Rightarrow> memory \<Rightarrow> memory" where "set_size b v m = store64 m b v"
definition set_magic :: "u64 \<Rightarrow> u32 \<Rightarrow> memory \<Rightarrow> memory" where "set_magic b v m = store32 m (b + 8) v"
definition set_free :: "u64 \<Rightarrow> u32 \<Rightarrow> memory \<Rightarrow> memory" where "set_free b v m = store32 m (b + 12) v"
definition set_next :: "u64 \<Rightarrow> u64 \<Rightarrow> memory \<Rightarrow> memory" where "set_next b v m = store64 m (b + 16) v"
definition set_prev :: "u64 \<Rightarrow> u64 \<Rightarrow> memory \<Rightarrow> memory" where "set_prev b v m = store64 m (b + 24) v"

record 'k user_heap =
  umem :: memory
  heap_list :: u64
  kernel :: 'k

type_synonym 'k sbrk_fn = "u64 \<Rightarrow> 'k \<Rightarrow> (u64 \<times> 'k) option"

section \<open>Operations\<close>

definition blk_extend :: "'k sbrk_fn \<Rightarrow> u64 \<Rightarrow> 'k user_heap \<Rightarrow> (u64 \<times> 'k user_heap) option" where
  "blk_extend sbrk bytes s =
     (case sbrk (32 + bytes) (kernel s) of
        None \<Rightarrow> None
      | Some (b, k) \<Rightarrow>
          let s1 = s\<lparr>kernel := k\<rparr>
          in if b = - 1 then Some (NULL, s1)
             else let m1 = set_size b bytes (umem s1); m2 = set_magic b FREE_MAGIC m1; m3 = set_free b 1 m2;
                      m4 = set_prev b NULL m3; m5 = set_next b NULL m4
                  in Some (b, s1\<lparr>umem := m5\<rparr>))"

text \<open>What \<open>malloc\<close> does with the block it has found.\<close>

definition malloc_take :: "u64 \<Rightarrow> u64 \<Rightarrow> memory \<Rightarrow> memory" where
  "malloc_take sz b m =
     (let m1 = (if sz + 32 + 8 \<le> b_size m b
                then let tail = b + 32 + sz;
                         n1 = set_size tail (b_size m b - sz - 32) m;
                         n2 = set_magic tail FREE_MAGIC n1;
                         n3 = set_free tail 1 n2;
                         n4 = set_next tail (b_next n3 b) n3;
                         n5 = set_prev tail b n4;
                         n6 = (if b_next n5 b \<noteq> NULL then set_prev (b_next n5 b) tail n5 else n5);
                         n7 = set_next b tail n6
                     in set_size b sz n7
                else m)
      in set_magic b USED_MAGIC (set_free b 0 m1))"

text \<open>The search: the block found and taken, or else the last block of the list.\<close>

partial_function (option) malloc_loop :: "u64 \<Rightarrow> u64 \<Rightarrow> u64 \<Rightarrow> memory \<Rightarrow> (u64 \<times> memory + u64) option" where
  "malloc_loop sz b prev m =
     (if b = NULL then Some (Inr prev)
      else if b_free m b \<noteq> 0 \<and> sz \<le> b_size m b then Some (Inl (b + 32, malloc_take sz b m))
      else malloc_loop sz (b_next m b) b m)"

definition malloc :: "'k sbrk_fn \<Rightarrow> u64 \<Rightarrow> 'k user_heap \<Rightarrow> (u64 \<times> 'k user_heap) option" where
  "malloc sbrk size0 s =
     (if size0 = 0 then Some (NULL, s)
      else let sz = ALIGN8 size0
           in case malloc_loop sz (heap_list s) NULL (umem s) of
                None \<Rightarrow> None
              | Some (Inl (p, m)) \<Rightarrow> Some (p, s\<lparr>umem := m\<rparr>)
              | Some (Inr prev) \<Rightarrow>
                  (case blk_extend sbrk sz s of
                     None \<Rightarrow> None
                   | Some (nb, s1) \<Rightarrow>
                       if nb = NULL then Some (NULL, s1)
                       else let m1 = set_magic nb USED_MAGIC (set_free nb 0 (umem s1))
                            in if heap_list s1 = NULL then Some (nb + 32, s1\<lparr>umem := m1, heap_list := nb\<rparr>)
                               else Some (nb + 32, s1\<lparr>umem := set_next prev nb (set_prev nb prev m1)\<rparr>)))"

definition merge_right :: "u64 \<Rightarrow> memory \<Rightarrow> memory" where
  "merge_right b m =
     (if b_next m b \<noteq> NULL \<and> b_free m (b_next m b) \<noteq> 0
      then let m1 = set_size b (b_size m b + (32 + b_size m (b_next m b))) m;
               m2 = set_next b (b_next m1 (b_next m1 b)) m1
           in if b_next m2 b \<noteq> NULL then set_prev (b_next m2 b) b m2 else m2
      else m)"

definition merge_left :: "u64 \<Rightarrow> memory \<Rightarrow> memory" where
  "merge_left b m =
     (if b_prev m b \<noteq> NULL \<and> b_free m (b_prev m b) \<noteq> 0
      then let m1 = set_size (b_prev m b) (b_size m (b_prev m b) + (32 + b_size m b)) m;
               m2 = set_next (b_prev m1 b) (b_next m1 b) m1
           in if b_next m2 b \<noteq> NULL then set_prev (b_next m2 b) (b_prev m2 b) m2 else m2
      else m)"

definition free_mem :: "u64 \<Rightarrow> memory \<Rightarrow> memory" where
  "free_mem ptr m =
     (if ptr = NULL then m
      else let b = ptr - 32
           in if b_magic m b \<noteq> USED_MAGIC then m
              else merge_left b (merge_right b (set_magic b FREE_MAGIC (set_free b 1 m))))"

definition free :: "u64 \<Rightarrow> 'k user_heap \<Rightarrow> 'k user_heap" where
  "free ptr s = s\<lparr>umem := free_mem ptr (umem s)\<rparr>"

text \<open>The copying loop of \<open>realloc\<close> reads the old block's size anew in every round.\<close>

partial_function (option) realloc_copy :: "u64 \<Rightarrow> u64 \<Rightarrow> u64 \<Rightarrow> u64 \<Rightarrow> memory \<Rightarrow> memory option" where
  "realloc_copy i b src dst m =
     (if i < b_size m b then realloc_copy (i + 1) b src dst (m(dst + i := m (src + i))) else Some m)"

definition realloc :: "'k sbrk_fn \<Rightarrow> u64 \<Rightarrow> u64 \<Rightarrow> 'k user_heap \<Rightarrow> (u64 \<times> 'k user_heap) option" where
  "realloc sbrk ptr new_size s =
     (if ptr = NULL then malloc sbrk new_size s
      else if new_size = 0 then Some (NULL, free ptr s)
      else if ALIGN8 new_size \<le> b_size (umem s) (ptr - 32) then Some (ptr, s)
      else case malloc sbrk new_size s of
             None \<Rightarrow> None
           | Some (fresh, s1) \<Rightarrow>
               if fresh = NULL then Some (NULL, s1)
               else (case realloc_copy 0 (ptr - 32) ptr fresh (umem s1) of
                       None \<Rightarrow> None
                     | Some m \<Rightarrow> Some (fresh, free ptr (s1\<lparr>umem := m\<rparr>))))"

definition calloc :: "'k sbrk_fn \<Rightarrow> u64 \<Rightarrow> u64 \<Rightarrow> 'k user_heap \<Rightarrow> (u64 \<times> 'k user_heap) option" where
  "calloc sbrk nmemb sz s =
     (let total = nmemb * sz
      in case malloc sbrk total s of
           None \<Rightarrow> None
         | Some (p, s1) \<Rightarrow>
             Some (p, if p \<noteq> NULL then s1\<lparr>umem := for_upd (unat total) 0 (\<lambda>i m. m(p + of_nat i := 0)) (umem s1)\<rparr> else s1))"

section \<open>Headers\<close>

record bhdr =
  h_size :: u64
  h_magic :: u32
  h_free :: u32
  h_next :: u64
  h_prev :: u64

definition hv :: "memory \<Rightarrow> nat \<Rightarrow> bhdr" where
  "hv m a = \<lparr>h_size = b_size m (of_nat a), h_magic = b_magic m (of_nat a), h_free = b_free m (of_nat a), h_next = b_next m (of_nat a),
     h_prev = b_prev m (of_nat a)\<rparr>"

lemma hv_sel: "h_size (hv m a) = b_size m (of_nat a)" "h_magic (hv m a) = b_magic m (of_nat a)" "h_free (hv m a) = b_free m (of_nat a)"
  "h_next (hv m a) = b_next m (of_nat a)" "h_prev (hv m a) = b_prev m (of_nat a)"
  by (simp_all add: hv_def)

lemmas b_defs = b_size_def b_magic_def b_free_def b_next_def b_prev_def
lemmas set_defs = set_size_def set_magic_def set_free_def set_next_def set_prev_def

lemma hv_same:
  assumes "same_on m m' a (a + 32)" and "a + 32 < 2 ^ 64"
  shows "hv m' a = hv m a"
proof -
  have u: "unat (of_nat a :: u64) = a" "unat (of_nat (a + 8) :: u64) = a + 8" "unat (of_nat (a + 12) :: u64) = a + 12"
    "unat (of_nat (a + 16) :: u64) = a + 16" "unat (of_nat (a + 24) :: u64) = a + 24" using assms(2) by (intro unat_addr; simp)+
  show ?thesis unfolding hv_def b_defs of_nat_addr
    by (intro bhdr.equality; simp only: bhdr.simps; (rule load64_same load32_same; unfold u; (rule same_on_mono [OF assms(1)])?; use assms(2) in simp)?)
qed

text \<open>The bytes a sequence of header writes may touch.\<close>

definition touches :: "nat set \<Rightarrow> memory \<Rightarrow> memory \<Rightarrow> bool" where
  "touches C m m' \<longleftrightarrow> (\<forall>lo hi. (\<forall>c \<in> C. c + 32 \<le> lo \<or> hi \<le> c) \<longrightarrow> same_on m m' lo hi)"

lemma touches_refl [simp]: "touches C m m"
  by (simp add: touches_def)

lemma touches_trans: "touches C m m1 \<Longrightarrow> touches C m1 m2 \<Longrightarrow> touches C m m2"
  unfolding touches_def by (blast intro: same_on_trans)

lemma touches_mono: "touches C m m' \<Longrightarrow> C \<subseteq> D \<Longrightarrow> touches D m m'"
  unfolding touches_def by blast

lemma touches_hv: "touches C m m' \<Longrightarrow> \<forall>c \<in> C. c + 32 \<le> x \<or> x + 32 \<le> c \<Longrightarrow> x + 32 < 2 ^ 64 \<Longrightarrow> hv m' x = hv m x"
  by (rule hv_same) (auto simp: touches_def)

lemma set_touches:
  assumes "a + 32 < 2 ^ 64" "a \<in> C"
  shows "touches C m (set_size (of_nat a) v m)" "touches C m (set_magic (of_nat a) w m)" "touches C m (set_free (of_nat a) w m)"
    "touches C m (set_next (of_nat a) v m)" "touches C m (set_prev (of_nat a) v m)"
proof -
  have u: "unat (of_nat a :: u64) = a" "unat (of_nat (a + 8) :: u64) = a + 8" "unat (of_nat (a + 12) :: u64) = a + 12"
    "unat (of_nat (a + 16) :: u64) = a + 16" "unat (of_nat (a + 24) :: u64) = a + 24" using assms(1) by (intro unat_addr; simp)+
  have "same_on m (set_size (of_nat a) v m) lo hi" "same_on m (set_magic (of_nat a) w m) lo hi" "same_on m (set_free (of_nat a) w m) lo hi"
    "same_on m (set_next (of_nat a) v m) lo hi" "same_on m (set_prev (of_nat a) v m) lo hi" if "a + 32 \<le> lo \<or> hi \<le> a" for lo hi
    unfolding set_defs of_nat_addr by (rule same_on_store64 same_on_store32; unfold u; use assms(1) that in linarith)+
  then show "touches C m (set_size (of_nat a) v m)" "touches C m (set_magic (of_nat a) w m)" "touches C m (set_free (of_nat a) w m)"
    "touches C m (set_next (of_nat a) v m)" "touches C m (set_prev (of_nat a) v m)" using assms(2) by (auto simp: touches_def)
qed

lemma hv_set_here:
  assumes "a + 32 < 2 ^ 64"
  shows "hv (set_size (of_nat a) v m) a = (hv m a)\<lparr>h_size := v\<rparr>" "hv (set_magic (of_nat a) w m) a = (hv m a)\<lparr>h_magic := w\<rparr>"
    "hv (set_free (of_nat a) w m) a = (hv m a)\<lparr>h_free := w\<rparr>" "hv (set_next (of_nat a) v m) a = (hv m a)\<lparr>h_next := v\<rparr>"
    "hv (set_prev (of_nat a) v m) a = (hv m a)\<lparr>h_prev := v\<rparr>"
proof -
  have u: "unat (of_nat a :: u64) = a" "unat (of_nat (a + 8) :: u64) = a + 8" "unat (of_nat (a + 12) :: u64) = a + 12"
    "unat (of_nat (a + 16) :: u64) = a + 16" "unat (of_nat (a + 24) :: u64) = a + 24" using assms(1) by (intro unat_addr; simp)+
  have s: "load64 (store64 m (of_nat a) v) (of_nat a) = v" "load32 (store32 m (of_nat (a + 8)) w) (of_nat (a + 8)) = w"
    "load32 (store32 m (of_nat (a + 12)) w) (of_nat (a + 12)) = w" "load64 (store64 m (of_nat (a + 16)) v) (of_nat (a + 16)) = v"
    "load64 (store64 m (of_nat (a + 24)) v) (of_nat (a + 24)) = v"
    by (rule byte_memory.ld_st_same load32_store32_same)+
  have o: "load64 (store64 m (of_nat x) v) (of_nat y) = load64 m (of_nat y)" if "x + 8 \<le> y \<or> y + 8 \<le> x" "x + 8 < 2 ^ 64" "y + 8 < 2 ^ 64" for x y
    using that by (intro load64_same same_on_store64) auto
  have p: "load32 (store64 m (of_nat x) v) (of_nat y) = load32 m (of_nat y)" if "x + 8 \<le> y \<or> y + 4 \<le> x" "x + 8 < 2 ^ 64" "y + 4 < 2 ^ 64" for x y
    using that by (intro load32_same same_on_store64) auto
  have q: "load64 (store32 m (of_nat x) w) (of_nat y) = load64 m (of_nat y)" if "x + 4 \<le> y \<or> y + 8 \<le> x" "x + 4 < 2 ^ 64" "y + 8 < 2 ^ 64" for x y
    using that by (intro load64_same same_on_store32) auto
  have r: "load32 (store32 m (of_nat x) w) (of_nat y) = load32 m (of_nat y)" if "x + 4 \<le> y \<or> y + 4 \<le> x" "x + 4 < 2 ^ 64" "y + 4 < 2 ^ 64" for x y
    using that by (intro load32_same same_on_store32) auto
  note d = hv_def b_defs set_defs of_nat_addr
  show "hv (set_size (of_nat a) v m) a = (hv m a)\<lparr>h_size := v\<rparr>" unfolding d s using assms by (simp add: p o del: of_nat_add)
  show "hv (set_magic (of_nat a) w m) a = (hv m a)\<lparr>h_magic := w\<rparr>" unfolding d s using assms by (simp add: q r del: of_nat_add)
  show "hv (set_free (of_nat a) w m) a = (hv m a)\<lparr>h_free := w\<rparr>" unfolding d s using assms by (simp add: q r del: of_nat_add)
  show "hv (set_next (of_nat a) v m) a = (hv m a)\<lparr>h_next := v\<rparr>" unfolding d s using assms by (simp add: p o del: of_nat_add)
  show "hv (set_prev (of_nat a) v m) a = (hv m a)\<lparr>h_prev := v\<rparr>" unfolding d s using assms by (simp add: p o del: of_nat_add)
qed

text \<open>A header and a write to another block's header.\<close>

lemma hv_set_away:
  assumes "x + 32 \<le> a \<or> a + 32 \<le> x" "a + 32 < 2 ^ 64" "x + 32 < 2 ^ 64"
  shows "hv (set_size (of_nat a) v m) x = hv m x" "hv (set_magic (of_nat a) w m) x = hv m x" "hv (set_free (of_nat a) w m) x = hv m x"
    "hv (set_next (of_nat a) v m) x = hv m x" "hv (set_prev (of_nat a) v m) x = hv m x"
  by (rule touches_hv [OF set_touches(1) [OF assms(2) singletonI]] touches_hv [OF set_touches(2) [OF assms(2) singletonI]]
      touches_hv [OF set_touches(3) [OF assms(2) singletonI]] touches_hv [OF set_touches(4) [OF assms(2) singletonI]]
      touches_hv [OF set_touches(5) [OF assms(2) singletonI]]; use assms in auto)+

lemmas hv_set = hv_set_here hv_set_away

section \<open>The list\<close>

definition blk_hdr :: "blk \<Rightarrow> u64 \<Rightarrow> u64 \<Rightarrow> bhdr" where
  "blk_hdr x nx pv = \<lparr>h_size = of_nat (fst x), h_magic = if snd x then FREE_MAGIC else USED_MAGIC, h_free = if snd x then 1 else 0,
     h_next = nx, h_prev = pv\<rparr>"

primrec uspan :: "blk list \<Rightarrow> nat" where
  "uspan [] = 0"
| "uspan (x # xs) = 32 + fst x + uspan xs"

lemma uspan_append [simp]: "uspan (xs @ ys) = uspan xs + uspan ys"
  by (induction xs) auto

primrec uhdrs :: "nat \<Rightarrow> blk list \<Rightarrow> nat list" where
  "uhdrs a [] = []"
| "uhdrs a (x # xs) = a # uhdrs (a + 32 + fst x) xs"

lemma uhdrs_append: "uhdrs a (xs @ ys) = uhdrs a xs @ uhdrs (a + uspan xs) ys"
  by (induction xs arbitrary: a) (auto simp: ac_simps)

lemma uhdrs_bounds: "h \<in> set (uhdrs a xs) \<Longrightarrow> a \<le> h \<and> h + 32 \<le> a + uspan xs"
  by (induction xs arbitrary: a) fastforce+

text \<open>\<open>seg H p a xs q\<close>: the blocks \<open>xs\<close>, one after the other from \<open>a\<close> on, are linked both ways; the first one's predecessor is
  \<open>p\<close> and the last one's successor is \<open>q\<close>.\<close>

primrec seg :: "(nat \<Rightarrow> bhdr) \<Rightarrow> u64 \<Rightarrow> nat \<Rightarrow> blk list \<Rightarrow> u64 \<Rightarrow> bool" where
  "seg H p a [] q \<longleftrightarrow> True"
| "seg H p a (x # xs) q \<longleftrightarrow> H a = blk_hdr x (if xs = [] then q else of_nat (a + 32 + fst x)) p \<and> seg H (of_nat a) (a + 32 + fst x) xs q"

definition last_ptr :: "u64 \<Rightarrow> nat \<Rightarrow> blk list \<Rightarrow> u64" where
  "last_ptr p a xs = (if xs = [] then p else of_nat (last (uhdrs a xs)))"

lemma last_ptr_simps [simp]: "last_ptr p a [] = p" "last_ptr p a (x # xs) = last_ptr (of_nat a) (a + 32 + fst x) xs"
  by (simp_all add: last_ptr_def) (cases xs; simp)+

lemma seg_append:
  "seg H p a (xs @ ys) q \<longleftrightarrow> seg H p a xs (if ys = [] then q else of_nat (a + uspan xs)) \<and> seg H (last_ptr p a xs) (a + uspan xs) ys q"
  by (induction xs arbitrary: a p) (auto simp: ac_simps)

lemma seg_cong: "(\<And>x. x \<in> set (uhdrs a xs) \<Longrightarrow> H x = H' x) \<Longrightarrow> seg H p a xs q = seg H' p a xs q"
  by (induction xs arbitrary: a p) auto

lemmas hv_read = hv_sel [symmetric]

lemma blk_hdr_sel [simp]:
  "h_size (blk_hdr x nx pv) = of_nat (fst x)" "h_magic (blk_hdr x nx pv) = (if snd x then FREE_MAGIC else USED_MAGIC)"
  "h_free (blk_hdr x nx pv) = (if snd x then 1 else 0)" "h_next (blk_hdr x nx pv) = nx" "h_prev (blk_hdr x nx pv) = pv"
  by (simp_all add: blk_hdr_def)

lemma blk_hdr_upd [simp]:
  "(blk_hdr x nx pv)\<lparr>h_next := nx'\<rparr> = blk_hdr x nx' pv" "(blk_hdr x nx pv)\<lparr>h_prev := pv'\<rparr> = blk_hdr x nx pv'"
  "(blk_hdr x nx pv)\<lparr>h_size := of_nat n\<rparr> = blk_hdr (n, snd x) nx pv"
  "(blk_hdr x nx pv)\<lparr>h_free := 0, h_magic := USED_MAGIC\<rparr> = blk_hdr (fst x, False) nx pv"
  "(blk_hdr x nx pv)\<lparr>h_free := 1, h_magic := FREE_MAGIC\<rparr> = blk_hdr (fst x, True) nx pv"
  by (simp_all add: blk_hdr_def)

section \<open>Searching\<close>

definition unfit :: "nat \<Rightarrow> blk \<Rightarrow> bool" where
  "unfit k x \<longleftrightarrow> \<not> (snd x \<and> k \<le> fst x)"

definition start_ptr :: "nat \<Rightarrow> blk list \<Rightarrow> u64" where
  "start_ptr a xs = (if xs = [] then NULL else of_nat a)"

lemma start_ptr_simps [simp]: "start_ptr a [] = NULL" "start_ptr a (x # xs) = of_nat a"
  by (simp_all add: start_ptr_def)

lemma addr_ne0: "0 < a \<Longrightarrow> a < 2 ^ 64 \<Longrightarrow> (of_nat a :: u64) \<noteq> 0"
  using unat_addr [of a] by (metis unat_0 less_numeral_extra(3))

lemma loop_seg:
  assumes "seg (hv m) p a xs NULL" and "0 < a" and "a + uspan xs < 2 ^ 63"
  shows "malloc_loop k (start_ptr a xs) p m = Some (case dropWhile (unfit (unat k)) xs of
      [] \<Rightarrow> Inr (last_ptr p a xs)
    | _ \<Rightarrow> let b = of_nat (a + uspan (takeWhile (unfit (unat k)) xs)) in Inl (b + 32, malloc_take k b m))"
  using assms
proof (induction xs arbitrary: a p)
  case Nil
  then show ?case by (subst malloc_loop.simps) (simp add: start_ptr_def)
next
  case (Cons x xs)
  have h: "hv m a = blk_hdr x (start_ptr (a + 32 + fst x) xs) p" and tl: "seg (hv m) (of_nat a) (a + 32 + fst x) xs NULL"
    using Cons.prems(1) by (auto simp: start_ptr_def)
  have ne: "(of_nat a :: u64) \<noteq> 0" using Cons.prems by (intro addr_ne0) auto
  have f: "unat (of_nat (fst x) :: u64) = fst x" using Cons.prems(3) by (intro unat_addr) simp
  have fit: "b_free m (of_nat a) \<noteq> 0 \<and> k \<le> b_size m (of_nat a) \<longleftrightarrow> \<not> unfit (unat k) x"
    unfolding hv_read h by (simp add: unfit_def word_le_nat_alt f)
  have nxt: "b_next m (of_nat a) = start_ptr (a + 32 + fst x) xs" unfolding hv_read h by simp
  show ?case
  proof (cases "unfit (unat k) x")
    case True
    have "malloc_loop k (start_ptr a (x # xs)) p m = malloc_loop k (start_ptr (a + 32 + fst x) xs) (of_nat a) m"
      by (subst malloc_loop.simps) (simp add: True fit ne nxt)
    moreover have "0 < a + 32 + fst x" "a + 32 + fst x + uspan xs < 2 ^ 63" using Cons.prems by simp_all
    note Cons.IH [OF tl this]
    moreover have "a + uspan (takeWhile (unfit (unat k)) (x # xs)) = a + 32 + fst x + uspan (takeWhile (unfit (unat k)) xs)"
      "dropWhile (unfit (unat k)) (x # xs) = dropWhile (unfit (unat k)) xs" using True by simp_all
    ultimately show ?thesis by (simp only: last_ptr_simps)
  next
    case False
    then show ?thesis by (subst malloc_loop.simps) (simp add: fit ne Let_def)
  qed
qed

section \<open>Taking a block\<close>

definition carve :: "nat \<Rightarrow> nat \<Rightarrow> blk list" where
  "carve k n = (if k + 40 \<le> n then [(k, False), (n - k - 32, True)] else [(n, False)])"

lemma uspan_carve [simp]: "uspan (carve k n) = 32 + n"
  by (simp add: carve_def)

text \<open>Changing the headers in the middle of a list.\<close>

lemma seg_middle:
  assumes s: "seg (hv m) p a (xs @ ys @ zs) q" and lt: "a + uspan (xs @ ys @ zs) < 2 ^ 63" and sp: "uspan ys' = uspan ys" "ys \<noteq> []" "ys' \<noteq> []"
    and t: "touches (set (uhdrs (a + uspan xs) ys') \<union> set (take 1 (uhdrs (a + uspan (xs @ ys)) zs))) m m'"
    and mid: "seg (hv m') (last_ptr p a xs) (a + uspan xs) ys' (if zs = [] then q else of_nat (a + uspan (xs @ ys)))"
    and nx: "zs \<noteq> [] \<Longrightarrow> hv m' (a + uspan (xs @ ys)) = (hv m (a + uspan (xs @ ys)))\<lparr>h_prev := last_ptr p (a + uspan xs) ys'\<rparr>"
  shows "seg (hv m') p a (xs @ ys' @ zs) q"
proof -
  let ?b = "a + uspan xs" and ?c = "a + uspan (xs @ ys)"
  have s': "seg (hv m) p a xs (of_nat ?b)" "seg (hv m) (last_ptr (last_ptr p a xs) ?b ys) ?c zs q"
    using s sp(2) by (simp_all add: seg_append add.assoc)
  have away: "hv m' x = hv m x" if "x + 32 \<le> ?b \<or> ?c + 32 \<le> x" "x \<notin> set (take 1 (uhdrs ?c zs))" "x + 32 < 2 ^ 63" for x
  proof (rule touches_hv [OF t], rule ballI)
    fix c assume "c \<in> set (uhdrs ?b ys') \<union> set (take 1 (uhdrs ?c zs))"
    then consider "?b \<le> c" "c + 32 \<le> ?c" | "zs \<noteq> []" "c = ?c" using uhdrs_bounds [of c ?b ys'] sp(1) by (cases zs) auto
    then show "c + 32 \<le> x \<or> x + 32 \<le> c" using that(1) by cases auto
  qed (use that(3) in simp)
  have "seg (hv m') p a xs (of_nat ?b)"
    by (rule seg_cong [THEN iffD1, OF _ s'(1)], rule away [symmetric])
       (use uhdrs_bounds [of _ a xs] lt uhdrs_bounds [of _ ?c zs] sp(2) in \<open>fastforce dest: in_set_takeD\<close>)+
  moreover have "seg (hv m') (last_ptr (last_ptr p a xs) ?b ys') ?c zs q"
  proof (cases zs)
    case (Cons z zs')
    have "seg (hv m') (of_nat ?c) (?c + 32 + fst z) zs' q"
    proof (rule seg_cong [THEN iffD1, OF _ conjunct2 [OF s'(2) [unfolded Cons seg.simps]]], rule away [symmetric])
      fix x assume "x \<in> set (uhdrs (?c + 32 + fst z) zs')"
      from uhdrs_bounds [OF this] lt show "x + 32 \<le> ?b \<or> ?c + 32 \<le> x" "x \<notin> set (take 1 (uhdrs ?c zs))" "x + 32 < 2 ^ 63" by (auto simp: Cons)
    qed
    moreover have "last_ptr p ?b ys' = last_ptr (last_ptr p a xs) ?b ys'" using sp(3) by (simp add: last_ptr_def)
    ultimately show ?thesis using s'(2) nx by (simp add: Cons)
  qed simp
  ultimately show ?thesis using mid sp by (simp add: seg_append add.assoc del: of_nat_add split: if_splits)
qed

lemma take_seg:
  assumes s: "seg (hv m) p a (xs @ (n, True) # zs) NULL" and lt: "a + uspan (xs @ (n, True) # zs) < 2 ^ 63" and k: "k \<le> n" and a: "0 < a"
  defines "m' \<equiv> malloc_take (of_nat k) (of_nat (a + uspan xs)) m"
  shows "seg (hv m') p a (xs @ carve k n @ zs) NULL" "touches (set (uhdrs a (xs @ carve k n @ zs))) m m'"
proof -
  define b where "b = a + uspan xs"
  define c where "c = b + 32 + n"
  have hb: "hv m b = blk_hdr (n, True) (if zs = [] then NULL else of_nat c) (last_ptr p a xs)"
    using s by (simp add: seg_append b_def c_def ac_simps)
  have lt': "c + 32 < 2 ^ 64" "b + 32 \<le> c" "0 < b" using lt a by (simp_all add: b_def c_def)
  have hc: "(hv m c)\<lparr>h_prev := of_nat b\<rparr> = hv m c" if "zs \<noteq> []"
    using s that by (cases zs) (simp_all add: seg_append b_def c_def ac_simps)
  have cs: "a + uspan (xs @ [(n, True)]) = c" by (simp add: b_def c_def)
  have test: "(of_nat k :: u64) + 32 + 8 \<le> of_nat n \<longleftrightarrow> k + 40 \<le> n"
  proof -
    have "(of_nat k :: u64) + 32 + 8 = of_nat (k + 40)" by simp
    moreover have "unat (of_nat (k + 40) :: u64) = k + 40" "unat (of_nat n :: u64) = n" using lt' k by (intro unat_addr; simp add: c_def)+
    ultimately show ?thesis by (simp only: word_le_nat_alt)
  qed
  have ts: "b_size m (of_nat b) = of_nat n" by (simp add: hv_read hb)
  define C where "C = set (uhdrs b (carve k n)) \<union> set (take 1 (uhdrs c zs))"
  have *: "touches C m m' \<and> seg (hv m') (last_ptr p a xs) b (carve k n) (if zs = [] then NULL else of_nat c) \<and>
    (zs \<noteq> [] \<longrightarrow> hv m' c = (hv m c)\<lparr>h_prev := last_ptr p b (carve k n)\<rparr>)"
  proof (cases "k + 40 \<le> n")
    case False
    have m': "m' = set_magic (of_nat b) USED_MAGIC (set_free (of_nat b) 0 m)" 
      unfolding m'_def b_def [symmetric] malloc_take_def ts test if_not_P [OF False] Let_def ..
    have "touches C m m'" unfolding m' by (rule touches_trans [OF set_touches(3) set_touches(2)]) (use lt' False in \<open>simp_all add: C_def carve_def\<close>)
    moreover have "hv m' b = blk_hdr (n, False) (if zs = [] then NULL else of_nat c) (last_ptr p a xs)"
      unfolding m' using lt' hb by (simp add: hv_set)
    moreover have "hv m' c = hv m c" unfolding m' using lt' by (simp add: hv_set)
    ultimately show ?thesis using False hc by (simp add: carve_def)
  next
    case True
    define t where "t = b + 32 + k"
    have tl: "b + 32 \<le> t" "t + 32 \<le> c" using True by (simp_all add: t_def c_def)
    have ad: "(of_nat b :: u64) + 32 + of_nat k = of_nat t" by (simp add: t_def)
    define nx :: u64 where "nx = (if zs = [] then NULL else of_nat c)"
    define n5 where "n5 = set_prev (of_nat t) (of_nat b) (set_next (of_nat t) nx (set_free (of_nat t) 1
        (set_magic (of_nat t) FREE_MAGIC (set_size (of_nat t) (of_nat (n - k - 32)) m))))"
    define n6 where "n6 = (if zs \<noteq> [] then set_prev (of_nat c) (of_nat t) n5 else n5)"
    have h5: "hv n5 b = hv m b" "hv n5 c = hv m c" "hv n5 t = blk_hdr (n - k - 32, True) nx (of_nat b)"
      unfolding n5_def using lt' tl by (simp_all add: hv_set blk_hdr_def)
    have sz: "(of_nat n :: u64) - of_nat k - 32 = of_nat (n - k - 32)" using True by (simp add: of_nat_diff)
    let ?n3 = "set_free (of_nat t) 1 (set_magic (of_nat t) FREE_MAGIC (set_size (of_nat t) (of_nat (n - k - 32)) m))"
    have r3: "b_next ?n3 (of_nat b) = nx" using lt' tl by (simp add: hv_read hv_set hb nx_def)
    have r5: "b_next n5 (of_nat b) = nx" by (simp add: hv_read h5(1) hb nx_def)
    have "nx \<noteq> NULL \<longleftrightarrow> zs \<noteq> []" using addr_ne0 [of c] lt' by (auto simp: nx_def)
    then have n6: "(if nx \<noteq> NULL then set_prev nx (of_nat t) n5 else n5) = n6" by (auto simp: n6_def nx_def)
    have m': "m' = set_magic (of_nat b) USED_MAGIC (set_free (of_nat b) 0 (set_size (of_nat b) (of_nat k) (set_next (of_nat b) (of_nat t) n6)))"
      unfolding m'_def b_def [symmetric] malloc_take_def ts test if_P [OF True] Let_def ad sz r3 n5_def [symmetric] r5 n6 ..
    have h6: "hv n6 b = hv m b" "hv n6 t = blk_hdr (n - k - 32, True) nx (of_nat b)" "zs \<noteq> [] \<Longrightarrow> hv n6 c = (hv m c)\<lparr>h_prev := of_nat t\<rparr>"
      unfolding n6_def using lt' tl h5 by (simp_all add: hv_set)
    have h': "hv m' b = blk_hdr (k, False) (of_nat t) (last_ptr p a xs)" "hv m' t = blk_hdr (n - k - 32, True) nx (of_nat b)"
      "zs \<noteq> [] \<Longrightarrow> hv m' c = (hv m c)\<lparr>h_prev := of_nat t\<rparr>"
      unfolding m' using lt' tl h6 hb by (simp_all add: hv_set)
    have in_C: "b \<in> C" "t \<in> C" "zs \<noteq> [] \<Longrightarrow> c \<in> C" using True by (cases zs; simp add: C_def carve_def t_def)+
    have tb: "b + 32 < 2 ^ 64" "t + 32 < 2 ^ 64" using lt' tl by simp_all
    note st = set_touches [OF tb(2) in_C(2)] and sb = set_touches [OF tb(1) in_C(1)] and sc = set_touches [OF lt'(1) in_C(3)]
    have "touches C m n5" unfolding n5_def
      by (rule touches_trans [OF touches_trans [OF touches_trans [OF touches_trans [OF st(1) st(2)] st(3)] st(4)] st(5)])
    then have "touches C m n6" unfolding n6_def by (auto intro: touches_trans [OF _ sc(5)])
    then have "touches C m m'" unfolding m'
      by (rule touches_trans [OF touches_trans [OF touches_trans [OF touches_trans [OF _ sb(4)] sb(1)] sb(3)] sb(2)])
    then show ?thesis using h' True by (simp add: carve_def t_def nx_def)
  qed
  show "seg (hv m') p a (xs @ carve k n @ zs) NULL"
  proof (rule seg_middle [of m p a xs "[(n, True)]" zs NULL "carve k n" m', unfolded cs, folded b_def])
    show "touches (set (uhdrs b (carve k n)) \<union> set (take 1 (uhdrs c zs))) m m'" using * unfolding C_def by blast
    show "seg (hv m') (last_ptr p a xs) b (carve k n) (if zs = [] then NULL else of_nat c)"
      "zs \<noteq> [] \<Longrightarrow> hv m' c = (hv m c)\<lparr>h_prev := last_ptr p b (carve k n)\<rparr>" using * by blast+
  qed (use s lt in \<open>simp_all add: carve_def\<close>)
  have "C \<subseteq> set (uhdrs a (xs @ carve k n @ zs))" by (auto simp: C_def uhdrs_append b_def c_def ac_simps dest: in_set_takeD)
  with * show "touches (set (uhdrs a (xs @ carve k n @ zs))) m m'" by (blast intro: touches_mono)
qed

section \<open>Releasing a block\<close>

lemma seg_at:
  assumes "seg (hv m) p a (xs @ x # zs) NULL" "b = a + uspan xs"
  shows "hv m b = blk_hdr x (start_ptr (b + 32 + fst x) zs) (last_ptr p a xs)"
  using assms by (simp add: seg_append start_ptr_def)

lemma middle_touched: "set (uhdrs (a + uspan xs) ys) \<union> set (take 1 (uhdrs (a + uspan (xs @ ys)) zs)) \<subseteq> set (uhdrs a (xs @ ys @ zs))"
  by (auto simp: uhdrs_append ac_simps dest: in_set_takeD)

lemma mark_seg:
  assumes s: "seg (hv m) p a (xs @ (n, False) # zs) NULL" and lt: "a + uspan (xs @ (n, False) # zs) < 2 ^ 63" and b: "b = a + uspan xs"
  defines "m' \<equiv> set_magic (of_nat b) FREE_MAGIC (set_free (of_nat b) 1 m)"
  shows "seg (hv m') p a (xs @ (n, True) # zs) NULL" "touches (set (uhdrs a (xs @ (n, True) # zs))) m m'"
proof -
  define c where "c = b + 32 + n"
  have lt': "b + 32 < 2 ^ 64" "c + 32 < 2 ^ 64" "b + 32 \<le> c" using lt b by (simp_all add: c_def)
  have cs: "a + uspan (xs @ [(n, False)]) = c" by (simp add: b c_def)
  have t: "touches {b} m m'" unfolding m'_def by (rule touches_trans [OF set_touches(3) set_touches(2)]) (use lt' in simp_all)
  have hb: "hv m' b = blk_hdr (n, True) (start_ptr c zs) (last_ptr p a xs)"
    unfolding m'_def using lt' seg_at [OF s b] by (simp add: hv_set c_def)
  have hc: "hv m' c = hv m c" unfolding m'_def using lt' by (simp add: hv_set)
  have "(hv m c)\<lparr>h_prev := of_nat b\<rparr> = hv m c" if "zs \<noteq> []"
    using that seg_at [of m p a "xs @ [(n, False)]" "hd zs" "tl zs" c] s cs by (cases zs) (simp_all add: last_ptr_def uhdrs_append b)
  then have "seg (hv m') p a (xs @ [(n, True)] @ zs) NULL"
    by (intro seg_middle [of m p a xs "[(n, False)]" zs NULL "[(n, True)]" m', unfolded cs])
       (use s lt hb hc t in \<open>auto simp: b [symmetric] start_ptr_def elim: touches_mono\<close>)
  then show "seg (hv m') p a (xs @ (n, True) # zs) NULL" by simp
  show "touches (set (uhdrs a (xs @ (n, True) # zs))) m m'" by (rule touches_mono [OF t]) (simp add: uhdrs_append b)
qed

definition join :: "nat \<Rightarrow> u64 \<Rightarrow> u64 \<Rightarrow> memory \<Rightarrow> memory" where
  "join e v nx m = (let m2 = set_next (of_nat e) nx (set_size (of_nat e) v m) in if nx \<noteq> NULL then set_prev nx (of_nat e) m2 else m2)"

lemma join_seg:
  assumes s: "seg (hv m) p a (xs @ (n, f) # (n', f') # zs) NULL" and lt: "a + uspan (xs @ (n, f) # (n', f') # zs) < 2 ^ 63" and e: "e = a + uspan xs" and a: "0 < a"
  defines "m' \<equiv> join e (of_nat (n + (32 + n'))) (start_ptr (e + 32 + n + 32 + n') zs) m"
  shows "seg (hv m') p a (xs @ (n + (32 + n'), f) # zs) NULL" "touches (set (uhdrs a (xs @ (n + (32 + n'), f) # zs))) m m'"
proof -
  define d where "d = e + 32 + n + 32 + n'"
  define C where "C = set (uhdrs e [(n + (32 + n'), f)]) \<union> set (take 1 (uhdrs d zs))"
  have lt': "e + 32 < 2 ^ 64" "d + 32 < 2 ^ 64" "e + 32 \<le> d" "0 < d" using lt e by (simp_all add: d_def)
  have ds: "a + uspan (xs @ [(n, f), (n', f')]) = d" "a + uspan (xs @ [(n + (32 + n'), f)]) = d" by (simp_all add: e d_def)
  let ?m2 = "set_next (of_nat e) (start_ptr d zs) (set_size (of_nat e) (of_nat (n + (32 + n'))) m)"
  have nz: "start_ptr d zs \<noteq> NULL \<longleftrightarrow> zs \<noteq> []" using addr_ne0 [of d] lt' by (auto simp: start_ptr_def)
  have m': "m' = (if zs \<noteq> [] then set_prev (of_nat d) (of_nat e) ?m2 else ?m2)"
    unfolding m'_def join_def d_def [symmetric] Let_def nz by (simp add: start_ptr_def)
  have he: "hv m e = blk_hdr (n, f) (of_nat (e + 32 + n)) (last_ptr p a xs)" using seg_at [OF s e] by simp
  have h': "hv m' e = blk_hdr (n + (32 + n'), f) (start_ptr d zs) (last_ptr p a xs)" "zs \<noteq> [] \<Longrightarrow> hv m' d = (hv m d)\<lparr>h_prev := of_nat e\<rparr>"
    unfolding m' using lt' he by (simp_all add: hv_set del: of_nat_add)
  have "e \<in> C" "zs \<noteq> [] \<Longrightarrow> d \<in> C" by (cases zs; simp add: C_def)+
  note se = set_touches [OF lt'(1) this(1)] and sd = set_touches [OF lt'(2) this(2)]
  have "touches C m ?m2" by (rule touches_trans [OF se(1) se(4)])
  then have t: "touches C m m'" unfolding m' by (auto intro: touches_trans [OF _ sd(5)])
  have "seg (hv m') p a (xs @ [(n + (32 + n'), f)] @ zs) NULL"
  proof (rule seg_middle [of m p a xs "[(n, f), (n', f')]" zs NULL "[(n + (32 + n'), f)]" m', unfolded ds, folded e])
    show "touches (set (uhdrs e [(n + (32 + n'), f)]) \<union> set (take 1 (uhdrs d zs))) m m'" using t unfolding C_def .
  qed (use s lt h' in \<open>simp_all add: start_ptr_def e\<close>)
  then show "seg (hv m') p a (xs @ (n + (32 + n'), f) # zs) NULL" by simp
  show "touches (set (uhdrs a (xs @ (n + (32 + n'), f) # zs))) m m'"
    using touches_mono [OF t] middle_touched [of a xs "[(n + (32 + n'), f)]" zs] unfolding ds(2) C_def e by simp
qed

definition free_block :: "blk list \<Rightarrow> bool" where
  "free_block xs \<longleftrightarrow> xs \<noteq> [] \<and> snd (hd xs)"

lemma free_block_simps [simp]: "\<not> free_block []" "free_block (x # xs) \<longleftrightarrow> snd x"
  by (simp_all add: free_block_def)

lemma merge_right_join:
  assumes s: "seg (hv m) p a (xs @ (n, True) # zs) NULL" and lt: "a + uspan (xs @ (n, True) # zs) < 2 ^ 63" and b: "b = a + uspan xs"
  shows "merge_right (of_nat b) m =
    (if free_block zs then join b (of_nat (n + (32 + fst (hd zs)))) (start_ptr (b + 32 + n + 32 + fst (hd zs)) (tl zs)) m else m)"
proof (cases zs)
  case Nil
  have "b_next m (of_nat b) = NULL" using seg_at [OF s b] Nil by (simp add: hv_read)
  then show ?thesis using Nil by (simp add: merge_right_def)
next
  case (Cons z zs')
  define c where "c = b + 32 + n"
  have lt': "b + 32 \<le> c" "c + 32 < 2 ^ 64" "0 < c" using lt b Cons by (simp_all add: c_def)
  have nb: "hv m b = blk_hdr (n, True) (of_nat c) (last_ptr p a xs)" using seg_at [OF s b] Cons by (simp add: c_def)
  have nc: "hv m c = blk_hdr z (start_ptr (c + 32 + fst z) zs') (of_nat b)"
    using seg_at [of m p a "xs @ [(n, True)]" z zs' c] s Cons by (simp add: b c_def last_ptr_def uhdrs_append)
  have ne: "(of_nat c :: u64) \<noteq> 0" using addr_ne0 [of c] lt' by simp
  let ?m1 = "set_size (of_nat b) (of_nat (n + (32 + fst z))) m" and ?nx = "start_ptr (c + 32 + fst z) zs'"
  have r: "b_next m (of_nat b) = of_nat c" "b_free m (of_nat c) = (if snd z then 1 else 0)" "b_size m (of_nat c) = of_nat (fst z)"
    "b_size m (of_nat b) = of_nat n" by (simp_all add: hv_read nb nc)
  have r1: "b_next ?m1 (of_nat b) = of_nat c" "b_next ?m1 (of_nat c) = ?nx" using lt' by (simp_all add: hv_read hv_set nb nc del: of_nat_add)
  have r2: "b_next (set_next (of_nat b) ?nx ?m1) (of_nat b) = ?nx" using lt' by (simp add: hv_read hv_set del: of_nat_add)
  have sz: "(of_nat n :: u64) + (32 + of_nat (fst z)) = of_nat (n + (32 + fst z))" by simp
  show ?thesis
  proof (cases "snd z")
    case True
    then show ?thesis unfolding merge_right_def r sz Let_def r1 r2 join_def using Cons ne by (simp add: c_def del: of_nat_add)
  next
    case False
    then show ?thesis unfolding merge_right_def r using Cons by simp
  qed
qed

lemma merge_left_join:
  assumes s: "seg (hv m) NULL a (xs @ (n, True) # zs) NULL" and lt: "a + uspan (xs @ (n, True) # zs) < 2 ^ 63" and b: "b = a + uspan xs" and a: "0 < a"
  shows "merge_left (of_nat b) m =
    (if free_block (rev xs) then join (a + uspan (butlast xs)) (of_nat (fst (last xs) + (32 + n))) (start_ptr (b + 32 + n) zs) m else m)"
proof (cases xs rule: rev_cases)
  case Nil
  have "b_prev m (of_nat b) = NULL" using seg_at [OF s b] Nil by (simp add: hv_read)
  then show ?thesis using Nil by (simp add: merge_left_def)
next
  case (snoc ws w)
  define e where "e = a + uspan ws"
  have be: "b = e + 32 + fst w" using b snoc by (simp add: e_def)
  have lt': "e + 32 \<le> b" "b + 32 < 2 ^ 64" "0 < e" using lt be a snoc by (simp_all add: e_def)
  let ?nx = "start_ptr (b + 32 + n) zs"
  have nb: "hv m b = blk_hdr (n, True) ?nx (of_nat e)" using seg_at [OF s b] snoc by (simp add: last_ptr_def uhdrs_append e_def)
  have he: "hv m e = blk_hdr w (of_nat b) (last_ptr NULL a ws)" using seg_at [of m NULL a ws w "(n, True) # zs" e] s snoc by (simp add: e_def be)
  have ne: "(of_nat e :: u64) \<noteq> 0" using addr_ne0 [of e] lt' by simp
  let ?m1 = "set_size (of_nat e) (of_nat (fst w + (32 + n))) m"
  have r: "b_prev m (of_nat b) = of_nat e" "b_free m (of_nat e) = (if snd w then 1 else 0)" "b_size m (of_nat e) = of_nat (fst w)"
    "b_size m (of_nat b) = of_nat n" by (simp_all add: hv_read nb he)
  have r1: "b_prev ?m1 (of_nat b) = of_nat e" "b_next ?m1 (of_nat b) = ?nx" using lt' by (simp_all add: hv_read hv_set nb del: of_nat_add)
  have r2: "b_next (set_next (of_nat e) ?nx ?m1) (of_nat b) = ?nx" "b_prev (set_next (of_nat e) ?nx ?m1) (of_nat b) = of_nat e"
    using lt' by (simp_all add: hv_read hv_set nb del: of_nat_add)
  have sz: "(of_nat (fst w) :: u64) + (32 + of_nat n) = of_nat (fst w + (32 + n))" by simp
  show ?thesis
  proof (cases "snd w")
    case True
    then show ?thesis unfolding merge_left_def r sz Let_def r1 r2 join_def using snoc ne by (simp add: e_def del: of_nat_add)
  next
    case False
    then show ?thesis unfolding merge_left_def r using snoc by simp
  qed
qed

text \<open>What becomes of the list when the block of size \<open>n\<close> between \<open>xs\<close> and \<open>zs\<close> is released.\<close>

definition join_right :: "nat \<Rightarrow> blk list \<Rightarrow> blk list" where
  "join_right n zs = (if free_block zs then (n + (32 + fst (hd zs)), True) # tl zs else (n, True) # zs)"

definition release :: "blk list \<Rightarrow> nat \<Rightarrow> blk list \<Rightarrow> blk list" where
  "release xs n zs =
     (let ys = join_right n zs
      in if free_block (rev xs) then butlast xs @ (fst (last xs) + (32 + fst (hd ys)), True) # tl ys else xs @ ys)"

lemma uspan_release [simp]: "uspan (release xs n zs) = uspan xs + (32 + n + uspan zs)"
proof -
  have r: "uspan (join_right n zs) = 32 + n + uspan zs" by (cases zs) (auto simp: join_right_def)
  have "uspan (butlast xs @ (fst (last xs) + (32 + fst (hd ys)), True) # tl ys) = uspan xs + uspan ys" if "xs \<noteq> []" "ys \<noteq> []" for ys
    using that by (cases xs rule: rev_cases; cases ys) auto
  moreover have "join_right n zs \<noteq> []" by (simp add: join_right_def)
  ultimately show ?thesis using r by (cases "xs = []") (auto simp: release_def Let_def)
qed

lemma uhdrs_join: "set (uhdrs a (xs @ (n + (32 + n'), f) # zs)) \<subseteq> set (uhdrs a (xs @ (n, f1) # (n', f2) # zs))"
proof -
  have e: "a + uspan xs + 32 + (n + (32 + n')) = a + uspan xs + 32 + n + 32 + n'" by simp
  show ?thesis unfolding uhdrs_append uhdrs.simps fst_conv e by auto
qed

lemma merge_right_seg:
  assumes s: "seg (hv m) p a (xs @ (n, True) # zs) NULL" and lt: "a + uspan (xs @ (n, True) # zs) < 2 ^ 63" and b: "b = a + uspan xs" and a: "0 < a"
  defines "m' \<equiv> merge_right (of_nat b) m"
  shows "seg (hv m') p a (xs @ join_right n zs) NULL" "touches (set (uhdrs a (xs @ (n, True) # zs))) m m'"
proof -
  note m' = m'_def [unfolded merge_right_join [OF s lt b]]
  show "seg (hv m') p a (xs @ join_right n zs) NULL" "touches (set (uhdrs a (xs @ (n, True) # zs))) m m'"
  proof (atomize (full), cases "free_block zs")
    case True
    then obtain n' zs' where zs: "zs = (n', True) # zs'" by (cases zs) auto
    note j = join_seg [OF s [unfolded zs] lt [unfolded zs] b a]
    have e: "m' = join b (of_nat (n + (32 + n'))) (start_ptr (b + 32 + n + 32 + n') zs') m" "join_right n zs = (n + (32 + n'), True) # zs'"
      by (simp_all add: m' zs join_right_def del: of_nat_add)
    show "seg (hv m') p a (xs @ join_right n zs) NULL \<and> touches (set (uhdrs a (xs @ (n, True) # zs))) m m'"
      unfolding e by (rule conjI [OF j(1) touches_mono [OF j(2)]], unfold zs, rule uhdrs_join)
  next
    case False
    then show "seg (hv m') p a (xs @ join_right n zs) NULL \<and> touches (set (uhdrs a (xs @ (n, True) # zs))) m m'"
      using s unfolding m' join_right_def by simp
  qed
qed

lemma merge_left_seg:
  assumes s: "seg (hv m) NULL a (xs @ (n, True) # zs) NULL" and lt: "a + uspan (xs @ (n, True) # zs) < 2 ^ 63" and b: "b = a + uspan xs" and a: "0 < a"
  defines "m' \<equiv> merge_left (of_nat b) m"
  shows "seg (hv m') NULL a (if free_block (rev xs) then butlast xs @ (fst (last xs) + (32 + n), True) # zs else xs @ (n, True) # zs) NULL"
    "touches (set (uhdrs a (xs @ (n, True) # zs))) m m'"
proof -
  note m' = m'_def [unfolded merge_left_join [OF s lt b a]]
  show "seg (hv m') NULL a (if free_block (rev xs) then butlast xs @ (fst (last xs) + (32 + n), True) # zs else xs @ (n, True) # zs) NULL"
    "touches (set (uhdrs a (xs @ (n, True) # zs))) m m'"
  proof (atomize (full), cases "free_block (rev xs)")
    case True
    then obtain n' ws where xs: "xs = ws @ [(n', True)]" by (cases xs rule: rev_cases) auto
    have s': "seg (hv m) NULL a (ws @ (n', True) # (n, True) # zs) NULL" and lt': "a + uspan (ws @ (n', True) # (n, True) # zs) < 2 ^ 63"
      using s lt by (simp_all add: xs)
    note j = join_seg [OF s' lt' refl a]
    have "b + 32 + n = a + uspan ws + 32 + n' + 32 + n" by (simp add: b xs)
    then have e: "m' = join (a + uspan ws) (of_nat (n' + (32 + n))) (start_ptr (a + uspan ws + 32 + n' + 32 + n) zs) m"
      by (simp only: m' True if_True) (simp add: xs del: of_nat_add)
    have l: "(if free_block (rev xs) then butlast xs @ (fst (last xs) + (32 + n), True) # zs else xs @ (n, True) # zs) =
      ws @ (n' + (32 + n), True) # zs" "xs @ (n, True) # zs = ws @ (n', True) # (n, True) # zs" by (simp_all add: xs)
    show "seg (hv m') NULL a (if free_block (rev xs) then butlast xs @ (fst (last xs) + (32 + n), True) # zs else xs @ (n, True) # zs) NULL \<and>
        touches (set (uhdrs a (xs @ (n, True) # zs))) m m'"
      unfolding e l(1) unfolding l(2) by (rule conjI [OF j(1) touches_mono [OF j(2)]], rule uhdrs_join)
  next
    case False
    then show "seg (hv m') NULL a (if free_block (rev xs) then butlast xs @ (fst (last xs) + (32 + n), True) # zs else xs @ (n, True) # zs) NULL \<and>
        touches (set (uhdrs a (xs @ (n, True) # zs))) m m'"
      using s unfolding m' by simp
  qed
qed

lemma free_seg:
  assumes s: "seg (hv m) NULL a (xs @ (n, False) # zs) NULL" and lt: "a + uspan (xs @ (n, False) # zs) < 2 ^ 63" and a: "0 < a"
  defines "m' \<equiv> free_mem (of_nat (a + uspan xs + 32)) m"
  shows "seg (hv m') NULL a (release xs n zs) NULL" "touches (set (uhdrs a (xs @ (n, False) # zs))) m m'"
proof -
  define b where "b = a + uspan xs"
  let ?m1 = "set_magic (of_nat b) FREE_MAGIC (set_free (of_nat b) 1 m)"
  have ne: "(of_nat (b + 32) :: u64) \<noteq> 0" using lt by (intro addr_ne0) (simp_all add: b_def)
  have sub: "(of_nat (b + 32) :: u64) - 32 = of_nat b" by simp
  have "b_magic m (of_nat b) = USED_MAGIC" using seg_at [OF s b_def] by (simp add: hv_read)
  then have m': "m' = merge_left (of_nat b) (merge_right (of_nat b) ?m1)"
    unfolding m'_def b_def [symmetric] free_mem_def sub Let_def if_not_P [OF ne] by simp
  have lt': "a + uspan (xs @ (n, True) # zs) < 2 ^ 63" using lt by simp
  note k = mark_seg [OF s lt b_def] and r = merge_right_seg [OF mark_seg(1) [OF s lt b_def] lt' b_def a]
  obtain N ZS where N: "join_right n zs = (N, True) # ZS" by (cases "free_block zs") (auto simp: join_right_def)
  have "uspan (join_right n zs) = 32 + n + uspan zs" by (cases zs) (auto simp: join_right_def)
  then have "a + uspan (xs @ (N, True) # ZS) < 2 ^ 63" using lt by (simp add: N [symmetric])
  note l = merge_left_seg [OF r(1) [unfolded N] this b_def a]
  have sub: "set (uhdrs a (xs @ (N, True) # ZS)) \<subseteq> set (uhdrs a (xs @ (n, True) # zs))"
    using N by (cases zs) (auto simp: join_right_def uhdrs_append ac_simps split: if_splits)
  show "seg (hv m') NULL a (release xs n zs) NULL" unfolding m' release_def N Let_def list.sel fst_conv by (rule l(1))
  have "touches (set (uhdrs a (xs @ (n, True) # zs))) m m'" unfolding m'
    by (rule touches_trans [OF touches_trans [OF k(2) r(2)] touches_mono [OF l(2) sub]])
  then show "touches (set (uhdrs a (xs @ (n, False) # zs))) m m'" by (simp add: uhdrs_append)
qed

text \<open>A released block's header is marked even when the block has become part of its left neighbour: a second release does nothing.\<close>

lemma join_magic:
  assumes "x = e \<or> e + 32 \<le> x" "x + 32 \<le> d" "d + 32 < 2 ^ 64"
  shows "h_magic (hv (join e v (start_ptr d zs) m) x) = h_magic (hv m x)"
  using assms by (auto simp: join_def Let_def start_ptr_def hv_set)

lemma free_marks:
  assumes s: "seg (hv m) NULL a (xs @ (n, False) # zs) NULL" and lt: "a + uspan (xs @ (n, False) # zs) < 2 ^ 63" and a: "0 < a"
  shows "b_magic (free_mem (of_nat (a + uspan xs + 32)) m) (of_nat (a + uspan xs)) = FREE_MAGIC"
proof -
  define b where "b = a + uspan xs"
  let ?m1 = "set_magic (of_nat b) FREE_MAGIC (set_free (of_nat b) 1 m)" let ?m2 = "merge_right (of_nat b) ?m1"
  have bl: "b + 32 + n + uspan zs < 2 ^ 63" using lt by (simp add: b_def)
  have ne: "(of_nat (b + 32) :: u64) \<noteq> 0" using bl by (intro addr_ne0) simp_all
  have sub: "(of_nat (b + 32) :: u64) - 32 = of_nat b" by simp
  have "b_magic m (of_nat b) = USED_MAGIC" using seg_at [OF s b_def] by (simp add: hv_read)
  then have m': "free_mem (of_nat (b + 32)) m = merge_left (of_nat b) ?m2"
    unfolding free_mem_def sub Let_def if_not_P [OF ne] by simp
  have lt': "a + uspan (xs @ (n, True) # zs) < 2 ^ 63" using lt by simp
  note k = mark_seg(1) [OF s lt b_def]
  note r = merge_right_seg(1) [OF k lt' b_def a]
  obtain N ZS where N: "join_right n zs = (N, True) # ZS" by (cases "free_block zs") (auto simp: join_right_def)
  have "uspan (join_right n zs) = 32 + n + uspan zs" by (cases zs) (auto simp: join_right_def)
  then have lt2: "a + uspan (xs @ (N, True) # ZS) < 2 ^ 63" using lt by (simp add: N [symmetric])
  have "h_magic (hv ?m1 b) = FREE_MAGIC" using bl by (simp add: hv_set)
  moreover have "h_magic (hv ?m2 b) = h_magic (hv ?m1 b)"
    unfolding merge_right_join [OF k lt' b_def] using bl by (cases zs) (auto intro!: join_magic simp del: of_nat_add)
  moreover have "h_magic (hv (merge_left (of_nat b) ?m2) b) = h_magic (hv ?m2 b)"
    unfolding merge_left_join [OF r [unfolded N] lt2 b_def a] using lt2 b_def
    by (cases xs rule: rev_cases) (auto intro!: join_magic simp del: of_nat_add)
  ultimately show ?thesis unfolding b_def [symmetric] m' hv_read by simp
qed

section \<open>Data\<close>

primrec uused :: "nat \<Rightarrow> blk list \<Rightarrow> (nat \<times> nat) set" where
  "uused a [] = {}"
| "uused a (x # xs) = (if snd x then {} else {(a + 32, fst x)}) \<union> uused (a + 32 + fst x) xs"

lemma uused_append: "uused a (xs @ ys) = uused a xs \<union> uused (a + uspan xs) ys"
  by (induction xs arbitrary: a) (auto simp: ac_simps)

lemma uused_bounds: "(c, l) \<in> uused a xs \<Longrightarrow> a + 32 \<le> c \<and> c + l \<le> a + uspan xs"
  by (induction xs arbitrary: a) (fastforce split: if_splits)+

lemma uhdrs_uused: "h \<in> set (uhdrs a xs) \<Longrightarrow> (c, l) \<in> uused a xs \<Longrightarrow> h + 32 \<le> c \<or> c + l \<le> h"
proof (induction xs arbitrary: a)
  case (Cons x xs)
  then show ?case using uhdrs_bounds [of h "a + 32 + fst x" xs] uused_bounds [of c l "a + 32 + fst x" xs] by (fastforce split: if_splits)
qed simp

lemma touches_data: "touches (set (uhdrs a xs)) m m' \<Longrightarrow> (c, l) \<in> uused a xs \<Longrightarrow> same_on m m' c (c + l)"
  using uhdrs_uused [of _ a xs c l] unfolding touches_def by blast

lemma uused_disjoint: "(c, l) \<in> uused a xs \<Longrightarrow> (d, k) \<in> uused a xs \<Longrightarrow> (c, l) = (d, k) \<or> c + l + 32 \<le> d \<or> d + k + 32 \<le> c"
proof (induction xs arbitrary: a)
  case (Cons x xs)
  then show ?case using uused_bounds [of c l "a + 32 + fst x" xs] uused_bounds [of d k "a + 32 + fst x" xs] by (fastforce split: if_splits)
qed simp

text \<open>The abstract allocator: first fit, and growth at the end when nothing fits.\<close>

definition place :: "nat \<Rightarrow> blk list \<Rightarrow> blk list" where
  "place k xs = (case dropWhile (unfit k) xs of [] \<Rightarrow> xs @ [(k, False)] | y # zs \<Rightarrow> takeWhile (unfit k) xs @ carve k (fst y) @ zs)"

definition place_at :: "nat \<Rightarrow> blk list \<Rightarrow> nat" where
  "place_at k xs = uspan (takeWhile (unfit k) xs) + 32"

lemma place_used: "\<exists>n \<ge> k. uused a (place k xs) = insert (a + place_at k xs, n) (uused a xs) \<and> (\<forall>l. (a + place_at k xs, l) \<notin> uused a xs)"
proof (cases "dropWhile (unfit k) xs")
  case Nil
  then have t: "takeWhile (unfit k) xs = xs" by (simp add: dropWhile_eq_Nil_conv takeWhile_eq_all_conv)
  show ?thesis unfolding place_def place_at_def Nil t 
    by (intro exI [of _ k]) (auto simp: uused_append add.assoc dest: uused_bounds)
next
  case (Cons y zs)
  have "\<not> unfit k y" using Cons hd_dropWhile [of "unfit k" xs] by simp
  then have y: "snd y" "k \<le> fst y" by (simp_all add: unfit_def)
  have xs: "xs = takeWhile (unfit k) xs @ y # zs" using takeWhile_dropWhile_id [of "unfit k" xs] Cons by simp
  define ws where "ws = takeWhile (unfit k) xs"
  have e: "uused a xs = uused a ws \<union> uused (a + uspan ws + 32 + fst y) zs" using y(1) by (subst xs) (simp add: uused_append ws_def)
  have "\<exists>n \<ge> k. uused (a + uspan ws) (carve k (fst y)) = {(a + uspan ws + 32, n)}" using y(2) by (auto simp: carve_def)
  then obtain n where n: "k \<le> n" "uused (a + uspan ws) (carve k (fst y)) = {(a + uspan ws + 32, n)}" by blast
  have "uused a (place k xs) = insert (a + place_at k xs, n) (uused a xs)"
    unfolding e place_def Cons place_at_def ws_def [symmetric] by (auto simp: uused_append n(2) ac_simps)
  moreover have "(a + place_at k xs, l) \<notin> uused a xs" for l
    unfolding e place_at_def ws_def [symmetric] using uused_bounds [of "a + (uspan ws + 32)" l a ws]
      uused_bounds [of "a + (uspan ws + 32)" l "a + uspan ws + 32 + fst y" zs] by auto
  ultimately show ?thesis using n(1) by blast
qed

lemma release_used: "uused a (release xs n zs) = uused a xs \<union> uused (a + uspan xs + 32 + n) zs"
proof -
  have r: "uused b (join_right n zs) = uused (b + 32 + n) zs" for b by (cases zs) (auto simp: join_right_def ac_simps)
  show ?thesis
  proof (cases "free_block (rev xs)")
    case True
    then obtain n' ws where xs: "xs = ws @ [(n', True)]" by (cases xs rule: rev_cases) auto
    obtain N ZS where N: "join_right n zs = (N, True) # ZS" by (cases "free_block zs") (auto simp: join_right_def)
    show ?thesis using r [of "a + uspan ws + 32 + n'"] by (simp add: release_def Let_def N xs uused_append ac_simps)
  qed (simp add: release_def Let_def uused_append r)
qed

end
