(* ===== verification/User_Malloc_Heap.thy ===== *)
theory User_Malloc_Heap
  imports User_Malloc
begin

text \<open>
  The user allocator over the kernel: what it needs of \<open>u_sbrk\<close> as the locale \<open>program_break\<close>, which the system call is shown to provide; the
  invariant of the program's heap; and what \<open>malloc\<close>, \<open>free\<close>, \<open>realloc\<close> and \<open>calloc\<close> do to it.
\<close>

section \<open>The break\<close>

text \<open>
  What the allocator needs of the kernel: a request for more memory that comes back either fails and leaves the break
  alone, or returns the break and moves it up by the request. \<open>brk\<close> is the break and \<open>ok\<close> the kernel's part of the invariant.
\<close>

locale program_break =
  fixes sbrk :: "'k sbrk_fn" and brk :: "'k \<Rightarrow> nat" and ok :: "'k \<Rightarrow> bool"
  assumes sbrk_moves: "ok k \<Longrightarrow> n \<noteq> 0 \<Longrightarrow> brk k + unat n < 2 ^ 63 \<Longrightarrow> sbrk n k = Some (r, k') \<Longrightarrow>
    ok k' \<and> (r = - 1 \<and> brk k' = brk k \<or> r = of_nat (brk k) \<and> brk k' = brk k + unat n)"

text \<open>The heap holds the blocks \<open>xs\<close> from \<open>a\<close> up to the break.\<close>

definition uheap :: "('k \<Rightarrow> nat) \<Rightarrow> ('k \<Rightarrow> bool) \<Rightarrow> nat \<Rightarrow> blk list \<Rightarrow> 'k user_heap \<Rightarrow> bool" where
  "uheap brk ok a xs s \<longleftrightarrow> 0 < a \<and> a + uspan xs < 2 ^ 63 \<and> heap_list s = start_ptr a xs \<and> seg (hv (umem s)) NULL a xs NULL \<and>
     brk (kernel s) = a + uspan xs \<and> ok (kernel s)"

text \<open>A new block at the end.\<close>

lemma extend_seg:
  assumes s: "seg (hv m) NULL a xs NULL" and a: "0 < a" and lt: "a + uspan xs + 32 + k < 2 ^ 63" and b: "b = a + uspan xs"
  defines "m1 \<equiv> set_magic (of_nat b) USED_MAGIC (set_free (of_nat b) 0 (set_next (of_nat b) NULL (set_prev (of_nat b) NULL
      (set_free (of_nat b) 1 (set_magic (of_nat b) FREE_MAGIC (set_size (of_nat b) (of_nat k) m))))))"
  defines "m' \<equiv> if xs = [] then m1 else set_next (last_ptr NULL a xs) (of_nat b) (set_prev (of_nat b) (last_ptr NULL a xs) m1)"
  shows "seg (hv m') NULL a (xs @ [(k, False)]) NULL" "touches (set (uhdrs a (xs @ [(k, False)]))) m m'"
proof -
  define C where "C = set (uhdrs a (xs @ [(k, False)]))"
  have bl: "b + 32 < 2 ^ 64" "b \<in> C" using lt b by (simp_all add: C_def uhdrs_append)
  note sb = set_touches [OF bl]
  have t1: "touches {b} m m1" unfolding m1_def using bl(1) by (intro touches_trans [OF _ set_touches(1)] touches_trans [OF _ set_touches(2)]
      touches_trans [OF _ set_touches(3)] touches_trans [OF _ set_touches(4)] touches_trans [OF _ set_touches(5)] touches_refl) simp_all
  have h1: "hv m1 b = blk_hdr (k, False) NULL NULL" unfolding m1_def using bl(1) by (simp add: hv_set blk_hdr_def)
  show "seg (hv m') NULL a (xs @ [(k, False)]) NULL" "touches (set (uhdrs a (xs @ [(k, False)]))) m m'"
  proof (atomize (full), cases xs rule: rev_cases)
    case Nil
    then show "seg (hv m') NULL a (xs @ [(k, False)]) NULL \<and> touches (set (uhdrs a (xs @ [(k, False)]))) m m'"
      using h1 t1 b by (simp add: m'_def)
  next
    case (snoc ws w)
    define e where "e = a + uspan ws"
    have be: "b = e + 32 + fst w" and el: "e + 32 < 2 ^ 64" and eb: "e + 32 \<le> b" using b lt snoc by (simp_all add: e_def)
    have lp: "last_ptr NULL a xs = of_nat e" by (simp add: snoc last_ptr_def uhdrs_append e_def)
    have m': "m' = set_next (of_nat e) (of_nat b) (set_prev (of_nat b) (of_nat e) m1)" unfolding m'_def lp using snoc by simp
    have "e \<in> C" using snoc by (simp add: C_def uhdrs_append e_def)
    have t: "touches {e, b} m m'" unfolding m'
      by (rule touches_trans [OF touches_trans [OF touches_mono [OF t1] set_touches(5)] set_touches(4)]) (use bl(1) el in simp_all)
    have "hv m1 e = hv m e" by (rule touches_hv [OF t1]) (use el eb in simp_all)
    moreover have "hv m e = blk_hdr w NULL (last_ptr NULL a ws)" using seg_at [of m NULL a ws w "[]" e] s snoc by (simp add: e_def)
    ultimately have h: "hv m' e = blk_hdr w (of_nat b) (last_ptr NULL a ws)" "hv m' b = blk_hdr (k, False) NULL (of_nat e)"
      unfolding m' using bl(1) el eb h1 by (simp_all add: hv_set)
    have "seg (hv m') NULL a ws (of_nat e)"
    proof (rule seg_cong [THEN iffD1, rotated])
      show "seg (hv m) NULL a ws (of_nat e)" using s snoc by (simp add: seg_append e_def)
      show "hv m x = hv m' x" if "x \<in> set (uhdrs a ws)" for x
        by (rule touches_hv [OF t, symmetric]) (use uhdrs_bounds [OF that] el eb in \<open>auto simp: e_def\<close>)
    qed
    then have "seg (hv m') NULL a (ws @ [w, (k, False)]) NULL"
      unfolding seg_append e_def [symmetric] seg.simps be [symmetric] using h by simp
    then have "seg (hv m') NULL a (xs @ [(k, False)]) NULL" by (simp add: snoc)
    moreover have "touches C m m'" by (rule touches_mono [OF t]) (use bl(2) \<open>e \<in> C\<close> in simp)
    ultimately show "seg (hv m') NULL a (xs @ [(k, False)]) NULL \<and> touches (set (uhdrs a (xs @ [(k, False)]))) m m'" unfolding C_def by blast
  qed
qed

lemma align8: "unat n + 7 < 2 ^ 64 \<Longrightarrow> ALIGN8 n = of_nat (round8 (unat n))"
  unfolding ALIGN8_def by (rule round8_word)

lemma loop_found:
  assumes h: "uheap brk ok a xs s" and lt: "k < 2 ^ 63"
  shows "malloc_loop (of_nat k) (heap_list s) NULL (umem s) = Some (case dropWhile (unfit k) xs of
      [] \<Rightarrow> Inr (last_ptr NULL a xs)
    | _ \<Rightarrow> let b = of_nat (a + uspan (takeWhile (unfit k) xs)) in Inl (b + 32, malloc_take (of_nat k) b (umem s)))"
proof -
  have uk: "unat (of_nat k :: u64) = k" using lt by (intro unat_addr) simp
  show ?thesis using loop_seg [of "umem s" NULL a xs "of_nat k"] h unfolding uk uheap_def by simp
qed

lemma align8_round: "k = round8 (unat n) \<Longrightarrow> k < 2 ^ 63 \<Longrightarrow> ALIGN8 n = of_nat k"
  using round8(2) [of "unat n"] by (simp add: align8)

context program_break
begin

text \<open>A block that fits is found without the kernel.\<close>

lemma malloc_found:
  assumes h: "uheap brk ok a xs s" and n: "n \<noteq> 0" "k = round8 (unat n)" and lt: "k < 2 ^ 63" and fits: "dropWhile (unfit k) xs = y # zs"
  shows "\<exists>s'. malloc sbrk n s = Some (of_nat (a + place_at k xs), s') \<and> uheap brk ok a (place k xs) s' \<and>
      (\<forall>(c, l) \<in> uused a xs. same_on (umem s) (umem s') c (c + l))"
proof -
  note h' = h [unfolded uheap_def] and al = align8_round [OF n(2) lt] and loop = loop_found [OF h lt] and Cons = fits
  define ws where "ws = takeWhile (unfit k) xs"
  have xs: "xs = ws @ y # zs" unfolding ws_def using takeWhile_dropWhile_id [of "unfit k" xs] Cons by simp
  have "\<not> unfit k y" using Cons hd_dropWhile [of "unfit k" xs] by simp
  then obtain ny where y: "y = (ny, True)" "k \<le> ny" by (cases y) (simp add: unfit_def)
  let ?m = "malloc_take (of_nat k) (of_nat (a + uspan ws)) (umem s)"
  have run: "malloc sbrk n s = Some (of_nat (a + place_at k xs), s\<lparr>umem := ?m\<rparr>)"
    using n(1) by (simp add: malloc_def al loop Cons Let_def place_at_def ws_def)
  have pl: "place k xs = ws @ carve k ny @ zs" by (simp add: place_def Cons ws_def y)
  note t = take_seg [of "umem s" NULL a ws ny zs k]
  have t': "seg (hv ?m) NULL a (place k xs) NULL" "touches (set (uhdrs a (place k xs))) (umem s) ?m"
    unfolding pl using t h' y by (simp_all add: xs)
  have "uheap brk ok a (place k xs) (s\<lparr>umem := ?m\<rparr>)" using h' t'(1) unfolding uheap_def pl by (auto simp: xs y start_ptr_def carve_def)
  moreover have "same_on (umem s) ?m c (c + l)" if "(c, l) \<in> uused a xs" for c l
    using touches_data [OF t'(2), of c l] place_used [of k a xs] that by auto
  ultimately show ?thesis using run by (auto split: prod.split)
qed

text \<open>Otherwise the kernel is asked for a header and the rounded size: \<open>malloc\<close> comes back unless the kernel does not.\<close>

lemma malloc_grows:
  assumes h: "uheap brk ok a xs s" and n: "n \<noteq> 0" "k = round8 (unat n)" and lt: "a + uspan xs + 32 + k < 2 ^ 63" and Nil: "dropWhile (unfit k) xs = []"
  shows "case sbrk (of_nat (32 + k)) (kernel s) of
      None \<Rightarrow> malloc sbrk n s = None
    | Some (r, k') \<Rightarrow>
        if r = - 1 then malloc sbrk n s = Some (NULL, s\<lparr>kernel := k'\<rparr>) \<and> uheap brk ok a xs (s\<lparr>kernel := k'\<rparr>)
        else \<exists>s'. malloc sbrk n s = Some (of_nat (a + place_at k xs), s') \<and> uheap brk ok a (place k xs) s' \<and>
          (\<forall>(c, l) \<in> uused a xs. same_on (umem s) (umem s') c (c + l))"
proof -
  have kl: "k < 2 ^ 63" using lt by simp
  note h' = h [unfolded uheap_def] and al = align8_round [OF n(2) kl] and loop = loop_found [OF h kl]
  have uk: "unat (of_nat (32 + k) :: u64) = 32 + k" using lt by (intro unat_addr) simp
  have tw: "takeWhile (unfit k) xs = xs" using Nil by (simp add: dropWhile_eq_Nil_conv takeWhile_eq_all_conv)
  define b where "b = a + uspan xs"
  have pl: "place k xs = xs @ [(k, False)]" "a + place_at k xs = b + 32" by (simp_all add: place_def Nil place_at_def tw b_def)
  have bl: "0 < b" "b < 2 ^ 63" using lt h' by (simp_all add: b_def)
  then have ub: "unat (of_nat b :: u64) = b" by (intro unat_addr) simp
  have b1: "(of_nat b :: u64) \<noteq> - 1"
  proof
    assume "(of_nat b :: u64) = - 1"
    then have "b = unat (- 1 :: u64)" using ub by simp
    then show False using bl(2) by (simp add: unsigned_minus_1_eq_mask mask_eq_exp_minus_1)
  qed
  have b0: "(of_nat b :: u64) \<noteq> 0" using addr_ne0 [of b] bl by simp
  have sz: "(32 :: u64) + of_nat k = of_nat (32 + k)" by simp
  have nz: "(of_nat (32 + k) :: u64) \<noteq> 0" using addr_ne0 [of "32 + k"] lt by simp
  have law: "ok k' \<and> (r = - 1 \<and> brk k' = brk (kernel s) \<or> r = of_nat b \<and> brk k' = b + (32 + k))"
    if "sbrk (of_nat (32 + k)) (kernel s) = Some (r, k')" for r k'
    using sbrk_moves [OF _ nz _ that] h' lt unfolding uk b_def by (simp del: of_nat_add)
  show ?thesis
  proof (cases "sbrk (of_nat (32 + k)) (kernel s)")
    case None
    then show ?thesis using n(1) by (simp add: malloc_def al loop Nil blk_extend_def sz Let_def del: of_nat_add)
  next
    case (Some rk)
    then obtain r k' where k': "sbrk (of_nat (32 + k)) (kernel s) = Some (r, k')" by (cases rk) simp
    show ?thesis
    proof (cases "r = - 1")
      case True
      have "uheap brk ok a xs (s\<lparr>kernel := k'\<rparr>)" using law [OF k'] True b1 h' unfolding uheap_def by auto
      moreover have "malloc sbrk n s = Some (NULL, s\<lparr>kernel := k'\<rparr>)"
        using n(1) True by (simp add: malloc_def al loop Nil blk_extend_def sz Let_def k' del: of_nat_add)
      ultimately show ?thesis using k' True by (simp del: of_nat_add)
    next
      case False
      then have r: "r = of_nat b" "ok k'" "brk k' = b + (32 + k)" using law [OF k'] by auto
      let ?m1 = "set_magic (of_nat b) USED_MAGIC (set_free (of_nat b) 0 (set_next (of_nat b) NULL (set_prev (of_nat b) NULL
          (set_free (of_nat b) 1 (set_magic (of_nat b) FREE_MAGIC (set_size (of_nat b) (of_nat k) (umem s)))))))"
      let ?m = "if xs = [] then ?m1 else set_next (last_ptr NULL a xs) (of_nat b) (set_prev (of_nat b) (last_ptr NULL a xs) ?m1)"
      let ?s = "s\<lparr>umem := ?m, heap_list := start_ptr a (xs @ [(k, False)]), kernel := k'\<rparr>"
      note e = extend_seg [of "umem s" a xs k b, OF _ _ lt b_def, folded pl(1)]
      have a0: "(of_nat a :: u64) \<noteq> 0" using addr_ne0 [of a] h' by simp
      have lp: "malloc_loop (of_nat k) (heap_list s) NULL (umem s) = Some (Inr (last_ptr NULL a xs))" using loop Nil by simp
      have ex: "blk_extend sbrk (of_nat k) s = Some (of_nat b, s\<lparr>kernel := k', umem := set_next (of_nat b) NULL (set_prev (of_nat b) NULL
          (set_free (of_nat b) 1 (set_magic (of_nat b) FREE_MAGIC (set_size (of_nat b) (of_nat k) (umem s)))))\<rparr>)"
        unfolding blk_extend_def sz k' r(1) using b1 by (simp add: Let_def)
      have "malloc sbrk n s = Some (of_nat b + 32, ?s)"
        using n(1) b0 h' unfolding malloc_def al lp ex Let_def by (cases "xs = []") (simp_all add: a0 start_ptr_def b_def)
      then have "malloc sbrk n s = Some (of_nat (b + 32), ?s)" by (simp add: add.commute)
      moreover have "uheap brk ok a (place k xs) ?s" using h' e(1) r lt unfolding uheap_def pl(1) by (simp add: b_def)
      moreover have "same_on (umem s) ?m c (c + l)" if "(c, l) \<in> uused a xs" for c l
        using touches_data [of a "place k xs" "umem s" ?m c l] e(2) h' place_used [of k a xs] that by auto
      ultimately have "\<exists>s'. malloc sbrk n s = Some (of_nat (a + place_at k xs), s') \<and> uheap brk ok a (place k xs) s' \<and>
          (\<forall>(c, l) \<in> uused a xs. same_on (umem s) (umem s') c (c + l))" unfolding pl(2) by (intro exI [of _ ?s]) auto
      then show ?thesis using k' False by (simp del: of_nat_add)
    qed
  qed
qed

end

section \<open>The kernel as provider of the break\<close>

definition kernel_sbrk :: "initrd_syms \<Rightarrow> user_regs \<Rightarrow> 'a sys_state_scheme sbrk_fn" where
  "kernel_sbrk disk r n k = (case u_sbrk disk r n k of Ret (Some v) t \<Rightarrow> Some (v, t) | _ \<Rightarrow> None)"

definition kernel_brk :: "'a sys_state_scheme \<Rightarrow> nat" where
  "kernel_brk k = unat (heap_end (the (procs k (current k))))"

definition kernel_ok :: "'a sys_state_scheme \<Rightarrow> bool" where
  "kernel_ok k \<longleftrightarrow> native k \<and> heap_start (the (procs k (current k))) \<noteq> 0"

lemma sys_sbrk_yields:
  fixes s :: "'a sched_state_scheme"
  assumes "current s \<noteq> NULL" "procs s (current s) = Some p" "heap_start p \<noteq> 0" "n \<noteq> 0"
  shows "yields (\<lambda>x t. current t = current s \<and>
      (x = Done (- 1) \<and> procs t = procs s \<or> x = Done (heap_end p) \<and> procs t = (procs s)(current s \<mapsto> p\<lparr>heap_end := heap_end p + n\<rparr>)))
    (sys_sbrk n s)"
proof -
  let ?K = "\<lambda>t :: 'a sched_state_scheme. vmm_state.more t = vmm_state.more s"
  have K: "current t = current s \<and> procs t = procs s" if "?K t" for t using that by (cases s, cases t) simp
  have pr: "yields (\<lambda>_. ?K) (if 0 < sint n then serial_print cs s else Ret () s)" for cs using rest_upper.serial [of s "vmm_state.more s" cs] by simp
  let ?Q = "\<lambda>x t. current t = current s \<and>
      (x = Done (- 1) \<and> procs t = procs s \<or> x = Done (heap_end p) \<and> procs t = (procs s)(current s \<mapsto> p\<lparr>heap_end := heap_end p + n\<rparr>))"
  have grow: "yields ?Q (obind (sbrk_pages m i b pt t) (\<lambda>mapped s2. if \<not> mapped then Ret (Done (-1)) s2
       else deref (current s) s2 (\<lambda>_. Ret (Done (heap_end p)) (upd_proc (current s) (\<lambda>q. q\<lparr>heap_end := heap_end p + n\<rparr>) s2))))" if "?K t" for t m i b pt
    unfolding yields_obind
    by (rule yields_mono [OF rest_upper.paging.sbrk [OF that]]) (auto dest!: K simp: deref_def upd_proc_def assms)
  show ?thesis unfolding sys_sbrk_def yields_obind
  proof (rule yields_mono [OF pr])
    fix x and t :: "'a sched_state_scheme" assume t: "?K t"
    have d: "deref (current s) t f = f p" for f :: "process \<Rightarrow> ('a sched_state_scheme, sysret) outcome" using K [OF t] assms(2) by (simp add: deref_def)
    show "yields ?Q (let cur = scheduler_current s
       in if cur = NULL then Ret (Done (-1)) t
          else deref cur t (\<lambda>p.
            if heap_start p = 0 then Ret (Done (-1)) t
            else if n = 0 then Ret (Done (heap_end p)) t
            else
              let base = heap_start p; old_end = heap_end p; new_end = old_end + n;
                  old_pages = heap_page_count base old_end; new_pages = heap_page_count base new_end
              in obind (sbrk_pages (unat new_pages - unat old_pages) old_pages base (page_table p) t) (\<lambda>mapped s2.
                   if \<not> mapped then Ret (Done (-1)) s2
                   else deref cur s2 (\<lambda>_. Ret (Done old_end) (upd_proc cur (\<lambda>p. p\<lparr>heap_end := new_end\<rparr>) s2)))))"
      unfolding Let_def scheduler_current_def d using grow [OF t] assms by (simp del: yields_obind)
  qed
qed

text \<open>The kernel's \<open>sbrk\<close> is such a provider, for the process that runs.\<close>

interpretation kernel_break: program_break "kernel_sbrk disk r" kernel_brk kernel_ok for disk r
proof
  fix k k' :: "'a sys_state_scheme" and n v
  assume ok: "kernel_ok k" and n: "n \<noteq> 0" "kernel_brk k + unat n < 2 ^ 63" and run: "kernel_sbrk disk r n k = Some (v, k')"
  obtain p where p: "current k \<noteq> NULL" "procs k (current k) = Some p" "use_linux_abi p = 0" "heap_start p \<noteq> 0"
    using ok by (auto simp: kernel_ok_def native_def)
  have "native k" using ok by (simp add: kernel_ok_def)
  from native_dispatch [OF this] have u: "u_sbrk disk r n k = returns id (sys_sbrk n k)"
    by (simp add: u_sbrk_def u_syscall_def native_syscall_def returns_def)
  obtain x where x: "sys_sbrk n k = Ret x k'" "x = Done v"
    using run unfolding kernel_sbrk_def u returns_def by (cases "sys_sbrk n k") (auto split: sysret.splits)
  have e: "unat (heap_end p + n) = unat (heap_end p) + unat n" using n(2) p(2) by (simp add: kernel_brk_def unat_word_ariths)
  have "current k' = current k \<and> (v = - 1 \<and> procs k' = procs k \<or>
      v = heap_end p \<and> procs k' = (procs k)(current k \<mapsto> p\<lparr>heap_end := heap_end p + n\<rparr>))"
    using sys_sbrk_yields [OF p(1,2,4) n(1)] x by auto
  then show "kernel_ok k' \<and> (v = - 1 \<and> kernel_brk k' = kernel_brk k \<or> v = of_nat (kernel_brk k) \<and> kernel_brk k' = kernel_brk k + unat n)"
    using p e by (auto simp: kernel_ok_def native_def kernel_brk_def)
qed

section \<open>Growing a block\<close>

lemma uused_split: "(c, l) \<in> uused a ys \<Longrightarrow> \<exists>ws zs. ys = ws @ (l, False) # zs \<and> c = a + uspan ws + 32"
proof (induction ys arbitrary: a)
  case (Cons y ys)
  show ?case
  proof (cases "(c, l) \<in> uused (a + 32 + fst y) ys")
    case True
    from Cons.IH [OF this] obtain ws zs where "ys = ws @ (l, False) # zs" "c = a + 32 + fst y + uspan ws + 32" by blast
    then show ?thesis by (intro exI [of _ "y # ws"] exI [of _ zs]) simp
  next
    case False
    then have "y = (l, False)" "c = a + 32" using Cons.prems by (cases y; auto split: if_splits)+
    then show ?thesis by (intro exI [of _ "[]"] exI [of _ ys]) simp
  qed
qed simp

text \<open>The program may write inside a block it holds.\<close>

lemma uheap_write:
  assumes h: "uheap brk ok a xs s" and u: "(c, l) \<in> uused a xs" and m: "same_on (umem s) m' 0 c" "same_on (umem s) m' (c + l) (2 ^ 64)"
  shows "uheap brk ok a xs (s\<lparr>umem := m'\<rparr>)"
proof -
  have lt: "a + uspan xs < 2 ^ 63" using h by (simp add: uheap_def)
  have "hv (umem s) x = hv m' x" if "x \<in> set (uhdrs a xs)" for x
  proof (rule hv_same [symmetric])
    show "same_on (umem s) m' x (x + 32)" using uhdrs_uused [OF that u] uhdrs_bounds [OF that] lt m by (auto elim: same_on_mono)
    show "x + 32 < 2 ^ 64" using uhdrs_bounds [OF that] lt by simp
  qed
  then have "seg (hv m') NULL a xs NULL = seg (hv (umem s)) NULL a xs NULL" by (intro seg_cong) simp
  then show ?thesis using h by (simp add: uheap_def)
qed

text \<open>The copying loop, when the new block is apart from the old one and its header.\<close>

lemma copy_run:
  assumes sz: "b_size m (of_nat b) = of_nat l" and i: "i \<le> l" and lt: "b + 32 + l < 2 ^ 63" "d + l < 2 ^ 63" and ap: "b + 32 + l \<le> d \<or> d + l \<le> b"
  shows "\<exists>m'. realloc_copy (of_nat i) (of_nat b) (of_nat (b + 32)) (of_nat d) m = Some m' \<and>
    (\<forall>j. i \<le> j \<and> j < l \<longrightarrow> m' (of_nat (d + j)) = m (of_nat (b + 32 + j))) \<and> same_on m m' 0 (d + i) \<and> same_on m m' (d + l) (2 ^ 64)"
  using sz i
proof (induction "l - i" arbitrary: i m)
  case 0
  then have "\<not> (of_nat i :: u64) < b_size m (of_nat b)" by simp
  then show ?case by (subst realloc_copy.simps) (use 0 in auto)
next
  case (Suc k)
  then have il: "i < l" by simp
  let ?m = "m(of_nat (d + i) := m (of_nat (b + 32 + i)))"
  have u: "unat (of_nat x :: u64) = x" if "x < 2 ^ 63" for x using that by (intro unat_addr) simp
  have tst: "(of_nat i :: u64) < b_size m (of_nat b)" using il lt u [of i] u [of l] by (simp add: Suc.prems(1) word_less_nat_alt)
  have out: "same_on m ?m lo hi" if "d + i + 1 \<le> lo \<or> hi \<le> d + i" for lo hi using that u [of "d + i"] lt il by (auto simp: same_on_def simp del: of_nat_add)
  have "b_size ?m (of_nat b) = b_size m (of_nat b)" unfolding b_size_def
  proof (rule load64_same)
    have ub: "unat (of_nat b :: u64) = b" using lt by (intro u) simp
    show "same_on m ?m (unat (of_nat b :: u64)) (unat (of_nat b :: u64) + 8)" unfolding ub by (rule out) (use ap il in linarith)
    show "unat (of_nat b :: u64) + 8 \<le> 2 ^ 64" unfolding ub using lt by simp
  qed
  then have e: "k = l - (i + 1)" "b_size ?m (of_nat b) = of_nat l" "i + 1 \<le> l" using Suc.hyps(2) Suc.prems il by simp_all
  from Suc.hyps(1) [OF e] obtain m' where m': "realloc_copy (of_nat (i + 1)) (of_nat b) (of_nat (b + 32)) (of_nat d) ?m = Some m'"
    "\<forall>j. i + 1 \<le> j \<and> j < l \<longrightarrow> m' (of_nat (d + j)) = ?m (of_nat (b + 32 + j))" "same_on ?m m' 0 (d + (i + 1))" "same_on ?m m' (d + l) (2 ^ 64)"
    by blast
  have "realloc_copy (of_nat i) (of_nat b) (of_nat (b + 32)) (of_nat d) m = Some m'"
    by (subst realloc_copy.simps) (use tst m'(1) in \<open>simp add: ac_simps\<close>)
  moreover have "m' (of_nat (d + j)) = m (of_nat (b + 32 + j))" if "i \<le> j" "j < l" for j
  proof (cases "j = i")
    case True
    have "m' (of_nat (d + i)) = ?m (of_nat (d + i))" by (rule same_onD [OF m'(3)]) (use u [of "d + i"] lt il in simp_all)
    then show ?thesis using True by simp
  next
    case False
    have "(of_nat (b + 32 + j) :: u64) \<noteq> of_nat (d + i)"
    proof
      assume "(of_nat (b + 32 + j) :: u64) = of_nat (d + i)"
      then have "b + 32 + j = d + i" using u [of "b + 32 + j"] u [of "d + i"] lt il that(2) by simp
      then show False using ap that il by linarith
    qed
    moreover have "i + 1 \<le> j" using False that(1) by simp
    ultimately show ?thesis using m'(2) that(2) by (simp del: of_nat_add)
  qed
  moreover have "same_on m m' 0 (d + i)" "same_on m m' (d + l) (2 ^ 64)"
    by (rule same_on_trans [OF out same_on_mono [OF m'(3)]]; simp) (rule same_on_trans [OF out m'(4)], use il in simp)
  ultimately show ?case by (intro exI [of _ m']) blast
qed

lemma uheap_free:
  assumes h: "uheap brk ok a (ws @ (l, False) # zs) s"
  shows "uheap brk ok a (release ws l zs) (free (of_nat (a + uspan ws + 32)) s)"
proof -
  have g: "seg (hv (umem s)) NULL a (ws @ (l, False) # zs) NULL" "a + uspan (ws @ (l, False) # zs) < 2 ^ 63" "0 < a" using h by (simp_all add: uheap_def)
  have st: "start_ptr a (release ws l zs) = start_ptr a (ws @ (l, False) # zs)" by (auto simp: start_ptr_def release_def join_right_def Let_def)
  show ?thesis using h free_seg(1) [OF g] unfolding uheap_def st by (simp add: free_def)
qed

text \<open>Moving a block: after \<open>malloc\<close> has found room, the bytes are copied and the old block is released.\<close>

lemma realloc_moves:
  assumes h: "uheap brk ok a xs s" and ol: "(c, l) \<in> uused a xs" and k: "round8 (unat n) = k" "l < k" "n \<noteq> 0" and lt: "unat n + 7 < 2 ^ 64"
    and mal: "malloc sbrk n s = Some (of_nat (a + place_at k xs), s1)" "uheap brk ok a (place k xs) s1"
    and fr: "\<forall>(c, l) \<in> uused a xs. same_on (umem s) (umem s1) c (c + l)"
  shows "\<exists>s' ws zs. realloc sbrk (of_nat c) n s = Some (of_nat (a + place_at k xs), s') \<and>
    place k xs = ws @ (l, False) # zs \<and> c = a + uspan ws + 32 \<and> uheap brk ok a (release ws l zs) s' \<and>
    (\<forall>i < l. umem s' (of_nat (a + place_at k xs + i)) = umem s (of_nat (c + i))) \<and>
    (\<forall>(d, j) \<in> uused a xs - {(c, l)}. same_on (umem s) (umem s') d (d + j))"
proof -
  let ?p = "a + place_at k xs"
  obtain nn where nn: "k \<le> nn" "uused a (place k xs) = insert (?p, nn) (uused a xs)" "(?p, nn) \<notin> uused a xs" using place_used [of k a xs] by blast
  have old: "(c, l) \<in> uused a (place k xs)" and new: "(?p, nn) \<in> uused a (place k xs)" using nn(2) ol by simp_all
  obtain ws zs where w: "place k xs = ws @ (l, False) # zs" "c = a + uspan ws + 32" using uused_split [OF old] by blast
  define b where "b = a + uspan ws"
  have cb: "c = b + 32" using w by (simp add: b_def)
  have ap: "c + l + 32 \<le> ?p \<or> ?p + nn + 32 \<le> c" using uused_disjoint [OF old new] nn(1) k(2) by auto
  have b1: "a + uspan (place k xs) < 2 ^ 63" "0 < a" "seg (hv (umem s1)) NULL a (ws @ (l, False) # zs) NULL" using mal(2) w(1) by (simp_all add: uheap_def)
  have bl: "c + l < 2 ^ 63" "?p + nn < 2 ^ 63" using uused_bounds [OF old] uused_bounds [OF new] b1(1) by simp_all
  have c0: "(of_nat c :: u64) \<noteq> 0" using addr_ne0 [of c] bl(1) cb by simp
  have sub: "(of_nat c :: u64) - 32 = of_nat b" by (simp add: cb)
  have sz1: "b_size (umem s1) (of_nat b) = of_nat l" using seg_at [OF b1(3) b_def] by (simp add: hv_read)
  have "b_size (umem s) (of_nat b) = of_nat l"
  proof -
    obtain us vs where "xs = us @ (l, False) # vs" "c = a + uspan us + 32" using uused_split [OF ol] by blast
    then have "hv (umem s) b = blk_hdr (l, False) (start_ptr (b + 32 + l) vs) (last_ptr NULL a us)"
      using h seg_at [of "umem s" NULL a us "(l, False)" vs b] cb by (simp add: uheap_def)
    then show ?thesis unfolding hv_read by simp
  qed
  moreover have "\<not> (of_nat k :: u64) \<le> of_nat l"
  proof -
    have "unat (of_nat k :: u64) = k" "unat (of_nat l :: u64) = l" using bl nn(1) by (intro unat_addr; simp)+
    then show ?thesis using k(2) by (simp add: word_le_nat_alt)
  qed
  ultimately have grow: "\<not> ALIGN8 n \<le> b_size (umem s) (of_nat b)" using align8 [OF lt] k(1) by simp
  obtain m where m: "realloc_copy 0 (of_nat b) (of_nat c) (of_nat ?p) (umem s1) = Some m" "\<forall>j < l. m (of_nat (?p + j)) = umem s1 (of_nat (c + j))"
    "same_on (umem s1) m 0 ?p" "same_on (umem s1) m (?p + l) (2 ^ 64)"
    using copy_run [OF sz1 le0, of ?p] bl ap nn(1) k(2) unfolding cb by auto
  have p0: "(of_nat ?p :: u64) \<noteq> 0" using addr_ne0 [of ?p] bl(2) by (simp add: place_at_def)
  let ?s = "free (of_nat c) (s1\<lparr>umem := m\<rparr>)"
  have run: "realloc sbrk (of_nat c) n s = Some (of_nat ?p, ?s)"
    unfolding realloc_def if_not_P [OF c0] if_not_P [OF k(3)] sub if_not_P [OF grow] mal(1) option.case prod.case if_not_P [OF p0] m(1) ..
  have h2: "uheap brk ok a (ws @ (l, False) # zs) (s1\<lparr>umem := m\<rparr>)" using uheap_write [OF mal(2) new m(3) same_on_mono [OF m(4)]] w(1) nn(1) k(2) by simp
  then have g: "seg (hv m) NULL a (ws @ (l, False) # zs) NULL" "a + uspan (ws @ (l, False) # zs) < 2 ^ 63" by (simp_all add: uheap_def)
  note f = free_seg [OF g b1(2), folded w(2)]
  have m2: "umem ?s = free_mem (of_nat c) m" by (simp add: free_def)
  have "uheap brk ok a (release ws l zs) ?s" unfolding w(2) by (rule uheap_free [OF h2])
  moreover have kept: "same_on m (umem ?s) d (d + j)" if "(d, j) \<in> uused a (place k xs)" for d j
    unfolding m2 by (rule touches_data [OF f(2)]) (use that w(1) in simp)
  have "umem ?s (of_nat (?p + i)) = umem s (of_nat (c + i))" if "i < l" for i
  proof -
    have "unat (of_nat (?p + i) :: u64) = ?p + i" "unat (of_nat (c + i) :: u64) = c + i" using bl that nn(1) k(2) by (intro unat_addr; simp)+
    note u = this
    have "umem ?s (of_nat (?p + i)) = m (of_nat (?p + i))" by (rule same_onD [OF kept [OF new]]; unfold u; use that nn(1) k(2) in simp)
    also have "\<dots> = umem s1 (of_nat (c + i))" using m(2) that by blast
    also have "\<dots> = umem s (of_nat (c + i))"
    proof (rule same_onD)
      show "same_on (umem s) (umem s1) c (c + l)" using fr ol by blast
    qed (use u that in simp_all)
    finally show ?thesis .
  qed
  moreover have "same_on (umem s) (umem ?s) d (d + j)" if dj: "(d, j) \<in> uused a xs - {(c, l)}" for d j
  proof -
    have d: "(d, j) \<in> uused a (place k xs)" using dj nn(2) by blast
    have "same_on (umem s) (umem s1) d (d + j)" using fr dj by blast
    moreover have "same_on (umem s1) m d (d + j)"
    proof -
      have "d + j \<le> ?p \<or> ?p + l \<le> d" using uused_disjoint [OF d new] dj nn(1,3) k(2) by auto
      then show ?thesis using m(3,4) uused_bounds [OF d] b1(1) by (auto elim: same_on_mono)
    qed
    ultimately show ?thesis by (blast intro: same_on_trans kept [OF d])
  qed
  ultimately show ?thesis using run w by blast
qed

text \<open>There is room: a free block fits, or the kernel moves the break.\<close>

definition room :: "'k sbrk_fn \<Rightarrow> nat \<Rightarrow> blk list \<Rightarrow> 'k user_heap \<Rightarrow> bool" where
  "room sbrk k xs s \<longleftrightarrow> (\<exists>x \<in> set xs. snd x \<and> k \<le> fst x) \<or> (\<exists>v t. sbrk (of_nat (32 + k)) (kernel s) = Some (v, t) \<and> v \<noteq> - 1)"

lemma malloc_room:
  fixes s :: "'a sys_state_scheme user_heap"
  assumes "uheap kernel_brk kernel_ok a xs s" and "n \<noteq> 0" and "k = round8 (unat n)" and "a + uspan xs + 32 + k < 2 ^ 63"
    and "room (kernel_sbrk disk r) k xs s"
  obtains s1 where "malloc (kernel_sbrk disk r) n s = Some (of_nat (a + place_at k xs), s1)" "uheap kernel_brk kernel_ok a (place k xs) s1"
    "\<forall>(c, l) \<in> uused a xs. same_on (umem s) (umem s1) c (c + l)"
proof (cases "dropWhile (unfit k) xs")
  case (Cons y zs)
  have "k < 2 ^ 63" using assms(4) by simp
  from kernel_break.malloc_found [OF assms(1-3) this Cons, of disk r] show thesis using that by blast
next
  case Nil
  then have "\<not> (\<exists>x \<in> set xs. snd x \<and> k \<le> fst x)" by (auto simp: dropWhile_eq_Nil_conv unfit_def)
  then obtain v t where "kernel_sbrk disk r (of_nat (32 + k)) (kernel s) = Some (v, t)" "v \<noteq> - 1" using assms(5) unfolding room_def by blast
  then show thesis using kernel_break.malloc_grows [OF assms(1-4) Nil, of disk r] that by auto
qed

section \<open>Properties\<close>

text \<open>A program with two blocks on its heap, the first in use and the second free, and the kernel that runs it.\<close>

definition two_blocks :: "nat \<Rightarrow> nat \<Rightarrow> memory" where
  "two_blocks a b = fold (\<lambda>f. f) [set_size (of_nat a) (of_nat 16), set_magic (of_nat a) USED_MAGIC, set_free (of_nat a) 0, set_next (of_nat a) (of_nat b),
     set_prev (of_nat a) NULL, set_size (of_nat b) (of_nat 128), set_magic (of_nat b) FREE_MAGIC, set_free (of_nat b) 1, set_next (of_nat b) NULL,
     set_prev (of_nat b) (of_nat a)] (\<lambda>_. 0)"

lemma two_blocks_hdrs:
  assumes "a + 32 \<le> b" "b + 32 < 2 ^ 63"
  shows "hv (two_blocks a b) a = blk_hdr (16, False) (of_nat b) NULL" "hv (two_blocks a b) b = blk_hdr (128, True) NULL (of_nat a)"
  using assms by (simp_all add: two_blocks_def hv_set blk_hdr_def)

definition uheap_demo :: "sys_state user_heap" where
  "uheap_demo = \<lparr>umem = two_blocks 0x800000 0x800030, heap_list = 0x800000,
     kernel = sys_demo\<lparr>procs := (procs sys_demo)(0x3000 \<mapsto> process_zero\<lparr>heap_start := 0x800000, heap_end := 0x8000D0\<rparr>)\<rparr>\<rparr>"

lemma uheap_demo_ok: "uheap kernel_brk kernel_ok 0x800000 [(16, False), (128, True)] uheap_demo"
  using two_blocks_hdrs [of "0x800000" "0x800030"]
  by (simp add: uheap_def uheap_demo_def kernel_brk_def kernel_ok_def native_def sys_demo_simps process_zero_def)

lemma place_demo: "round8 20 = 24" "place 24 [(16, False), (128, True)] = [(16, False), (24, False), (72, True)]" "place_at 24 [(16, False), (128, True)] = 80"
  by (simp_all add: place_def place_at_def unfit_def carve_def round8_def)

text \<open>C9. \<open>malloc\<close> of a process with its heap in order takes the first free block that is large enough, split when the rest has room for a
  header and eight bytes; when there is none, it asks the kernel for a header and the rounded size and puts the new block at the end.
  The area it returns has the size asked for and lies apart from every area in use, whose bytes stay as they are, and the heap is in
  order again. It returns null, with the blocks as they were, only when the kernel refuses, and does not come back only if the kernel does not.
\<close>

theorem user_malloc_places:
  fixes s :: "'a sys_state_scheme user_heap"
  assumes "uheap kernel_brk kernel_ok a xs s" and "n \<noteq> 0" and "k = round8 (unat n)" and "a + uspan xs + 32 + k < 2 ^ 63"
    and "got = (\<lambda>s'. malloc (kernel_sbrk disk r) n s = Some (of_nat (a + place_at k xs), s') \<and> uheap kernel_brk kernel_ok a (place k xs) s' \<and>
      (\<exists>l \<ge> unat n. uused a (place k xs) = insert (a + place_at k xs, l) (uused a xs)) \<and>
      (\<forall>(c, l) \<in> uused a xs. same_on (umem s) (umem s') c (c + l) \<and> (c + l \<le> a + place_at k xs \<or> a + place_at k xs + unat n \<le> c)))"
  shows "if \<exists>x \<in> set xs. snd x \<and> k \<le> fst x then \<exists>s'. got s'
    else case kernel_sbrk disk r (of_nat (32 + k)) (kernel s) of
        None \<Rightarrow> malloc (kernel_sbrk disk r) n s = None
      | Some (v, t) \<Rightarrow> if v = - 1 then malloc (kernel_sbrk disk r) n s = Some (NULL, s\<lparr>kernel := t\<rparr>) \<and> uheap kernel_brk kernel_ok a xs (s\<lparr>kernel := t\<rparr>)
          else \<exists>s'. got s'"
proof -
  have nk: "unat n \<le> k" using round8(2) assms(3) by simp
  obtain l where l: "k \<le> l" "uused a (place k xs) = insert (a + place_at k xs, l) (uused a xs)" "\<forall>l. (a + place_at k xs, l) \<notin> uused a xs"
    using place_used [of k a xs] by blast
  have ap: "c + j \<le> a + place_at k xs \<or> a + place_at k xs + unat n \<le> c" if "(c, j) \<in> uused a xs" for c j
    using uused_disjoint [of c j a "place k xs" "a + place_at k xs" l] l that nk by auto
  have got: "got s'" if "malloc (kernel_sbrk disk r) n s = Some (of_nat (a + place_at k xs), s')" "uheap kernel_brk kernel_ok a (place k xs) s'"
      "\<forall>(c, l) \<in> uused a xs. same_on (umem s) (umem s') c (c + l)" for s'
    unfolding assms(5) using that ap l(1,2) nk by (auto intro!: exI [of _ l])
  show ?thesis
  proof (cases "dropWhile (unfit k) xs")
    case (Cons y zs)
    then have "\<exists>x \<in> set xs. snd x \<and> k \<le> fst x" using dropWhile_eq_Nil_conv [of "unfit k" xs] by (auto simp: unfit_def)
    note yes = if_P [OF this]
    have kl: "k < 2 ^ 63" using assms(4) by simp
    show ?thesis using kernel_break.malloc_found [OF assms(1-3) kl Cons, of disk r] unfolding yes by (elim exE conjE) (rule exI, rule got)
  next
    case Nil
    then have "\<not> (\<exists>x \<in> set xs. snd x \<and> k \<le> fst x)" by (auto simp: dropWhile_eq_Nil_conv unfit_def)
    note no = if_not_P [OF this]
    note g = kernel_break.malloc_grows [OF assms(1-4) Nil, of disk r]
    show ?thesis
    proof (cases "kernel_sbrk disk r (of_nat (32 + k)) (kernel s)")
      case None
      then show ?thesis using g unfolding no by (simp only: option.case)
    next
      case (Some vt)
      obtain v t where vt: "vt = (v, t)" by (cases vt)
      show ?thesis
      proof (cases "v = - 1")
        case True
        show ?thesis using g unfolding no Some vt option.case prod.case if_P [OF True] .
      next
        case False
        have "\<exists>s'. got s'" using g unfolding Some vt option.case prod.case if_not_P [OF False] by (elim exE conjE) (rule exI, rule got)
        then show ?thesis unfolding no Some vt option.case prod.case if_not_P [OF False] .
      qed
    qed
  qed
qed

theorem user_malloc_places_witness:
  "\<exists>s'. malloc (kernel_sbrk disk_demo regs_demo) 20 uheap_demo = Some (0x800050, s') \<and>
     uheap kernel_brk kernel_ok 0x800000 [(16, False), (24, False), (72, True)] s' \<and> same_on (umem uheap_demo) (umem s') 0x800020 0x800030"
  using user_malloc_places [OF uheap_demo_ok, of 20 24 _ disk_demo regs_demo, OF _ _ _ refl] by (auto simp: place_demo)

text \<open>C10. \<open>free\<close> of an area in use marks its block and joins it with the free neighbours on both sides, so that no two free blocks
  meet there; the list stays linked both ways, every other area in use keeps its bytes, and releasing the same area again changes nothing.
\<close>

theorem user_free_coalesces:
  assumes "uheap brk ok a xs s" and "(c, l) \<in> uused a xs"
  shows "\<exists>ws zs. xs = ws @ (l, False) # zs \<and> c = a + uspan ws + 32 \<and> uheap brk ok a (release ws l zs) (free (of_nat c) s) \<and>
    uused a (release ws l zs) = uused a xs - {(c, l)} \<and>
    (\<forall>(d, j) \<in> uused a xs. same_on (umem s) (umem (free (of_nat c) s)) d (d + j)) \<and> free (of_nat c) (free (of_nat c) s) = free (of_nat c) s"
proof -
  obtain ws zs where w: "xs = ws @ (l, False) # zs" "c = a + uspan ws + 32" using uused_split [OF assms(2)] by blast
  have g: "seg (hv (umem s)) NULL a (ws @ (l, False) # zs) NULL" "a + uspan (ws @ (l, False) # zs) < 2 ^ 63" "0 < a" using assms(1) w(1) by (simp_all add: uheap_def)
  note f = free_seg [OF g, folded w(2)] and k = free_marks [OF g, folded w(2)]
  have c: "(of_nat c :: u64) \<noteq> 0" "(of_nat c :: u64) - 32 = of_nat (a + uspan ws)" using addr_ne0 [of c] g(2) by (simp_all add: w(2))
  have "uheap brk ok a (release ws l zs) (free (of_nat c) s)" using uheap_free [OF assms(1) [unfolded w(1)]] unfolding w(2) .
  moreover have "uused a (release ws l zs) = uused a xs - {(c, l)}"
  proof -
    have "(c, l) \<notin> uused a ws \<union> uused (a + uspan ws + 32 + l) zs" using uused_bounds [of c l a ws] uused_bounds [of c l "a + uspan ws + 32 + l" zs] w(2) by auto
    then show ?thesis unfolding release_used w(1) by (auto simp: uused_append w(2))
  qed
  moreover have "same_on (umem s) (umem (free (of_nat c) s)) d (d + j)" if "(d, j) \<in> uused a xs" for d j
    using touches_data [OF f(2), of d j] that w(1) by (simp add: free_def)
  moreover have "free_mem (of_nat c) (free_mem (of_nat c) (umem s)) = free_mem (of_nat c) (umem s)"
    by (subst free_mem_def) (use c k in \<open>simp add: Let_def del: of_nat_add\<close>)
  then have "free (of_nat c) (free (of_nat c) s) = free (of_nat c) s" by (simp add: free_def)
  ultimately show ?thesis using w by blast
qed

theorem user_free_coalesces_witness:
  "uheap kernel_brk kernel_ok 0x800000 [(176, True)] (free 0x800020 uheap_demo) \<and>
   free 0x800020 (free 0x800020 uheap_demo) = free 0x800020 uheap_demo"
  using user_free_coalesces [OF uheap_demo_ok, of "0x800020" 16] by (auto simp: release_def join_right_def Cons_eq_append_conv)

text \<open>C11. \<open>realloc\<close> to a larger size, when there is room: the new area begins with the bytes of the old one, which is released, and every other
  area in use keeps its bytes.
\<close>

theorem user_realloc_moves:
  fixes s :: "'a sys_state_scheme user_heap"
  assumes "uheap kernel_brk kernel_ok a xs s" and "(c, l) \<in> uused a xs" and "k = round8 (unat n)" and "l < k" and "n \<noteq> 0" and "a + uspan xs + 32 + k < 2 ^ 63"
    and "room (kernel_sbrk disk r) k xs s"
  shows "\<exists>s' ws zs. realloc (kernel_sbrk disk r) (of_nat c) n s = Some (of_nat (a + place_at k xs), s') \<and>
    place k xs = ws @ (l, False) # zs \<and> c = a + uspan ws + 32 \<and> uheap kernel_brk kernel_ok a (release ws l zs) s' \<and>
    (\<forall>i < l. umem s' (of_nat (a + place_at k xs + i)) = umem s (of_nat (c + i))) \<and>
    (\<forall>(d, j) \<in> uused a xs - {(c, l)}. same_on (umem s) (umem s') d (d + j))"
proof -
  have nl: "unat n + 7 < 2 ^ 64" using round8(2) [of "unat n"] assms(6) unfolding assms(3) by simp
  obtain s1 where "malloc (kernel_sbrk disk r) n s = Some (of_nat (a + place_at k xs), s1)" "uheap kernel_brk kernel_ok a (place k xs) s1"
    "\<forall>(c, l) \<in> uused a xs. same_on (umem s) (umem s1) c (c + l)" by (rule malloc_room [OF assms(1,5,3,6,7)])
  from realloc_moves [OF assms(1,2) assms(3) [symmetric] assms(4,5) nl this] show ?thesis .
qed

theorem user_realloc_moves_witness:
  "\<exists>s'. realloc (kernel_sbrk disk_demo regs_demo) 0x800020 20 uheap_demo = Some (0x800050, s') \<and>
     (\<forall>i < 16. umem s' (of_nat (0x800050 + i)) = umem uheap_demo (of_nat (0x800020 + i)))"
  using user_realloc_moves [OF uheap_demo_ok, of "0x800020" 16 24 20 disk_demo regs_demo] by (auto simp: place_demo room_def)

text \<open>\<open>calloc\<close>, when the product of its arguments does not overflow and there is room, gives a new area of at least that many bytes, all zero;
  the areas in use before keep their bytes and the heap is in order.
\<close>

theorem user_calloc_zeroes:
  fixes s :: "'a sys_state_scheme user_heap"
  assumes "uheap kernel_brk kernel_ok a xs s" and "nm \<noteq> 0" and "sz \<noteq> 0" and "unat nm * unat sz < 2 ^ 64" and "k = round8 (unat nm * unat sz)"
    and "a + uspan xs + 32 + k < 2 ^ 63" and "room (kernel_sbrk disk r) k xs s"
  shows "\<exists>s' l. calloc (kernel_sbrk disk r) nm sz s = Some (of_nat (a + place_at k xs), s') \<and> uheap kernel_brk kernel_ok a (place k xs) s' \<and>
    unat nm * unat sz \<le> l \<and> uused a (place k xs) = insert (a + place_at k xs, l) (uused a xs) \<and>
    (\<forall>i < unat nm * unat sz. umem s' (of_nat (a + place_at k xs + i)) = 0) \<and> (\<forall>(c, l) \<in> uused a xs. same_on (umem s) (umem s') c (c + l))"
proof -
  let ?n = "unat nm * unat sz" and ?p = "a + place_at k xs"
  have u: "unat (nm * sz) = ?n" using assms(4) by (simp add: unat_word_ariths)
  then have n: "nm * sz \<noteq> 0" and k: "k = round8 (unat (nm * sz))" using assms(2,3,5) by (auto simp flip: unat_eq_0)
  obtain s1 where s1: "malloc (kernel_sbrk disk r) (nm * sz) s = Some (of_nat ?p, s1)" "uheap kernel_brk kernel_ok a (place k xs) s1"
    "\<forall>(c, l) \<in> uused a xs. same_on (umem s) (umem s1) c (c + l)" by (rule malloc_room [OF assms(1) n k assms(6,7)])
  obtain l where l: "k \<le> l" "uused a (place k xs) = insert (?p, l) (uused a xs)" "\<forall>l. (?p, l) \<notin> uused a xs" using place_used [of k a xs] by blast
  have nk: "?n \<le> k" using round8(2) assms(5) by simp
  have new: "(?p, l) \<in> uused a (place k xs)" using l(2) by simp
  have lt: "?p + l < 2 ^ 63" using uused_bounds [OF new] s1(2) by (simp add: uheap_def)
  have up: "unat (of_nat ?p :: u64) = ?p" by (rule unat_addr) (use lt in simp)
  have p0: "(of_nat ?p :: u64) \<noteq> 0" using addr_ne0 [of ?p] lt by (simp add: place_at_def)
  define m' where "m' = for_upd ?n 0 (\<lambda>i m. m(of_nat ?p + of_nat i := 0)) (umem s1)"
  have m: "m' y = (if ?p \<le> unat y \<and> unat y < ?p + ?n then 0 else umem s1 y)" for y
    using zero_loop [of "of_nat ?p" ?n "umem s1" y] lt l(1) nk unfolding up m'_def by simp
  have run: "calloc (kernel_sbrk disk r) nm sz s = Some (of_nat ?p, s1\<lparr>umem := m'\<rparr>)"
    unfolding calloc_def Let_def s1(1) option.case prod.case u m'_def using p0 by (simp only: not_False_eq_True if_True)
  have sm: "same_on (umem s1) m' lo hi" if "hi \<le> ?p \<or> ?p + ?n \<le> lo" for lo hi using that by (auto simp: same_on_def m)
  have "uheap kernel_brk kernel_ok a (place k xs) (s1\<lparr>umem := m'\<rparr>)" by (rule uheap_write [OF s1(2) new]; rule sm; use l(1) nk in simp)
  moreover have "m' (of_nat (?p + i)) = 0" if "i < ?n" for i
  proof -
    have "unat (of_nat (?p + i) :: u64) = ?p + i" by (rule unat_addr) (use that lt l(1) nk in simp)
    then show ?thesis unfolding m using that by simp
  qed
  moreover have "same_on (umem s) m' c (c + j)" if "(c, j) \<in> uused a xs" for c j
  proof (rule same_on_trans)
    show "same_on (umem s) (umem s1) c (c + j)" using s1(3) that by blast
    show "same_on (umem s1) m' c (c + j)" using uused_disjoint [of c j a "place k xs" ?p l] l that nk by (intro sm) auto
  qed
  ultimately show ?thesis using run l(1,2) nk by (intro exI [of _ "s1\<lparr>umem := m'\<rparr>"] exI [of _ l]) (auto simp del: of_nat_add)
qed

theorem user_calloc_zeroes_witness:
  "\<exists>s'. calloc (kernel_sbrk disk_demo regs_demo) 5 4 uheap_demo = Some (0x800050, s') \<and> (\<forall>i < 20. umem s' (of_nat (0x800050 + i)) = 0)"
  using user_calloc_zeroes [OF uheap_demo_ok, of 5 4 24 disk_demo regs_demo] by (auto simp: place_demo room_def)

end
