(* ===== verification/User_Screen.thy ===== *)
theory User_Screen
  imports User_Lib
begin

text \<open>
  The screen of a user program: \<open>sys_map_fb\<close> maps sixteen pages at \<open>USER_FB_VIRT\<close> onto the memory of the graphics card, and what the program
  stores there is what the screen shows.
\<close>

section \<open>Addresses in a page\<close>

lemma va_path_page:
  assumes "unat v div 4096 = unat w div 4096"
  shows "va_path v = va_path w"
proof -
  have d: "drop_bit 12 v = drop_bit 12 w"
    using assms by (intro word_unat_eq_iff [THEN iffD2]) (simp add: drop_bit_eq_div unat_div)
  have "drop_bit (12 + n) v = drop_bit (12 + n) w" for n
    using arg_cong [OF d, of "drop_bit n"] by (simp add: drop_bit_drop_bit add.commute)
  from this [of 9] this [of 18] this [of 27] d show ?thesis
    by (simp add: va_path_def PML4_INDEX_def PDPT_INDEX_def PD_INDEX_def PT_INDEX_def)
qed

lemma mmu_phys:
  assumes "as_wf (ENTRY_ADDR (cr3 s)) s" and "no_huge (ENTRY_ADDR (cr3 s)) v (mem s)" and "\<not> kernel_addr v" and "vmm_get_phys v s = f" and "f \<noteq> 0"
  shows "mmu v s = Some (f + (v AND 0xFFF))"
proof -
  let ?r = "ENTRY_ADDR (cr3 s)"
  let ?e4 = "load64 (mem s) (entry_addr ?r (PML4_INDEX v))"
  let ?e3 = "load64 (mem s) (entry_addr (ENTRY_ADDR ?e4) (PDPT_INDEX v))"
  let ?e2 = "load64 (mem s) (entry_addr (ENTRY_ADDR ?e3) (PD_INDEX v))"
  have p4: "?e4 AND PTE_PRESENT \<noteq> 0" and p3: "?e3 AND PTE_PRESENT \<noteq> 0" and ph: "vmm_get_phys v s \<noteq> 0"
    using assms(4,5) by (auto simp: vmm_get_phys_def Let_def split: if_splits)
  have h4: "?e4 AND PTE_HUGE = 0" using as_wfD(5) [OF assms(1) index_bounds(1) [of v], of "ENTRY_ADDR ?e4"] p4 by (auto simp: eview_def)
  have h3: "?e3 AND PTE_HUGE = 0" using no_hugeD(1) [OF assms(2), of "ENTRY_ADDR ?e3"] p4 p3 h4 by (auto simp: eview_def)
  have p2: "?e2 AND PTE_PRESENT \<noteq> 0" using ph p4 p3 h3 by (auto simp: vmm_get_phys_def Let_def split: if_splits)
  have h2: "?e2 AND PTE_HUGE = 0" using no_hugeD(2) [OF assms(2), of "ENTRY_ADDR ?e2"] p4 p3 p2 h4 h3 by (auto simp: eview_def)
  show ?thesis using assms(3-5) p4 p3 p2 h3 h2 by (auto simp: mmu_def vmm_get_phys_def Let_def split: if_splits)
qed


section \<open>The mapping\<close>

text \<open>Page \<open>k\<close> of the graphics memory, and the address where the program finds it.\<close>

definition card_page :: "nat \<Rightarrow> u64" where
  "card_page k = 0xA0000 + of_nat k * 0x1000"

abbreviation fb_page :: "nat \<Rightarrow> u64" where
  "fb_page \<equiv> uheap_page USER_FB_VIRT"

lemma unat_card_page: "k < 16 \<Longrightarrow> unat (card_page k) = 0xA0000 + 4096 * k"
proof -
  assume "k < 16"
  moreover have "card_page k = of_nat (0xA0000 + 4096 * k)" by (simp add: card_page_def ac_simps)
  ultimately show ?thesis using unat_addr [of "0xA0000 + 4096 * k"] by (simp only:) simp
qed

lemma card_page_aligned: "k < 16 \<Longrightarrow> page_aligned (card_page k)" "k < 16 \<Longrightarrow> card_page k \<noteq> 0"
  using unat_card_page [of k] by (auto simp: page_aligned_def mod_add_eq simp flip: unat_eq_0)

text \<open>Neither a page table of the address space nor a free frame lies in the graphics memory.\<close>

definition off_screen :: "u64 \<Rightarrow> 'a vmm_state_scheme \<Rightarrow> bool" where
  "off_screen r s \<longleftrightarrow> (\<forall>k < 16. tables_avoid (card_page k) r (mem s) \<and> card_page k \<notin> avail s)"

text \<open>One page of an address space that is the current one.\<close>

lemma map_page:
  assumes wf: "as_wf r s" and r: "r = ENTRY_ADDR (cr3 s)" and nh: "no_huge r v (mem s)" and av: "3 \<le> card (avail s)"
    and ph: "page_aligned f" "fl AND NOT 0xFFF = 0"
  shows "\<exists>s' t3 t2 t1. vmm_map_in (cr3 s) v f fl s = Ret () s' \<and> as_wf r s' \<and> cr3 s' = cr3 s \<and> avail s' \<subseteq> avail s \<and> card (avail s) \<le> card (avail s') + 3 \<and>
    mapped r v (f OR fl OR PTE_PRESENT) t3 t2 t1 s s' \<and> (\<forall>w. vmm_get_phys w s' = (if va_path w = va_path v then f else vmm_get_phys w s))"
proof -
  have nh': "\<And>a. pview (mem s) r [PDPT_INDEX v, PML4_INDEX v] \<noteq> Some (a, True)"
    "\<And>a. pview (mem s) r [PD_INDEX v, PDPT_INDEX v, PML4_INDEX v] \<noteq> Some (a, True)"
    using no_hugeD [OF nh] by (simp_all only: not_False_eq_True)
  from map_effect [OF wf r nh' av, where ph = f and fl = fl] obtain s' t3 t2 t1 where
    s': "vmm_map v f fl s = Ret () s'" "as_wf r s'" "cr3 s' = cr3 s" "avail s' \<subseteq> avail s" "card (avail s) \<le> card (avail s') + 3" and
    mp: "mapped r v (f OR fl OR PTE_PRESENT) t3 t2 t1 s s'" by metis
  have e: "(f OR fl OR PTE_PRESENT) AND PTE_PRESENT \<noteq> 0" unfolding or.assoc [symmetric] by (rule pte_present_or)
  have "vmm_get_phys w s' = (if va_path w = va_path v then f else vmm_get_phys w s)" for w
    using walk_mapped [OF mp e, of w, unfolded ENTRY_ADDR_pte [OF ph]] as_wf_get_phys [of s' w] as_wf_get_phys [of s w] s'(2,3) wf r by simp
  moreover have "vmm_map_in (cr3 s) v f fl s = Ret () s'" using map_in_current [OF refl s'(1,3)] .
  ultimately show ?thesis using s' mp by blast
qed

definition fb_mapped :: "u64 \<Rightarrow> nat \<Rightarrow> 'a vmm_state_scheme \<Rightarrow> 'a vmm_state_scheme \<Rightarrow> bool" where
  "fb_mapped r j s t \<longleftrightarrow> as_wf r t \<and> cr3 t = cr3 s \<and> avail t \<subseteq> avail s \<and> card (avail s) \<le> card (avail t) + 3 * j \<and> off_screen r t \<and>
     (\<forall>k < 16. no_huge r (fb_page k) (mem t)) \<and> (\<forall>k < j. \<forall>v. va_path v = va_path (fb_page k) \<longrightarrow> vmm_get_phys v t = card_page k) \<and>
     (\<forall>v. (\<forall>k < j. va_path v \<noteq> va_path (fb_page k)) \<longrightarrow> vmm_get_phys v t = vmm_get_phys v s)"

lemma fb_page_distinct: "j < 16 \<Longrightarrow> k < 16 \<Longrightarrow> va_path (fb_page j) = va_path (fb_page k) \<longleftrightarrow> j = k"
  by (rule uheap_page_distinct) simp_all

lemma fb_map_step:
  assumes m: "fb_mapped r j s t" and r: "r = ENTRY_ADDR (cr3 s)" and j: "j < 16" and av: "48 \<le> card (avail s)"
  shows "\<exists>t'. vmm_map_in (cr3 s) (fb_page j) (card_page j) (PTE_PRESENT OR PTE_WRITABLE OR PTE_USER) t = Ret () t' \<and> fb_mapped r (Suc j) s t'"
proof -
  have fl: "(PTE_PRESENT OR PTE_WRITABLE OR PTE_USER :: u64) AND NOT 0xFFF = 0" by simp
  have t: "as_wf r t" "cr3 t = cr3 s" "avail t \<subseteq> avail s" "card (avail s) \<le> card (avail t) + 3 * j" "off_screen r t" "\<forall>k < 16. no_huge r (fb_page k) (mem t)"
    "\<forall>k < j. \<forall>v. va_path v = va_path (fb_page k) \<longrightarrow> vmm_get_phys v t = card_page k"
    "\<forall>v. (\<forall>k < j. va_path v \<noteq> va_path (fb_page k)) \<longrightarrow> vmm_get_phys v t = vmm_get_phys v s"
    using m by (simp_all add: fb_mapped_def)
  have "r = ENTRY_ADDR (cr3 t)" "no_huge r (fb_page j) (mem t)" "3 \<le> card (avail t)" using r t(2,4,6) j av by simp_all
  from map_page [OF t(1) this card_page_aligned(1) [OF j] fl] obtain t' t3 t2 t1 where
    t': "vmm_map_in (cr3 t) (fb_page j) (card_page j) (PTE_PRESENT OR PTE_WRITABLE OR PTE_USER) t = Ret () t'" "as_wf r t'" "cr3 t' = cr3 t"
      "avail t' \<subseteq> avail t" "card (avail t) \<le> card (avail t') + 3"
      "\<forall>w. vmm_get_phys w t' = (if va_path w = va_path (fb_page j) then card_page j else vmm_get_phys w t)"
    and mp: "mapped r (fb_page j) (card_page j OR (PTE_PRESENT OR PTE_WRITABLE OR PTE_USER) OR PTE_PRESENT) t3 t2 t1 t t'" by (elim exE conjE)
  have "off_screen r t'" using t(5) t'(4) mapped_avoid [OF mp] unfolding off_screen_def by blast
  moreover have "\<forall>k < 16. no_huge r (fb_page k) (mem t')" using mapped_no_huge [OF mp] t(6) by blast
  moreover have "vmm_get_phys v t' = card_page k" if "k < Suc j" "va_path v = va_path (fb_page k)" for k v
  proof (cases "k = j")
    case False
    then have "k < j" "va_path v \<noteq> va_path (fb_page j)" using that fb_page_distinct [of k j] j by auto
    then show ?thesis using t'(6) t(7) that(2) by simp
  qed (use t'(6) that in simp)
  moreover have "vmm_get_phys v t' = vmm_get_phys v s" if "\<forall>k < Suc j. va_path v \<noteq> va_path (fb_page k)" for v
    using t'(6) t(8) that by simp
  ultimately have "fb_mapped r (Suc j) s t'" unfolding fb_mapped_def using t(2-4) t'(2-5) by auto
  then show ?thesis using t'(1) t(2) by auto
qed

section \<open>Drawing\<close>

text \<open>Two memories that differ at most in the graphics memory.\<close>

definition same_off_screen :: "memory \<Rightarrow> memory \<Rightarrow> bool" where
  "same_off_screen m m' \<longleftrightarrow> same_on m m' 0 0xA0000 \<and> same_on m m' 0xB0000 (2 ^ 64)"

lemma same_off_screen_refl [simp]: "same_off_screen m m"
  by (simp add: same_off_screen_def same_on_def)

lemma same_off_screen_trans: "same_off_screen m m1 \<Longrightarrow> same_off_screen m1 m2 \<Longrightarrow> same_off_screen m m2"
  unfolding same_off_screen_def by (blast intro: same_on_trans)

lemma pview_off_screen:
  assumes off: "\<forall>k < 16. tables_avoid (card_page k) r m" and r: "page_aligned r" and m: "same_off_screen m m'" and q: "vpath q" "length q \<le> 4"
  shows "pview m' r q = pview m r q"
proof (rule pview_cong [OF _ q])
  fix p t i assume p: "vpath p" "length p < 4" "pview m r p = Some (t, False)" "unat (i::u64) < 512"
  have ta: "page_aligned t" by (rule pview_aligned [OF r p(3)])
  then obtain k where k: "unat t = 4096 * k" by (auto simp: page_aligned_def)
  have "\<not> (160 \<le> k \<and> k < 176)"
  proof
    assume a: "160 \<le> k \<and> k < 176"
    then have "unat (card_page (k - 160)) = 0xA0000 + 4096 * (k - 160)" by (intro unat_card_page) linarith
    then have "unat (card_page (k - 160)) = unat t" using a unfolding k by linarith
    then have "t = card_page (k - 160)" by (simp add: word_unat_eq_iff)
    moreover have "k - 160 < 16" using a by linarith
    moreover have "length p \<le> 3" using p(2) by simp
    ultimately show False using off p(1,3) unfolding tables_avoid_def by blast
  qed
  moreover have "unat t + 4096 \<le> 2 ^ 64" using unsigned_less [where ?'a = nat, of t] unfolding k by simp
  moreover have u: "unat (entry_addr t i) = unat t + 8 * unat i" by (rule unat_entry_addr [OF ta p(4)])
  ultimately have d: "unat t + 4096 \<le> 0xA0000 \<or> 0xB0000 \<le> unat t" "unat t + 4096 \<le> 2 ^ 64" unfolding k by linarith+
  have sm: "same_on m m' 0 0xA0000" "same_on m m' 0xB0000 (2 ^ 64)" using m by (simp_all add: same_off_screen_def)
  from d(1) have "same_on m m' (unat (entry_addr t i)) (unat (entry_addr t i) + 8)"
  proof (elim disjE)
    assume "unat t + 4096 \<le> 0xA0000"
    then show ?thesis unfolding u by (intro same_on_mono [OF sm(1)]) (use p(4) in linarith)+
  next
    assume "0xB0000 \<le> unat t"
    then show ?thesis unfolding u by (intro same_on_mono [OF sm(2)]) (use p(4) d(2) in linarith)+
  qed
  moreover have "unat (entry_addr t i) + 8 \<le> 2 ^ 64" unfolding u using p(4) d(2) by simp
  ultimately show "eview (load64 m' (entry_addr t i)) = eview (load64 m (entry_addr t i))" by (simp only: load64_same)
qed

text \<open>The program finds the graphics memory at \<open>fb\<close>, also after it has drawn something.\<close>

definition screen_at :: "u64 \<Rightarrow> 'a vmm_state_scheme \<Rightarrow> bool" where
  "screen_at fb s \<longleftrightarrow> (\<forall>m. same_off_screen (mem s) m \<longrightarrow> (\<forall>i < 65536. mmu (fb + of_nat i) (s\<lparr>mem := m\<rparr>) = Some (FB_PHYS + of_nat i)))"

lemma fb_address:
  assumes "i < 65536"
  shows "unat (USER_FB_VIRT + of_nat i) = 0x9000000000 + i" "va_path (USER_FB_VIRT + of_nat i) = va_path (fb_page (i div 4096))"
    "\<not> kernel_addr (USER_FB_VIRT + of_nat i)" "card_page (i div 4096) + ((USER_FB_VIRT + of_nat i) AND 0xFFF) = FB_PHYS + of_nat i"
proof -
  have "USER_FB_VIRT + of_nat i = of_nat (0x9000000000 + i)" by simp
  then show u: "unat (USER_FB_VIRT + of_nat i) = 0x9000000000 + i" using unat_addr [of "0x9000000000 + i"] assms by (simp del: of_nat_add)
  have p: "unat (fb_page (i div 4096)) = 0x9000000000 + 4096 * (i div 4096)" using assms unat_uheap_page [of USER_FB_VIRT "i div 4096"] by simp
  show "va_path (USER_FB_VIRT + of_nat i) = va_path (fb_page (i div 4096))" by (rule va_path_page) (simp add: u p div_add1_eq)
  show "\<not> kernel_addr (USER_FB_VIRT + of_nat i)" using assms unfolding kernel_addr_def HEAP_START_def word_le_nat_alt word_less_nat_alt u by simp
  have u12: "unat (4096 :: u64) = 4096" by simp
  have "(0x9000000000 + i) mod 4096 = i mod 4096" by (simp add: mod_add_eq [symmetric, of "0x9000000000"])
  then have "unat ((USER_FB_VIRT + of_nat i) AND 0xFFF) = i mod 4096" unfolding low12_mod unat_mod u u12 .
  then have l: "(USER_FB_VIRT + of_nat i) AND 0xFFF = of_nat (i mod 4096)" using unat_addr [of "i mod 4096"] by (intro word_unat_eq_iff [THEN iffD2]) simp
  have "card_page (i div 4096) = of_nat (0xA0000 + i div 4096 * 4096)" by (simp add: card_page_def)
  then have "card_page (i div 4096) + of_nat (i mod 4096) = of_nat (0xA0000 + (i div 4096 * 4096 + i mod 4096))" by (simp only: of_nat_add ac_simps)
  then show "card_page (i div 4096) + ((USER_FB_VIRT + of_nat i) AND 0xFFF) = FB_PHYS + of_nat i" unfolding l by simp
qed

lemma fb_mapped_screen:
  assumes m: "fb_mapped r 16 s t" and r: "r = ENTRY_ADDR (cr3 s)"
  shows "screen_at USER_FB_VIRT t"
  unfolding screen_at_def
proof (intro allI impI)
  fix m i assume m': "same_off_screen (mem t) m" and i: "i < (65536 :: nat)"
  let ?v = "USER_FB_VIRT + of_nat i" and ?t = "t\<lparr>mem := m\<rparr>" and ?k = "i div 4096"
  have t: "as_wf r t" "cr3 t = cr3 s" "off_screen r t" "\<forall>k < 16. no_huge r (fb_page k) (mem t)"
    "\<forall>k < 16. \<forall>v. va_path v = va_path (fb_page k) \<longrightarrow> vmm_get_phys v t = card_page k" using m by (simp_all add: fb_mapped_def)
  have k: "?k < 16" using i by simp
  have pv: "pview m r q = pview (mem t) r q" if "vpath q" "length q \<le> 4" for q
    by (rule pview_off_screen [OF _ as_wfD(2) [OF t(1)] m' that]) (use t(3) in \<open>simp add: off_screen_def\<close>)
  have wf: "as_wf r ?t" by (rule as_wf_same [OF t(1)]) (use as_wfD(1) [OF t(1)] pv in \<open>simp_all add: avail_def free_set_def bitmap_test_def pmm_inv_def\<close>)
  have ph: "vmm_get_phys ?v ?t = card_page ?k"
  proof -
    have "walk m r ?v = walk (mem t) r ?v" by (rule walk_cong) (rule pv)
    then show ?thesis using as_wf_get_phys [of ?t ?v] as_wf_get_phys [of t ?v] wf t(1,2) r t(5) k fb_address(2) [OF i] by simp
  qed
  have "no_huge r ?v m"
  proof -
    have ix: "PML4_INDEX ?v = PML4_INDEX (fb_page ?k)" "PDPT_INDEX ?v = PDPT_INDEX (fb_page ?k)" "PD_INDEX ?v = PD_INDEX (fb_page ?k)"
      using fb_address(2) [OF i] unfolding va_path_def by simp_all
    have "no_huge r (fb_page ?k) m" using t(4) k pv unfolding no_huge_def by (simp add: vpath_def del: pview.simps)
    then show ?thesis unfolding no_huge_def ix .
  qed
  then show "mmu ?v ?t = Some (FB_PHYS + of_nat i)"
    using mmu_phys [of ?t ?v "card_page ?k"] wf ph r t(2) fb_address(3,4) [OF i] card_page_aligned(2) [OF k] by simp
qed

text \<open>A store through the mapping.\<close>

lemma screen_atD: "screen_at fb s \<Longrightarrow> i < 65536 \<Longrightarrow> mmu (fb + of_nat i) s = Some (FB_PHYS + of_nat i)"
proof -
  assume "screen_at fb s" "i < 65536"
  then have "mmu (fb + of_nat i) (s\<lparr>mem := mem s\<rparr>) = Some (FB_PHYS + of_nat i)" using same_off_screen_refl unfolding screen_at_def by blast
  then show ?thesis by simp
qed

lemma poke_screen: "screen_at fb s \<Longrightarrow> i < 65536 \<Longrightarrow> poke (fb + of_nat i) c s = Ret () (s\<lparr>mem := (mem s)(FB_PHYS + of_nat i := c)\<rparr>)"
  by (simp add: poke_def screen_atD)

lemma screen_at_mem: "screen_at fb s \<Longrightarrow> same_off_screen (mem s) m \<Longrightarrow> screen_at fb (s\<lparr>mem := m\<rparr>)"
  unfolding screen_at_def by (auto dest: same_off_screen_trans)

text \<open>The whole call.\<close>

lemma map_fb_maps:
  fixes s :: "'a sched_state_scheme"
  assumes p: "current s \<noteq> NULL" "procs s (current s) = Some p" "page_table p \<noteq> 0" "cr3 s = page_table p"
    and wf: "as_wf (ENTRY_ADDR (cr3 s)) s" and off: "off_screen (ENTRY_ADDR (cr3 s)) s"
    and nh: "\<forall>k < 16. no_huge (ENTRY_ADDR (cr3 s)) (fb_page k) (mem s)" and av: "48 \<le> card (avail s)"
  shows "\<exists>t. sys_map_fb s = Ret (Done USER_FB_VIRT) t \<and> screen_at USER_FB_VIRT t \<and> vmm_state.more t = vmm_state.more s \<and>
    cr3 t = cr3 s \<and> as_wf (ENTRY_ADDR (cr3 s)) t \<and>
    (\<forall>v. (\<forall>k < 16. va_path v \<noteq> va_path (fb_page k)) \<longrightarrow> vmm_get_phys v t = vmm_get_phys v s)"
proof -
  let ?r = "ENTRY_ADDR (cr3 s)"
  let ?body = "\<lambda>i. vmm_map_in (page_table p) (USER_FB_VIRT + of_nat i * 0x1000) (0xA0000 + of_nat i * 0x1000) (PTE_PRESENT OR PTE_WRITABLE OR PTE_USER)"
  have "fb_mapped ?r 0 s s" using wf off nh by (simp add: fb_mapped_def)
  then have "\<exists>t. for_loop 16 0 ?body s = Ret () t \<and> fb_mapped ?r (0 + 16) s t"
  proof (rule for_loop_rule)
    fix j t assume "0 \<le> j" "j < 0 + 16" "fb_mapped ?r j s t"
    with fb_map_step [of ?r j s t] av show "\<exists>t'. ?body j t = Ret () t' \<and> fb_mapped ?r (Suc j) s t'"
      unfolding p(4) uheap_page_def card_page_def by simp
  qed
  then obtain t where t: "for_loop 16 0 ?body s = Ret () t" "fb_mapped ?r 16 s t" by auto
  have run: "sys_map_fb s = Ret (Done USER_FB_VIRT) t"
    unfolding sys_map_fb_def Let_def scheduler_current_def deref_def using p t(1) by (simp del: for_loop.simps)
  have "vmm_state.more t = vmm_state.more s"
    using yieldsD [OF yields_for_loop [of "\<lambda>t. vmm_state.more t = vmm_state.more s" s ?body 16 0, OF refl rest_upper.map_in] t(1)] .
  then show ?thesis using run t(2) fb_mapped_screen [OF t(2) refl] by (auto simp: fb_mapped_def)
qed

section \<open>Properties\<close>

text \<open>C21. A process that asks for the screen gets it: \<open>sys_map_fb\<close>, in the process's own address space and while there are frames for page
  tables, returns \<open>USER_FB_VIRT\<close>, and from then on each of the 65536 bytes there is the byte of the graphics memory with the same offset, whatever
  has been drawn; every other address translates as before, and the state above the memory manager is the same.\<close>

theorem map_fb_shows_screen:
  fixes s :: "'a sched_state_scheme"
  assumes p: "current s \<noteq> NULL" "procs s (current s) = Some p" "page_table p \<noteq> 0" "cr3 s = page_table p"
    and wf: "as_wf (ENTRY_ADDR (cr3 s)) s" and off: "off_screen (ENTRY_ADDR (cr3 s)) s"
    and nh: "\<forall>k < 16. no_huge (ENTRY_ADDR (cr3 s)) (fb_page k) (mem s)" and av: "48 \<le> card (avail s)"
  shows "\<exists>t. sys_map_fb s = Ret (Done USER_FB_VIRT) t \<and> screen_at USER_FB_VIRT t \<and> vmm_state.more t = vmm_state.more s \<and>
    cr3 t = cr3 s \<and> as_wf (ENTRY_ADDR (cr3 s)) t \<and>
    (\<forall>v. (\<forall>k < 16. va_path v \<noteq> va_path (fb_page k)) \<longrightarrow> vmm_get_phys v t = vmm_get_phys v s)"
  using assms by (rule map_fb_maps)

text \<open>A process with its own, empty address space, and the frames that \<open>pmm_init\<close> leaves free.\<close>

definition screen_demo :: "pmm_state \<Rightarrow> 'a sched_state_scheme \<Rightarrow> 'a sched_state_scheme" where
  "screen_demo u s = s\<lparr>bitmap := bitmap u, free_frame_count := free_frame_count u, mem := \<lambda>_. 0, cr3 := 0x1000, current := 0x3000,
     procs := [0x3000 \<mapsto> process_zero\<lparr>page_table := 0x1000\<rparr>]\<rparr>"

lemma screen_demo_ready:
  assumes u: "pmm_inv u" "free_set u = {512..<TOTAL_FRAMES}"
  shows "as_wf 0x1000 (screen_demo u s)" "off_screen 0x1000 (screen_demo u s)" "48 \<le> card (avail (screen_demo u s))"
proof -
  have f: "free_set (screen_demo u s) = {512..<TOTAL_FRAMES}" "pmm_inv (screen_demo u s)" "mem (screen_demo u s) = (\<lambda>_. 0)"
    using u by (simp_all add: screen_demo_def free_set_def bitmap_test_def pmm_inv_def)
  have low: "0x200000 \<le> unat y" if y: "y \<in> avail (screen_demo u s)" for y
  proof -
    obtain i where i: "512 \<le> i" "i < TOTAL_FRAMES" "y = frame_addr i" using y unfolding avail_def f(1) by auto
    then show ?thesis using unat_frame_addr [of i] by simp
  qed
  then have "0x1000 \<notin> avail (screen_demo u s)" by force
  then show "as_wf 0x1000 (screen_demo u s)"
    by (auto simp: as_wf_def f pview_zero_iff page_aligned_def simp del: pview.simps(2))
  show "off_screen 0x1000 (screen_demo u s)"
    unfolding off_screen_def
  proof (intro allI impI conjI)
    fix k :: nat assume k: "k < 16"
    note c = unat_card_page [OF k]
    have "card_page k \<noteq> 0x1000" using c by auto
    then show "tables_avoid (card_page k) 0x1000 (mem (screen_demo u s))" by (auto simp: tables_avoid_def f pview_zero_iff)
    show "card_page k \<notin> avail (screen_demo u s)" using low [of "card_page k"] c k by fastforce
  qed
  have "card (avail (screen_demo u s)) = card (free_set (screen_demo u s))" by (rule card_avail)
  then show "48 \<le> card (avail (screen_demo u s))" unfolding f(1) by (simp add: TOTAL_FRAMES_def)
qed

lemma screen_demo_exists:
  fixes s :: "'a sched_state_scheme"
  obtains u where "as_wf 0x1000 (screen_demo u s)" "off_screen 0x1000 (screen_demo u s)" "48 \<le> card (avail (screen_demo u s))"
proof -
  obtain u :: pmm_state where u: "pmm_inv u" "free_set u = {256..<TOTAL_FRAMES} - {unat (0x100000::u64) div 4096..<(unat (0x200000::u64) + 4095) div 4096}"
    using pmm_init_frames [of pmm_full "0x100000" "0x200000"] by (auto simp: pmm_full_def vga_state.defs)
  have "free_set u = {512..<TOTAL_FRAMES}" using u(2) by auto
  from screen_demo_ready [OF u(1) this, of s] show thesis by (rule that)
qed

lemma screen_demo_simps:
  "current (screen_demo u s) = 0x3000" "procs (screen_demo u s) = [0x3000 \<mapsto> process_zero\<lparr>page_table := 0x1000\<rparr>]"
  "cr3 (screen_demo u s) = 0x1000" "mem (screen_demo u s) = (\<lambda>_. 0)"
  by (simp_all add: screen_demo_def)

theorem map_fb_shows_screen_witness:
  "\<exists>s t :: sched_state. sys_map_fb s = Ret (Done USER_FB_VIRT) t \<and> mmu (USER_FB_VIRT + 1000) t = Some (0xA0000 + 1000)"
proof -
  obtain u where r: "as_wf 0x1000 (screen_demo u sbrk_demo)" "off_screen 0x1000 (screen_demo u sbrk_demo)" "48 \<le> card (avail (screen_demo u sbrk_demo))"
    by (rule screen_demo_exists)
  from map_fb_shows_screen [of "screen_demo u sbrk_demo" "process_zero\<lparr>page_table := 0x1000\<rparr>"] r
  obtain t where t: "sys_map_fb (screen_demo u sbrk_demo) = Ret (Done USER_FB_VIRT) t" "screen_at USER_FB_VIRT t" by (auto simp: screen_demo_simps)
  have "mmu (USER_FB_VIRT + of_nat 1000) t = Some (FB_PHYS + of_nat 1000)" by (rule screen_atD [OF t(2)]) simp
  then show ?thesis using t(1) by auto
qed

end
