(* ===== verification/User_Drawing.thy ===== *)
theory User_Drawing
  imports User_Screen
begin

text \<open>
  Programs that draw: \<open>pong\<close> of \<open>src/kernel.c\<close> and \<open>user_programs/hello/main.c\<close>, on the memory that \<open>u_map_fb\<close> gives them. A C \<open>int\<close> is an
  \<open>int\<close> here; the invariants of the programs keep every value far from the limits of the C type.
\<close>

section \<open>The programs\<close>

text \<open>\<open>fb[i] = c\<close>.\<close>

definition fb_store :: "u64 \<Rightarrow> int \<Rightarrow> u8 \<Rightarrow> 'a vmm_state_scheme \<Rightarrow> ('a vmm_state_scheme, unit) outcome" where
  "fb_store fb i c = poke (fb + of_int i) c"

text \<open>\<open>for (int i = 0; i < 320 * 200; i++) fb[i] = c\<close>.\<close>

definition fb_fill :: "u64 \<Rightarrow> u8 \<Rightarrow> 'a vmm_state_scheme \<Rightarrow> ('a vmm_state_scheme, unit) outcome" where
  "fb_fill fb c = for_loop (320 * 200) 0 (\<lambda>i. fb_store fb (int i) c)"

text \<open>\<open>for (int y = y0; y < y1; y++) for (int x = x0; x < x1; x++) fb[y * 320 + x] = c\<close>.\<close>

definition fb_box :: "u64 \<Rightarrow> nat \<Rightarrow> nat \<Rightarrow> nat \<Rightarrow> nat \<Rightarrow> u8 \<Rightarrow> 'a vmm_state_scheme \<Rightarrow> ('a vmm_state_scheme, unit) outcome" where
  "fb_box fb y0 y1 x0 x1 c = for_loop (y1 - y0) y0 (\<lambda>y. for_loop (x1 - x0) x0 (\<lambda>x. fb_store fb (int y * 320 + int x) c))"

record pong_vars =
  ball_x :: int
  ball_y :: int
  ball_dx :: int
  ball_dy :: int
  p1_y :: int
  p2_y :: int

abbreviation PAD_W :: int where "PAD_W \<equiv> 4"
abbreviation PAD_H :: int where "PAD_H \<equiv> 30"
abbreviation PAD_SPEED :: int where "PAD_SPEED \<equiv> 2"
abbreviation BALL_SIZE :: int where "BALL_SIZE \<equiv> 4"

definition pong_start :: pong_vars where
  "pong_start = \<lparr>ball_x = 160, ball_y = 100, ball_dx = 2, ball_dy = 1, p1_y = 80, p2_y = 80\<rparr>"

definition pong_paddles :: "u8 \<Rightarrow> pong_vars \<Rightarrow> pong_vars" where
  "pong_paddles k g =
     (let a1 = (if k = 0x77 \<and> p1_y g > 0 then p1_y g - PAD_SPEED else p1_y g);
          a2 = (if k = 0x73 \<and> a1 < 200 - PAD_H then a1 + PAD_SPEED else a1);
          b1 = (if k = 0x69 \<and> p2_y g > 0 then p2_y g - PAD_SPEED else p2_y g);
          b2 = (if k = 0x6B \<and> b1 < 200 - PAD_H then b1 + PAD_SPEED else b1)
      in g\<lparr>p1_y := a2, p2_y := b2\<rparr>)"

definition pong_physics :: "pong_vars \<Rightarrow> pong_vars" where
  "pong_physics g =
     (let x = ball_x g + ball_dx g;
          y = ball_y g + ball_dy g;
          dy = (if y \<le> 0 \<or> y \<ge> 200 - BALL_SIZE then - ball_dy g else ball_dy g);
          dx1 = (if x \<le> 8 + PAD_W \<and> y + BALL_SIZE \<ge> p1_y g \<and> y \<le> p1_y g + PAD_H then 2 else ball_dx g);
          dx2 = (if x \<ge> 320 - 8 - PAD_W - BALL_SIZE \<and> y + BALL_SIZE \<ge> p2_y g \<and> y \<le> p2_y g + PAD_H then - 2 else dx1)
      in g\<lparr>ball_x := x, ball_y := y, ball_dx := dx2, ball_dy := dy\<rparr>)"

definition pong_out :: "pong_vars \<Rightarrow> bool" where
  "pong_out g \<longleftrightarrow> ball_x g < 0 \<or> ball_x g > 320"

definition pong_reset :: "pong_vars \<Rightarrow> pong_vars" where
  "pong_reset g = g\<lparr>ball_x := 160, ball_y := 100, ball_dx := if ball_dx g > 0 then - 2 else 2\<rparr>"

definition pong_lost :: "u64 \<Rightarrow> 'a vmm_state_scheme \<Rightarrow> ('a vmm_state_scheme, unit) outcome" where
  "pong_lost fb s = obind (fb_fill fb 0 s) (\<lambda>_. fb_box fb 70 130 120 200 4)"

definition pong_net :: "u64 \<Rightarrow> 'a vmm_state_scheme \<Rightarrow> ('a vmm_state_scheme, unit) outcome" where
  "pong_net fb = for_loop 34 0 (\<lambda>k s. let y = 6 * int k; base = y * 320 + 159 in obind (fb_store fb base 7 s) (\<lambda>_. fb_store fb (base + 1) 7))"

definition pong_pads :: "u64 \<Rightarrow> pong_vars \<Rightarrow> 'a vmm_state_scheme \<Rightarrow> ('a vmm_state_scheme, unit) outcome" where
  "pong_pads fb g = for_loop (nat PAD_H) 0 (\<lambda>dy. for_loop (nat PAD_W) 0 (\<lambda>dx s.
     obind (fb_store fb ((p1_y g + int dy) * 320 + (8 + int dx)) 15 s) (\<lambda>_. fb_store fb ((p2_y g + int dy) * 320 + (308 + int dx)) 15)))"

definition pong_ball :: "u64 \<Rightarrow> pong_vars \<Rightarrow> 'a vmm_state_scheme \<Rightarrow> ('a vmm_state_scheme, unit) outcome" where
  "pong_ball fb g = for_loop (nat BALL_SIZE) 0 (\<lambda>dy. for_loop (nat BALL_SIZE) 0 (\<lambda>dx.
     fb_store fb ((ball_y g + int dy) * 320 + (ball_x g + int dx)) 14))"

definition pong_draw :: "u64 \<Rightarrow> pong_vars \<Rightarrow> 'a vmm_state_scheme \<Rightarrow> ('a vmm_state_scheme, unit) outcome" where
  "pong_draw fb g s = obind (fb_fill fb 0 s) (\<lambda>_ s1. obind (pong_net fb s1) (\<lambda>_ s2. obind (pong_pads fb g s2) (\<lambda>_. pong_ball fb g)))"

text \<open>One turn of the loop. The second component says whether the processor came straight back from \<open>u_sleep\<close>; the variables are
  what the program goes on with in any case.\<close>

definition pong_turn ::
    "initrd_syms \<Rightarrow> user_regs \<Rightarrow> u64 \<Rightarrow> pong_vars \<Rightarrow> 'a sys_state_scheme \<Rightarrow> ('a sys_state_scheme, (pong_vars \<times> unit option) option) outcome" where
  "pong_turn disk r fb g s =
     obind (u_getkey disk r s) (\<lambda>x s1. case x of None \<Rightarrow> Ret None s1 | Some k \<Rightarrow>
       let g1 = pong_physics (pong_paddles k g)
       in if pong_out g1
          then obind (pong_lost fb s1) (\<lambda>_ s2. obind (u_sleep disk r 150 s2) (\<lambda>y s3. Ret (Some (pong_reset g1, y)) s3))
          else obind (pong_draw fb g1 s1) (\<lambda>_ s2. obind (u_sleep disk r 3 s2) (\<lambda>y s3. Ret (Some (g1, y)) s3)))"

text \<open>\<open>_start\<close> of \<open>hello\<close>. When the processor does not come straight back from \<open>u_sleep\<close>, what is left of the program is the last \<open>u_exit\<close>.\<close>

definition hello_stripes :: "u64 \<Rightarrow> 'a vmm_state_scheme \<Rightarrow> ('a vmm_state_scheme, unit) outcome" where
  "hello_stripes fb s = obind (fb_fill fb 0 s) (\<lambda>_ s1. obind (fb_box fb 0 66 0 320 4 s1) (\<lambda>_ s2.
     obind (fb_box fb 66 133 0 320 2 s2) (\<lambda>_. fb_box fb 133 200 0 320 1)))"

definition hello_start :: "initrd_syms \<Rightarrow> user_regs \<Rightarrow> 'a sys_state_scheme \<Rightarrow> ('a sys_state_scheme, unit option) outcome" where
  "hello_start disk r s =
     obind (u_map_fb disk r s) (\<lambda>x s1. case x of None \<Rightarrow> Ret None s1 | Some fb \<Rightarrow>
       obind (if fb = - 1 then u_exit disk r s1 else Ret (Some ()) s1) (\<lambda>x s2. case x of None \<Rightarrow> Ret None s2 | Some _ \<Rightarrow>
         obind (hello_stripes fb s2) (\<lambda>_ s3.
         obind (u_sleep disk r 300 s3) (\<lambda>x s4. case x of None \<Rightarrow> Ret None s4 | Some _ \<Rightarrow> u_exit disk r s4))))"

section \<open>Pictures\<close>

text \<open>A set of pixels, by their offsets, in one colour.\<close>

definition ink :: "nat set \<Rightarrow> u8 \<Rightarrow> memory \<Rightarrow> memory" where
  "ink A c m = (\<lambda>y. if 0xA0000 \<le> unat y \<and> unat y - 0xA0000 \<in> A then c else m y)"

lemma ink_ink: "ink B c (ink A c m) = ink (A \<union> B) c m"
  by (auto simp: ink_def)

lemma ink_empty [simp]: "ink {} c m = m"
  by (auto simp: ink_def)

lemma unat_fb_phys: "i < 65536 \<Longrightarrow> unat (FB_PHYS + of_nat i) = 0xA0000 + i"
  using unat_addr [of "0xA0000 + i"] by simp

lemma ink_one: "i < 65536 \<Longrightarrow> m(FB_PHYS + of_nat i := c) = ink {i} c m"
  using unat_fb_phys [of i] by (auto simp: ink_def fun_eq_iff word_unat_eq_iff)

lemma ink_same: "A \<subseteq> {..<65536} \<Longrightarrow> same_off_screen m (ink A c m)"
  by (auto simp: same_off_screen_def same_on_def ink_def)

lemma ink_at: "i < 65536 \<Longrightarrow> ink A c m (FB_PHYS + of_nat i) = (if i \<in> A then c else m (FB_PHYS + of_nat i))"
  unfolding ink_def by (simp only: unat_fb_phys) simp

text \<open>A part of a program that draws in one colour and does nothing else.\<close>

definition draws :: "u64 \<Rightarrow> nat set \<Rightarrow> u8 \<Rightarrow> ('a vmm_state_scheme \<Rightarrow> ('a vmm_state_scheme, unit) outcome) \<Rightarrow> bool" where
  "draws fb A c f \<longleftrightarrow> A \<subseteq> {..<65536} \<and> (\<forall>s. screen_at fb s \<longrightarrow> f s = Ret () (s\<lparr>mem := ink A c (mem s)\<rparr>))"

lemma drawsD:
  assumes "draws fb A c f" and "screen_at fb s"
  shows "f s = Ret () (s\<lparr>mem := ink A c (mem s)\<rparr>)" "screen_at fb (s\<lparr>mem := ink A c (mem s)\<rparr>)"
  using assms by (auto simp: draws_def intro: screen_at_mem ink_same)

lemma draws_store:
  assumes "0 \<le> i" "i < 65536"
  shows "draws fb {nat i} c (fb_store fb i c)"
proof -
  have "(of_int i :: u64) = of_nat (nat i)" and n: "nat i < 65536" using assms by simp_all
  then show ?thesis by (simp add: draws_def fb_store_def poke_screen [OF _ n] ink_one [OF n])
qed

lemma draws_seq: "draws fb A c f \<Longrightarrow> draws fb B c g \<Longrightarrow> draws fb (A \<union> B) c (\<lambda>s. obind (f s) (\<lambda>_. g))"
  using drawsD [of fb A c f] drawsD [of fb B c g] by (simp add: draws_def ink_ink)

lemma draws_loop:
  assumes "\<And>j. i \<le> j \<Longrightarrow> j < i + n \<Longrightarrow> draws fb (A j) c (body j)"
  shows "draws fb (\<Union>j \<in> {i..<i + n}. A j) c (for_loop n i body)"
  using assms
proof (induction n arbitrary: i)
  case 0
  then show ?case by (simp add: draws_def)
next
  case (Suc n)
  have "draws fb (\<Union>j \<in> {Suc i..<Suc i + n}. A j) c (for_loop n (Suc i) body)" by (rule Suc.IH) (use Suc.prems in simp)
  note draws_seq [OF Suc.prems [of i] this]
  moreover have "{i..<i + Suc n} = insert i {Suc i..<Suc i + n}" by auto
  ultimately show ?case by simp
qed

lemma draws_fill: "draws fb {..<64000} c (fb_fill fb c)"
proof -
  have "draws fb (\<Union>j \<in> {0..<0 + 320 * 200}. {nat (int j)}) c (fb_fill fb c)"
    unfolding fb_fill_def by (intro draws_loop draws_store) simp_all
  then show ?thesis by (simp add: lessThan_atLeast0)
qed

lemma draws_box:
  assumes "y1 \<le> 200" "x1 \<le> 320"
  shows "draws fb {y * 320 + x | y x. y0 \<le> y \<and> y < y1 \<and> x0 \<le> x \<and> x < x1} c (fb_box fb y0 y1 x0 x1 c)"
proof -
  have "draws fb (\<Union>y \<in> {y0..<y0 + (y1 - y0)}. \<Union>x \<in> {x0..<x0 + (x1 - x0)}. {nat (int y * 320 + int x)}) c (fb_box fb y0 y1 x0 x1 c)"
    unfolding fb_box_def by (intro draws_loop draws_store) (use assms in auto)
  moreover have "(\<Union>y \<in> {y0..<y0 + (y1 - y0)}. \<Union>x \<in> {x0..<x0 + (x1 - x0)}. {nat (int y * 320 + int x)}) =
    {y * 320 + x | y x. y0 \<le> y \<and> y < y1 \<and> x0 \<le> x \<and> x < x1}" by (auto simp: nat_add_distrib nat_mult_distrib) force
  ultimately show ?thesis by simp
qed

section \<open>The game\<close>

text \<open>The paddles are on the screen and move in steps of two; the ball is between the top and the bottom, and at most its own width off to the right,
  and at the top and the bottom it moves away from the edge.\<close>

definition pong_inv :: "pong_vars \<Rightarrow> bool" where
  "pong_inv g \<longleftrightarrow> 0 \<le> p1_y g \<and> p1_y g \<le> 170 \<and> even (p1_y g) \<and> 0 \<le> p2_y g \<and> p2_y g \<le> 170 \<and> even (p2_y g) \<and>
     0 \<le> ball_x g \<and> ball_x g \<le> 320 \<and> (ball_dx g = 2 \<or> ball_dx g = - 2) \<and>
     0 \<le> ball_y g \<and> ball_y g \<le> 196 \<and> (ball_dy g = 1 \<or> ball_dy g = - 1) \<and>
     (ball_y g = 0 \<longrightarrow> ball_dy g = 1) \<and> (ball_y g = 196 \<longrightarrow> ball_dy g = - 1)"

definition pong_next :: "u8 \<Rightarrow> pong_vars \<Rightarrow> pong_vars" where
  "pong_next k g = (let g1 = pong_physics (pong_paddles k g) in if pong_out g1 then pong_reset g1 else g1)"

text \<open>The two paddles move in the same way.\<close>

definition pad_move :: "bool \<Rightarrow> bool \<Rightarrow> int \<Rightarrow> int" where
  "pad_move up down y = (let y1 = (if up \<and> y > 0 then y - 2 else y) in if down \<and> y1 < 200 - PAD_H then y1 + 2 else y1)"

lemma pad_move: "0 \<le> y \<Longrightarrow> y \<le> 170 \<Longrightarrow> even y \<Longrightarrow> 0 \<le> pad_move u d y \<and> pad_move u d y \<le> 170 \<and> even (pad_move u d y)"
  unfolding pad_move_def Let_def by (cases u; cases d; simp; presburger)

lemma paddles_eq: "pong_paddles k g = g\<lparr>p1_y := pad_move (k = 0x77) (k = 0x73) (p1_y g), p2_y := pad_move (k = 0x69) (k = 0x6B) (p2_y g)\<rparr>"
  by (simp only: pong_paddles_def pad_move_def Let_def)

lemma paddles_inv: "pong_inv g \<Longrightarrow> pong_inv (pong_paddles k g)"
  unfolding paddles_eq by (simp add: pong_inv_def pad_move)

definition pong_moved :: "pong_vars \<Rightarrow> bool" where
  "pong_moved g \<longleftrightarrow> pong_inv (g\<lparr>ball_x := 0\<rparr>) \<and> - 2 \<le> ball_x g \<and> ball_x g \<le> 322"

lemma bounce:
  fixes y d :: int
  assumes "0 \<le> y" "y \<le> 196" "d = 1 \<or> d = - 1" "y = 0 \<longrightarrow> d = 1" "y = 196 \<longrightarrow> d = - 1" and e: "e = (if y + d \<le> 0 \<or> y + d \<ge> 200 - BALL_SIZE then - d else d)"
  shows "0 \<le> y + d" "y + d \<le> 196" "e = 1 \<or> e = - 1" "y + d = 0 \<longrightarrow> e = 1" "y + d = 196 \<longrightarrow> e = - 1"
  using assms by (auto split: if_splits)

lemma physics_inv:
  assumes "pong_inv g"
  shows "pong_moved (pong_physics g)"
proof -
  have g: "ball_dx g = 2 \<or> ball_dx g = - 2" "0 \<le> ball_x g" "ball_x g \<le> 320" "0 \<le> ball_y g" "ball_y g \<le> 196" "ball_dy g = 1 \<or> ball_dy g = - 1"
    "ball_y g = 0 \<longrightarrow> ball_dy g = 1" "ball_y g = 196 \<longrightarrow> ball_dy g = - 1" using assms by (simp_all add: pong_inv_def)
  define x y e where "x = ball_x g + ball_dx g" and "y = ball_y g + ball_dy g" and "e = (if y \<le> 0 \<or> y \<ge> 200 - BALL_SIZE then - ball_dy g else ball_dy g)"
  have x: "- 2 \<le> x" "x \<le> 322" using g(1-3) unfolding x_def by auto
  note y = bounce [OF g(4-8) e_def [unfolded y_def], folded y_def]
  have "\<exists>d. pong_physics g = g\<lparr>ball_x := x, ball_y := y, ball_dx := d, ball_dy := e\<rparr> \<and> (d = 2 \<or> d = - 2)"
    unfolding pong_physics_def Let_def x_def [symmetric] y_def [symmetric] e_def [symmetric] by (rule exI, rule conjI, rule refl) (use g(1) in simp)
  then obtain d where d: "pong_physics g = g\<lparr>ball_x := x, ball_y := y, ball_dx := d, ball_dy := e\<rparr>" "d = 2 \<or> d = - 2" by blast
  show ?thesis using assms x y d(2) unfolding d(1) by (simp add: pong_moved_def pong_inv_def)
qed

lemma next_inv: "pong_inv g \<Longrightarrow> pong_inv (pong_next k g)"
proof -
  assume "pong_inv g"
  then have "pong_moved (pong_physics (pong_paddles k g))" by (intro physics_inv paddles_inv)
  then show ?thesis by (auto simp: pong_next_def Let_def pong_moved_def pong_inv_def pong_out_def pong_reset_def)
qed

lemma start_inv: "pong_inv pong_start"
  by (simp add: pong_inv_def pong_start_def)

section \<open>What a turn shows\<close>

text \<open>The pixels of a box of width \<open>w\<close> and height \<open>h\<close> with its corner at \<open>(x, y)\<close>, row after row.\<close>

definition box_pixels :: "int \<Rightarrow> int \<Rightarrow> nat \<Rightarrow> nat \<Rightarrow> nat set" where
  "box_pixels x y w h = (\<Union>dy \<in> {0..<h}. \<Union>dx \<in> {0..<w}. {nat ((y + int dy) * 320 + (x + int dx))})"

definition net_pixels :: "nat set" where
  "net_pixels = (\<Union>k \<in> {0..<34}. {k * 1920 + 159, k * 1920 + 160})"

definition pong_picture :: "pong_vars \<Rightarrow> nat \<Rightarrow> u8" where
  "pong_picture g i = (if i \<in> box_pixels (ball_x g) (ball_y g) 4 4 then 14
     else if i \<in> box_pixels 8 (p1_y g) 4 30 \<union> box_pixels 308 (p2_y g) 4 30 then 15
     else if i \<in> net_pixels then 7 else 0)"

lemma draws_net: "draws fb net_pixels 7 (pong_net fb)"
proof -
  have n: "nat (6 * int k * 320 + 159) = k * 1920 + 159" "nat (6 * int k * 320 + 159 + 1) = k * 1920 + 160" for k by simp_all
  have "draws fb (\<Union>k \<in> {0..<0 + 34}. {nat (6 * int k * 320 + 159)} \<union> {nat (6 * int k * 320 + 159 + 1)}) 7 (pong_net fb)"
    unfolding pong_net_def Let_def by (intro draws_loop draws_seq draws_store) auto
  then show ?thesis unfolding net_pixels_def n by (simp add: insert_commute)
qed

lemma draws_pads:
  assumes "0 \<le> p1_y g" "p1_y g \<le> 170" "0 \<le> p2_y g" "p2_y g \<le> 170"
  shows "draws fb (box_pixels 8 (p1_y g) 4 30 \<union> box_pixels 308 (p2_y g) 4 30) 15 (pong_pads fb g)"
proof -
  have "draws fb (\<Union>dy \<in> {0..<0 + nat PAD_H}. \<Union>dx \<in> {0..<0 + nat PAD_W}. {nat ((p1_y g + int dy) * 320 + (8 + int dx))} \<union> {nat ((p2_y g + int dy) * 320 + (308 + int dx))}) 15 (pong_pads fb g)"
    unfolding pong_pads_def using assms by (intro draws_loop draws_seq draws_store) auto
  moreover have "(\<Union>dy \<in> {0..<0 + nat PAD_H}. \<Union>dx \<in> {0..<0 + nat PAD_W}. {nat ((p1_y g + int dy) * 320 + (8 + int dx))} \<union> {nat ((p2_y g + int dy) * 320 + (308 + int dx))}) =
      box_pixels 8 (p1_y g) 4 30 \<union> box_pixels 308 (p2_y g) 4 30" unfolding box_pixels_def by (simp only: UN_Un_distrib add_0) simp
  ultimately show ?thesis by simp
qed

lemma draws_ball:
  assumes "0 \<le> ball_x g" "ball_x g \<le> 320" "0 \<le> ball_y g" "ball_y g \<le> 196"
  shows "draws fb (box_pixels (ball_x g) (ball_y g) 4 4) 14 (pong_ball fb g)" "box_pixels (ball_x g) (ball_y g) 4 4 \<subseteq> {..<64004}"
proof -
  have "draws fb (\<Union>dy \<in> {0..<0 + nat BALL_SIZE}. \<Union>dx \<in> {0..<0 + nat BALL_SIZE}. {nat ((ball_y g + int dy) * 320 + (ball_x g + int dx))}) 14 (pong_ball fb g)"
    unfolding pong_ball_def using assms by (intro draws_loop draws_store) auto
  then show "draws fb (box_pixels (ball_x g) (ball_y g) 4 4) 14 (pong_ball fb g)" by (simp add: box_pixels_def)
  show "box_pixels (ball_x g) (ball_y g) 4 4 \<subseteq> {..<64004}" using assms by (auto simp: box_pixels_def)
qed

lemma ink_frame: "A \<subseteq> {..<64004} \<Longrightarrow> same_on m (ink A c m) 0 0xA0000 \<and> same_on m (ink A c m) (0xA0000 + 64004) (2 ^ 64)"
  by (auto simp: same_on_def ink_def)

definition screen_frame :: "memory \<Rightarrow> memory \<Rightarrow> bool" where
  "screen_frame m m' \<longleftrightarrow> same_on m m' 0 0xA0000 \<and> same_on m m' (0xA0000 + 64004) (2 ^ 64)"

lemma screen_frame_ink: "screen_frame m m' \<Longrightarrow> A \<subseteq> {..<64004} \<Longrightarrow> screen_frame m (ink A c m')"
  unfolding screen_frame_def using ink_frame [of A m' c] by (blast intro: same_on_trans)

lemma screen_frame_refl [simp]: "screen_frame m m"
  by (simp add: screen_frame_def same_on_def)

lemma net_bound: "net_pixels \<subseteq> {..<64004}"
  by (auto simp: net_pixels_def)

lemma pad_bound: "0 \<le> y \<Longrightarrow> y \<le> 170 \<Longrightarrow> 0 \<le> x \<Longrightarrow> x \<le> 308 \<Longrightarrow> box_pixels x y 4 30 \<subseteq> {..<64004}"
  by (auto simp: box_pixels_def)

lemma draw_picture:
  assumes "pong_inv g" and "screen_at fb s"
  shows "\<exists>m. pong_draw fb g s = Ret () (s\<lparr>mem := m\<rparr>) \<and> (\<forall>i < 64000. m (FB_PHYS + of_nat i) = pong_picture g i) \<and> screen_frame (mem s) m"
proof -
  have g: "0 \<le> p1_y g" "p1_y g \<le> 170" "0 \<le> p2_y g" "p2_y g \<le> 170" "0 \<le> ball_x g" "ball_x g \<le> 320" "0 \<le> ball_y g" "ball_y g \<le> 196"
    using assms(1) by (simp_all add: pong_inv_def)
  define P B where "P = box_pixels 8 (p1_y g) 4 30 \<union> box_pixels 308 (p2_y g) 4 30" and "B = box_pixels (ball_x g) (ball_y g) 4 4"
  note a = drawsD [OF draws_fill [of fb 0] assms(2)]
  note b = drawsD [OF draws_net a(2)]
  note c = drawsD [OF draws_pads [OF g(1-4)] b(2), folded P_def]
  note d = drawsD [OF draws_ball(1) [OF g(5-8)] c(2), folded B_def]
  let ?m = "ink B 14 (ink P 15 (ink net_pixels 7 (ink {..<64000} 0 (mem s))))"
  have run: "pong_draw fb g s = Ret () (s\<lparr>mem := ?m\<rparr>)" unfolding pong_draw_def a(1) b(1) c(1) d(1) obind.simps by simp
  moreover have "?m (FB_PHYS + of_nat i) = pong_picture g i" if "i < 64000" for i
    using that by (simp add: ink_at pong_picture_def P_def [symmetric] B_def [symmetric])
  moreover have "screen_frame (mem s) ?m"
    by (intro screen_frame_ink screen_frame_refl) (use net_bound draws_ball(2) [OF g(5-8)] pad_bound g in \<open>auto simp: P_def B_def\<close>)
  ultimately show ?thesis by blast
qed

definition lost_picture :: "nat \<Rightarrow> u8" where
  "lost_picture i = (if 70 \<le> i div 320 \<and> i div 320 < 130 \<and> 120 \<le> i mod 320 \<and> i mod 320 < 200 then 4 else 0)"

lemma box_mem:
  assumes "x1 \<le> (320 :: nat)"
  shows "i \<in> {y * 320 + x | y x. y0 \<le> y \<and> y < y1 \<and> x0 \<le> x \<and> x < x1} \<longleftrightarrow> y0 \<le> i div 320 \<and> i div 320 < y1 \<and> x0 \<le> i mod 320 \<and> i mod 320 < x1"
proof
  assume "i \<in> {y * 320 + x | y x. y0 \<le> y \<and> y < y1 \<and> x0 \<le> x \<and> x < x1}"
  then obtain y x where "i = y * 320 + x" "y0 \<le> y" "y < y1" "x0 \<le> x" "x < x1" by blast
  then show "y0 \<le> i div 320 \<and> i div 320 < y1 \<and> x0 \<le> i mod 320 \<and> i mod 320 < x1" using assms by simp
next
  assume "y0 \<le> i div 320 \<and> i div 320 < y1 \<and> x0 \<le> i mod 320 \<and> i mod 320 < x1"
  moreover have "i = i div 320 * 320 + i mod 320" by simp
  ultimately show "i \<in> {y * 320 + x | y x. y0 \<le> y \<and> y < y1 \<and> x0 \<le> x \<and> x < x1}" by blast
qed

lemma lost_shows:
  assumes "screen_at fb s"
  shows "\<exists>m. pong_lost fb s = Ret () (s\<lparr>mem := m\<rparr>) \<and> (\<forall>i < 64000. m (FB_PHYS + of_nat i) = lost_picture i) \<and> screen_frame (mem s) m"
proof -
  define B where "B = {y * 320 + x | y x :: nat. 70 \<le> y \<and> y < 130 \<and> 120 \<le> x \<and> x < 200}"
  have bx: "draws fb B 4 (fb_box fb 70 130 120 200 4)" unfolding B_def by (rule draws_box) simp_all
  note a = drawsD [OF draws_fill [of fb 0] assms]
  note b = drawsD [OF bx a(2)]
  let ?m = "ink B 4 (ink {..<64000} 0 (mem s))"
  have "pong_lost fb s = Ret () (s\<lparr>mem := ?m\<rparr>)" unfolding pong_lost_def a(1) b(1) obind.simps by simp
  moreover have "?m (FB_PHYS + of_nat i) = lost_picture i" if "i < 64000" for i
    using that box_mem [of 200 i 70 130 120, folded B_def] by (simp add: ink_at lost_picture_def)
  moreover have "screen_frame (mem s) ?m" by (intro screen_frame_ink screen_frame_refl) (auto simp: B_def)
  ultimately show ?thesis by blast
qed

lemma screen_at_cong: "mem t = mem s \<Longrightarrow> cr3 t = cr3 s \<Longrightarrow> screen_at fb t = screen_at fb s"
  unfolding screen_at_def by (simp add: mmu_cong [of "t\<lparr>mem := m\<rparr>" "s\<lparr>mem := m\<rparr>" for m])

lemma getkey_returns:
  fixes s :: "'a sys_state_scheme"
  assumes "native s"
  shows "\<exists>k s1. u_getkey disk r s = Ret (Some k) s1 \<and> mem s1 = mem s \<and> cr3 s1 = cr3 s"
proof -
  have "\<exists>v s1. sys_getkey s = Ret (Done v) s1 \<and> mem s1 = mem s \<and> cr3 s1 = cr3 s"
    by (auto simp: sys_getkey_def keyboard_getchar_def Let_def split: prod.splits if_splits)
  then show ?thesis by (auto simp: u_getkey_def u_syscall_def native_dispatch [OF assms] native_syscall_def)
qed

section \<open>Properties\<close>

text \<open>C28. One turn of \<open>pong\<close>, in a native process that has the screen: a key is taken, the variables stay within their bounds, and before the
  program sleeps the 64000 pixels are exactly the picture of the new position (black, the net, both paddles, the ball on top), or
  the red square when the ball has left the field. At most the four bytes after the last pixel change besides.\<close>

theorem pong_turn_shows:
  fixes s :: "'a sys_state_scheme"
  assumes "pong_inv g" and "screen_at fb s" and "native s"
  shows "\<exists>k s1 m. u_getkey disk r s = Ret (Some k) s1 \<and> pong_inv (pong_next k g) \<and>
    (let out = pong_out (pong_physics (pong_paddles k g)) in
     pong_turn disk r fb g s = obind (u_sleep disk r (if out then 150 else 3) (s1\<lparr>mem := m\<rparr>)) (\<lambda>y t. Ret (Some (pong_next k g, y)) t) \<and>
     (\<forall>i < 64000. m (FB_PHYS + of_nat i) = (if out then lost_picture i else pong_picture (pong_next k g) i))) \<and>
    same_on (mem s) m 0 0xA0000 \<and> same_on (mem s) m (0xA0000 + 64004) (2 ^ 64)"
proof -
  obtain k s1 where k: "u_getkey disk r s = Ret (Some k) s1" "mem s1 = mem s" "cr3 s1 = cr3 s" using getkey_returns [OF assms(3)] by blast
  have sc: "screen_at fb s1" using assms(2) screen_at_cong k(2,3) by blast
  have inv: "pong_inv (pong_next k g)" by (rule next_inv [OF assms(1)])
  define g1 where "g1 = pong_physics (pong_paddles k g)"
  show ?thesis
  proof (cases "pong_out g1")
    case True
    obtain m where m: "pong_lost fb s1 = Ret () (s1\<lparr>mem := m\<rparr>)" "\<forall>i < 64000. m (FB_PHYS + of_nat i) = lost_picture i" "screen_frame (mem s1) m"
      using lost_shows [OF sc] by blast
    have "pong_turn disk r fb g s = obind (u_sleep disk r 150 (s1\<lparr>mem := m\<rparr>)) (\<lambda>y t. Ret (Some (pong_next k g, y)) t)"
      unfolding pong_turn_def k(1) Let_def obind.simps option.case g1_def [symmetric] if_P [OF True] m(1) pong_next_def by simp
    then show ?thesis using k(1,2) inv True m(2,3) by (intro exI [of _ k] exI [of _ s1] exI [of _ m]) (simp add: Let_def screen_frame_def flip: g1_def)
  next
    case False
    then have n: "pong_next k g = g1" by (simp add: pong_next_def Let_def flip: g1_def)
    obtain m where m: "pong_draw fb g1 s1 = Ret () (s1\<lparr>mem := m\<rparr>)" "\<forall>i < 64000. m (FB_PHYS + of_nat i) = pong_picture g1 i" "screen_frame (mem s1) m"
      using draw_picture [OF inv [unfolded n] sc] by blast
    have "pong_turn disk r fb g s = obind (u_sleep disk r 3 (s1\<lparr>mem := m\<rparr>)) (\<lambda>y t. Ret (Some (pong_next k g, y)) t)"
      unfolding pong_turn_def k(1) Let_def obind.simps option.case g1_def [symmetric] if_not_P [OF False] m(1) n ..
    then show ?thesis using k(1,2) inv False m(2,3) n by (intro exI [of _ k] exI [of _ s1] exI [of _ m]) (simp add: Let_def screen_frame_def flip: g1_def)
  qed
qed

theorem pong_turn_shows_witness:
  "\<exists>s1 m. u_getkey disk_demo regs_demo sys_demo = Ret (Some 0) s1 \<and> m (FB_PHYS + of_nat 32482) = 14 \<and>
     pong_turn disk_demo regs_demo FB_PHYS pong_start sys_demo =
       obind (u_sleep disk_demo regs_demo 3 (s1\<lparr>mem := m\<rparr>)) (\<lambda>y t. Ret (Some (pong_next 0 pong_start, y)) t)"
proof -
  have sc: "screen_at FB_PHYS sys_demo"
    unfolding screen_at_def
  proof (intro allI impI)
    fix m i assume "i < (65536 :: nat)"
    then have "kernel_addr (FB_PHYS + of_nat i)" unfolding kernel_addr_def word_less_nat_alt by (simp only: unat_fb_phys) simp
    then show "mmu (FB_PHYS + of_nat i) (sys_demo\<lparr>mem := m\<rparr>) = Some (FB_PHYS + of_nat i)" by (simp add: mmu_def)
  qed
  have n: "native sys_demo" by (simp add: native_def sys_demo_simps process_zero_def)
  have key: "u_getkey disk_demo regs_demo sys_demo = Ret (Some 0) sys_demo"
  proof -
    have "\<not> keyboard_has_char sys_demo"
      by (simp add: keyboard_has_char_def sys_demo_def rd_demo_def rd_state.defs kb_state.defs kb_demo_def sched_state.defs)
    then show ?thesis by (simp add: u_getkey_def u_syscall_def native_dispatch [OF n] native_syscall_def sys_getkey_def)
  qed
  have out: "\<not> pong_out (pong_physics (pong_paddles 0 pong_start))"
    and g: "pong_next 0 pong_start = \<lparr>ball_x = 162, ball_y = 101, ball_dx = 2, ball_dy = 1, p1_y = 80, p2_y = 80\<rparr>"
    by (simp_all add: pong_next_def pong_out_def pong_physics_def pong_paddles_def pong_start_def Let_def)
  have "32482 \<in> box_pixels 162 101 4 4" unfolding box_pixels_def by (intro UN_I [of 0]) simp_all
  then have pic: "pong_picture (pong_next 0 pong_start) 32482 = 14" by (simp add: pong_picture_def g)
  obtain k s1 m where "u_getkey disk_demo regs_demo sys_demo = Ret (Some k) s1"
    "let out = pong_out (pong_physics (pong_paddles k pong_start)) in
     pong_turn disk_demo regs_demo FB_PHYS pong_start sys_demo = obind (u_sleep disk_demo regs_demo (if out then 150 else 3) (s1\<lparr>mem := m\<rparr>)) (\<lambda>y t. Ret (Some (pong_next k pong_start, y)) t) \<and>
     (\<forall>i < 64000. m (FB_PHYS + of_nat i) = (if out then lost_picture i else pong_picture (pong_next k pong_start) i))"
    using pong_turn_shows [OF start_inv sc n, of disk_demo regs_demo] by blast
  then have t: "pong_turn disk_demo regs_demo FB_PHYS pong_start sys_demo = obind (u_sleep disk_demo regs_demo 3 (sys_demo\<lparr>mem := m\<rparr>)) (\<lambda>y t. Ret (Some (pong_next 0 pong_start, y)) t)"
    "\<forall>i < 64000. m (FB_PHYS + of_nat i) = pong_picture (pong_next 0 pong_start) i" using key out by (simp_all add: Let_def)
  have "m (FB_PHYS + of_nat 32482) = 14" using t(2) [rule_format, of 32482] pic by simp
  with key t(1) show ?thesis by (intro exI conjI)
qed

text \<open>C29. However long \<open>pong\<close> runs and whatever keys are pressed, the paddles are on the screen, the ball is in the field, and every byte it
  draws for the paddles and the ball lies in the pages that are mapped for it. The ball can reach past the last pixel, by at most four bytes.\<close>

theorem pong_stays_in_mapping:
  "pong_inv (fold pong_next ks pong_start) \<and>
   box_pixels 8 (p1_y (fold pong_next ks pong_start)) 4 30 \<union> box_pixels 308 (p2_y (fold pong_next ks pong_start)) 4 30 \<subseteq> {..<64000} \<and>
   box_pixels (ball_x (fold pong_next ks pong_start)) (ball_y (fold pong_next ks pong_start)) 4 4 \<subseteq> {..<64004}"
proof -
  have "pong_inv g \<Longrightarrow> pong_inv (fold pong_next ks g)" for g by (induction ks arbitrary: g) (simp_all add: next_inv)
  then have inv: "pong_inv (fold pong_next ks pong_start)" using start_inv by blast
  then show ?thesis by (auto simp: pong_inv_def box_pixels_def)
qed

text \<open>The program \<open>hello\<close>, started as a native process in its own address space while there are frames for page tables: before
  it sleeps the screen shows three stripes, 66 rows in colour 4, 67 in colour 2 and 67 in colour 1, and when it is woken only its exit is left.\<close>

theorem hello_shows_stripes:
  fixes s :: "'a sys_state_scheme"
  assumes "native s" and "procs s (current s) = Some p" and "page_table p \<noteq> 0" and "cr3 s = page_table p"
    and "as_wf (ENTRY_ADDR (cr3 s)) s" and "off_screen (ENTRY_ADDR (cr3 s)) s"
    and "\<forall>k < 16. no_huge (ENTRY_ADDR (cr3 s)) (fb_page k) (mem s)" and "48 \<le> card (avail s)"
  shows "\<exists>t. hello_start disk r s = obind (u_sleep disk r 300 t) (\<lambda>x u. case x of None \<Rightarrow> Ret None u | Some _ \<Rightarrow> u_exit disk r u) \<and>
    (\<forall>y < 200. \<forall>x < 320. mem t (FB_PHYS + of_nat (y * 320 + x)) = (if y < 66 then 4 else if y < 133 then 2 else 1)) \<and>
    vmm_state.more t = vmm_state.more s"
proof -
  have c: "current s \<noteq> NULL" using assms(1) by (simp add: native_def)
  from map_fb_maps [OF c assms(2-8)] obtain t where t: "sys_map_fb s = Ret (Done USER_FB_VIRT) t" "screen_at USER_FB_VIRT t"
    "vmm_state.more t = vmm_state.more s" by blast
  have fb: "u_map_fb disk r s = Ret (Some USER_FB_VIRT) t" using t(1) by (simp add: u_map_fb_def u_syscall_def native_dispatch [OF assms(1)] native_syscall_def)
  let ?box = "\<lambda>a b. {y * 320 + x | y x :: nat. a \<le> y \<and> y < b \<and> 0 \<le> x \<and> x < 320}"
  define A B C where "A = ?box 0 66" and "B = ?box 66 133" and "C = ?box 133 200"
  have dr: "draws USER_FB_VIRT A 4 (fb_box USER_FB_VIRT 0 66 0 320 4)" "draws USER_FB_VIRT B 2 (fb_box USER_FB_VIRT 66 133 0 320 2)"
    "draws USER_FB_VIRT C 1 (fb_box USER_FB_VIRT 133 200 0 320 1)" unfolding A_def B_def C_def by (rule draws_box; simp)+
  note a = drawsD [OF draws_fill [of USER_FB_VIRT 0] t(2)]
  note b = drawsD [OF dr(1) a(2)]
  note c = drawsD [OF dr(2) b(2)]
  note d = drawsD [OF dr(3) c(2)]
  let ?m = "ink C 1 (ink B 2 (ink A 4 (ink {..<64000} 0 (mem t))))"
  have st: "hello_stripes USER_FB_VIRT t = Ret () (t\<lparr>mem := ?m\<rparr>)" unfolding hello_stripes_def a(1) b(1) c(1) d(1) obind.simps by simp
  have "hello_start disk r s = obind (u_sleep disk r 300 (t\<lparr>mem := ?m\<rparr>)) (\<lambda>x u. case x of None \<Rightarrow> Ret None u | Some _ \<Rightarrow> u_exit disk r u)"
    by (simp add: hello_start_def fb st)
  moreover have "?m (FB_PHYS + of_nat (y * 320 + x)) = (if y < 66 then 4 else if y < 133 then 2 else 1)" if "y < 200" "x < 320" for y x
  proof -
    have "y * 320 + x < 65536" using that by simp
    then show ?thesis using that box_mem [of 320 "y * 320 + x"] unfolding A_def B_def C_def by (simp only: ink_at) simp
  qed
  ultimately show ?thesis using t(3) by (intro exI [of _ "t\<lparr>mem := ?m\<rparr>"]) (simp del: of_nat_add of_nat_mult)
qed

theorem hello_shows_stripes_witness:
  "\<exists>(s :: sys_state) t. hello_start disk_demo regs_demo s = obind (u_sleep disk_demo regs_demo 300 t) (\<lambda>x u. case x of None \<Rightarrow> Ret None u | Some _ \<Rightarrow> u_exit disk_demo regs_demo u) \<and>
     mem t (FB_PHYS + of_nat (100 * 320 + 7)) = 2"
proof -
  obtain u where r: "as_wf 0x1000 (screen_demo u sys_demo)" "off_screen 0x1000 (screen_demo u sys_demo)" "48 \<le> card (avail (screen_demo u sys_demo))"
    by (rule screen_demo_exists)
  have n: "native (screen_demo u sys_demo)" by (simp add: native_def screen_demo_simps process_zero_def)
  from hello_shows_stripes [OF n, of "process_zero\<lparr>page_table := 0x1000\<rparr>" disk_demo regs_demo] r obtain t where
    "hello_start disk_demo regs_demo (screen_demo u sys_demo) = obind (u_sleep disk_demo regs_demo 300 t) (\<lambda>x u. case x of None \<Rightarrow> Ret None u | Some _ \<Rightarrow> u_exit disk_demo regs_demo u)"
    "\<forall>y < 200. \<forall>x < 320. mem t (FB_PHYS + of_nat (y * 320 + x)) = (if y < 66 then 4 else if y < 133 then 2 else 1)"
    by (auto simp: screen_demo_simps)
  note t = this
  have "mem t (FB_PHYS + of_nat (100 * 320 + 7)) = 2" using t(2) [rule_format, of 100 7] by simp
  with t(1) show ?thesis by (intro exI conjI)
qed

end
