(* ===== verification/Doom_Platform.thy ===== *)
theory Doom_Platform
  imports User_Drawing
begin

text \<open>
  The port of Doom: the functions the game calls (\<open>user_programs/doom/doomgeneric_myos.c\<close>) and the C library's system interface with the entry point
  (\<open>user_programs/doom/doom_platform.c\<close>). The game itself is not part of the sources: its key codes, its picture and its two
  entry points are arguments. It runs as a process with the Linux numbering. Pointers to results are results here; the
  address \<open>ev\<close> is where the compiler puts the local variable \<open>event\<close>.
\<close>

section \<open>What the game calls\<close>

record doom_keys =
  KEY_UPARROW :: u8
  KEY_DOWNARROW :: u8
  KEY_LEFTARROW :: u8
  KEY_RIGHTARROW :: u8
  KEY_FIRE :: u8
  KEY_ENTER :: u8
  KEY_ESCAPE :: u8
  KEY_LALT :: u8
  KEY_RCTRL :: u8
  KEY_USE :: u8

record doom_vars =
  g_fb :: u64
  g_start_ms :: u64

definition DG_Init :: "initrd_syms \<Rightarrow> user_regs \<Rightarrow> doom_vars \<Rightarrow> 'a sys_state_scheme \<Rightarrow> ('a sys_state_scheme, doom_vars option) outcome" where
  "DG_Init disk r d s =
     obind (u_map_fb disk r s) (\<lambda>x s1. case x of None \<Rightarrow> Ret None s1 | Some fb \<Rightarrow>
     obind (u_gettime disk r s1) (\<lambda>y s2. case y of None \<Rightarrow> Ret None s2 | Some t \<Rightarrow> Ret (Some (d\<lparr>g_fb := fb, g_start_ms := t\<rparr>)) s2))"

definition DG_SetPalette :: "initrd_syms \<Rightarrow> user_regs \<Rightarrow> u64 \<Rightarrow> 'a sys_state_scheme \<Rightarrow> ('a sys_state_scheme, unit option) outcome" where
  "DG_SetPalette disk r palette = u_setpalette disk r palette"

definition DG_DrawFrame :: "u64 \<Rightarrow> doom_vars \<Rightarrow> 'a vmm_state_scheme \<Rightarrow> ('a vmm_state_scheme, unit) outcome" where
  "DG_DrawFrame I_VideoBuffer d s =
     (if g_fb d = NULL then Ret () s
      else for_loop (320 * 200) 0 (\<lambda>i t. case peek (I_VideoBuffer + of_nat i) t of None \<Rightarrow> Fault | Some b \<Rightarrow> poke (g_fb d + of_nat i) b t) s)"

definition DG_SleepMs :: "initrd_syms \<Rightarrow> user_regs \<Rightarrow> u32 \<Rightarrow> 'a sys_state_scheme \<Rightarrow> ('a sys_state_scheme, unit option) outcome" where
  "DG_SleepMs disk r ms = (let n = (ucast (ms div 10) :: u64) in u_sleep disk r (if n = 0 then 1 else n))"

definition sc_to_doom :: "doom_keys \<Rightarrow> u8 \<Rightarrow> u8" where
  "sc_to_doom K sc =
     (if sc = 0x11 then KEY_UPARROW K else if sc = 0x1F then KEY_DOWNARROW K else if sc = 0x1E then KEY_LEFTARROW K
      else if sc = 0x20 then KEY_RIGHTARROW K else if sc = 0x39 then KEY_FIRE K else if sc = 0x1C then KEY_ENTER K
      else if sc = 0x01 then KEY_ESCAPE K else if sc = 0x38 then KEY_LALT K else if sc = 0x1D then KEY_RCTRL K
      else if sc = 0x16 then KEY_USE K else 0)"

text \<open>The loop of \<open>DG_GetKey\<close>. Its result is \<open>Some (pressed, key)\<close> for the C result 1 and \<open>None\<close> for 0; around it, \<open>None\<close> is that the processor went away.\<close>

partial_function (option) get_key_loop ::
    "initrd_syms \<Rightarrow> user_regs \<Rightarrow> doom_keys \<Rightarrow> u64 \<Rightarrow> 'a sys_state_scheme \<Rightarrow> ('a sys_state_scheme, (u8 \<times> u8) option option) outcome option" where
  "get_key_loop disk r K ev s =
     (case u_get_raw_key disk r ev s of
        Ret x s1 \<Rightarrow>
          (case x of
             None \<Rightarrow> Some (Ret None s1)
           | Some v \<Rightarrow>
               if v = 0 then Some (Ret (Some None) s1)
               else (case peek ev s1 of
                       None \<Rightarrow> Some Fault
                     | Some sc \<Rightarrow>
                         if sc_to_doom K sc = 0 then get_key_loop disk r K ev s1
                         else (case peek (ev + 1) s1 of None \<Rightarrow> Some Fault | Some pr \<Rightarrow> Some (Ret (Some (Some (pr, sc_to_doom K sc))) s1))))
      | Halt s1 \<Rightarrow> Some (Halt s1)
      | Hang \<Rightarrow> Some Hang
      | Fault \<Rightarrow> Some Fault)"

definition DG_GetKey ::
    "initrd_syms \<Rightarrow> user_regs \<Rightarrow> doom_keys \<Rightarrow> u64 \<Rightarrow> 'a sys_state_scheme \<Rightarrow> ('a sys_state_scheme, (u8 \<times> u8) option option) outcome" where
  "DG_GetKey disk r K ev s = of_loop (get_key_loop disk r K ev s)"

definition DG_GetTicksMs :: "initrd_syms \<Rightarrow> user_regs \<Rightarrow> doom_vars \<Rightarrow> 'a sys_state_scheme \<Rightarrow> ('a sys_state_scheme, u32 option) outcome" where
  "DG_GetTicksMs disk r d s = obind (u_gettime disk r s) (\<lambda>x t. Ret (map_option (\<lambda>ms. ucast (ms - g_start_ms d)) x) t)"

section \<open>The C library's system interface\<close>

definition dp_exit :: "initrd_syms \<Rightarrow> user_regs \<Rightarrow> 'a sys_state_scheme \<Rightarrow> ('a sys_state_scheme, unit option) outcome" where
  "dp_exit disk r = u_syscall disk 231 (r\<lparr>r_rdi := 0\<rparr>) no_result"

definition dp_write :: "initrd_syms \<Rightarrow> user_regs \<Rightarrow> u32 \<Rightarrow> u64 \<Rightarrow> u64 \<Rightarrow> 'a sys_state_scheme \<Rightarrow> ('a sys_state_scheme, u64 option) outcome" where
  "dp_write disk r fd buf n s = obind (u_write disk r buf n s) (\<lambda>x t. Ret (map_option (\<lambda>_. n) x) t)"

definition dp_read :: "initrd_syms \<Rightarrow> user_regs \<Rightarrow> u32 \<Rightarrow> u64 \<Rightarrow> u64 \<Rightarrow> 'a sys_state_scheme \<Rightarrow> ('a sys_state_scheme, u64 option) outcome" where
  "dp_read disk r fd buf n s = obind (u_fread disk r fd buf n s) (\<lambda>x t. Ret (map_option scast x) t)"

definition dp_open :: "initrd_syms \<Rightarrow> user_regs \<Rightarrow> u64 \<Rightarrow> u32 \<Rightarrow> 'a sys_state_scheme \<Rightarrow> ('a sys_state_scheme, u32 option) outcome" where
  "dp_open disk r path flags = u_open disk r path"

definition dp_lseek :: "initrd_syms \<Rightarrow> user_regs \<Rightarrow> u32 \<Rightarrow> u64 \<Rightarrow> u32 \<Rightarrow> 'a sys_state_scheme \<Rightarrow> ('a sys_state_scheme, u64 option) outcome" where
  "dp_lseek disk r fd off whence s = obind (u_fseek disk r fd off whence s) (\<lambda>x t. Ret (map_option scast x) t)"

definition dp_close :: "initrd_syms \<Rightarrow> user_regs \<Rightarrow> u32 \<Rightarrow> 'a sys_state_scheme \<Rightarrow> ('a sys_state_scheme, u32 option) outcome" where
  "dp_close disk r fd s = obind (u_fclose disk r fd s) (\<lambda>x t. Ret (map_option (\<lambda>_. 0) x) t)"

text \<open>The entry point, in three parts with a \<open>u_sleep\<close> at the end of the first and of the second. \<open>None\<close> is that the processor went away;
  the program goes on with the next part when it comes back.\<close>

definition start_red :: "initrd_syms \<Rightarrow> user_regs \<Rightarrow> 'a sys_state_scheme \<Rightarrow> ('a sys_state_scheme, unit option) outcome" where
  "start_red disk r s =
     obind (u_map_fb disk r s) (\<lambda>x s1. case x of None \<Rightarrow> Ret None s1 | Some fb \<Rightarrow>
       if fb = - 1 then obind (dp_exit disk r s1) (\<lambda>y s2. case y of None \<Rightarrow> Ret None s2 | Some _ \<Rightarrow> Fault)
       else obind (fb_fill fb 4 s1) (\<lambda>_. u_sleep disk r 150))"

definition start_cyan :: "initrd_syms \<Rightarrow> user_regs \<Rightarrow> u64 \<Rightarrow> u64 \<Rightarrow> 'a sys_state_scheme \<Rightarrow> ('a sys_state_scheme, unit option) outcome" where
  "start_cyan disk r fb fake_tcb s =
     obind (for_loop 8 0 (\<lambda>i. poke (fake_tcb + of_nat i) (ucast (drop_bit (8 * i) fake_tcb))) s) (\<lambda>_ s1.
     obind (u_set_fs_base disk r fake_tcb s1) (\<lambda>x s2. case x of None \<Rightarrow> Ret None s2 | Some _ \<Rightarrow>
     obind (fb_fill fb 3 s2) (\<lambda>_. u_sleep disk r 150)))"

text \<open>\<open>while(1) doomgeneric_Tick()\<close>.\<close>

partial_function (option) tick_forever :: "('s \<Rightarrow> ('s, unit option) outcome) \<Rightarrow> 's \<Rightarrow> ('s, unit option) outcome option" where
  "tick_forever tick s =
     (case tick s of
        Ret x s1 \<Rightarrow> (case x of None \<Rightarrow> Some (Ret None s1) | Some _ \<Rightarrow> tick_forever tick s1)
      | Halt s1 \<Rightarrow> Some (Halt s1)
      | Hang \<Rightarrow> Some Hang
      | Fault \<Rightarrow> Some Fault)"

definition start_yellow ::
    "('a sys_state_scheme \<Rightarrow> ('a sys_state_scheme, unit option) outcome) \<Rightarrow> ('a sys_state_scheme \<Rightarrow> ('a sys_state_scheme, unit option) outcome) \<Rightarrow>
     u64 \<Rightarrow> 'a sys_state_scheme \<Rightarrow> ('a sys_state_scheme, unit option) outcome" where
  "start_yellow doomgeneric_Create doomgeneric_Tick fb s =
     obind (fb_fill fb 14 s) (\<lambda>_ s1.
     obind (doomgeneric_Create s1) (\<lambda>x s2. case x of None \<Rightarrow> Ret None s2 | Some _ \<Rightarrow> of_loop (tick_forever doomgeneric_Tick s2)))"

section \<open>Keys\<close>

lemma raw_key_linux:
  fixes s :: "'a sys_state_scheme"
  assumes "linux s" "\<not> linux_first s"
  shows "u_get_raw_key disk r ev s = obind (sys_get_raw_key ev s) (\<lambda>x t. Ret (case x of Done v \<Rightarrow> Some (ucast v) | Away \<Rightarrow> None) t)"
  unfolding u_get_raw_key_def u_syscall_def linux_dispatch [OF assms] linux_syscall_def by simp

lemma get_key_spec:
  fixes s :: "'a sys_state_scheme"
  assumes "linux s" and "\<not> linux_first s" and "kb_inv s" and "buffer_at ev 2 pa s0" and "\<forall>a. a \<notin> pa ` {..<2} \<longrightarrow> mem s a = mem s0 a" and "cr3 s = cr3 s0"
    and "kb_events s = es"
  shows "\<exists>t. get_key_loop disk r K ev s = Some (Ret (Some (case dropWhile (\<lambda>e. sc_to_doom K (scancode e) = 0) es of
        [] \<Rightarrow> None | e # _ \<Rightarrow> Some (pressed e, sc_to_doom K (scancode e)))) t) \<and>
    kb_events t = tl (dropWhile (\<lambda>e. sc_to_doom K (scancode e) = 0) es) \<and> kb_inv t \<and> (\<forall>a. a \<notin> pa ` {..<2} \<longrightarrow> mem t a = mem s a)"
  using assms
proof (induction es arbitrary: s)
  case Nil
  have g: "keyboard_get_event s = (None, s)" by (rule event_queue.get_empty [OF Nil.prems(3,7)])
  have "get_key_loop disk r K ev s = Some (Ret (Some None) s)"
    by (subst get_key_loop.simps) (simp add: raw_key_linux [OF Nil.prems(1,2)] sys_get_raw_key_def g)
  then show ?case using Nil.prems by simp
next
  case (Cons e es)
  obtain s1 where g: "keyboard_get_event s = (Some e, s1)" "kb_events s1 = es" "kb_inv s1"
    using event_queue.get_some [OF Cons.prems(3,7)] event_queue.get_inv [OF Cons.prems(3)] by (cases "keyboard_get_event s") auto
  have s1: "s1 = s\<lparr>event_head := (event_head s + 1) mod KB_EVENT_BUF\<rparr>" using g(1) by (simp add: keyboard_get_event_def split: if_splits)
  define s2 s3 where "s2 = s1\<lparr>mem := (mem s1)(pa 0 := scancode e)\<rparr>" and "s3 = s1\<lparr>mem := (mem s1)(pa 0 := scancode e, pa 1 := pressed e)\<rparr>"
  have inj: "pa 0 \<noteq> pa 1" using Cons.prems(4) inj_onD [of pa "{..<2}" 0 1] by (auto simp: buffer_at_def)
  have o: "\<forall>a. a \<notin> pa ` {..<2} \<longrightarrow> mem t a = mem s0 a" if "\<forall>a. a \<notin> pa ` {..<2} \<longrightarrow> mem t a = mem s a" for t :: "'a sys_state_scheme"
    using that Cons.prems(5) by simp
  have m: "mmu ev t = Some (pa 0)" "mmu (ev + 1) t = Some (pa 1)" if "\<forall>a. a \<notin> pa ` {..<2} \<longrightarrow> mem t a = mem s a" "cr3 t = cr3 s" for t :: "'a sys_state_scheme"
    using buffer_atD [OF Cons.prems(4) o [OF that(1)], of 0] buffer_atD [OF Cons.prems(4) o [OF that(1)], of 1] that(2) Cons.prems(6) by simp_all
  have i2: "{..<2 :: nat} = {0, 1}" by auto
  have k1: "mmu ev s1 = Some (pa 0)" by (rule m(1)) (simp_all add: s1)
  have k2: "mmu (ev + 1) s2 = Some (pa 1)" by (rule m(2)) (auto simp: s2_def s1 i2)
  have k3: "mmu ev s3 = Some (pa 0)" "mmu (ev + 1) s3 = Some (pa 1)" by (rule m; auto simp: s3_def s1 i2)+
  have raw: "u_get_raw_key disk r ev s = Ret (Some 1) s3"
    unfolding raw_key_linux [OF Cons.prems(1,2)] sys_get_raw_key_def g(1) using k1 k2 by (simp add: poke_def s2_def s3_def)
  have pk: "peek ev s3 = Some (scancode e)" "peek (ev + 1) s3 = Some (pressed e)" using k3 inj by (simp_all add: peek_def s3_def)
  have q: "kb_events s3 = es" "kb_inv s3" using g(2,3) by (simp_all add: s3_def kb_events_def kb_inv_def kb_chars_def)
  show ?case
  proof (cases "sc_to_doom K (scancode e) = 0")
    case True
    have "linux s3" "\<not> linux_first s3" using Cons.prems(1,2) by (simp_all add: s3_def s1 linux_def)
    moreover have "\<forall>a. a \<notin> pa ` {..<2} \<longrightarrow> mem s3 a = mem s0 a" by (rule o) (simp add: s3_def s1 i2)
    moreover have "cr3 s3 = cr3 s0" using Cons.prems(6) by (simp add: s3_def s1)
    ultimately obtain t where t: "get_key_loop disk r K ev s3 = Some (Ret (Some (case dropWhile (\<lambda>e. sc_to_doom K (scancode e) = 0) es of
        [] \<Rightarrow> None | e # _ \<Rightarrow> Some (pressed e, sc_to_doom K (scancode e)))) t)"
      "kb_events t = tl (dropWhile (\<lambda>e. sc_to_doom K (scancode e) = 0) es)" "kb_inv t" "\<forall>a. a \<notin> pa ` {..<2} \<longrightarrow> mem t a = mem s3 a"
      using Cons.IH [of s3] Cons.prems(4) q by blast
    have "get_key_loop disk r K ev s = get_key_loop disk r K ev s3" by (subst get_key_loop.simps) (simp add: raw pk True)
    then show ?thesis using t True by (intro exI [of _ t]) (simp add: s3_def s1 i2)
  next
    case False
    have "get_key_loop disk r K ev s = Some (Ret (Some (Some (pressed e, sc_to_doom K (scancode e)))) s3)" by (subst get_key_loop.simps) (simp add: raw pk False)
    then show ?thesis using q False by (intro exI [of _ s3]) (simp add: s3_def s1 i2)
  qed
qed

section \<open>Pictures\<close>

text \<open>A source that drawing does not disturb: each byte is where the page tables say, outside the graphics memory.\<close>

definition source_at :: "u64 \<Rightarrow> nat \<Rightarrow> (nat \<Rightarrow> u64) \<Rightarrow> 'a vmm_state_scheme \<Rightarrow> bool" where
  "source_at src n pb s \<longleftrightarrow> (\<forall>i < n. unat (pb i) < 0xA0000 \<or> 0xB0000 \<le> unat (pb i)) \<and>
     (\<forall>m. same_off_screen (mem s) m \<longrightarrow> (\<forall>i < n. mmu (src + of_nat i) (s\<lparr>mem := m\<rparr>) = Some (pb i)))"

lemma same_off_screenD: "same_off_screen m m' \<Longrightarrow> unat a < 0xA0000 \<or> 0xB0000 \<le> unat a \<Longrightarrow> m' a = m a"
  using unat_less_u64 [of a] by (auto simp: same_off_screen_def same_on_def)

text \<open>The picture after the first \<open>k\<close> pixels have been copied.\<close>

definition copied_to :: "nat \<Rightarrow> (nat \<Rightarrow> u64) \<Rightarrow> 'a vmm_state_scheme \<Rightarrow> 'a vmm_state_scheme \<Rightarrow> bool" where
  "copied_to k pb s t \<longleftrightarrow> (\<exists>m. t = s\<lparr>mem := m\<rparr> \<and> same_off_screen (mem s) m \<and>
     (\<forall>i < k. m (FB_PHYS + of_nat i) = mem s (pb i)) \<and> (\<forall>i. k \<le> i \<longrightarrow> i < 65536 \<longrightarrow> m (FB_PHYS + of_nat i) = mem s (FB_PHYS + of_nat i)))"

lemma copy_pixel:
  assumes c: "copied_to k pb s t" and src: "source_at src n pb s" and fb: "screen_at fb s" and k: "k < n" "n \<le> 65536"
  shows "\<exists>t'. (case peek (src + of_nat k) t of None \<Rightarrow> Fault | Some b \<Rightarrow> poke (fb + of_nat k) b t) = Ret () t' \<and> copied_to (Suc k) pb s t'"
proof -
  obtain m where m: "t = s\<lparr>mem := m\<rparr>" "same_off_screen (mem s) m" "\<forall>i < k. m (FB_PHYS + of_nat i) = mem s (pb i)"
    "\<forall>i. k \<le> i \<longrightarrow> i < 65536 \<longrightarrow> m (FB_PHYS + of_nat i) = mem s (FB_PHYS + of_nat i)" using c unfolding copied_to_def by blast
  have "mmu (src + of_nat k) t = Some (pb k)" "unat (pb k) < 0xA0000 \<or> 0xB0000 \<le> unat (pb k)" using src k(1) m(1,2) unfolding source_at_def by blast+
  then have pk: "peek (src + of_nat k) t = Some (mem s (pb k))" using same_off_screenD [OF m(2)] m(1) by (simp add: peek_def)
  have k': "k < 65536" using k by simp
  have "screen_at fb t" unfolding m(1) by (rule screen_at_mem [OF fb m(2)])
  then have run: "poke (fb + of_nat k) b t = Ret () (s\<lparr>mem := m(FB_PHYS + of_nat k := b)\<rparr>)" for b using poke_screen [OF _ k', of fb t b] m(1) by simp
  have ne: "FB_PHYS + of_nat i = FB_PHYS + of_nat k \<longleftrightarrow> i = k" if "i < 65536" for i
    using unat_fb_phys [OF that] unat_fb_phys [OF k'] by (auto simp: word_unat_eq_iff)
  let ?m = "m(FB_PHYS + of_nat k := mem s (pb k))"
  have "same_off_screen m ?m" unfolding ink_one [OF k'] by (rule ink_same) (use k' in simp)
  then have "same_off_screen (mem s) ?m" by (rule same_off_screen_trans [OF m(2)])
  moreover have "?m (FB_PHYS + of_nat i) = mem s (pb i)" if "i < Suc k" for i using that m(3) ne [of i] k' by (cases "i = k") auto
  moreover have "?m (FB_PHYS + of_nat i) = mem s (FB_PHYS + of_nat i)" if "Suc k \<le> i" "i < 65536" for i using that m(4) ne [of i] by auto
  ultimately have "copied_to (Suc k) pb s (s\<lparr>mem := ?m\<rparr>)" unfolding copied_to_def by blast
  then show ?thesis unfolding pk option.case run by blast
qed

section \<open>Properties\<close>

text \<open>C26. \<open>DG_GetKey\<close> in Doom's process returns: it takes events from the keyboard's queue until one is of a key the game knows, reports
  that key and whether it was pressed or released, and leaves the events behind it in the queue; when there is none it reports no
  key and the queue is empty. Memory changes only in the local variable.\<close>

theorem dg_get_key_first_known:
  fixes s :: "'a sys_state_scheme"
  assumes "linux s" and "\<not> linux_first s" and "kb_inv s" and "buffer_at ev 2 pa s"
  shows "\<exists>t. DG_GetKey disk r K ev s = Ret (Some (case dropWhile (\<lambda>e. sc_to_doom K (scancode e) = 0) (kb_events s) of
        [] \<Rightarrow> None | e # _ \<Rightarrow> Some (pressed e, sc_to_doom K (scancode e)))) t \<and>
    kb_events t = tl (dropWhile (\<lambda>e. sc_to_doom K (scancode e) = 0) (kb_events s)) \<and> (\<forall>a. a \<notin> pa ` {..<2} \<longrightarrow> mem t a = mem s a)"
proof -
  have "\<forall>a. a \<notin> pa ` {..<2} \<longrightarrow> mem s a = mem s a" by simp
  from get_key_spec [OF assms this refl refl, of disk r K] obtain t where
    "get_key_loop disk r K ev s = Some (Ret (Some (case dropWhile (\<lambda>e. sc_to_doom K (scancode e) = 0) (kb_events s) of
        [] \<Rightarrow> None | e # _ \<Rightarrow> Some (pressed e, sc_to_doom K (scancode e)))) t)"
    "kb_events t = tl (dropWhile (\<lambda>e. sc_to_doom K (scancode e) = 0) (kb_events s))" "\<forall>a. a \<notin> pa ` {..<2} \<longrightarrow> mem t a = mem s a" by blast
  then show ?thesis unfolding DG_GetKey_def by (intro exI [of _ t]) (simp only: of_loop.simps)
qed

definition keys_demo :: doom_keys where
  "keys_demo = \<lparr>KEY_UPARROW = 0xAD, KEY_DOWNARROW = 0xAF, KEY_LEFTARROW = 0xAC, KEY_RIGHTARROW = 0xAE, KEY_FIRE = 0xA3, KEY_ENTER = 13, KEY_ESCAPE = 27,
     KEY_LALT = 0xB8, KEY_RCTRL = 0x9D, KEY_USE = 0xA2\<rparr>"

definition doom_demo :: sys_state where
  "doom_demo = sys_demo\<lparr>procs := (procs sys_demo)(0x3000 \<mapsto> process_zero\<lparr>use_linux_abi := 1\<rparr>), linux_first := False\<rparr>"

lemma doom_demo_linux: "linux doom_demo" "\<not> linux_first doom_demo" "kb_inv doom_demo" "kb_events doom_demo = []"
proof -
  show "linux doom_demo" "\<not> linux_first doom_demo" by (simp_all add: doom_demo_def linux_def sys_demo_simps)
  have "kb_inv doom_demo = kb_inv sys_demo" by (simp add: doom_demo_def kb_inv_def kb_chars_def)
  then show "kb_inv doom_demo" using sys_demo_simps(7) by simp
  show "kb_events doom_demo = []" using kb_demo_props(3) by (simp add: doom_demo_def sys_demo_def rd_demo_def rd_state.defs kb_state.defs kb_events_def)
qed

text \<open>The keys P and W are pressed; the game knows only the second.\<close>

theorem dg_get_key_first_known_witness:
  "\<exists>t. DG_GetKey disk_demo regs_demo keys_demo 0x400000 (fold event_put [\<lparr>scancode = 0x19, pressed = 1\<rparr>, \<lparr>scancode = 0x11, pressed = 1\<rparr>] doom_demo) =
       Ret (Some (Some (1, 0xAD))) t \<and> kb_events t = []"
proof -
  let ?s = "fold event_put [\<lparr>scancode = 0x19, pressed = 1\<rparr>, \<lparr>scancode = 0x11, pressed = 1\<rparr>] doom_demo"
  have q: "kb_inv ?s" "kb_events ?s = [\<lparr>scancode = 0x19, pressed = 1\<rparr>, \<lparr>scancode = 0x11, pressed = 1\<rparr>]"
    using event_queue.put_all [OF doom_demo_linux(3), of "[\<lparr>scancode = 0x19, pressed = 1\<rparr>, \<lparr>scancode = 0x11, pressed = 1\<rparr>]"] doom_demo_linux(4) by simp_all
  have l: "linux ?s" "\<not> linux_first ?s" using doom_demo_linux(1,2) by (simp_all add: linux_def event_put_def Let_def)
  have "buffer_at 0x400000 2 (\<lambda>i. 0x400000 + of_nat i) ?s"
    by (auto simp: buffer_at_def mmu_def kernel_addr_def inj_on_def less_2_cases_iff)
  from dg_get_key_first_known [OF l q(1) this, of disk_demo regs_demo keys_demo] show ?thesis
    unfolding q(2) by (auto simp: sc_to_doom_def keys_demo_def)
qed

text \<open>In a process with the kernel's own numbering the call behind \<open>u_get_raw_key\<close> does not exist, and its result -1 reads as an event: \<open>DG_GetKey\<close> would
  report whatever the local variable happens to hold, and never return when that is no key.\<close>

lemma raw_key_native:
  fixes s :: "'a sys_state_scheme"
  assumes "native s"
  shows "u_get_raw_key disk r ev s = Ret (Some (- 1)) s"
  unfolding u_get_raw_key_def u_syscall_def native_dispatch [OF assms] native_syscall_def by (simp add: ucast_int)

theorem get_key_native:
  fixes s :: "'a sys_state_scheme"
  assumes "native s" and "peek ev s = Some sc" and "peek (ev + 1) s = Some pr"
  shows "DG_GetKey disk r K ev s = (if sc_to_doom K sc = 0 then Hang else Ret (Some (Some (pr, sc_to_doom K sc))) s)"
proof (cases "sc_to_doom K sc = 0")
  case True
  have "native t \<and> peek v t = Some sc \<and> sc_to_doom L sc = 0 \<longrightarrow> False" if "get_key_loop disk' r' L v t = Some y"
    for disk' r' L v y and t :: "'a sys_state_scheme"
    by (rule get_key_loop.raw_induct [OF _ that]) (auto simp: raw_key_native)
  then have "get_key_loop disk r K ev s = None" using assms(1,2) True by (cases "get_key_loop disk r K ev s") blast+
  then show ?thesis using True by (simp add: DG_GetKey_def)
next
  case False
  then show ?thesis unfolding DG_GetKey_def by (subst get_key_loop.simps) (simp add: raw_key_native [OF assms(1)] assms(2,3))
qed

text \<open>C30. \<open>DG_DrawFrame\<close> puts the game's picture on the screen: afterwards each of the 64000 pixels is the byte of the picture with its number, and
  nothing outside the graphics memory has changed.\<close>

theorem dg_draw_frame_copies:
  assumes "screen_at (g_fb d) s" and "g_fb d \<noteq> NULL" and "source_at I_VideoBuffer 64000 pb s"
  shows "\<exists>m. DG_DrawFrame I_VideoBuffer d s = Ret () (s\<lparr>mem := m\<rparr>) \<and> (\<forall>i < 64000. m (FB_PHYS + of_nat i) = mem s (pb i)) \<and> same_off_screen (mem s) m"
proof -
  let ?body = "\<lambda>i t. case peek (I_VideoBuffer + of_nat i) t of None \<Rightarrow> Fault | Some b \<Rightarrow> poke (g_fb d + of_nat i) b t"
  have "copied_to 0 pb s s" unfolding copied_to_def by (intro exI [of _ "mem s"]) simp
  then have "\<exists>t. for_loop (320 * 200) 0 ?body s = Ret () t \<and> copied_to (0 + 320 * 200) pb s t"
    by (rule for_loop_rule) (rule copy_pixel [OF _ assms(3,1)], simp_all)
  then show ?thesis unfolding DG_DrawFrame_def if_not_P [OF assms(2)] copied_to_def by auto
qed

theorem dg_draw_frame_copies_witness:
  "\<exists>m. DG_DrawFrame 0x400000 \<lparr>g_fb = FB_PHYS, g_start_ms = 0\<rparr> (doom_demo\<lparr>mem := (mem doom_demo)(0x400005 := 0x2A)\<rparr>) = Ret () (doom_demo\<lparr>mem := m\<rparr>) \<and>
     m (FB_PHYS + of_nat 5) = 0x2A"
proof -
  let ?s = "doom_demo\<lparr>mem := (mem doom_demo)(0x400005 := 0x2A)\<rparr>" and ?d = "\<lparr>g_fb = FB_PHYS, g_start_ms = 0\<rparr>"
  have u: "unat (0x400000 + of_nat i :: u64) = 0x400000 + i" if "i < 64000" for i using that unat_addr [of "0x400000 + i"] by simp
  have "kernel_addr (0x400000 + of_nat i)" if "i < 64000" for i using that u [OF that] unfolding kernel_addr_def word_less_nat_alt by simp
  then have src: "source_at 0x400000 64000 (\<lambda>i. 0x400000 + of_nat i) ?s" unfolding source_at_def by (simp add: mmu_def u)
  have k: "kernel_addr (FB_PHYS + of_nat i)" if "i < 65536" for i using unat_fb_phys [OF that] that unfolding kernel_addr_def word_less_nat_alt by simp
  have "screen_at FB_PHYS ?s" unfolding screen_at_def by (simp add: mmu_def k)
  then have "screen_at (g_fb ?d) ?s" "g_fb ?d \<noteq> NULL" by simp_all
  from dg_draw_frame_copies [OF this src] obtain m where m: "DG_DrawFrame 0x400000 ?d ?s = Ret () (?s\<lparr>mem := m\<rparr>)"
    "\<forall>i < 64000. m (FB_PHYS + of_nat i) = mem ?s (0x400000 + of_nat i)" by blast
  have "m (FB_PHYS + of_nat 5) = 0x2A" using m(2) [rule_format, of 5] by simp
  with m(1) show ?thesis by (intro exI [of _ m]) simp
qed

text \<open>C27. The C library's file functions of the port use the kernel's own numbers, but Doom's process has the Linux numbering. So \<open>write\<close> reports
  success and puts out nothing, \<open>open\<close> always fails (its number is \<open>lseek\<close>, on the path as descriptor), \<open>lseek\<close> and \<open>close\<close> report 0 and do
  nothing, and \<open>read\<close> is an \<open>mmap\<close> of as many bytes as the buffer's address says.\<close>

theorem doom_file_calls_misdirected:
  fixes s :: "'a sys_state_scheme"
  assumes "linux s" and "\<not> linux_first s" and "bad_fd (to_int buf - 3) s"
  shows "dp_write disk r fd buf n s = Ret (Some n) s \<and> dp_open disk r buf flags s = Ret (Some (- 1)) s \<and>
    dp_lseek disk r fd off w s = Ret (Some 0) s \<and> dp_close disk r fd s = Ret (Some 0) s \<and>
    dp_read disk r fd buf n s = obind (linux_mmap buf s) (\<lambda>x t. Ret (case x of Done v \<Rightarrow> Some (scast (ucast v :: u32)) | Away \<Rightarrow> None) t)"
proof -
  note d = u_syscall_def linux_dispatch [OF assms(1,2)] linux_syscall_def
  have "dp_write disk r fd buf n s = Ret (Some n) s"
    unfolding dp_write_def u_write_def d using assms(3) by (simp add: sys_fread_def ramdisk_read_def)
  moreover have "dp_open disk r buf flags s = Ret (Some (- 1)) s"
    unfolding dp_open_def u_open_def d using assms(3) by (simp add: sys_fseek_def ramdisk_seek_def ucast_int)
  moreover have "dp_lseek disk r fd off w s = Ret (Some 0) s" "dp_close disk r fd s = Ret (Some 0) s"
    unfolding dp_lseek_def dp_close_def u_fseek_def u_fclose_def d by simp_all
  moreover have "dp_read disk r fd buf n s = obind (linux_mmap buf s) (\<lambda>x t. Ret (case x of Done v \<Rightarrow> Some (scast (ucast v :: u32)) | Away \<Rightarrow> None) t)"
    unfolding dp_read_def u_fread_def d by (cases "linux_mmap buf s") (simp_all split: sysret.split)
  ultimately show ?thesis by blast
qed

theorem doom_file_calls_misdirected_witness:
  "dp_write disk_demo regs_demo 1 0x400000 5 doom_demo = Ret (Some 5) doom_demo \<and> dp_open disk_demo regs_demo 0x400000 0 doom_demo = Ret (Some (- 1)) doom_demo"
proof -
  have "bad_fd (to_int 0x400000 - 3) doom_demo" by (simp add: bad_fd_def to_int_def)
  from doom_file_calls_misdirected [OF doom_demo_linux(1,2) this] show ?thesis by blast
qed

text \<open>The first part of the entry point, under the conditions of \<open>map_fb_maps\<close>: the screen is red when the program goes to sleep.\<close>

theorem start_red_shows:
  fixes s :: "'a sys_state_scheme"
  assumes "linux s" and "\<not> linux_first s" and "procs s (current s) = Some p" and "page_table p \<noteq> 0" and "cr3 s = page_table p"
    and "as_wf (ENTRY_ADDR (cr3 s)) s" and "off_screen (ENTRY_ADDR (cr3 s)) s"
    and "\<forall>k < 16. no_huge (ENTRY_ADDR (cr3 s)) (fb_page k) (mem s)" and "48 \<le> card (avail s)"
  shows "\<exists>t. start_red disk r s = u_sleep disk r 150 t \<and> (\<forall>i < 64000. mem t (FB_PHYS + of_nat i) = 4) \<and> vmm_state.more t = vmm_state.more s"
proof -
  have c: "current s \<noteq> NULL" using assms(1) by (simp add: linux_def)
  from map_fb_maps [OF c assms(3-9)] obtain t where t: "sys_map_fb s = Ret (Done USER_FB_VIRT) t" "screen_at USER_FB_VIRT t"
    "vmm_state.more t = vmm_state.more s" by blast
  have fb: "u_map_fb disk r s = Ret (Some USER_FB_VIRT) t" using t(1) by (simp add: u_map_fb_def u_syscall_def linux_dispatch [OF assms(1,2)] linux_syscall_def)
  note a = drawsD [OF draws_fill [of USER_FB_VIRT 4] t(2)]
  have "start_red disk r s = u_sleep disk r 150 (t\<lparr>mem := ink {..<64000} 4 (mem t)\<rparr>)" by (simp add: start_red_def fb a(1))
  moreover have "ink {..<64000} 4 (mem t) (FB_PHYS + of_nat i) = 4" if "i < 64000" for i using that by (simp add: ink_at)
  ultimately show ?thesis using t(3) by (intro exI [of _ "t\<lparr>mem := ink {..<64000} 4 (mem t)\<rparr>"]) simp
qed

end
