(* ===== verification/Kernel_Programs.thy ===== *)
theory Kernel_Programs
  imports User_Lib
begin

text \<open>
  The small programs in \<open>src/kernel.c\<close>: kernel processes that print and wait for the next interrupt, and user programs that write, read a line, or show
  a file. A loop without end is given by one turn; \<open>sti; hlt\<close> ends the turn. The arrays of a program are at the addresses the compiler
  chooses, which are arguments. \<open>None\<close> is that the processor went to another process.
\<close>

section \<open>Kernel processes\<close>

definition process_A :: "'a vga_state_scheme \<Rightarrow> 'a vga_state_scheme" where
  "process_A s = vga_print (str ''A '') s"

definition process_B :: "u64 \<Rightarrow> 'a vga_state_scheme \<Rightarrow> u64 \<times> 'a vga_state_scheme" where
  "process_B tick s = (let tick' = tick + 1 in (tick', if tick' mod 18 = 0 then vga_print (str ''B'') s else s))"

definition process_C :: "'a sched_state_scheme \<Rightarrow> 'a sched_state_scheme" where
  "process_C s = (let t = timer_ticks s in vga_print_int ([1, 2, 3, 4, 5, 6] ! unat (t mod 6) + 1) s)"

section \<open>User programs\<close>

text \<open>\<open>buf[0] = c0; buf[1] = c1; ...\<close>, one store after the other.\<close>

definition store_chars :: "u64 \<Rightarrow> u8 list \<Rightarrow> 'a vmm_state_scheme \<Rightarrow> ('a vmm_state_scheme, unit) outcome" where
  "store_chars buf cs = for_loop (length cs) 0 (\<lambda>i. poke (buf + of_nat i) (cs ! i))"

definition user_process_init :: "u64 \<Rightarrow> 'a vmm_state_scheme \<Rightarrow> ('a vmm_state_scheme, unit) outcome" where
  "user_process_init msg = store_chars msg (str ''R3! '' @ [0])"

definition user_process_turn :: "initrd_syms \<Rightarrow> user_regs \<Rightarrow> u64 \<Rightarrow> 'a sys_state_scheme \<Rightarrow> ('a sys_state_scheme, unit option) outcome" where
  "user_process_turn disk r msg s =
     obind (u_write disk r msg 3 s) (\<lambda>x s1. case x of None \<Rightarrow> Ret None s1 | Some _ \<Rightarrow> u_yield disk r s1)"

definition user_process_A :: "initrd_syms \<Rightarrow> user_regs \<Rightarrow> u64 \<Rightarrow> u64 \<Rightarrow> 'a sys_state_scheme \<Rightarrow> ('a sys_state_scheme, unit option) outcome" where
  "user_process_A disk r p buf s =
     obind (store_chars p (str ''> '' @ [0]) s) (\<lambda>_ s1.
     obind (u_write disk r p 2 s1) (\<lambda>x s2. case x of None \<Rightarrow> Ret None s2 | Some _ \<Rightarrow>
     obind (u_read disk r buf 63 s2) (\<lambda>x s3. case x of None \<Rightarrow> Ret None s3 | Some n \<Rightarrow>
     obind (poke (buf + n) 0 s3) (\<lambda>_ s4.
     obind (u_write disk r buf n s4) (\<lambda>x s5. case x of None \<Rightarrow> Ret None s5 | Some _ \<Rightarrow> u_exit disk r s5)))))"

definition file_test :: "initrd_syms \<Rightarrow> user_regs \<Rightarrow> u64 \<Rightarrow> u64 \<Rightarrow> 'a sys_state_scheme \<Rightarrow> ('a sys_state_scheme, unit option) outcome" where
  "file_test disk r path buf s =
     obind (store_chars path (str ''/hello.txt'' @ [0]) s) (\<lambda>_ s1.
     obind (u_open disk r path s1) (\<lambda>x s2. case x of None \<Rightarrow> Ret None s2 | Some fd \<Rightarrow>
       if sint fd < 0 then u_exit disk r s2
       else obind (u_fread disk r fd buf 63 s2) (\<lambda>x s3. case x of None \<Rightarrow> Ret None s3 | Some n \<Rightarrow>
            obind (u_fclose disk r fd s3) (\<lambda>x s4. case x of None \<Rightarrow> Ret None s4 | Some _ \<Rightarrow>
            obind (if sint n > 0 then u_write disk r buf (scast n) s4 else Ret (Some ()) s4) (\<lambda>x s5.
              case x of None \<Rightarrow> Ret None s5 | Some _ \<Rightarrow> u_exit disk r s5)))))"

section \<open>The program's own memory\<close>

text \<open>The addresses \<open>A\<close> of a program are mapped to distinct bytes, and storing there does not change that.\<close>

definition area_at :: "u64 set \<Rightarrow> (u64 \<Rightarrow> u64) \<Rightarrow> 'a vmm_state_scheme \<Rightarrow> bool" where
  "area_at A pa s \<longleftrightarrow> inj_on pa A \<and> (\<forall>m. (\<forall>a. a \<notin> pa ` A \<longrightarrow> m a = mem s a) \<longrightarrow> (\<forall>v \<in> A. mmu v (s\<lparr>mem := m\<rparr>) = Some (pa v)))"

definition bytes_of :: "u64 \<Rightarrow> nat \<Rightarrow> u64 set" where
  "bytes_of p n = (\<lambda>i. p + of_nat i) ` {..<n}"

lemma bytes_of_mem: "i < n \<Longrightarrow> p + of_nat i \<in> bytes_of p n"
  by (simp add: bytes_of_def)

text \<open>Every state that differs only in the area and has the same page tables keeps the mapping.\<close>

lemma area_keep:
  assumes "area_at A pa s" and "\<forall>a. a \<notin> pa ` A \<longrightarrow> mem t a = mem s a" and "cr3 t = cr3 s"
  shows "area_at A pa t"
proof -
  have "mmu v (t\<lparr>mem := m\<rparr>) = Some (pa v)" if "\<forall>a. a \<notin> pa ` A \<longrightarrow> m a = mem t a" "v \<in> A" for m v
  proof -
    have "mmu v (s\<lparr>mem := m\<rparr>) = Some (pa v)" using assms(1,2) that unfolding area_at_def by auto
    moreover have "mmu v (t\<lparr>mem := m\<rparr>) = mmu v (s\<lparr>mem := m\<rparr>)" using mmu_cong [of "t\<lparr>mem := m\<rparr>" "s\<lparr>mem := m\<rparr>" v] assms(3) by simp
    ultimately show ?thesis by simp
  qed
  then show ?thesis using assms(1) unfolding area_at_def by blast
qed

lemma area_mmu: "area_at A pa s \<Longrightarrow> v \<in> A \<Longrightarrow> mmu v s = Some (pa v)"
proof -
  assume "area_at A pa s" "v \<in> A"
  then have "mmu v (s\<lparr>mem := mem s\<rparr>) = Some (pa v)" unfolding area_at_def by blast
  then show ?thesis by simp
qed

lemma area_poke:
  assumes "area_at A pa s" and "v \<in> A"
  shows "poke v b s = Ret () (s\<lparr>mem := (mem s)(pa v := b)\<rparr>)" "area_at A pa (s\<lparr>mem := (mem s)(pa v := b)\<rparr>)"
proof -
  show "poke v b s = Ret () (s\<lparr>mem := (mem s)(pa v := b)\<rparr>)" using area_mmu [OF assms] by (simp add: poke_def)
  show "area_at A pa (s\<lparr>mem := (mem s)(pa v := b)\<rparr>)" by (rule area_keep [OF assms(1)]) (use assms(2) in auto)
qed

lemma area_buffer:
  assumes "area_at A pa s" and "bytes_of p n \<subseteq> A" and "n < 2 ^ 64"
  shows "buffer_at p n (\<lambda>i. pa (p + of_nat i)) s"
proof -
  have A: "p + of_nat i \<in> A" if "i < n" for i using assms(2) bytes_of_mem [OF that] by blast
  have "inj_on (\<lambda>i. pa (p + of_nat i)) {..<n}"
  proof (rule inj_onI)
    fix i j assume ij: "i \<in> {..<n}" "j \<in> {..<n}" "pa (p + of_nat i) = pa (p + of_nat j)"
    have "inj_on pa A" using assms(1) by (simp add: area_at_def)
    from inj_onD [OF this ij(3) A A] have "p + of_nat i = p + of_nat j" using ij(1,2) by simp
    then have "(of_nat i :: u64) = of_nat j" by simp
    then have "unat (of_nat i :: u64) = unat (of_nat j :: u64)" by simp
    then show "i = j" using ij assms(3) by (simp add: unat_addr)
  qed
  moreover have "(\<lambda>i. pa (p + of_nat i)) ` {..<n} \<subseteq> pa ` A" using A by auto
  ultimately show ?thesis using assms(1) A unfolding buffer_at_def area_at_def by blast
qed

text \<open>Storing a string in the area.\<close>

lemma store_chars_area:
  fixes s :: "'a vmm_state_scheme"
  assumes "area_at A pa s" and "bytes_of p (length cs) \<subseteq> A" and "length cs < 2 ^ 64"
  shows "\<exists>m. store_chars p cs s = Ret () (s\<lparr>mem := m\<rparr>) \<and> area_at A pa (s\<lparr>mem := m\<rparr>) \<and> (\<forall>a. a \<notin> pa ` A \<longrightarrow> m a = mem s a) \<and>
    (\<forall>j < length cs. m (pa (p + of_nat j)) = cs ! j)"
proof -
  let ?P = "\<lambda>k (t :: 'a vmm_state_scheme). \<exists>m. t = s\<lparr>mem := m\<rparr> \<and> area_at A pa t \<and> (\<forall>a. a \<notin> pa ` A \<longrightarrow> m a = mem s a) \<and> (\<forall>j < k. m (pa (p + of_nat j)) = cs ! j)"
  have A: "p + of_nat i \<in> A" if "i < length cs" for i using assms(2) bytes_of_mem [OF that] by blast
  have inj: "inj_on (\<lambda>i. pa (p + of_nat i)) {..<length cs}" using area_buffer [OF assms] by (simp add: buffer_at_def)
  have "\<exists>t. store_chars p cs s = Ret () t \<and> ?P (0 + length cs) t"
    unfolding store_chars_def
  proof (rule for_loop_rule [where P = ?P])
    show "?P 0 s" using assms(1) by (intro exI [of _ "mem s"]) simp
  next
    fix j and t :: "'a vmm_state_scheme"
    assume j: "j < 0 + length cs" and "?P j t"
    then obtain m where m: "t = s\<lparr>mem := m\<rparr>" "area_at A pa t" "\<forall>a. a \<notin> pa ` A \<longrightarrow> m a = mem s a" "\<forall>i < j. m (pa (p + of_nat i)) = cs ! i" by blast
    let ?m = "m(pa (p + of_nat j) := cs ! j)"
    note k = area_poke [OF m(2) A [of j], of "cs ! j"]
    have "pa (p + of_nat i) \<noteq> pa (p + of_nat j)" if "i < j" for i using inj_onD [OF inj, of i j] that j by auto
    then have "\<forall>i < Suc j. ?m (pa (p + of_nat i)) = cs ! i" using m(4) by (auto simp: less_Suc_eq)
    moreover have "\<forall>a. a \<notin> pa ` A \<longrightarrow> ?m a = mem s a" using m(3) A [of j] j by auto
    ultimately show "\<exists>t'. poke (p + of_nat j) (cs ! j) t = Ret () t' \<and> ?P (Suc j) t'"
      using k j m(1) by (intro exI [of _ "s\<lparr>mem := ?m\<rparr>"] conjI exI [of _ ?m]) simp_all
  qed
  then show ?thesis by auto
qed

section \<open>Calls of a native process\<close>

lemma native_write:
  fixes s :: "'a sys_state_scheme"
  assumes "native s" and "0x1000 \<le> p" and "uart_ready (port_dev s)" and "unat n = length bs" and "\<forall>j < length bs. peek (p + of_nat j) s = Some (bs ! j)"
  shows "\<exists>es. u_write disk r p n s = Ret (Some ()) ((fold vga_putchar bs s)\<lparr>port_log := port_log s @ es\<rparr>) \<and> sent_to COM1 es = bs"
proof -
  have "\<exists>es. sys_write p n s = Ret (Done n) ((fold vga_putchar bs s)\<lparr>port_log := port_log s @ es\<rparr>) \<and> sent_to COM1 es = bs"
    using write_loop [of s bs p 0] assms(2-5) unfolding sys_write_def by auto
  then show ?thesis by (auto simp add: u_write_def u_syscall_def native_dispatch [OF assms(1)] native_syscall_def)
qed

lemma native_read:
  fixes s :: "'a sys_state_scheme"
  assumes "native s" and "kb_inv s" and "kb_chars s = cs @ 0x0A # rest" and "0x0A \<notin> set cs" and "length cs < unat n" and "buf \<noteq> NULL"
    and "buffer_at buf k pa s" and "length cs < k"
  shows "\<exists>j m. u_read disk r buf n s = Ret (Some (of_nat (length cs + 1))) (s\<lparr>kb_read_pos := j, mem := m\<rparr>) \<and> kb_chars (s\<lparr>kb_read_pos := j, mem := m\<rparr>) = rest \<and>
    (\<forall>i \<le> length cs. m (pa i) = (cs @ [0x0A]) ! i) \<and> (\<forall>a. a \<notin> pa ` {..<k} \<longrightarrow> m a = mem s a)"
proof -
  obtain t where t: "read_loop buf n 0 s = Some (Ret (Done (of_nat (length cs + 1))) t)" "kb_chars t = rest"
    "\<forall>j \<le> length cs. mem t (pa j) = (cs @ [0x0A]) ! j" "\<forall>a. a \<notin> pa ` {0..length cs} \<longrightarrow> mem t a = mem s a" "\<exists>j. t = s\<lparr>kb_read_pos := j, mem := mem t\<rparr>"
    using read_line_loop [OF assms(2-4), of 0 n buf k pa s] assms(5,7,8) by auto
  obtain j where j: "t = s\<lparr>kb_read_pos := j, mem := mem t\<rparr>" using t(5) by blast
  have "sys_read buf n s = Ret (Done (of_nat (length cs + 1))) t" using t(1) assms(5,6) by (auto simp: sys_read_def)
  then have "u_read disk r buf n s = Ret (Some (of_nat (length cs + 1))) t"
    by (simp add: u_read_def u_syscall_def native_dispatch [OF assms(1)] native_syscall_def)
  moreover have "\<forall>a. a \<notin> pa ` {..<k} \<longrightarrow> mem t a = mem s a" using t(4) image_mono [of "{0..length cs}" "{..<k}" pa] assms(8) by (simp add: subset_iff) blast
  ultimately show ?thesis using t(2,3) j by metis
qed

text \<open>Printing does not depend on memory, the keyboard or the log.\<close>

lemma putchar_upd:
  fixes s :: "'a kb_state_scheme"
  shows "vga_putchar c (s\<lparr>mem := m\<rparr>) = (vga_putchar c s)\<lparr>mem := m\<rparr>" "vga_putchar c (s\<lparr>kb_read_pos := k\<rparr>) = (vga_putchar c s)\<lparr>kb_read_pos := k\<rparr>"
  by (simp_all add: vga_putchar_def vga_scroll_cells Let_def)

lemma print_upd:
  fixes s :: "'a kb_state_scheme"
  shows "fold vga_putchar bs (s\<lparr>mem := m\<rparr>) = (fold vga_putchar bs s)\<lparr>mem := m\<rparr>" "fold vga_putchar bs (s\<lparr>kb_read_pos := k\<rparr>) = (fold vga_putchar bs s)\<lparr>kb_read_pos := k\<rparr>"
    "fold vga_putchar bs (s\<lparr>port_log := l\<rparr>) = (fold vga_putchar bs s)\<lparr>port_log := l\<rparr>"
  by (induction bs arbitrary: s) (simp_all add: putchar_upd putchar_log)

lemma print_fields:
  fixes s :: "'a sys_state_scheme"
  shows "mem (fold vga_putchar bs s) = mem s" "cr3 (fold vga_putchar bs s) = cr3 s" "port_log (fold vga_putchar bs s) = port_log s"
    "port_dev (fold vga_putchar bs s) = port_dev s" "kb_inv (fold vga_putchar bs s) = kb_inv s" "kb_chars (fold vga_putchar bs s) = kb_chars s"
    "native (fold vga_putchar bs s) = native s"
proof -
  have k: "vmm_state.more (fold vga_putchar bs s) = vmm_state.more s"
    by (induction bs arbitrary: s) (simp_all add: console_only_more)
  show "mem (fold vga_putchar bs s) = mem s" "cr3 (fold vga_putchar bs s) = cr3 s" "port_log (fold vga_putchar bs s) = port_log s"
    "port_dev (fold vga_putchar bs s) = port_dev s" by (induction bs arbitrary: s) (simp_all add: putchar_mem putchar_fields)
  show "kb_inv (fold vga_putchar bs s) = kb_inv s" "kb_chars (fold vga_putchar bs s) = kb_chars s" "native (fold vga_putchar bs s) = native s"
    using k by (cases s; cases "fold vga_putchar bs s"; simp add: kb_inv_def kb_chars_def native_def)+
qed

section \<open>Properties\<close>

text \<open>C20. \<open>user_process_A\<close>, a native process whose two arrays are mapped, with a line of fewer than 63 characters waiting at the keyboard: it prints
  the prompt and then exactly the line with its newline, on the screen and on the serial line, takes the line and nothing else from the
  keyboard, stores nowhere but in its arrays, and exits.\<close>

theorem user_process_A_echoes:
  fixes s :: "'a sys_state_scheme"
  assumes "native s" and "kb_inv s" and "kb_chars s = cs @ 0x0A # rest" and "0x0A \<notin> set cs" and "length cs < 63" and "uart_ready (port_dev s)"
    and "0x1000 \<le> p" and "0x1000 \<le> buf" and "area_at (bytes_of p 3 \<union> bytes_of buf 64) pa s"
  shows "\<exists>t es. user_process_A disk r p buf s = u_exit disk r t \<and> sent_to COM1 es = str ''> '' @ cs @ [0x0A] \<and> kb_chars t = rest \<and>
    (\<exists>k m. t = (fold vga_putchar (str ''> '' @ cs @ [0x0A]) s)\<lparr>port_log := port_log s @ es, kb_read_pos := k, mem := m\<rparr> \<and>
      (\<forall>a. a \<notin> pa ` (bytes_of p 3 \<union> bytes_of buf 64) \<longrightarrow> m a = mem s a))"
proof -
  define A where "A = bytes_of p 3 \<union> bytes_of buf 64"
  have A: "bytes_of p 3 \<subseteq> A" "bytes_of buf 64 \<subseteq> A" by (simp_all add: A_def)
  note ar = assms(9) [folded A_def]
  have l3: "length (str ''> '' @ [0]) = 3" by simp
  obtain m1 where m1: "store_chars p (str ''> '' @ [0]) s = Ret () (s\<lparr>mem := m1\<rparr>)" "area_at A pa (s\<lparr>mem := m1\<rparr>)" "\<forall>a. a \<notin> pa ` A \<longrightarrow> m1 a = mem s a"
    "\<forall>j < 3. m1 (pa (p + of_nat j)) = (str ''> '' @ [0]) ! j" using store_chars_area [OF ar, of p "str ''> '' @ [0]"] A(1) unfolding l3 by auto
  let ?s1 = "s\<lparr>mem := m1\<rparr>"
  have n1: "native ?s1" "kb_inv ?s1" "kb_chars ?s1 = kb_chars s" using assms(1,2) by (simp_all add: native_def kb_inv_def kb_chars_def)
  have "peek (p + of_nat j) ?s1 = Some (str ''> '' ! j)" if "j < length (str ''> '')" for j
  proof -
    have j: "j < 2" using that by simp
    have "p + of_nat j \<in> A" using bytes_of_mem [of j 3 p] A(1) j by auto
    moreover have "m1 (pa (p + of_nat j)) = str ''> '' ! j" using m1(4) [rule_format, of j] j that by (simp only: nth_append if_True)
    ultimately show ?thesis using area_mmu [OF m1(2)] by (simp add: peek_def del: str_simps)
  qed
  then obtain es where es: "u_write disk r p 2 ?s1 = Ret (Some ()) ((fold vga_putchar (str ''> '') ?s1)\<lparr>port_log := port_log s @ es\<rparr>)" "sent_to COM1 es = str ''> ''"
    using native_write [OF n1(1) assms(7), of 2 "str ''> ''" disk r] assms(6) by auto
  let ?s2 = "(fold vga_putchar (str ''> '') ?s1)\<lparr>port_log := port_log s @ es\<rparr>"
  have n2: "native ?s2" "kb_inv ?s2" "kb_chars ?s2 = cs @ 0x0A # rest" "mem ?s2 = m1" "cr3 ?s2 = cr3 s" "port_dev ?s2 = port_dev s"
    using n1 assms(3) print_fields [of "str ''> ''" ?s1] by (simp_all add: native_def kb_inv_def kb_chars_def del: str_simps)
  have a2: "area_at A pa ?s2" by (rule area_keep [OF m1(2)]) (simp_all add: n2(4,5) del: str_simps)
  have b2: "buffer_at buf 64 (\<lambda>i. pa (buf + of_nat i)) ?s2" by (rule area_buffer [OF a2 A(2)]) simp
  have nz: "buf \<noteq> NULL" using assms(8) by auto
  have u63: "length cs < unat (63 :: u64)" "length cs < 64" using assms(5) by simp_all
  from native_read [OF n2(1-3) assms(4) u63(1) nz b2 u63(2), of disk r] obtain k m2 where
    rd: "u_read disk r buf 63 ?s2 = Ret (Some (of_nat (length cs + 1))) (?s2\<lparr>kb_read_pos := k, mem := m2\<rparr>)" "kb_chars (?s2\<lparr>kb_read_pos := k, mem := m2\<rparr>) = rest"
      "\<forall>i \<le> length cs. m2 (pa (buf + of_nat i)) = (cs @ [0x0A]) ! i" "\<forall>a. a \<notin> (\<lambda>i. pa (buf + of_nat i)) ` {..<64} \<longrightarrow> m2 a = mem ?s2 a" by blast
  let ?s3 = "?s2\<lparr>kb_read_pos := k, mem := m2\<rparr>" and ?n = "length cs + 1"
  have im: "(\<lambda>i. pa (buf + of_nat i)) ` {..<64} \<subseteq> pa ` A" using A(2) by (auto simp: bytes_of_def)
  have o2: "\<forall>a. a \<notin> pa ` A \<longrightarrow> m2 a = m1 a" using rd(4) im unfolding n2(4) by blast
  have a3: "area_at A pa ?s3" by (rule area_keep [OF a2]) (use o2 n2(4) in simp_all)
  have vn: "buf + of_nat ?n \<in> A" using bytes_of_mem [of ?n 64 buf] A(2) assms(5) by (auto simp del: of_nat_add)
  define m3 where "m3 = m2(pa (buf + of_nat ?n) := 0)"
  have pk: "poke (buf + of_nat ?n) 0 ?s3 = Ret () (?s2\<lparr>kb_read_pos := k, mem := m3\<rparr>)" "area_at A pa (?s2\<lparr>kb_read_pos := k, mem := m3\<rparr>)"
    using area_poke [OF a3 vn, of 0] by (simp_all add: m3_def del: str_simps of_nat_add)
  let ?s4 = "?s2\<lparr>kb_read_pos := k, mem := m3\<rparr>"
  have bd: "m3 (pa (buf + of_nat j)) = (cs @ [0x0A]) ! j" if "j \<le> length cs" for j
  proof -
    have "pa (buf + of_nat j) \<noteq> pa (buf + of_nat ?n)" using b2 inj_onD [of "\<lambda>i. pa (buf + of_nat i)" "{..<64}" j ?n] that assms(5) unfolding buffer_at_def by force
    then show ?thesis using rd(3) that unfolding m3_def by simp
  qed
  have n4: "native ?s4" "port_dev ?s4 = port_dev s" using n2(1,6) by (simp_all add: native_def del: str_simps)
  have "peek (buf + of_nat j) ?s4 = Some ((cs @ [0x0A]) ! j)" if "j < length (cs @ [0x0A])" for j
  proof -
    have "buf + of_nat j \<in> A" using bytes_of_mem [of j 64 buf] A(2) that assms(5) by auto
    moreover have "m3 (pa (buf + of_nat j)) = (cs @ [0x0A]) ! j" using bd that by simp
    ultimately show ?thesis using area_mmu [OF pk(2)] by (simp add: peek_def del: str_simps)
  qed
  moreover have "unat (of_nat ?n :: u64) = length (cs @ [0x0A])" using unat_addr [of ?n] assms(5) by simp
  ultimately obtain fs where fs: "u_write disk r buf (of_nat ?n) ?s4 = Ret (Some ()) ((fold vga_putchar (cs @ [0x0A]) ?s4)\<lparr>port_log := port_log ?s4 @ fs\<rparr>)" "sent_to COM1 fs = cs @ [0x0A]"
    using native_write [OF n4(1) assms(8), of "of_nat ?n" "cs @ [0x0A]" disk r] assms(6) n4(2) by (metis (no_types))
  define t where "t = (fold vga_putchar (cs @ [0x0A]) ?s4)\<lparr>port_log := port_log ?s4 @ fs\<rparr>"
  have run: "user_process_A disk r p buf s = u_exit disk r t"
    unfolding user_process_A_def m1(1) obind.simps es(1) option.case rd(1) pk(1) fs(1) t_def ..
  have "t = (fold vga_putchar (str ''> '' @ cs @ [0x0A]) s)\<lparr>port_log := port_log s @ es @ fs, kb_read_pos := k, mem := m3\<rparr>"
    unfolding t_def by (simp add: print_upd putchar_upd putchar_log del: str_simps)
  moreover have "kb_chars t = rest" using rd(2) print_fields(6) [of "cs @ [0x0A]" ?s4] unfolding t_def by (simp add: kb_chars_def del: str_simps fold_append)
  moreover have "\<forall>a. a \<notin> pa ` A \<longrightarrow> m3 a = mem s a" using o2 m1(3) vn unfolding m3_def by auto
  ultimately show ?thesis using run es(2) fs(2) unfolding A_def
    by (intro exI [of _ t] exI [of _ "es @ fs"] conjI exI [of _ k] exI [of _ m3]) (simp_all add: sent_to_append del: str_simps)
qed

text \<open>The line "hi".\<close>

theorem user_process_A_echoes_witness:
  "\<exists>t es. user_process_A disk_demo regs_demo 0x400000 0x400100 (fold kb_put [0x68, 0x69, 0x0A] (sys_demo\<lparr>port_dev := \<lambda>_ _. 0x20\<rparr>)) = u_exit disk_demo regs_demo t \<and>
     sent_to COM1 es = str ''> '' @ [0x68, 0x69, 0x0A] \<and> kb_chars t = []"
proof -
  let ?u = "sys_demo\<lparr>port_dev := \<lambda>_ _. 0x20\<rparr>" and ?l = "[0x68, 0x69, 0x0A :: u8]"
  let ?s = "fold kb_put ?l ?u" and ?A = "bytes_of 0x400000 3 \<union> bytes_of 0x400100 64"
  have "kb_chars sys_demo = []" using kb_demo_props(2) by (simp add: sys_demo_def rd_demo_def rd_state.defs kb_state.defs kb_chars_def)
  then have e: "kb_chars ?u = []" by (simp add: kb_chars_def)
  have i: "kb_inv ?u" using sys_demo_simps(7) by (simp add: kb_inv_def kb_chars_def)
  have q: "kb_inv ?s" "kb_chars ?s = [0x68, 0x69] @ 0x0A # []" using char_queue.put_all [OF i, of ?l] by (simp_all add: e)
  have d: "port_dev (kb_put c u) = port_dev u" for c and u :: sys_state by (simp add: kb_put_def Let_def)
  have n: "native ?s" "uart_ready (port_dev ?s)" by (simp_all add: native_def sys_demo_simps process_zero_def uart_ready_def d)
  have "kernel_addr v" if v: "v \<in> ?A" for v
  proof -
    have u: "unat (of_nat (b + i) :: u64) < 0x40000000" if "b \<le> 0x400100" "i < 64" for b i using unat_addr [of "b + i"] that by simp
    have "unat v < 0x40000000"
      using v unfolding bytes_of_def
    proof (elim UnE imageE)
      fix i :: nat assume "v = 0x400000 + of_nat i" "i \<in> {..<3}"
      then show ?thesis using u [of "0x400000" i] by simp
    next
      fix i :: nat assume "v = 0x400100 + of_nat i" "i \<in> {..<64}"
      then show ?thesis using u [of "0x400100" i] by simp
    qed
    then show ?thesis unfolding kernel_addr_def word_less_nat_alt by simp
  qed
  then have a: "area_at ?A id ?s" unfolding area_at_def by (simp add: mmu_def)
  have "length [0x68, 0x69 :: u8] < 63" "0x0A \<notin> set [0x68, 0x69 :: u8]" by simp_all
  from user_process_A_echoes [OF n(1) q this(2,1) n(2) _ _ a, of disk_demo regs_demo] show ?thesis by auto
qed

text \<open>The kernel processes. Each keeps the screen in order; the third prints one digit, from 2 to 7.\<close>

theorem process_turns:
  fixes s :: "'a sched_state_scheme"
  assumes "vga_inv s"
  shows "vga_inv (process_A s) \<and> vga_inv (snd (process_B tick s)) \<and> process_C s = vga_putchar (0x32 + ucast (ticks s mod 6)) s \<and> vga_inv (process_C s)"
proof -
  have "process_C s = vga_putchar (0x32 + ucast (ticks s mod 6)) s"
  proof -
    define w where "w = unat (ticks s mod 6)"
    have e: "ticks s mod 6 = of_nat w" by (simp add: w_def)
    have "w < 6" using word_mod_less_divisor [of 6 "ticks s"] unfolding w_def word_less_nat_alt by simp
    then consider "w = 0" | "w = 1" | "w = 2" | "w = 3" | "w = 4" | "w = 5" by linarith
    then show ?thesis by cases (simp_all add: e process_C_def timer_ticks_def vga_print_int_def vga_print_uint_def vga_uint_loop.simps)
  qed
  then show ?thesis using assms by (simp add: process_A_def process_B_def Let_def vga_print_inv vga_putchar_inv)
qed

end
