(* ===== verification/Loader.thy ===== *)
theory Loader
  imports Syscall_Effects
begin

text \<open>
  What loading a program (\<open>process_create_elf\<close> of \<open>src/filesystem/elf.c\<close>) does to the rest of the kernel: whatever the
  file holds, the scheduler's list, the queues and the descriptor table stay in order, and a process it
  returns is a new one.
\<close>

section \<open>The steps of the loader\<close>

context upper_state
begin

lemma new_space: "K s \<Longrightarrow> vmm_create_address_space s = (pt, t) \<Longrightarrow> K t"
proof -
  assume k: "K s" and c: "vmm_create_address_space s = (pt, t)"
  obtain f s1 where a: "pmm_alloc s = (f, s1)" by (cases "pmm_alloc s")
  have "K s1" by (rule alloc [OF k a])
  moreover have "vmm_state.more t = vmm_state.more s1" using c a by (auto simp: vmm_create_address_space_def Let_def split: if_splits)
  ultimately show "K t" using more by blast
qed

lemma switch: "K s \<Longrightarrow> K (vmm_switch_address_space pt s)"
  by (erule more [rotated]) (simp add: vmm_switch_address_space_def)

lemma stack_pages: "K s \<Longrightarrow> yields (\<lambda>_. K) (map_user_stack n i pt s)"
proof (induction n arbitrary: i s)
  case (Suc n)
  obtain f t where a: "pmm_alloc s = (f, t)" by (cases "pmm_alloc s")
  have "K t" using alloc [OF Suc.prems a] .
  then show ?case using a by (auto simp: Let_def intro!: yields_mono [OF map_in] Suc.IH)
qed simp

lemma segment_pages: "K s \<Longrightarrow> map_segment pt v e s = Some r \<Longrightarrow> yields (\<lambda>_. K) r"
proof -
  have "K s \<longrightarrow> yields (\<lambda>_. K) r" if "map_segment pt v e s = Some r" for v s r
  proof (rule map_segment.raw_induct [of "\<lambda>pt v e s r. K s \<longrightarrow> yields (\<lambda>_. K) r", OF _ that], rule impI)
    fix f pt v e and s :: "'a vmm_state_scheme" and r
    assume IH: "\<And>pt v e s r. f pt v e s = Some r \<Longrightarrow> K s \<longrightarrow> yields (\<lambda>_. K) r" and K: "K s"
      and b: "(if v < e then
        (case pmm_alloc s of (frame, s1) \<Rightarrow>
           if frame = NULL then Some (Ret False s1)
           else case vmm_map_in pt v frame (PTE_PRESENT OR PTE_USER OR PTE_WRITABLE) s1 of
                  Ret _ s2 \<Rightarrow> f pt (v + PAGE_SIZE) e s2 | Halt s2 \<Rightarrow> Some (Halt s2) | Hang \<Rightarrow> Some Hang | Fault \<Rightarrow> Some Fault)
      else Some (Ret True s)) = Some r"
    have al: "K s1" if "pmm_alloc s = (fr, s1)" for fr s1 by (rule alloc [OF K that])
    have mi: "yields (\<lambda>_. K) (vmm_map_in pt v fr fl s1)" if "pmm_alloc s = (fr, s1)" for fr s1 fl by (rule map_in [OF alloc [OF K that]])
    have step: "K t" if "pmm_alloc s = (fr, s1)" "vmm_map_in pt v fr fl s1 = Ret () t" for fr s1 fl t
      using mi [OF that(1), of fl] that(2) by simp
    show "yields (\<lambda>_. K) r" using b K IH al step mi by (auto split: prod.splits outcome.splits if_splits)
  qed
  then show "K s \<Longrightarrow> map_segment pt v e s = Some r \<Longrightarrow> yields (\<lambda>_. K) r" by blast
qed

end

context file_state
begin

lemma zeroed: "K s \<Longrightarrow> yields (\<lambda>_. K) (for_loop n i (\<lambda>z. poke (seg + of_nat z) 0) s)"
  by (rule yields_for_loop [of K]) (simp_all add: poke)

lemma segment: "K s \<Longrightarrow> yields (\<lambda>_. K) (load_segment ehdr phdr pt fd saved i lv s)"
proof -
  assume k: "K s"
  have sk: "K t" if "K s" "ramdisk_seek fd off w s = (r, t)" for off w r t s using file_seek [OF that(1), of fd off w] that(2) by simp
  have pg: "yields (\<lambda>_. K) (of_loop (map_segment pt v e t))" if "K t" for v e t by (rule yields_of_loop) (rule segment_pages [OF that])
  have fill: "yields (\<lambda>_. K) (case ramdisk_seek fd off w t of (_, s6) \<Rightarrow>
       obind (ramdisk_read fd (p_vaddr (mem s6) phdr) (p_filesz (mem s6) phdr) s6) (\<lambda>_ s7. Ret r (vmm_switch_address_space saved s7)))"
    if "K t" for t off w and r :: "u64 option"
    by (cases "ramdisk_seek fd off w t") (use sk [OF that] in \<open>auto intro!: yields_mono [OF file_read] switch\<close>)
  obtain r s1 where s1: "ramdisk_seek fd (e_phoff (mem s) ehdr + of_nat i * 56) 0 s = (r, s1)" by (cases "ramdisk_seek fd (e_phoff (mem s) ehdr + of_nat i * 56) 0 s")
  show ?thesis unfolding load_segment_def s1 prod.case Let_def yields_obind
    by (rule yields_mono [OF file_read [OF sk [OF k s1]]])
       (auto simp del: for_loop.simps intro!: yields_mono [OF pg] yields_mono [OF zeroed] fill file_close switch)
qed

lemma segments: "K s \<Longrightarrow> load_segments ehdr phdr pt fd saved i lv s = Some r \<Longrightarrow> yields (\<lambda>_. K) r"
proof -
  have "K s \<longrightarrow> yields (\<lambda>_. K) r" if "load_segments ehdr phdr pt fd saved i lv s = Some r" for s r
  proof (rule load_segments.raw_induct [of "\<lambda>ehdr phdr pt fd saved i lv s r. K s \<longrightarrow> yields (\<lambda>_. K) r", OF _ that], rule impI)
    fix f ehdr phdr pt fd saved i lv and s :: "'a rd_state_scheme" and r
    assume IH: "\<And>ehdr phdr pt fd saved i lv s r. f ehdr phdr pt fd saved i lv s = Some r \<Longrightarrow> K s \<longrightarrow> yields (\<lambda>_. K) r" and k: "K s"
      and e: "(if i < unat (e_phnum (mem s) ehdr) then
        (case load_segment ehdr phdr pt fd saved i lv s of
           Ret r s1 \<Rightarrow> (case r of None \<Rightarrow> Some (Ret None s1) | Some lv' \<Rightarrow> f ehdr phdr pt fd saved (i + 1) lv' s1)
         | Halt s1 \<Rightarrow> Some (Halt s1) | Hang \<Rightarrow> Some Hang | Fault \<Rightarrow> Some Fault)
      else Some (Ret (Some lv) s)) = Some r"
    show "yields (\<lambda>_. K) r"
    proof (cases "load_segment ehdr phdr pt fd saved i lv s")
      case (Ret x t)
      then have "K t" using segment [OF k, of ehdr phdr pt fd saved i lv] by simp
      moreover have "(if i < unat (e_phnum (mem s) ehdr) then
          (case x of None \<Rightarrow> Some (Ret None t) | Some lv' \<Rightarrow> f ehdr phdr pt fd saved (i + 1) lv' t) else Some (Ret (Some lv) s)) = Some r"
        using e unfolding Ret outcome.case .
      ultimately show ?thesis using k IH by (cases x) (auto split: if_splits)
    next
      case (Halt t)
      show ?thesis using e k unfolding Halt outcome.case by (auto split: if_splits)
    qed (use e k in \<open>auto split: if_splits\<close>)
  qed
  then show "K s \<Longrightarrow> load_segments ehdr phdr pt fd saved i lv s = Some r \<Longrightarrow> yields (\<lambda>_. K) r" by blast
qed

end

section \<open>A new process\<close>

text \<open>The kernel is in order, and \<open>p\<close> is a process that is not in the scheduler's list.\<close>

definition apart :: "u64 list \<Rightarrow> u64 \<Rightarrow> u64 \<Rightarrow> u64 \<Rightarrow> 'a rd_state_scheme \<Rightarrow> bool" where
  "apart ps c i p s \<longleftrightarrow> kernel_inv ps s \<and> current s = c \<and> idle s = i \<and> p \<noteq> NULL \<and> p \<notin> set (i # ps) \<and> procs s p \<noteq> None"

interpretation apart_upper: file_state "apart ps c i p" for ps c i p
proof
  fix s t :: "'a rd_state_scheme"
  assume m: "vmm_state.more t = vmm_state.more s" and k: "apart ps c i p s"
  show "apart ps c i p t" using kernel_inv_cong [OF more_fields [OF m]] more_fields [OF m] k by (simp add: apart_def)
qed (simp add: apart_def kernel_inv_fds)

interpretation at_upper: file_state "\<lambda>s. kernel_inv ps s \<and> current s = c \<and> idle s = i" for ps c i
proof
  fix s t :: "'a rd_state_scheme"
  assume m: "vmm_state.more t = vmm_state.more s" and k: "kernel_inv ps s \<and> current s = c \<and> idle s = i"
  show "kernel_inv ps t \<and> current t = c \<and> idle t = i" using kernel_inv_cong [OF more_fields [OF m]] more_fields [OF m] k by simp
qed (simp add: kernel_inv_fds)

text \<open>Changes to a process outside the list, even its removal, leave the list alone.\<close>

lemma sched_inv_outside:
  assumes "sched_inv s ps" "p \<notin> set (idle s # ps)"
  shows "sched_inv (s\<lparr>procs := (procs s)(p := x)\<rparr>) ps"
proof -
  have "chain ((procs s)(p := x)) (idle s) (idle s # ps) (idle s) = chain (procs s) (idle s) (idle s # ps) (idle s)"
    by (rule chain_cong) (use assms(2) in auto)
  then have "ring (s\<lparr>procs := (procs s)(p := x)\<rparr>) ps" using sched_invD(1) [OF assms(1)] by (simp add: ring_def del: chain.simps)
  then show ?thesis using assms by (auto simp: sched_inv_def simp del: map_option_eq_Some)
qed

lemma kernel_inv_outside: "kernel_inv ps s \<Longrightarrow> p \<notin> set (idle s # ps) \<Longrightarrow> kernel_inv ps (s\<lparr>procs := (procs s)(p := x)\<rparr>)"
  using sched_inv_outside [of s ps p x] rest_sameD [of s "s\<lparr>procs := (procs s)(p := x)\<rparr>"]
  by (simp add: kernel_inv_def rest_same_def kb_same_def)

lemma apart_upd: "apart ps c i p s \<Longrightarrow> apart ps c i p (upd_proc p f s)"
  using kernel_inv_outside [of ps s p "map_option f (procs s p)"] by (auto simp: apart_def upd_proc_def)

text \<open>While the header is read, the heap stays as it is: it is read into the kernel's own stack.\<close>

definition at_heap :: "u64 list \<Rightarrow> u64 \<Rightarrow> u64 \<Rightarrow> (nat \<times> nat) set \<Rightarrow> 'a rd_state_scheme \<Rightarrow> bool" where
  "at_heap ps c i L s \<longleftrightarrow> kernel_inv ps s \<and> current s = c \<and> idle s = i \<and> heap_inv s \<and> live s = L"

interpretation at_heap: fd_state "at_heap ps c i L" for ps c i L
  by unfold_locales (simp add: at_heap_def kernel_inv_fds heap_cong [of "s\<lparr>fds := f\<rparr>" s for s f])

lemma below_heap:
  assumes h: "heap_inv s" and a: "unat a < HEAP_BASE"
  shows "heap_inv (s\<lparr>mem := (mem s)(a := v)\<rparr>)" "live (s\<lparr>mem := (mem s)(a := v)\<rparr>) = live s"
proof -
  let ?bs = "heap_blocks s" and ?m = "(mem s)(a := v)"
  have r: "heap_head s = HEAP_START" "?bs \<noteq> []" "span ?bs = HEAP_BYTES" "rep (mem s) HEAP_BASE ?bs"
    using h by (simp_all add: heap_inv_def heap_rep_def)
  have "same_on (mem s) ?m HEAP_BASE (HEAP_BASE + span ?bs)" using a by (auto simp: same_on_def)
  then have "rep ?m HEAP_BASE ?bs" using rep_same_range [of "mem s" ?m HEAP_BASE ?bs] r(3,4) heap_bounds(2) by simp
  with r have hr: "heap_rep (s\<lparr>mem := ?m\<rparr>) ?bs" by (simp add: heap_rep_def)
  show "heap_inv (s\<lparr>mem := ?m\<rparr>)" by (rule heap_rep_inv [OF hr])
  show "live (s\<lparr>mem := ?m\<rparr>) = live s" unfolding live_def heap_rep_blocks [OF hr] ..
qed

lemma header_read:
  assumes k: "at_heap ps c i L s" and e: "unat ehdr + 64 \<le> 0x40000000"
  shows "yields (\<lambda>_. at_heap ps c i L) (ramdisk_read fd ehdr 64 s)"
proof (rule at_heap.read_into [OF k])
  fix j b and t :: "'a rd_state_scheme" assume j: "j < unat (64::u64)" and t: "at_heap ps c i L t"
  have u: "unat (ehdr + of_nat j) = unat ehdr + j" using e j by (simp add: unat_word_ariths unat_of_nat)
  then have "kernel_addr (ehdr + of_nat j)" using e j by (simp add: kernel_addr_def word_less_nat_alt)
  moreover have "unat (ehdr + of_nat j) < HEAP_BASE" using u e j by (simp add: HEAP_BASE_def HEAP_START_def)
  ultimately show "yields (\<lambda>_. at_heap ps c i L) (poke (ehdr + of_nat j) b t)"
    using t below_heap [of t "ehdr + of_nat j" b] kernel_inv_cong [of "t\<lparr>mem := (mem t)(ehdr + of_nat j := b)\<rparr>" t]
    by (simp add: at_heap_def rest_same_def kb_same_def)
qed

text \<open>The new descriptor is not one of the processes' own, which are all areas in use.\<close>

definition procs_live :: "u64 set \<Rightarrow> (nat \<times> nat) set \<Rightarrow> bool" where
  "procs_live A L \<longleftrightarrow> (\<forall>x \<in> A. \<exists>n. (unat x, n) \<in> L)"

lemma alloc_apart:
  assumes k: "at_heap ps c i L s" and l: "procs_live (set (i # ps)) L"
  shows "\<exists>p t. process_alloc s = Ret p t \<and> kernel_inv ps t \<and> current t = c \<and> idle t = i \<and> (p \<noteq> NULL \<longrightarrow> apart ps c i p t)"
proof -
  have inv: "heap_inv s" and k': "kernel_inv ps s" "current s = c" "idle s = i" "live s = L" using k by (simp_all add: at_heap_def)
  have K: "kernel_inv ps (s\<lparr>mem := m\<rparr>)" for m using kernel_inv_cong [of "s\<lparr>mem := m\<rparr>" s] k'(1) by (simp add: rest_same_def kb_same_def)
  from two_areas [OF inv] obtain p s1 where k1: "kcalloc 1 PROCESS_SIZE s = Ret p s1" and
    "p = NULL \<and> s1 = s \<or>
     p \<noteq> NULL \<and> (\<exists>stack s2. kmalloc KERNEL_STACK_SIZE s1 = Ret stack s2 \<and>
       (stack = NULL \<and> (\<exists>s3 m. kfree p s2 = Ret () s3 \<and> s3 = s\<lparr>mem := m\<rparr>) \<or>
        stack \<noteq> NULL \<and> heap_inv s2 \<and> (\<exists>m. s2 = s\<lparr>mem := m\<rparr>) \<and>
          (\<exists>n k. live s2 = insert (unat stack, k) (insert (unat p, n) (live s)) \<and> (unat p, n) \<notin> live s)))" by blast
  then consider (nul) "p = NULL" "s1 = s"
    | (nostack) s2 m where "p \<noteq> NULL" "kmalloc KERNEL_STACK_SIZE s1 = Ret NULL s2" "kfree p s2 = Ret () (s\<lparr>mem := m\<rparr>)"
    | (ok) stack m n k where "p \<noteq> NULL" "kmalloc KERNEL_STACK_SIZE s1 = Ret stack (s\<lparr>mem := m\<rparr>)" "stack \<noteq> NULL"
        "heap_inv (s\<lparr>mem := m\<rparr>)" "live (s\<lparr>mem := m\<rparr>) = insert (unat stack, k) (insert (unat p, n) (live s))" "(unat p, n) \<notin> live s" by blast
  then show ?thesis
  proof cases
    case nul
    then show ?thesis using k1 k' by (simp add: process_alloc_def)
  next
    case nostack
    then show ?thesis using k1 k' K by (simp add: process_alloc_def)
  next
    case ok
    have "p \<notin> set (i # ps)"
    proof
      assume "p \<in> set (i # ps)"
      then obtain n' where n': "(unat p, n') \<in> live s" using l k'(4) by (auto simp: procs_live_def)
      then have "n' = n" using kernel_heap.areas_disjoint [OF ok(4), of "unat p" n "unat p" n'] ok(5) kernel_heap.areas_pos [OF ok(4)] by auto
      with n' ok(6) show False by simp
    qed
    moreover have "kernel_inv ps (s\<lparr>mem := m, procs := (procs s)(p \<mapsto> pr), next_pid := n\<rparr>)" for pr n
      using kernel_inv_outside [OF K, of p m "Some pr"] calculation k'(3)
        kernel_inv_cong [of "s\<lparr>mem := m, procs := (procs s)(p \<mapsto> pr), next_pid := n\<rparr>" "s\<lparr>mem := m, procs := (procs s)(p \<mapsto> pr)\<rparr>"]
      by (simp add: rest_same_def kb_same_def)
    ultimately show ?thesis using k1 k' ok(1-3) by (simp add: process_alloc_def apart_def)
  qed
qed

lemma destroy_apart:
  assumes k: "apart ps c i p s"
  shows "yields (\<lambda>_ t. kernel_inv ps t \<and> current t = c \<and> idle t = i) (process_destroy p s)"
proof -
  have m: "yields (\<lambda>_. apart ps c i p) (kfree q t)" if "apart ps c i p t" for q t
    using kfree_mem [of q t] apart_upper.more [OF _ that] by (cases "kfree q t") auto
  have u: "kernel_inv ps (t\<lparr>procs := (procs t)(p := None)\<rparr>) \<and> current t = c \<and> idle t = i" if "apart ps c i p t" for t
    using that kernel_inv_outside [of ps t p None] by (simp add: apart_def)
  obtain pr where "p \<noteq> NULL" "procs s p = Some pr" using k by (auto simp: apart_def)
  then show ?thesis unfolding process_destroy_def by (auto intro!: yields_mono [OF m [OF k]] yields_mono [OF m] dest: u)
qed

text \<open>Everything after the descriptor has been made.\<close>

definition elf_result :: "u64 list \<Rightarrow> u64 \<Rightarrow> u64 \<Rightarrow> u64 \<Rightarrow> 'a rd_state_scheme \<Rightarrow> bool" where
  "elf_result ps c i p t \<longleftrightarrow> kernel_inv ps t \<and> current t = c \<and> idle t = i \<and> (p \<noteq> NULL \<longrightarrow> apart ps c i p t)"

lemma elf_result_simps [simp]:
  "elf_result ps c i NULL t \<longleftrightarrow> kernel_inv ps t \<and> current t = c \<and> idle t = i"
  "apart ps c i p t \<Longrightarrow> elf_result ps c i p t"
  by (auto simp: elf_result_def apart_def)

lemma elf_start_ok:
  assumes k: "apart ps c i p s"
  shows "yields (elf_result ps c i) (elf_start syms ehdr p hs s)"
proof -
  obtain pr where pr: "procs s p = Some pr" using k by (auto simp: apart_def)
  have "apart ps c i p (s\<lparr>mem := m\<rparr>)" for m by (rule apart_upper.more [OF _ k]) simp
  from apart_upd [OF this] show ?thesis unfolding elf_start_def deref_def pr option.case Let_def serial_print_hex_def yields_obind
    by (intro yields_mono [OF apart_upper.serial [of ps c i p]]) (auto simp del: str_simps)
qed

lemma elf_load_ok:
  assumes k: "apart ps c i p s"
  shows "yields (elf_result ps c i) (elf_load syms ehdr phdr abi fd p s)"
proof -
  obtain pt s1 where s1: "vmm_create_address_space s = (pt, s1)" by (cases "vmm_create_address_space s")
  have k2: "apart ps c i p (upd_proc p f s1)" for f by (rule apart_upd [OF apart_upper.new_space [OF k s1]])
  have nl: "elf_result ps c i NULL t" if "apart ps c i p t" for t using that by (simp add: apart_def)
  have cl: "elf_result ps c i NULL (ramdisk_close fd t)" if "kernel_inv ps t \<and> current t = c \<and> idle t = i" for t
    using at_upper.file_close [OF that, of fd] by simp
  have ld: "yields (\<lambda>_. apart ps c i p) (of_loop (load_segments ehdr phdr pt fd cr 0 0 (upd_proc p f t)))" if "apart ps c i p t" for cr f t
    by (rule yields_of_loop) (rule apart_upper.segments [OF apart_upd [OF that]])
  note st = elf_start_ok [OF apart_upper.file_close]
  show ?thesis
  proof (cases "pt = 0")
    case True
    then show ?thesis unfolding elf_load_def s1 prod.case using yields_mono [OF destroy_apart [OF k2] cl] by (simp add: Let_def)
  next
    case False
    then show ?thesis unfolding elf_load_def s1 prod.case Let_def yields_obind
      by (simp del: map_user_stack.simps elf_result_simps(1)) (rule yields_mono [OF apart_upper.stack_pages [OF k2]],
         auto intro!: yields_mono [OF ld] st nl split: option.split simp: apart_upper.file_close simp del: elf_result_simps(1))
  qed
qed

lemma elf_ok:
  fixes s :: "'a rd_state_scheme"
  assumes k: "kernel_inv ps s" and h: "heap_inv s" "procs_live (set (idle s # ps)) (live s)" and e: "unat ehdr + 64 \<le> 0x40000000"
  shows "yields (elf_result ps (current s) (idle s)) (process_create_elf syms disk ehdr phdr path abi s)"
proof -
  let ?c = "current s" and ?i = "idle s"
  let ?A = "\<lambda>t :: 'a rd_state_scheme. kernel_inv ps t \<and> current t = ?c \<and> idle t = ?i"
  have k0: "at_heap ps ?c ?i (live s) s" using k h(1) by (simp add: at_heap_def)
  have at: "?A t" if "at_heap ps ?c ?i (live s) t" for t using that by (simp add: at_heap_def)
  have cl: "elf_result ps ?c ?i NULL (ramdisk_close fd t)" if "?A t" for fd t using at_upper.file_close [OF that, of fd] by simp
  have al: "yields (elf_result ps ?c ?i) (obind (process_alloc t) (\<lambda>p t3.
      if p = NULL then Ret NULL (ramdisk_close fd t3) else elf_load syms ehdr phdr abi fd p t3))" if t: "at_heap ps ?c ?i (live s) t"
    for fd and t :: "'a rd_state_scheme"
  proof -
    obtain p t3 where a: "process_alloc t = Ret p t3" "?A t3" "p \<noteq> NULL \<longrightarrow> apart ps ?c ?i p t3" using alloc_apart [OF t h(2)] by blast
    show ?thesis unfolding a(1) obind.simps using a(3) elf_load_ok [of ps ?c ?i p t3] cl [OF a(2)] by (simp del: elf_result_simps(1))
  qed
  have se: "yields (\<lambda>_. ?A) (serial_print cs t)" if "at_heap ps ?c ?i (live s) t" for cs t by (rule at_upper.serial [OF at [OF that]])
  show ?thesis unfolding process_create_elf_def yields_obind
  proof (rule yields_mono [OF at_heap.file_open [OF k0]])
    fix fd :: int and t :: "'a rd_state_scheme" assume t: "at_heap ps ?c ?i (live s) t"
    show "yields (elf_result ps ?c ?i)
      (if fd < 0 then obind (serial_print (str ''ELF: file not found'' @ [0x0A]) t) (\<lambda>_ s2. Ret NULL s2)
       else obind (ramdisk_read fd ehdr 64 t) (\<lambda>_ s2.
         if bad_header (mem s2) ehdr
         then obind (serial_print (str ''ELF: bad header'' @ [0x0A]) s2) (\<lambda>_ s3. Ret NULL (ramdisk_close fd s3))
         else obind (process_alloc s2) (\<lambda>proc s3.
           if proc = NULL then Ret NULL (ramdisk_close fd s3)
           else elf_load syms ehdr phdr abi fd proc s3)))"
    proof (cases "fd < 0")
      case True
      then show ?thesis using yields_mono [OF se [OF t]] by (simp del: str_simps str_append)
    next
      case False
      show ?thesis unfolding if_not_P [OF False] yields_obind [of _ "ramdisk_read fd ehdr 64 t"]
        by (rule yields_mono [OF header_read [OF t e]], split if_split, intro conjI impI al, unfold yields_obind,
            rule yields_mono [OF se], assumption, simp add: cl del: elf_result_simps(1))
    qed
  qed
qed

section \<open>Files that are refused\<close>





end
