(* ===== verification/Boot.thy ===== *)
theory Boot
  imports Loader
begin

text \<open>
  Start-up: \<open>kernel_main\<close> of \<open>src/kernel.c\<close>, as built without the self-tests. The addresses of functions and static
  objects that the code takes are given; the processor's interrupt flag, which \<open>sti\<close> sets, is not part of the state.
  The memory tables \<open>boot.asm\<close> leaves behind are the starting point: one table per level, entry 0 linked
  to the next, and large pages in the page directory.
\<close>

section \<open>The entry point\<close>

record boot_syms =
  kernel_start :: u64
  kernel_end :: u64
  gdt_at :: u64
  tss_at :: u64
  idt_at :: u64
  isr_stub_table :: "nat \<Rightarrow> u64"
  syscall_entry :: u64
  vmm_init_fn :: u64
  process_A_fn :: u64
  ehdr_at :: u64
  phdr_at :: u64
  doom_path_at :: u64

record main_state = sys_state +
  cr0 :: u64
  cr4 :: u64

definition ok_line :: "string \<Rightarrow> u8 list" where
  "ok_line name = str (''[OK] '' @ name) @ [0x0A]"

definition kernel_init :: "boot_syms \<Rightarrow> kernel_syms \<Rightarrow> 'a rd_state_scheme \<Rightarrow> ('a rd_state_scheme, unit) outcome" where
  "kernel_init b syms s =
     (let s1 = vga_print (str ''Kernel Booting...'' @ [0x0A]) (vga_init (serial_init s));
          s2 = vga_print (ok_line ''GDT'') (gdt_init (gdt_at b) (tss_at b) (syscall_entry b) s1);
          s3 = vga_print (ok_line ''IDT'') (idt_init (idt_at b) (isr_stub_table b) s2);
          s4 = vga_print (ok_line ''PIC'') (pic_init s3);
          s5 = vga_print (ok_line ''Keyboard'') (keyboard_init s4)
      in obind (pmm_init (kernel_start b) (kernel_end b) s5) (\<lambda>_ t1.
         let t2 = vga_print (ok_line ''PMM'') t1;
             t3 = vga_print (ok_line ''VMM'') (vmm_init (vmm_init_fn b) t2)
         in obind (heap_init t3) (\<lambda>_ t4.
            let t5 = vga_print (ok_line ''Heap'') t4
            in obind (timer_init 100 t5) (\<lambda>_ t6.
               let t7 = vga_print (ok_line ''Timer'') t6
               in obind (scheduler_init syms t7) (\<lambda>_ t8.
                  let t9 = vga_print (ok_line ''Scheduler'') t8;
                      u1 = vga_print (ok_line ''Syscall'') (syscall_init (syscall_entry b) t9);
                      u2 = vga_print (str ''[OK] FrameBuf'') (fb_init u1)
                  in Ret () (vga_print (str ''[OK] Ramdisk'') (ramdisk_init u2)))))))"






section \<open>Memory at start-up\<close>

text \<open>
  The tables of \<open>boot.asm\<close>: all three lie in the kernel image, and the first two have only entry 0.
\<close>

definition boot_paging :: "u64 \<Rightarrow> u64 \<Rightarrow> 'a vmm_state_scheme \<Rightarrow> bool" where
  "boot_paging ks ke s \<longleftrightarrow> boot_tables s \<and>
     (let p4 = ENTRY_ADDR (cr3 s); e4 = load64 (mem s) (entry_addr p4 0);
          p3 = ENTRY_ADDR e4; pd = ENTRY_ADDR (load64 (mem s) (entry_addr p3 0))
      in e4 AND PTE_HUGE = 0 \<and> p4 \<noteq> p3 \<and>
         (\<forall>i. i \<noteq> 0 \<longrightarrow> unat i < 512 \<longrightarrow> load64 (mem s) (entry_addr p4 i) AND PTE_PRESENT = 0) \<and>
         (\<forall>i. i \<noteq> 0 \<longrightarrow> unat i < 512 \<longrightarrow> load64 (mem s) (entry_addr p3 i) AND PTE_PRESENT = 0) \<and>
         (\<forall>t \<in> {p4, p3, pd}. ks \<le> t \<and> t < ke))"

lemma vmm_init_mem:
  assumes "pd = ENTRY_ADDR (load64 (mem s) (entry_addr (ENTRY_ADDR (load64 (mem s) (entry_addr (ENTRY_ADDR (cr3 s)) 0))) 0))"
  defines "m \<equiv> for_upd 512 0 (\<lambda>i m. if load64 m (entry_addr pd (of_nat i)) AND PTE_PRESENT = 0
            then store64 m (entry_addr pd (of_nat i)) (push_bit 21 (of_nat i) OR PTE_PRESENT OR PTE_WRITABLE OR PTE_HUGE)
            else m) (mem s)"
  shows "mem (vmm_init self s) = m" and "console_only (s\<lparr>mem := m\<rparr>) (vmm_init self s)"
proof -
  show "console_only (s\<lparr>mem := m\<rparr>) (vmm_init self s)" unfolding vmm_init_def Let_def assms(1) [symmetric] m_def [symmetric] by simp
  from console_only_vmm(1) [OF this] show "mem (vmm_init self s) = m" by simp
qed

lemma vmm_init_loads:
  assumes "pd = ENTRY_ADDR (load64 (mem s) (entry_addr (ENTRY_ADDR (load64 (mem s) (entry_addr (ENTRY_ADDR (cr3 s)) 0))) 0))"
    and "page_aligned t" and "unat i < 512"
  shows "load64 (mem (vmm_init self s)) (entry_addr t i) =
    (if t = pd then init_entry (unat i) (load64 (mem s) (entry_addr pd i)) else load64 (mem s) (entry_addr t i))"
proof -
  have "page_aligned pd" unfolding assms(1) by (rule page_aligned_ENTRY_ADDR)
  then show ?thesis unfolding vmm_init_mem(1) [OF assms(1)] by (rule init_loop [OF _ assms(2,3)])
qed

text \<open>The tables after \<open>vmm_init\<close>: nothing is reached but these three, and large pages.\<close>

lemma boot_pview:
  fixes s :: "'a vmm_state_scheme" and self :: u64
  assumes b: "boot_paging ks ke s"
  defines "p4 \<equiv> ENTRY_ADDR (cr3 s)" and "m \<equiv> mem (vmm_init self s)"
  defines "p3 \<equiv> ENTRY_ADDR (load64 (mem s) (entry_addr p4 0))"
  defines "pd \<equiv> ENTRY_ADDR (load64 (mem s) (entry_addr p3 0))"
  shows "unat i < 512 \<Longrightarrow> pview m p4 [i] = (if i = 0 then Some (p3, False) else None)"
    and "unat i < 512 \<Longrightarrow> unat j < 512 \<Longrightarrow> pview m p4 [j, i] = (if i = 0 \<and> j = 0 then Some (pd, False) else None)"
    and "unat i < 512 \<Longrightarrow> unat j < 512 \<Longrightarrow> unat k < 512 \<Longrightarrow> pview m p4 [k, j, i] \<noteq> Some (t, False)"
    and "p4 \<noteq> p3" "pd \<noteq> p4" "pd \<noteq> p3"
proof -
  note d = b [unfolded boot_paging_def boot_tables_def Let_def, folded p4_def, folded p3_def, folded pd_def]
  show ne: "p4 \<noteq> p3" "pd \<noteq> p4" "pd \<noteq> p3" using d by blast+
  have al: "page_aligned p4" "page_aligned p3" "page_aligned pd" unfolding p4_def p3_def pd_def by (rule page_aligned_ENTRY_ADDR)+
  note ld = vmm_init_loads [of pd s, folded p4_def, folded p3_def, OF pd_def [THEN meta_eq_to_obj_eq], where self = self, folded m_def]
  have l4: "load64 m (entry_addr p4 x) = load64 (mem s) (entry_addr p4 x)" if "unat x < 512" for x using ld [OF al(1) that] ne by simp
  have l3: "load64 m (entry_addr p3 x) = load64 (mem s) (entry_addr p3 x)" if "unat x < 512" for x using ld [OF al(2) that] ne by simp
  have e4: "eview (load64 (mem s) (entry_addr p4 0)) = Some (p3, False)" "eview (load64 (mem s) (entry_addr p3 0)) = Some (pd, False)"
    using d by (simp_all add: eview_def p3_def pd_def)
  have n: "eview (load64 (mem s) (entry_addr p4 x)) = None" "eview (load64 (mem s) (entry_addr p3 x)) = None" if "x \<noteq> 0" "unat x < 512" for x
    using d that by (simp_all add: eview_def)
  show v1: "pview m p4 [i] = (if i = 0 then Some (p3, False) else None)" if "unat i < 512" for i
    using l4 [OF that] e4(1) n(1) [OF _ that] by simp
  show v2: "pview m p4 [j, i] = (if i = 0 \<and> j = 0 then Some (pd, False) else None)" if "unat i < 512" "unat j < 512" for i j
    unfolding pview.simps(2) [of m p4 j] v1 [OF that(1)] using l3 [OF that(2)] e4(2) n(2) [OF _ that(2)] by (cases "j = 0") simp_all
  show "pview m p4 [k, j, i] \<noteq> Some (t, False)" if "unat i < 512" "unat j < 512" "unat k < 512"
  proof -
    let ?e = "load64 (mem s) (entry_addr pd k)"
    have "init_entry (unat k) ?e AND PTE_HUGE \<noteq> 0"
    proof (cases "?e AND PTE_PRESENT = 0")
      case True
      then show ?thesis using large_page_entry(2) [of _ "of_nat (unat k)"] by (simp add: init_entry_def)
    next
      case False
      have "of_nat (unat k) = k" by (metis of_nat_unat ucast_id)
      moreover have "\<forall>k < 512. load64 (mem s) (entry_addr pd (of_nat k)) AND PTE_PRESENT = 0 \<or>
          load64 (mem s) (entry_addr pd (of_nat k)) AND PTE_HUGE \<noteq> 0 \<and>
          ENTRY_ADDR (load64 (mem s) (entry_addr pd (of_nat k))) = push_bit 21 (of_nat k)" using d by blast
      ultimately have "?e AND PTE_HUGE \<noteq> 0" using False that(3) by metis
      then show ?thesis using False by (simp add: init_entry_def)
    qed
    then show ?thesis unfolding pview.simps(2) [of m p4 k] v2 [OF that(1,2)] using ld [OF al(3) that(3)]
      by (auto simp: eview_def)
  qed
qed

text \<open>With the frames of the image in use, the address space is well formed and has no large page where the heap goes.\<close>

lemma boot_as_wf:
  fixes s :: "'a vmm_state_scheme"
  assumes b: "boot_paging ks ke s" and inv: "pmm_inv s" and ke: "ke \<le> 0x8000000"
    and fs: "free_set s = {256..<TOTAL_FRAMES} - {unat ks div 4096..<(unat ke + 4095) div 4096}"
  shows "as_wf (ENTRY_ADDR (cr3 s)) (vmm_init self s)" "tables_avoid HEAP_START (ENTRY_ADDR (cr3 s)) (mem (vmm_init self s))"
    "j < HEAP_PAGES \<Longrightarrow> no_huge (ENTRY_ADDR (cr3 s)) (heap_page j) (mem (vmm_init self s))"
proof -
  let ?p4 = "ENTRY_ADDR (cr3 s)" and ?t = "vmm_init self s"
  define p3 where "p3 = ENTRY_ADDR (load64 (mem s) (entry_addr ?p4 0))"
  define pd where "pd = ENTRY_ADDR (load64 (mem s) (entry_addr p3 0))"
  note bp = boot_pview(1-3) [OF b, where self = self, folded p3_def, folded pd_def] boot_pview(4-6) [OF b, folded p3_def, folded pd_def]
  have img: "ks \<le> x \<and> x < ke" if "x \<in> {?p4, p3, pd}" for x
    using b that unfolding boot_paging_def Let_def p3_def pd_def by blast
  note co = vmm_init_mem(2) [OF refl, of s self]
  have inv': "pmm_inv ?t" and av: "avail ?t = avail s"
    using console_only_vmm(3,4) [OF co] inv by (simp_all add: avail_def free_set_def bitmap_test_def pmm_inv_def)
  have tab: "q = [] \<and> u = ?p4 \<or> q = [0] \<and> u = p3 \<or> q = [0, 0] \<and> u = pd"
    if q: "vpath q" "length q \<le> 3" "pview (mem ?t) ?p4 q = Some (u, False)" for q u
  proof -
    consider "q = []" | i where "q = [i]" | i j where "q = [j, i]" | i j k where "q = [k, j, i]"
      using q(2) by (cases q rule: remdups_adj.cases; cases "tl (tl q)") (auto simp: length_Suc_conv le_Suc_eq)
    then show ?thesis
    proof cases
      case 1
      then show ?thesis using q(3) by simp
    next
      case 2
      then show ?thesis using q(1,3) bp(1) [of i] by (auto simp: vpath_def simp del: pview.simps split: if_splits)
    next
      case 3
      then show ?thesis using q(1,3) bp(2) [of i j] by (auto simp: vpath_def simp del: pview.simps split: if_splits)
    next
      case 4
      then show ?thesis using q(1,3) bp(3) [of i j k u] by (auto simp: vpath_def simp del: pview.simps)
    qed
  qed
  have nav: "u \<notin> avail s" if "u \<in> {?p4, p3, pd}" for u
  proof
    assume "u \<in> avail s"
    then obtain i where i: "i \<in> free_set s" "u = frame_addr i" by (auto simp: avail_def)
    have u: "unat u = i * 4096" using i unat_frame_addr [of i] fs by simp
    have "unat ks \<le> i * 4096" "i * 4096 < unat ke" using img [OF that] u by (simp_all add: word_le_nat_alt word_less_nat_alt)
    then have "unat ks div 4096 \<le> i" "i < (unat ke + 4095) div 4096" by linarith+
    then show False using i(1) fs by simp
  qed
  show "as_wf ?p4 ?t" unfolding as_wf_def av
  proof (intro conjI allI impI inv' page_aligned_ENTRY_ADDR)
    fix q q' u assume "vpath q" "vpath q'" "length q \<le> 3" "length q' \<le> 3"
      "pview (mem ?t) ?p4 q = Some (u, False)" "pview (mem ?t) ?p4 q' = Some (u, False)"
    then show "q = q'" using tab [of q u] tab [of q' u] bp(4-6) by blast
  next
    fix q u assume "vpath q" "length q \<le> 3" "pview (mem ?t) ?p4 q = Some (u, False)"
    then show "u \<notin> avail s" using tab [of q u] nav by blast
  next
    fix i :: u64 and u assume "unat i < 512"
    then show "pview (mem ?t) ?p4 [i] \<noteq> Some (u, True)" using bp(1) [of i] by (simp del: pview.simps)
  qed
  have hs: "HEAP_START \<notin> {?p4, p3, pd}"
  proof
    assume "HEAP_START \<in> {?p4, p3, pd}"
    from img [OF this] have "HEAP_START < 0x8000000" using ke by (meson order_less_le_trans)
    then show False by (simp add: HEAP_START_def)
  qed
  show "tables_avoid HEAP_START ?p4 (mem ?t)" unfolding tables_avoid_def
  proof (intro allI impI notI)
    fix q assume "vpath q" "length q \<le> 3" "pview (mem ?t) ?p4 q = Some (HEAP_START, False)"
    then show False using tab [of q HEAP_START] hs by blast
  qed
  show "no_huge ?p4 (heap_page j) (mem ?t)" if "j < HEAP_PAGES"
  proof -
    have "PDPT_INDEX (heap_page j) \<noteq> 0"
    proof
      assume z: "PDPT_INDEX (heap_page j) = 0"
      have u: "unat (heap_page j) = 0xC0000000 + 4096 * j" using unat_heap_page [OF that] by simp
      have "unat (PDPT_INDEX (heap_page j)) = 3"
      proof -
        have "unat (drop_bit 30 (heap_page j)) = 3" using that by (simp add: drop_bit_eq_div unat_div u HEAP_PAGES_def)
        then have "drop_bit 30 (heap_page j) = 3" by (simp add: word_unat_eq_iff)
        then show ?thesis by (simp add: PDPT_INDEX_def)
      qed
      with z show False by simp
    qed
    then have n2: "pview (mem ?t) ?p4 [PDPT_INDEX (heap_page j), PML4_INDEX (heap_page j)] = None"
      using bp(2) [OF index_bounds(1) index_bounds(2), of "heap_page j" "heap_page j"] by (simp del: pview.simps)
    then have "pview (mem ?t) ?p4 [PD_INDEX (heap_page j), PDPT_INDEX (heap_page j), PML4_INDEX (heap_page j)] = None"
      by (simp add: pview.simps(2) [of _ _ "PD_INDEX (heap_page j)"] del: pview.simps)
    with n2 show ?thesis unfolding no_huge_def by (simp del: pview.simps)
  qed
qed

section \<open>Memory for processes\<close>

text \<open>What a process leaves of a large free block.\<close>

lemma process_create_leaves:
  fixes s :: "'a proc_state_scheme"
  assumes inv: "heap_inv s" and big: "(n, True) \<in> set (heap_blocks s)" "16664 + j \<le> n" "8 < j"
    and run: "process_create syms entry s = Ret p s'"
  shows "p \<noteq> NULL" "\<exists>n' \<ge> j. (n', True) \<in> set (heap_blocks s')" "no_free_pair (heap_blocks s) \<Longrightarrow> no_free_pair (heap_blocks s')"
proof -
  have "fit 232 (heap_blocks s) \<noteq> None" using big unfolding fit_none by (fastforce dest: bspec [OF _ big(1)])
  then obtain d cs where f1: "fit 232 (heap_blocks s) = Some (d, cs)" by auto
  then have "fit (round8 (unat (1::u64) * unat PROCESS_SIZE)) (heap_blocks s) = Some (d, cs)" by (simp add: round8_def)
  from kcalloc_fits [OF inv _ _ _ this] obtain q s1 where
    k1: "kcalloc 1 PROCESS_SIZE s = Ret q s1" "q \<noteq> NULL" "heap_inv s1" "heap_blocks s1 = cs" by auto
  obtain n1 where n1: "16408 + j \<le> n1" "(n1, True) \<in> set cs" using fit_leaves [OF f1 big(1), of "16408 + j"] big(2) by auto
  have r: "round8 16384 = 16384" by (simp add: round8_def)
  have "fit 16384 cs \<noteq> None" unfolding fit_none using n1(1) by (fastforce dest: bspec [OF _ n1(2)])
  then obtain d' cs' where f2: "fit 16384 cs = Some (d', cs')" by auto
  from kmalloc_fits [OF k1(3), of KERNEL_STACK_SIZE d' cs'] f2 obtain stack s2 where
    k2: "kmalloc KERNEL_STACK_SIZE s1 = Ret stack s2" "stack \<noteq> NULL" "heap_inv s2" "heap_blocks s2 = cs'" by (auto simp: r k1(4))
  obtain n2 where n2: "j \<le> n2" "(n2, True) \<in> set cs'" using fit_leaves [OF f2 n1(2), of j] n1(1) big(3) by auto
  obtain k where k: "16384 \<le> k" "(unat stack, k) \<in> live s2" using kmalloc_live [OF k1(3), of KERNEL_STACK_SIZE] k2(1,2) by auto
  have b: "unat stack + 16384 \<le> 2 ^ 63" using live_bounds [OF k2(3) k(2)] heap_bounds(2) k(1) by simp
  let ?sp = "stack + KERNEL_STACK_SIZE - 8"
  let ?m = "store64 (store64 (mem s2) ?sp entry) (?sp - 8) (process_trampoline_fn syms)"
  note st = stack_push2 [OF b, where m = "mem s2" and x = entry and y = "process_trampoline_fn syms"]
  have w: "heap_blocks (s2\<lparr>mem := ?m\<rparr>) = heap_blocks s2" by (rule heap_write [OF k2(3) k(2)]; rule st(3); use k(1) in simp)
  have e: "p = q" "mem s' = ?m" "heap_head s' = heap_head s2" using run k1(1,2) k2(1,2) by (auto simp: process_create_def Let_def)
  then have hb: "heap_blocks s' = cs'" using w k2(4) by (simp add: heap_blocks_def)
  then show "p \<noteq> NULL" "\<exists>n' \<ge> j. (n', True) \<in> set (heap_blocks s')" using k1(2) e(1) n2 by auto
  show "no_free_pair (heap_blocks s')" if "no_free_pair (heap_blocks s)" unfolding hb using fit_no_free_pair [OF f1 that] fit_no_free_pair [OF f2] by blast
qed

lemma create_succeeds:
  fixes s :: "'a proc_state_scheme"
  assumes h: "heap_inv s" "(n, True) \<in> set (heap_blocks s)" "16664 + j \<le> n" "8 < j"
  shows "\<exists>p pr m k. let t = s\<lparr>mem := m, procs := (procs s)(p \<mapsto> pr), next_pid := next_pid s + 1\<rparr> in
    process_create syms entry s = Ret p t \<and> p \<noteq> NULL \<and> heap_inv t \<and> (\<exists>n' \<ge> j. (n', True) \<in> set (heap_blocks t)) \<and>
    (unat p, k) \<in> live t \<and> (unat p, k) \<notin> live s \<and> live s \<subseteq> live t \<and> (no_free_pair (heap_blocks s) \<longrightarrow> no_free_pair (heap_blocks t))"
proof -
  from process_create_effect [OF h(1), of syms entry] obtain p s1 where
    p: "process_create syms entry s = Ret p s1" "heap_inv s1" and
    c: "p = NULL \<or> (\<exists>(stack :: u64) n k pr m. live s1 = insert (unat stack, k) (insert (unat p, n) (live s)) \<and> (unat p, n) \<notin> live s \<and>
       s1 = s\<lparr>mem := m, procs := (procs s)(p \<mapsto> pr), next_pid := next_pid s + 1\<rparr>)" by blast
  note l = process_create_leaves [OF h p(1)]
  from l(1) c obtain stack :: u64 and n k pr m where lv: "live s1 = insert (unat stack, k) (insert (unat p, n) (live s))" "(unat p, n) \<notin> live s" and
    s1: "s1 = s\<lparr>mem := m, procs := (procs s)(p \<mapsto> pr), next_pid := next_pid s + 1\<rparr>" by blast
  from lv have "(unat p, n) \<in> live s1" "live s \<subseteq> live s1" by auto
  then show ?thesis using p l lv(2) unfolding s1 Let_def by blast
qed

section \<open>Devices and tables\<close>

text \<open>What most of the start-up code leaves alone: memory and its managers, the processes, the queues and the handlers.\<close>

definition quiet :: "'a rd_state_scheme \<Rightarrow> 'a rd_state_scheme \<Rightarrow> bool" where
  "quiet s t \<longleftrightarrow> mem t = mem s \<and> cr3 t = cr3 s \<and> bitmap t = bitmap s \<and> free_frame_count t = free_frame_count s \<and> heap_head t = heap_head s \<and>
     procs t = procs s \<and> next_pid t = next_pid s \<and> current t = current s \<and> idle t = idle s \<and> length (idt t) = length (idt s) \<and>
     rest_same s t"

lemma quiet_refl [simp]: "quiet s s"
  by (simp add: quiet_def rest_same_def kb_same_def)

lemma quiet_trans: "quiet s t \<Longrightarrow> quiet t u \<Longrightarrow> quiet s u"
  by (simp add: quiet_def rest_same_def kb_same_def)

lemma quiet_outb [simp]: "quiet s (outb p v s)"
  by (simp add: quiet_def rest_same_def kb_same_def outb_def)

lemma quiet_inb [simp]: "quiet s (snd (inb p s))"
  by (simp add: quiet_def rest_same_def kb_same_def inb_def)

lemma quiet_console: "console_only s t \<Longrightarrow> quiet s t"
  by (auto simp: quiet_def rest_same_def kb_same_def console_only_def)

lemma quiet_print: "quiet s (vga_print cs s)"
  by (rule quiet_console) simp

lemma quiet_more:
  fixes s t :: "'a rd_state_scheme"
  assumes "pmm_state.more t = pmm_state.more s"
  shows "mem t = mem s" "cr3 t = cr3 s" "heap_head t = heap_head s" "procs t = procs s" "next_pid t = next_pid s" "current t = current s" "idle t = idle s"
    "rest_same s t"
  using assms by (cases s, cases t, simp add: rest_same_def kb_same_def)+

lemma quiet_devices:
  "quiet s (serial_init s)" "quiet s (vga_init s)" "quiet s (pic_init s)" "quiet s (pic_unmask i s)" "quiet s (fb_init s)"
  "quiet s (gdt_init a b c s)" "quiet s (syscall_init c s)"
proof -
  show "quiet s (serial_init s)" by (simp add: serial_init_def outb_def quiet_def rest_same_def kb_same_def)
  show "quiet s (vga_init s)" by (simp add: vga_init_def vga_clear_cells vga_set_colour_def quiet_def rest_same_def kb_same_def)
  show "quiet s (pic_init s)" by (simp add: pic_init_def inb_def outb_def io_wait_def Let_def quiet_def rest_same_def kb_same_def)
  show "quiet s (pic_unmask i s)" by (simp add: pic_unmask_def inb_def outb_def Let_def quiet_def rest_same_def kb_same_def)
  have w: "quiet u (fb_write_regs ip vp vs u)" for ip vp vs and u :: "'a rd_state_scheme"
    unfolding fb_write_regs_def
    by (rule for_upd_rule [where P = "\<lambda>_. quiet u"]) (auto intro: quiet_trans [OF quiet_trans [OF _ quiet_outb] quiet_outb])
  show "quiet s (fb_init s)"
    unfolding fb_init_def Let_def case_prod_unfold
    by (rule quiet_trans [OF _ quiet_outb], rule quiet_trans [OF _ w], rule quiet_trans [OF _ quiet_inb], rule quiet_trans [OF _ w],
        rule quiet_trans [OF _ w], rule quiet_trans [OF _ quiet_outb], rule quiet_trans [OF _ quiet_inb], rule quiet_trans [OF _ quiet_outb],
        rule quiet_trans [OF quiet_outb w])
  show "quiet s (gdt_init a b c s)" "quiet s (syscall_init c s)"
    by (simp_all add: gdt_init_def gdt_flush_def syscall_init_def gdt_set_entry_def set_tss_descriptor_def wrmsr_def Let_def quiet_def rest_same_def kb_same_def)
qed

lemma handler_inits:
  "length (idt s) = 256 \<Longrightarrow> quiet (s\<lparr>isr_handlers := (isr_handlers s)[14 := Some Page_Fault_Handler, 6 := Some Ud_Handler]\<rparr>) (idt_init a stubs s)"
  "quiet (s\<lparr>isr_handlers := (isr_handlers s)[33 := Some Keyboard_Handler]\<rparr>) (keyboard_init s)"
  "\<exists>t. timer_init 100 s = Ret () t \<and> quiet (s\<lparr>isr_handlers := (isr_handlers s)[32 := Some Timer_Handler]\<rparr>) t"
proof -
  assume "length (idt s) = 256"
  from idt_fill [OF this, of 48 stubs] obtain tab where
    tab: "for_upd 48 0 (\<lambda>i. idt_set_entry (of_nat i) (stubs i) 0x8E) s = s\<lparr>idt := tab\<rparr>" "length tab = length (idt s)"
    using \<open>length (idt s) = 256\<close> by auto
  show "quiet (s\<lparr>isr_handlers := (isr_handlers s)[14 := Some Page_Fault_Handler, 6 := Some Ud_Handler]\<rparr>) (idt_init a stubs s)"
    by (simp add: idt_init_def tab idt_register_handler_def Let_def quiet_def rest_same_def kb_same_def)
next
  show "quiet (s\<lparr>isr_handlers := (isr_handlers s)[33 := Some Keyboard_Handler]\<rparr>) (keyboard_init s)"
    by (simp add: keyboard_init_def idt_register_handler_def quiet_devices(4))
  show "\<exists>t. timer_init 100 s = Ret () t \<and> quiet (s\<lparr>isr_handlers := (isr_handlers s)[32 := Some Timer_Handler]\<rparr>) t"
    by (simp add: timer_init_def Let_def idt_register_handler_def outb_def pic_unmask_def inb_def quiet_def rest_same_def kb_same_def)
qed

lemma quiet_isr: "quiet s t \<Longrightarrow> quiet (s\<lparr>isr_handlers := f (isr_handlers s)\<rparr>) (t\<lparr>isr_handlers := f (isr_handlers t)\<rparr>)"
  by (simp add: quiet_def rest_same_def kb_same_def)

text \<open>The first part of \<open>kernel_init\<close>, up to the keyboard.\<close>

definition boot_handlers :: "handler option list \<Rightarrow> handler option list" where
  "boot_handlers h = h[14 := Some Page_Fault_Handler, 6 := Some Ud_Handler, 33 := Some Keyboard_Handler]"

lemma init_devices:
  fixes s :: "'a rd_state_scheme" and a1 a2 a3 a4 :: u64 and stubs :: "nat \<Rightarrow> u64"
  assumes "length (idt s) = 256"
  defines "s1 \<equiv> vga_print (str ''Kernel Booting...'' @ [0x0A]) (vga_init (serial_init s))"
  defines "s2 \<equiv> vga_print (ok_line ''GDT'') (gdt_init a1 a2 a3 s1)"
  defines "s3 \<equiv> vga_print (ok_line ''IDT'') (idt_init a4 stubs s2)"
  defines "s4 \<equiv> vga_print (ok_line ''PIC'') (pic_init s3)"
  defines "s5 \<equiv> vga_print (ok_line ''Keyboard'') (keyboard_init s4)"
  shows "quiet (s\<lparr>isr_handlers := boot_handlers (isr_handlers s)\<rparr>) s5"
proof -
  let ?f = "\<lambda>h. h[14 := Some Page_Fault_Handler, 6 := Some Ud_Handler]" and ?g = "\<lambda>h. h[33 := Some Keyboard_Handler]"
  have q2: "quiet s s2" unfolding s2_def s1_def
    by (rule quiet_trans [OF _ quiet_print], rule quiet_trans [OF _ quiet_devices(6)], rule quiet_trans [OF _ quiet_print],
        rule quiet_trans [OF quiet_devices(1,2)])
  have "length (idt s2) = 256" using q2 assms(1) by (simp add: quiet_def)
  then have "quiet (s2\<lparr>isr_handlers := ?f (isr_handlers s2)\<rparr>) s3" unfolding s3_def
    by (rule quiet_trans [OF handler_inits(1) quiet_print])
  from quiet_trans [OF quiet_isr [OF q2, of ?f] this] have "quiet (s\<lparr>isr_handlers := ?f (isr_handlers s)\<rparr>) s3" .
  then have q4: "quiet (s\<lparr>isr_handlers := ?f (isr_handlers s)\<rparr>) s4" unfolding s4_def
    by (rule quiet_trans [OF _ quiet_trans [OF quiet_devices(3) quiet_print]])
  have "quiet (s4\<lparr>isr_handlers := ?g (isr_handlers s4)\<rparr>) s5" unfolding s5_def by (rule quiet_trans [OF handler_inits(2) quiet_print])
  from quiet_trans [OF quiet_isr [OF q4, of ?g] this] show ?thesis by (simp add: boot_handlers_def)
qed

subsection \<open>Tables and lines\<close>

text \<open>The processor's tables and registers, the ports and the ticks, which only some of the start-up code touches.\<close>

definition steady :: "'a rd_state_scheme \<Rightarrow> 'a rd_state_scheme \<Rightarrow> bool" where
  "steady s t \<longleftrightarrow> port_log t = port_log s \<and> port_dev t = port_dev s \<and> gdtr t = gdtr s \<and> msr t = msr s \<and> idtr t = idtr s \<and>
     seg_cs t = seg_cs s \<and> seg_ds t = seg_ds s \<and> seg_ss t = seg_ss s \<and> ticks t = ticks s \<and> rd_state.more t = rd_state.more s"

lemma steadyD: "steady s t \<Longrightarrow> port_dev t = port_dev s" "steady s t \<Longrightarrow> ticks t = ticks s" "steady s t \<Longrightarrow> rd_state.more t = rd_state.more s"
  by (simp_all add: steady_def)

lemma steady_trans: "steady s t \<Longrightarrow> steady t u \<Longrightarrow> steady s u"
  by (simp add: steady_def)

lemma steady_console: "console_only s t \<Longrightarrow> steady s t"
  by (auto simp: steady_def console_only_def)

lemma steady_print [simp]: "steady s (vga_print cs s)"
  by (rule steady_console) simp

text \<open>What the device part of the start-up code establishes: its tables are loaded, and the lines in \<open>I\<close> are open.\<close>

definition loaded :: "boot_syms \<Rightarrow> 'a rd_state_scheme \<Rightarrow> nat set \<Rightarrow> 'a rd_state_scheme \<Rightarrow> bool" where
  "loaded b s I t \<longleftrightarrow> port_dev t = port_dev s \<and> ticks t = ticks s \<and> rd_state.more t = rd_state.more s \<and> gdtr t = (55, gdt_at b) \<and> idtr t = (4095, idt_at b) \<and>
     msr t MSR_LSTAR = syscall_entry b \<and> bit (msr t MSR_EFER) 0 \<and> seg_cs t = 0x08 \<and> seg_ds t = 0x10 \<and> seg_ss t = 0x10 \<and>
     (mask_reads_back (port_dev s) \<longrightarrow> mask_apart (port_dev s) \<longrightarrow> (\<forall>i \<in> I. \<not> irq_masked i t))"

lemma loaded_steady: "loaded b s I t \<Longrightarrow> steady t u \<Longrightarrow> loaded b s I u"
proof -
  assume a: "loaded b s I t" "steady t u"
  from a(2) have "irq_masked i u = irq_masked i t" for i by (simp add: steady_def irq_masked_def)
  with a show ?thesis by (simp add: loaded_def steady_def)
qed

lemma loaded_log:
  assumes "loaded b s I t" and "u = t\<lparr>port_log := l\<rparr>"
    and "\<And>i. mask_reads_back (port_dev t) \<Longrightarrow> mask_apart (port_dev t) \<Longrightarrow> irq_masked i t = irq_masked i u"
  shows "loaded b s I u"
  using assms by (simp add: loaded_def)

lemma loaded_out: "loaded b s I t \<Longrightarrow> \<not> pic_port q \<Longrightarrow> loaded b s I (outb q v t)"
  by (rule loaded_log [of _ _ _ t]) (auto simp: irq_masked_outb, simp add: outb_def)

lemma loaded_in: "loaded b s I t \<Longrightarrow> loaded b s I (snd (inb q t))"
  by (rule loaded_log [of _ _ _ t]) (auto simp: irq_masked_inb, simp add: inb_def)

lemma loaded_unmask:
  assumes "loaded b s I t" and "i < 16" and "I \<subseteq> {..<16}"
  shows "loaded b s (insert i I) (pic_unmask (of_nat i) t)"
  using assms pic_mask_one_line [of t i] by (auto simp: loaded_def pic_mask_log [OF assms(2)] subset_eq)

lemma loaded_framebuffer: "loaded b s I t \<Longrightarrow> loaded b s I (fb_init t)"
proof -
  have w: "loaded b s I (fb_write_regs ip vp vs u)" if "loaded b s I u" "\<not> pic_port ip" "\<not> pic_port vp" for ip vp vs u
    unfolding fb_write_regs_def by (rule for_upd_rule [where P = "\<lambda>_. loaded b s I"]) (auto intro!: loaded_out that)
  assume "loaded b s I t"
  then show ?thesis unfolding fb_init_def Let_def case_prod_unfold by (intro loaded_out w loaded_in) (simp_all add: pic_port_def)
qed

lemma loaded_syscall: "loaded b s I t \<Longrightarrow> loaded b s I (syscall_init (syscall_entry b) t)"
  by (auto simp: loaded_def syscall_init_msr bit_or_iff irq_masked_def)

lemma loaded_timer: "loaded b s I t \<Longrightarrow> I \<subseteq> {..<16} \<Longrightarrow> timer_init 100 t = Ret () u \<Longrightarrow> loaded b s (insert 0 I) u"
proof -
  assume a: "loaded b s I t" "I \<subseteq> {..<16}" "timer_init 100 t = Ret () u"
  have reg: "loaded b s I (idt_register_handler n h v)" if "loaded b s I v" for n h v
    by (rule loaded_steady [OF that]) (simp add: steady_def idt_register_handler_def)
  have "loaded b s I (idt_register_handler 32 h (outb 0x40 x (outb 0x40 y (outb 0x43 z t))))" for h x y z
    by (intro reg loaded_out a(1)) (simp_all add: pic_port_def)
  from loaded_unmask [OF this, of 0] a(2,3) show ?thesis by (auto simp: timer_init_def Let_def)
qed

lemma loaded_devices:
  fixes s :: "'a rd_state_scheme" and b :: boot_syms
  assumes len: "length (idt s) = 256"
  defines "s2 \<equiv> vga_print (ok_line ''GDT'') (gdt_init (gdt_at b) (tss_at b) (syscall_entry b)
      (vga_print (str ''Kernel Booting...'' @ [0x0A]) (vga_init (serial_init s))))"
  shows "loaded b s {1} (vga_print (ok_line ''Keyboard'') (keyboard_init (vga_print (ok_line ''PIC'') (pic_init
    (vga_print (ok_line ''IDT'') (idt_init (idt_at b) (isr_stub_table b) s2))))))"
proof -
  let ?L = "\<lambda>t. port_dev t = port_dev s \<and> ticks t = ticks s \<and> rd_state.more t = rd_state.more s \<and> gdtr t = (55, gdt_at b) \<and> msr t MSR_LSTAR = syscall_entry b \<and> bit (msr t MSR_EFER) 0 \<and>
     seg_cs t = 0x08 \<and> seg_ds t = 0x10 \<and> seg_ss t = 0x10"
  have st: "?L u" if "?L t" "steady t u" for t u :: "'a rd_state_scheme" using that by (simp add: steady_def)
  let ?s1 = "vga_print (str ''Kernel Booting...'' @ [0x0A]) (vga_init (serial_init s))"
  have "port_dev ?s1 = port_dev (vga_init (serial_init s))" "ticks ?s1 = ticks (vga_init (serial_init s))"
    "rd_state.more ?s1 = rd_state.more (vga_init (serial_init s))"
    by (rule steadyD [OF steady_print])+
  then have "port_dev ?s1 = port_dev s" "ticks ?s1 = ticks s" "rd_state.more ?s1 = rd_state.more s"
    by (simp_all add: vga_init_def vga_clear_cells vga_set_colour_def serial_init_def outb_def)
  then have "?L (gdt_init (gdt_at b) (tss_at b) (syscall_entry b) ?s1)"
    by (simp add: gdt_init_def gdt_flush_def syscall_init_msr set_tss_descriptor_def gdt_set_entry_def Let_def bit_or_iff)
  then have l2: "?L s2" unfolding s2_def by (rule st) (rule steady_print)
  have "quiet s s2" unfolding s2_def
    by (rule quiet_trans [OF _ quiet_print], rule quiet_trans [OF _ quiet_devices(6)], rule quiet_trans [OF _ quiet_print],
        rule quiet_trans [OF quiet_devices(1,2)])
  then have "length (idt s2) = 256" using len by (simp add: quiet_def)
  from idt_fill [OF this, of 48 "isr_stub_table b"] obtain tab where
    tab: "for_upd 48 0 (\<lambda>i. idt_set_entry (of_nat i) (isr_stub_table b i) 0x8E) s2 = s2\<lparr>idt := tab\<rparr>" by auto
  let ?s3 = "idt_init (idt_at b) (isr_stub_table b) s2"
  have "?L ?s3 \<and> idtr ?s3 = (4095, idt_at b)" using l2 by (simp add: idt_init_def tab idt_register_handler_def Let_def)
  then have "loaded b s {} ?s3" by (simp add: loaded_def)
  then have l3: "loaded b s {} (vga_print (ok_line ''IDT'') ?s3)" by (rule loaded_steady [OF _ steady_print])
  have "loaded b s {} (pic_init u)" if "loaded b s {} u" for u
    using that by (simp add: loaded_def pic_init_def inb_def outb_def io_wait_def Let_def)
  from this [OF l3] have l4: "loaded b s {} (vga_print (ok_line ''PIC'') (pic_init (vga_print (ok_line ''IDT'') ?s3)))" by (rule loaded_steady [OF _ steady_print])
  have "loaded b s {1} (keyboard_init (vga_print (ok_line ''PIC'') (pic_init (vga_print (ok_line ''IDT'') ?s3))))"
    unfolding keyboard_init_def
    by (rule loaded_unmask [where i = 1, unfolded of_nat_1]) (auto intro: loaded_steady [OF l4] simp: steady_def idt_register_handler_def)
  then show ?thesis by (rule loaded_steady [OF _ steady_print])
qed

section \<open>What the memory managers leave alone\<close>

lemma pmm_init_more: "yields (\<lambda>_ t. pmm_state.more t = pmm_state.more s) (pmm_init ks ke s)"
proof -
  have u: "pmm_state.more (for_upd n i f s) = pmm_state.more s" if "\<And>j t. pmm_state.more (f j t) = pmm_state.more t" for n i f and s :: "'a pmm_state_scheme"
    by (rule for_upd_rule [where P = "\<lambda>_ t. pmm_state.more t = pmm_state.more s"]) (simp_all add: that)
  have "yields (\<lambda>_ t. pmm_state.more t = x) (for_loop n i pmm_reserve u)" if "pmm_state.more u = x" for n i x and u :: "'a pmm_state_scheme"
    by (rule yields_for_loop [of "\<lambda>t. pmm_state.more t = x", OF that]) (simp add: pmm_reserve_def bitmap_set_def Let_def)
  then show ?thesis unfolding pmm_init_def Let_def
    by (rule spec [OF allI]) (simp add: u bitmap_clear_def)
qed

lemma heap_init_more: "yields (\<lambda>_ t. heap_state.more t = heap_state.more s) (heap_init s)"
proof -
  let ?K = "\<lambda>t :: 'a heap_state_scheme. vmm_state.more t = vmm_state.more s"
  let ?body = "\<lambda>i t :: 'a heap_state_scheme. case pmm_alloc t of (frame, t1) \<Rightarrow>
          if frame = NULL then Halt (vga_print (str ''Invalid frame'' @ [0x0A]) t1)
          else vmm_map (HEAP_START + of_nat i * PAGE_SIZE) frame 0x03 t1"
  have "yields (\<lambda>_. ?K) (?body i t)" if t: "?K t" for i t
  proof (cases "pmm_alloc t")
    case (Pair f t1)
    have "yields (\<lambda>_. ?K) (vmm_map (HEAP_START + of_nat i * PAGE_SIZE) f 0x03 t1)" by (rule rest_upper.map [OF rest_upper.alloc [OF t Pair]])
    with Pair show ?thesis by simp
  qed
  then have "yields (\<lambda>_. ?K) (for_loop HEAP_PAGES 0 ?body s)" by (rule yields_for_loop [of ?K, OF refl])
  then show ?thesis unfolding heap_init_def yields_obind
  proof (rule yields_mono)
    fix x and t :: "'a heap_state_scheme" assume "?K t"
    then have "heap_state.more t = heap_state.more s" by (cases s, cases t) simp
    then show "yields (\<lambda>_ t. heap_state.more t = heap_state.more s) (let t1 = t\<lparr>heap_head := HEAP_START\<rparr>
            in Ret () (t1\<lparr>mem := set_hdr_next HEAP_START NULL
                         (set_hdr_free HEAP_START 1
                         (set_hdr_size HEAP_START (of_nat HEAP_PAGES * PAGE_SIZE - 24) (mem t1)))\<rparr>))" by (simp add: Let_def)
  qed
qed


text \<open>They do not use the ports either.\<close>

definition io_same :: "'a io_state_scheme \<Rightarrow> 'a io_state_scheme \<Rightarrow> bool" where
  "io_same s t \<longleftrightarrow> port_log t = port_log s \<and> port_dev t = port_dev s"

lemma io_same_refl [simp]: "io_same s s"
  by (simp add: io_same_def)

lemma io_same_alloc: "io_same s t \<Longrightarrow> io_same s (snd (pmm_alloc t))"
  by (cases "free_set t = {}") (auto simp: pmm_alloc_none pmm_alloc_some take_frame_def bitmap_set_def io_same_def)

lemma io_same_map:
  assumes "io_same s t"
  shows "yields (\<lambda>_. io_same s) (vmm_map v f fl t)"
proof -
  have "yields (\<lambda>_. io_same s) (get_or_create_table e fl t)" if "io_same s t" for e fl and t :: "'a vmm_state_scheme"
    using that io_same_alloc [OF that] by (cases "pmm_alloc t") (auto simp: get_or_create_table_def Let_def io_same_def)
  note goc = yields_mono [OF this]
  have "io_same s (t\<lparr>mem := m\<rparr>)" if "io_same s t" for m and t :: "'a vmm_state_scheme" using that by (simp add: io_same_def)
  then show ?thesis unfolding vmm_map_def Let_def by (auto intro!: goc assms)
qed

lemma pmm_init_io: "yields (\<lambda>_. io_same s) (pmm_init ks ke s)"
proof -
  have u: "io_same s (for_upd n i f t)" if "io_same s t" "\<And>j t. io_same s t \<Longrightarrow> io_same s (f j t)" for n i f and t :: "'a pmm_state_scheme"
    by (rule for_upd_rule [where P = "\<lambda>_. io_same s"]) (simp_all add: that)
  have "yields (\<lambda>_. io_same s) (for_loop n i pmm_reserve t)" if "io_same s t" for n i and t :: "'a pmm_state_scheme"
    by (rule yields_for_loop [of "io_same s", OF that]) (simp add: pmm_reserve_def bitmap_set_def Let_def io_same_def)
  moreover have "io_same s (t\<lparr>bitmap := m\<rparr>)" "io_same s (t\<lparr>free_frame_count := c\<rparr>)" if "io_same s t" for m c and t :: "'a pmm_state_scheme"
    using that by (simp_all add: io_same_def)
  ultimately show ?thesis unfolding pmm_init_def Let_def by (simp add: u bitmap_clear_def)
qed

lemma heap_init_io: "yields (\<lambda>_. io_same s) (heap_init s)"
proof -
  let ?body = "\<lambda>i t :: 'a heap_state_scheme. case pmm_alloc t of (frame, t1) \<Rightarrow>
          if frame = NULL then Halt (vga_print (str ''Invalid frame'' @ [0x0A]) t1)
          else vmm_map (HEAP_START + of_nat i * PAGE_SIZE) frame 0x03 t1"
  have "yields (\<lambda>_. io_same s) (?body i t)" if "io_same s t" for i t
    using io_same_alloc [OF that] io_same_map [of s] by (cases "pmm_alloc t") auto
  then have "yields (\<lambda>_. io_same s) (for_loop HEAP_PAGES 0 ?body s)" by (rule yields_for_loop [of "io_same s", OF io_same_refl])
  then show ?thesis unfolding heap_init_def yields_obind by (rule yields_mono) (simp add: io_same_def Let_def)
qed

lemma steady_more:
  fixes s t :: "'a rd_state_scheme"
  assumes "heap_state.more t = heap_state.more s" and "io_same s t"
  shows "steady s t"
  using assms by (cases s, cases t) (simp add: steady_def io_same_def)

text \<open>From the keyboard to the heap.\<close>

lemma boot_paging_cong: "mem t = mem s \<Longrightarrow> cr3 t = cr3 s \<Longrightarrow> boot_paging ks ke t = boot_paging ks ke s"
  by (simp add: boot_paging_def boot_tables_def)

lemma as_wf_cong:
  "mem t = mem s \<Longrightarrow> bitmap t = bitmap s \<Longrightarrow> free_frame_count t = free_frame_count s \<Longrightarrow> as_wf r t = as_wf r s"
  by (simp add: as_wf_def pmm_inv_def avail_def free_set_def bitmap_test_def)

lemma heap_blocks_cong: "mem t = mem s \<Longrightarrow> heap_head t = heap_head s \<Longrightarrow> heap_blocks t = heap_blocks s"
  "mem t = mem s \<Longrightarrow> heap_head t = heap_head s \<Longrightarrow> heap_inv t = heap_inv s"
  by (simp_all add: heap_blocks_def heap_inv_def heap_rep_def)

lemma quietD:
  "quiet s t \<Longrightarrow> mem t = mem s" "quiet s t \<Longrightarrow> cr3 t = cr3 s" "quiet s t \<Longrightarrow> bitmap t = bitmap s"
  "quiet s t \<Longrightarrow> free_frame_count t = free_frame_count s" "quiet s t \<Longrightarrow> heap_head t = heap_head s" "quiet s t \<Longrightarrow> procs t = procs s"
  "quiet s t \<Longrightarrow> next_pid t = next_pid s" "quiet s t \<Longrightarrow> current t = current s" "quiet s t \<Longrightarrow> idle t = idle s" "quiet s t \<Longrightarrow> rest_same s t"
  by (simp_all add: quiet_def)

lemma rest_same_trans: "rest_same s t \<Longrightarrow> rest_same t u \<Longrightarrow> rest_same s u"
  by (simp add: rest_same_def kb_same_def)

lemma rest_same_more: "heap_state.more t = heap_state.more s \<Longrightarrow> rest_same s t"
  by (cases s, cases t) (simp add: rest_same_def kb_same_def)

lemma memory_steady:
  fixes s :: "'a rd_state_scheme"
  assumes p: "pmm_init ks ke s = Ret () t1" and h: "heap_init (vga_print cs' (vmm_init self (vga_print cs t1))) = Ret () t4"
  shows "steady s t4 \<and> next_pid t4 = next_pid s"
proof -
  let ?t2 = "vga_print cs t1"
  let ?v = "vmm_init self ?t2" and ?t3 = "vga_print cs' (vmm_init self ?t2)"
  have m1: "pmm_state.more t1 = pmm_state.more s" "io_same s t1" using pmm_init_more [of s ks ke] pmm_init_io [of s ks ke] p by simp_all
  have "heap_state.more t1 = heap_state.more s" using m1(1) by (cases s, cases t1) simp
  then have 1: "steady s t1" by (rule steady_more) (rule m1(2))
  have m4: "heap_state.more t4 = heap_state.more ?t3" "io_same ?t3 t4" using heap_init_more [of ?t3] heap_init_io [of ?t3] h by simp_all
  note co = vmm_init_mem(2) [OF refl, of ?t2 self]
  have "steady ?t2 ?v" using steady_console [OF co] by (simp add: steady_def)
  with 1 have "steady s ?v" using steady_trans steady_print by blast
  then have "steady s t4" using steady_trans steady_print steady_more [OF m4] by blast
  moreover have "next_pid t4 = next_pid ?t3" using m4(1) by (cases ?t3, cases t4) simp
  then have "next_pid t4 = next_pid s"
    using quietD(7) [OF quiet_print [of ?v cs']] quietD(7) [OF quiet_console [OF co]] quietD(7) [OF quiet_print [of t1 cs]] quiet_more(5) [OF m1(1)] by simp
  ultimately show ?thesis ..
qed

lemma init_memory:
  fixes s :: "'a rd_state_scheme" and self ks ke :: u64
  assumes bm: "length (bitmap s) = BITMAP_SIZE" "free_frame_count s = 0" and im: "0x100000 \<le> ks" "ks \<le> ke" "ke \<le> 0x8000000"
    and b: "boot_paging ks ke s"
  shows "\<exists>t1 t4. pmm_init ks ke s = Ret () t1 \<and>
    heap_init (vga_print (ok_line ''VMM'') (vmm_init self (vga_print (ok_line ''PMM'') t1))) = Ret () t4 \<and>
    heap_rep t4 [(HEAP_BYTES - 24, True)] \<and> as_wf (ENTRY_ADDR (cr3 s)) t4 \<and> cr3 t4 = cr3 s \<and> rest_same s t4 \<and>
    steady s t4 \<and> next_pid t4 = next_pid s \<and> 2 \<le> card (free_set t4)"
proof -
  let ?used = "{unat ks div 4096..<(unat ke + 4095) div 4096}" and ?r = "ENTRY_ADDR (cr3 s)"
  have "ke \<le> 0x10000000" using im(3) by (rule order_trans) simp
  from pmm_init_frames [OF bm im(1,2) this] obtain t1 where
    t1: "pmm_init ks ke s = Ret () t1" "pmm_inv t1" "free_set t1 = {256..<TOTAL_FRAMES} - ?used" by blast
  have m1: "pmm_state.more t1 = pmm_state.more s" using pmm_init_more [of s ks ke] t1(1) by simp
  define t2 where "t2 = vga_print (ok_line ''PMM'') t1"
  define t3 where "t3 = vga_print (ok_line ''VMM'') (vmm_init self t2)"
  note q2 = quiet_print [of t1 "ok_line ''PMM''", folded t2_def]
  note q3 = quiet_print [of "vmm_init self t2" "ok_line ''VMM''", folded t3_def]
  have e2: "mem t2 = mem s" "cr3 t2 = cr3 s" "rest_same s t2"
    using quiet_more [OF m1] quietD(1,2,10) [OF q2] by (simp_all add: rest_same_trans [of s t1 t2])
  have b2: "boot_paging ks ke t2" using b boot_paging_cong [OF e2(1,2)] by simp
  have f2: "pmm_inv t2" "free_set t2 = {256..<TOTAL_FRAMES} - ?used"
    using t1(2,3) quietD(3,4) [OF q2] by (simp_all add: pmm_inv_def free_set_def bitmap_test_def)
  note w = boot_as_wf [OF b2 f2(1) im(3) f2(2), where self = self, unfolded e2(2)]
  note co = vmm_init_mem(2) [OF refl, of t2 self]
  have c3: "cr3 t3 = cr3 s" "free_frame_count t3 = free_frame_count t2" "rest_same s t3"
  proof -
    show "cr3 t3 = cr3 s" "free_frame_count t3 = free_frame_count t2" using quietD(2,4) [OF quiet_console [OF co]] quietD(2,4) [OF q3] e2(2) by simp_all
    have "rest_same t2 (vmm_init self t2)" using quietD(10) [OF quiet_console [OF co]] by (simp add: rest_same_def kb_same_def)
    then show "rest_same s t3" using rest_same_trans e2(3) quietD(10) [OF q3] by blast
  qed
  have wf3: "as_wf ?r t3" using w(1) as_wf_cong [OF quietD(1,3,4) [OF q3]] by simp
  have c2: "4 * HEAP_PAGES + 2 \<le> card (free_set t2)"
  proof -
    have "unat ke \<le> 134217728" using im(3) by (simp add: word_le_nat_alt)
    then have "(unat ke + 4095) div 4096 \<le> 32768" by linarith
    then have "card ({256..<TOTAL_FRAMES} \<inter> ?used) \<le> 32768"
      using card_mono [of ?used "{256..<TOTAL_FRAMES} \<inter> ?used"] by (simp del: Int_atLeastLessThan)
    then show ?thesis unfolding f2(2) by (simp add: card_Diff_subset_Int HEAP_PAGES_def TOTAL_FRAMES_def del: Int_atLeastLessThan)
  qed
  then have "4 * HEAP_PAGES \<le> unat (pmm_free_frames t3)" using f2(1) c3(2) by (simp add: pmm_inv_def pmm_free_frames_def)
  moreover have "\<forall>j < HEAP_PAGES. no_huge ?r (heap_page j) (mem t3)" using w(3) quietD(1) [OF q3] by simp
  moreover have "tables_avoid HEAP_START ?r (mem t3)" using w(2) quietD(1) [OF q3] by simp
  ultimately obtain t4 where t4: "heap_init t3 = Ret () t4" "as_wf ?r t4" "cr3 t4 = cr3 s" "heap_rep t4 [(HEAP_BYTES - 24, True)]"
    "card (avail t3) \<le> card (avail t4) + 4 * HEAP_PAGES"
    using heap_init_effect [of t3, unfolded c3(1), OF wf3] by blast
  have "rest_same t3 t4" using heap_init_more [of t3] t4(1) by (simp add: rest_same_more)
  then have "rest_same s t4" by (rule rest_same_trans [OF c3(3)])
  moreover have "steady s t4 \<and> next_pid t4 = next_pid s" by (rule memory_steady [OF t1(1) t4(1) [unfolded t3_def t2_def]])
  moreover have "2 \<le> card (free_set t4)"
  proof -
    have "free_set t3 = free_set t2" using quietD(3) [OF q3] quietD(3) [OF quiet_console [OF co]] by (simp add: free_set_def bitmap_test_def)
    then show ?thesis using t4(5) c2 by (simp add: card_avail)
  qed
  ultimately show ?thesis using t1(1) t4 unfolding t3_def t2_def by (intro exI conjI) simp_all
qed


text \<open>The scheduler, with the idle process as its only one.\<close>

lemma init_scheduler:
  fixes s :: "'a rd_state_scheme"
  assumes h: "heap_inv s" "(n, True) \<in> set (heap_blocks s)" "16664 + j \<le> n" "8 < j" and nf: "no_free_pair (heap_blocks s)"
  shows "\<exists>t. scheduler_init syms s = Ret () t \<and> sched_inv t [] \<and> current t = idle t \<and> heap_inv t \<and>
    (\<exists>n' \<ge> j. (n', True) \<in> set (heap_blocks t)) \<and> procs_live {idle t} (live t) \<and> rest_same s t \<and>
    steady s t \<and> next_pid t = next_pid s + 1 \<and> bitmap t = bitmap s \<and> free_frame_count t = free_frame_count s \<and> no_free_pair (heap_blocks t)"
proof -
  from create_succeeds [OF h, of syms "idle_fn syms"] obtain p pr m k s1 where
    s1: "s1 = s\<lparr>mem := m, procs := (procs s)(p \<mapsto> pr), next_pid := next_pid s + 1\<rparr>" and
    p: "process_create syms (idle_fn syms) s = Ret p s1" "p \<noteq> NULL" "heap_inv s1" "\<exists>n' \<ge> j. (n', True) \<in> set (heap_blocks s1)" "(unat p, k) \<in> live s1"
      "no_free_pair (heap_blocks s1)"
    using nf unfolding Let_def by blast
  let ?t = "s1\<lparr>procs := (procs s1)(p \<mapsto> pr\<lparr>pstate := PROCESS_RUNNING, pnext := p\<rparr>), idle := p, current := p\<rparr>"
  have run: "scheduler_init syms s = Ret () ?t"
    using p(1,2) by (simp add: scheduler_init_def deref_def upd_proc_def Let_def s1)
  have "sched_inv ?t []" using p(2) by (simp add: sched_inv_def ring_def)
  moreover have "heap_inv ?t" "heap_blocks ?t = heap_blocks s1" using p(3) heap_blocks_cong [of ?t s1] by simp_all
  moreover have "rest_same s ?t" by (simp add: s1 rest_same_def kb_same_def)
  moreover have "steady s ?t" "next_pid ?t = next_pid s + 1" "bitmap ?t = bitmap s" "free_frame_count ?t = free_frame_count s" by (simp_all add: s1 steady_def)
  moreover have "procs_live {idle ?t} (live ?t)" using p(5) heap_cong(2) [of ?t s1] by (auto simp: procs_live_def)
  ultimately show ?thesis using run p(4,6) by (intro exI [of _ ?t]) simp
qed

section \<open>The system comes up\<close>

text \<open>
  What the loader and \<open>boot.asm\<close> hand over: cleared static data (an empty frame bitmap counter, unused
  keyboard queues), the image between 1 MB and 128 MB, and the tables described above.
\<close>

definition boot_ready :: "boot_syms \<Rightarrow> 'a rd_state_scheme \<Rightarrow> bool" where
  "boot_ready b s \<longleftrightarrow> length (bitmap s) = BITMAP_SIZE \<and> free_frame_count s = 0 \<and> 0x100000 \<le> kernel_start b \<and>
     kernel_start b \<le> kernel_end b \<and> kernel_end b \<le> 0x8000000 \<and> boot_paging (kernel_start b) (kernel_end b) s \<and>
     length (idt s) = 256 \<and> length (isr_handlers s) = 256 \<and> kb_inv s \<and> length (fds s) = MAX_FDS"

lemma ramdisk_init_fds:
  assumes "length (fds s) = MAX_FDS"
  shows "\<exists>f. ramdisk_init s = s\<lparr>fds := f\<rparr> \<and> length f = MAX_FDS \<and> (\<forall>fd \<in> set f. \<not> in_use fd)"
proof -
  let ?P = "\<lambda>i t. \<exists>f. t = s\<lparr>fds := f\<rparr> \<and> length f = MAX_FDS \<and> (\<forall>j < i. \<not> in_use (f ! j))"
  have "?P (0 + MAX_FDS) (ramdisk_init s)" unfolding ramdisk_init_def
  proof (rule for_upd_rule)
    show "?P 0 s" using assms by (intro exI [of _ "fds s"]) simp
    fix j t assume "j < 0 + MAX_FDS" "?P j t"
    then obtain f where "t = s\<lparr>fds := f\<rparr>" "length f = MAX_FDS" "\<forall>i < j. \<not> in_use (f ! i)" "j < length f" by auto
    then show "?P (Suc j) (t\<lparr>fds := (fds t)[j := (fds t ! j)\<lparr>in_use := False\<rparr>]\<rparr>)"
      by (intro exI [of _ "f[j := (f ! j)\<lparr>in_use := False\<rparr>]"]) (auto simp: nth_list_update less_Suc_eq)
  qed
  then obtain f where "ramdisk_init s = s\<lparr>fds := f\<rparr>" "length f = MAX_FDS" "\<forall>j < MAX_FDS. \<not> in_use (f ! j)" by auto
  then show ?thesis by (intro exI [of _ f]) (auto simp: in_set_conv_nth)
qed

text \<open>The timer, and the last part, from the system call registers to the archive.\<close>

lemma init_timer:
  fixes t :: "'a rd_state_scheme"
  shows "\<exists>t6. timer_init 100 (vga_print (ok_line ''Heap'') t) = Ret () t6 \<and>
    quiet (t\<lparr>isr_handlers := (isr_handlers t)[32 := Some Timer_Handler]\<rparr>) (vga_print (ok_line ''Timer'') t6) \<and>
    (loaded b s {1} t \<longrightarrow> loaded b s {0, 1} (vga_print (ok_line ''Timer'') t6))"
proof -
  let ?f = "\<lambda>h. h[32 := Some Timer_Handler]" and ?t5 = "vga_print (ok_line ''Heap'') t"
  obtain t6 where t6: "timer_init 100 ?t5 = Ret () t6" "quiet (?t5\<lparr>isr_handlers := ?f (isr_handlers ?t5)\<rparr>) t6" using handler_inits(3) by blast
  have "quiet (t\<lparr>isr_handlers := ?f (isr_handlers t)\<rparr>) (vga_print (ok_line ''Timer'') t6)"
    by (rule quiet_trans [OF quiet_trans [OF quiet_isr [OF quiet_print, of ?f] t6(2)] quiet_print])
  moreover have "loaded b s {0, 1} (vga_print (ok_line ''Timer'') t6)" if "loaded b s {1} t"
    using loaded_timer [OF loaded_steady [OF that steady_print] _ t6(1)] loaded_steady [OF _ steady_print] by auto
  ultimately show ?thesis using t6(1) by blast
qed

lemma init_last:
  fixes t :: "'a rd_state_scheme" and b :: boot_syms
  assumes "length (fds t) = MAX_FDS"
  defines "u \<equiv> vga_print (str ''[OK] Ramdisk'') (ramdisk_init (vga_print (str ''[OK] FrameBuf'') (fb_init (vga_print (ok_line ''Syscall'')
      (syscall_init (syscall_entry b) (vga_print (ok_line ''Scheduler'') t))))))"
  shows "\<exists>f. quiet (t\<lparr>fds := f\<rparr>) u \<and> length f = MAX_FDS \<and> (\<forall>fd \<in> set f. \<not> in_use fd) \<and> (loaded b s I t \<longrightarrow> loaded b s I u)"
proof -
  define v where "v = vga_print (str ''[OK] FrameBuf'') (fb_init (vga_print (ok_line ''Syscall'')
      (syscall_init (syscall_entry b) (vga_print (ok_line ''Scheduler'') t))))"
  have q: "quiet t v" unfolding v_def
    by (rule quiet_trans [OF _ quiet_print], rule quiet_trans [OF _ quiet_devices(5)], rule quiet_trans [OF _ quiet_print],
        rule quiet_trans [OF quiet_print quiet_devices(7)])
  then have "length (fds v) = MAX_FDS" using assms(1) by (simp add: quiet_def rest_same_def)
  from ramdisk_init_fds [OF this] obtain f where f: "ramdisk_init v = v\<lparr>fds := f\<rparr>" "length f = MAX_FDS" "\<forall>fd \<in> set f. \<not> in_use fd" by blast
  have u: "u = vga_print (str ''[OK] Ramdisk'') (v\<lparr>fds := f\<rparr>)" unfolding u_def v_def [symmetric] f(1) ..
  have "quiet (t\<lparr>fds := f\<rparr>) (v\<lparr>fds := f\<rparr>)" using q by (simp add: quiet_def rest_same_def kb_same_def)
  then have "quiet (t\<lparr>fds := f\<rparr>) u" unfolding u by (rule quiet_trans [OF _ quiet_print])
  moreover have "loaded b s I u" if l: "loaded b s I t"
  proof -
    from loaded_framebuffer [OF loaded_steady [OF loaded_syscall [OF loaded_steady [OF l steady_print]] steady_print]]
    have "loaded b s I v" unfolding v_def by (rule loaded_steady [OF _ steady_print])
    moreover have "steady v (v\<lparr>fds := f\<rparr>)" by (simp add: steady_def)
    ultimately show ?thesis unfolding u using loaded_steady steady_print by blast
  qed
  ultimately show ?thesis using f(2,3) by blast
qed

lemma kernel_init_effect:
  fixes s :: "'a rd_state_scheme"
  assumes r: "boot_ready b s"
  shows "\<exists>t. kernel_init b syms s = Ret () t \<and> kernel_inv [] t \<and> current t = idle t \<and> heap_inv t \<and>
    (\<exists>n \<ge> HEAP_BYTES - 16688. (n, True) \<in> set (heap_blocks t)) \<and> procs_live {idle t} (live t) \<and> isr_handlers t = (boot_handlers (isr_handlers s))[32 := Some Timer_Handler] \<and>
    kb_same s t \<and> (\<forall>fd \<in> set (fds t). \<not> in_use fd) \<and>
    loaded b s {0, 1} t \<and> pmm_inv t \<and> 2 \<le> card (free_set t) \<and> no_free_pair (heap_blocks t) \<and> next_pid t = next_pid s + 1"
proof -
  note r' = r [unfolded boot_ready_def]
  let ?h = "s\<lparr>isr_handlers := boot_handlers (isr_handlers s)\<rparr>" and ?f = "\<lambda>h. h[32 := Some Timer_Handler]"
  define s5 where "s5 = vga_print (ok_line ''Keyboard'') (keyboard_init (vga_print (ok_line ''PIC'') (pic_init
      (vga_print (ok_line ''IDT'') (idt_init (idt_at b) (isr_stub_table b) (vga_print (ok_line ''GDT'') (gdt_init (gdt_at b) (tss_at b) (syscall_entry b)
      (vga_print (str ''Kernel Booting...'' @ [0x0A]) (vga_init (serial_init s))))))))))"
  have q5: "quiet ?h s5" unfolding s5_def by (rule init_devices) (use r' in blast)
  have l5: "loaded b s {1} s5" unfolding s5_def by (rule loaded_devices) (use r' in blast)
  note e5 = quietD [OF q5]
  have "boot_paging (kernel_start b) (kernel_end b) s5" using r' boot_paging_cong [of s5 ?h] e5(1,2) by (simp add: boot_paging_cong [of ?h s])
  with r' e5 obtain t1 t4 where m: "pmm_init (kernel_start b) (kernel_end b) s5 = Ret () t1"
    "heap_init (vga_print (ok_line ''VMM'') (vmm_init (vmm_init_fn b) (vga_print (ok_line ''PMM'') t1))) = Ret () t4"
    and t4: "heap_rep t4 [(HEAP_BYTES - 24, True)]" "rest_same s5 t4" "steady s5 t4" "next_pid t4 = next_pid s5" "2 \<le> card (free_set t4)" "pmm_inv t4"
    using init_memory [of s5 "kernel_start b" "kernel_end b" "vmm_init_fn b"] by (auto dest: as_wfD(1))
  obtain t6 t7 where t6: "timer_init 100 (vga_print (ok_line ''Heap'') t4) = Ret () t6" "t7 = vga_print (ok_line ''Timer'') t6"
    "quiet (t4\<lparr>isr_handlers := ?f (isr_handlers t4)\<rparr>) t7" "loaded b s {0, 1} t7"
    using init_timer [of t4 b s] loaded_steady [OF l5 t4(3)] by blast
  note e7 = quietD [OF t6(3)]
  have hb: "heap_inv t7" "heap_blocks t7 = [(HEAP_BYTES - 24, True)]"
    using heap_rep_inv [OF t4(1)] heap_rep_blocks [OF t4(1)] heap_blocks_cong [of t7 t4] e7(1,5) by simp_all
  have "(HEAP_BYTES - 24, True) \<in> set (heap_blocks t7)" "16664 + (HEAP_BYTES - 16688) \<le> HEAP_BYTES - 24" "8 < HEAP_BYTES - 16688"
    "no_free_pair (heap_blocks t7)" using hb(2) by (simp_all add: HEAP_BYTES_def HEAP_PAGES_def)
  then obtain t8 where
    t8: "scheduler_init syms t7 = Ret () t8" "sched_inv t8 []" "current t8 = idle t8" "heap_inv t8"
      "\<exists>n' \<ge> HEAP_BYTES - 16688. (n', True) \<in> set (heap_blocks t8)" "rest_same t7 t8" "procs_live {idle t8} (live t8)" and
    s8: "steady t7 t8" "next_pid t8 = next_pid t7 + 1" "bitmap t8 = bitmap t7" "free_frame_count t8 = free_frame_count t7" "no_free_pair (heap_blocks t8)"
    using init_scheduler [OF hb(1), of _ _ syms] by blast
  have k8: "length (fds t8) = MAX_FDS" "kb_same s t8" "isr_handlers t8 = ?f (boot_handlers (isr_handlers s))"
    using t8(6) t4(2) e7(10) e5(10) r' by (simp_all add: rest_same_def kb_same_def)
  define u where "u = vga_print (str ''[OK] Ramdisk'') (ramdisk_init (vga_print (str ''[OK] FrameBuf'') (fb_init (vga_print (ok_line ''Syscall'')
      (syscall_init (syscall_entry b) (vga_print (ok_line ''Scheduler'') t8))))))"
  from init_last [OF k8(1), of b s "{0, 1}", folded u_def] loaded_steady [OF t6(4) s8(1)] obtain f where
    f: "quiet (t8\<lparr>fds := f\<rparr>) u" "length f = MAX_FDS" "\<forall>fd \<in> set f. \<not> in_use fd" "loaded b s {0, 1} u" by blast
  have run: "kernel_init b syms s = Ret () u"
    unfolding kernel_init_def Let_def s5_def [symmetric] m(1) obind.simps m(2) t6(1) t6(2) [symmetric] t8(1) u_def [symmetric] ..
  note eu = quietD [OF f(1)]
  have bm: "bitmap u = bitmap t4" "free_frame_count u = free_frame_count t4" "next_pid u = next_pid s + 1"
    using eu(3,4,7) e7(3,4,7) s8(2-4) t4(4) e5(7) by simp_all
  then have pm: "pmm_inv u" "2 \<le> card (free_set u)" using t4(5,6) by (simp_all add: pmm_inv_def free_set_def bitmap_test_def)
  have o: "kb_same s u" "isr_handlers u = ?f (boot_handlers (isr_handlers s))" "fds u = f"
    using k8 eu(10) by (simp_all add: rest_same_def kb_same_def)
  have "sched_inv u []" using t8(2) sched_inv_cong [of u t8] eu(6,8,9) by simp
  moreover have "irq_table u" unfolding irq_table_def o(2) using r' by (simp add: boot_handlers_def)
  moreover have "kb_inv u" using r' kb_same_queues(1) [OF o(1)] by blast
  moreover have "fds_ok u" unfolding fds_ok_def o(3) using f(2,3) by blast
  ultimately have "kernel_inv [] u" by (simp add: kernel_inv_def)
  moreover have "heap_blocks u = heap_blocks t8" "heap_inv u = heap_inv t8" "live u = live t8" "idle u = idle t8"
    using heap_blocks_cong [of u t8] heap_cong(2) [of u t8] eu(1,5,9) by simp_all
  moreover have "current u = idle u" using t8(3) eu(8,9) by simp
  ultimately show ?thesis using run t8(4,5,7) s8(5) o f(3,4) pm bm(3) by (intro exI [of _ u]) simp
qed

section \<open>Handing over\<close>








text \<open>A machine as \<open>boot.asm\<close> leaves it: its three tables are at 0x101000, 0x102000 and 0x103000, and no large page is mapped yet. The serial
  port is ready and the interrupt masks read back what was written.\<close>

definition test_dev :: "port_event list \<Rightarrow> u16 \<Rightarrow> u8" where
  "test_dev log p = (if mask_port p then mask_dev (rev log) p else 0x20)"


definition boot_example :: boot_syms where
  "boot_example = \<lparr>kernel_start = 0x100000, kernel_end = 0x200000, gdt_at = 0x110000, tss_at = 0x111000, idt_at = 0x112000,
     isr_stub_table = \<lambda>i. 0x120000 + of_nat i, syscall_entry = 0x121000, vmm_init_fn = 0x122000, process_A_fn = 0x123000,
     ehdr_at = 0x180000, phdr_at = 0x180100, doom_path_at = 0x180200\<rparr>"

definition boot_mem :: memory where
  "boot_mem = store64 (store64 (\<lambda>_. 0) (entry_addr 0x101000 0) 0x102003) (entry_addr 0x102000 0) 0x103003"

definition machine_example :: main_state where
  "machine_example = sys_state.extend (sys_demo\<lparr>port_dev := test_dev, bitmap := replicate BITMAP_SIZE 0, free_frame_count := 0, mem := boot_mem, cr3 := 0x101000,
       next_pid := 1, ticks := 0\<rparr>)
     \<lparr>cr0 = 0, cr4 = 0\<rparr>"

lemma load_boot_mem:
  assumes "page_aligned t" "unat i < 512"
  shows "load64 boot_mem (entry_addr t i) = (if t = 0x102000 \<and> i = 0 then 0x103003 else if t = 0x101000 \<and> i = 0 then 0x102003 else 0)"
proof -
  have a: "page_aligned 0x101000" "page_aligned 0x102000" by (simp_all add: page_aligned_def)
  show ?thesis using byte_memory.ld_st_entry [OF a(1) _ assms, of 0] byte_memory.ld_st_entry [OF a(2) _ assms, of 0]
    by (auto simp: boot_mem_def byte_memory.ld_st_same)
qed

lemma machine_example_ready: "boot_ready boot_example machine_example"
proof -
  have e: "bitmap machine_example = replicate BITMAP_SIZE 0" "free_frame_count machine_example = 0" "mem machine_example = boot_mem"
    "cr3 machine_example = 0x101000" "isr_handlers machine_example = isr_handlers sys_demo" "idt machine_example = idt sys_demo"
    "fds machine_example = fds sys_demo" "kb_inv machine_example = kb_inv sys_demo"
    by (simp_all add: machine_example_def sys_state.defs kb_inv_def kb_chars_def)
  have al: "page_aligned 0x101000" "page_aligned 0x102000" "page_aligned 0x103000" by (simp_all add: page_aligned_def)
  have "unat (of_nat k :: u64) < 512" if "k < 512" for k using that unat_of_nat_small [of k, where ?'a = 64] by simp
  then have "boot_paging (kernel_start boot_example) (kernel_end boot_example) machine_example"
    unfolding boot_paging_def boot_tables_def Let_def e by (simp add: load_boot_mem al ENTRY_ADDR_def boot_example_def)
  moreover have "length (idt sys_demo) = 256"
    by (simp add: sys_demo_def rd_demo_def rd_state.defs kb_state.defs kb_demo_def sched_state.defs sched_demo_def idt_state.defs idt_blank_def proc_state.defs)
  moreover have "kb_inv machine_example" using e(8) sys_demo_simps(7) by simp
  ultimately show ?thesis unfolding boot_ready_def e by (simp add: boot_example_def sys_demo_simps)
qed




text \<open>C15. Initialisation always completes: from the state \<open>boot.asm\<close> leaves, \<open>kernel_main\<close> reaches the end of its list of \<open>*_init\<close> calls, without
  a halt. Then the idle process is the only one and the current one, the heap is in order with one free block of all but
  the idle process's share, every descriptor is free, the keyboard queues are as they were, and the handlers of page faults, invalid
  opcodes, timer and keyboard are registered.
\<close>

theorem kernel_init_completes:
  assumes "boot_ready b s"
  shows "\<exists>t. kernel_init b syms s = Ret () t \<and> kernel_inv [] t \<and> current t = idle t \<and> heap_inv t \<and>
    (\<exists>n \<ge> HEAP_BYTES - 16688. (n, True) \<in> set (heap_blocks t)) \<and> kb_same s t \<and> (\<forall>fd \<in> set (fds t). \<not> in_use fd) \<and>
    isr_handlers t = (isr_handlers s)[14 := Some Page_Fault_Handler, 6 := Some Ud_Handler, 33 := Some Keyboard_Handler, 32 := Some Timer_Handler]"
  using kernel_init_effect [OF assms, of syms, unfolded boot_handlers_def] by blast

theorem kernel_init_completes_witness:
  "\<exists>t. kernel_init boot_example syms_example machine_example = Ret () t \<and> kernel_inv [] t \<and> heap_inv t"
  using kernel_init_completes [OF machine_example_ready, of syms_example] by blast

end
