(* ===== verification/Self_Tests.thy ===== *)
theory Self_Tests
  imports Boot
begin

text \<open>
  The kernel's self-tests, \<open>tests/\<close>, which the build with \<open>RUN_TESTS\<close> runs between the start-up code and the first process:
  the framework of \<open>ktest.h\<close> and \<open>ktest.c\<close>, the seven suites, and \<open>run_all_tests\<close> of \<open>src/kernel.c\<close>. A test that gives the
  processor away, which the interrupts it provokes may do, ends in \<open>Switched\<close>. What the tests take from the hardware and from the
  linker is a parameter: the registers saved at a breakpoint, the interrupts
  that arrive while the timer test spins, and addresses of functions.
\<close>

section \<open>The framework\<close>

record ktest_state = main_state +
  ktest_current_failed :: u32
  ktest_pass_count :: u32
  ktest_fail_count :: u32

type_synonym 'a ktest_fn = "'a ktest_state_scheme \<Rightarrow> ('a ktest_state_scheme, control) outcome"

record test_env =
  env_syms :: kernel_syms
  dummy_entry :: u64
  brk_regs :: registers
  spin_irqs :: "registers list"

text \<open>Going on after something that may give the processor away, and running pieces in order.\<close>

definition cbind :: "('s, control) outcome \<Rightarrow> ('s \<Rightarrow> ('s, control) outcome) \<Rightarrow> ('s, control) outcome" where
  "cbind m f = obind m (\<lambda>ctl t. case ctl of Returned \<Rightarrow> f t | Switched \<Rightarrow> Ret Switched t)"

abbreviation finish :: "('s, unit) outcome \<Rightarrow> ('s, control) outcome" where
  "finish m \<equiv> obind m (\<lambda>_. Ret Returned)"

definition ktest_assert :: "bool \<Rightarrow> string \<Rightarrow> u64 \<Rightarrow> 'a ktest_state_scheme \<Rightarrow> ('a ktest_state_scheme, unit) outcome" where
  "ktest_assert cond cond_text line s =
     (if \<not> cond
      then obind (serial_print (str ''  [FAIL] '') s) (\<lambda>_ s1.
           obind (serial_print (str cond_text) s1) (\<lambda>_ s2.
           obind (serial_print (str '' at line '') s2) (\<lambda>_ s3.
           obind (serial_print_int line s3) (\<lambda>_ s4.
           obind (serial_print [0x0A] s4) (\<lambda>_ s5. Ret () (s5\<lparr>ktest_current_failed := 1\<rparr>))))))
      else Ret () s)"

definition ktest_one :: "string \<Rightarrow> 'a ktest_fn \<Rightarrow> 'a ktest_fn" where
  "ktest_one name fn s =
     obind (serial_print (str ''  '') (s\<lparr>ktest_current_failed := 0\<rparr>)) (\<lambda>_ s1.
     obind (serial_print (str name) s1) (\<lambda>_ s2.
     obind (serial_print (str ''... '') s2) (\<lambda>_ s3.
     cbind (fn s3) (\<lambda>s4.
       if ktest_current_failed s4 \<noteq> 0
       then obind (serial_print (str ''[FAIL]'' @ [0x0A]) s4) (\<lambda>_ s5. Ret Returned (s5\<lparr>ktest_fail_count := ktest_fail_count s5 + 1\<rparr>))
       else obind (serial_print (str ''[PASS]'' @ [0x0A]) s4) (\<lambda>_ s5. Ret Returned (s5\<lparr>ktest_pass_count := ktest_pass_count s5 + 1\<rparr>))))))"

primrec ktest_loop :: "(string \<times> 'a ktest_fn) list \<Rightarrow> 'a ktest_fn" where
  "ktest_loop [] s = Ret Returned s"
| "ktest_loop (x # xs) s = cbind (ktest_one (fst x) (snd x) s) (ktest_loop xs)"

text \<open>The counters are \<open>int\<close>s, widened with their sign for printing.\<close>

definition ktest_run :: "string \<Rightarrow> (string \<times> 'a ktest_fn) list \<Rightarrow> 'a ktest_fn" where
  "ktest_run suite_name tests s =
     obind (serial_print ([0x0A] @ str ''=== TEST SUITE: '') s) (\<lambda>_ s1.
     obind (serial_print (str suite_name) s1) (\<lambda>_ s2.
     obind (serial_print (str '' ==='' @ [0x0A]) s2) (\<lambda>_ s3.
     cbind (ktest_loop tests s3) (\<lambda>s4.
     obind (serial_print (str ''--- '') s4) (\<lambda>_ s5.
     obind (serial_print_int (scast (ktest_pass_count s5)) s5) (\<lambda>_ s6.
     obind (serial_print (str '' passed, '') s6) (\<lambda>_ s7.
     obind (serial_print_int (scast (ktest_fail_count s7)) s7) (\<lambda>_ s8.
     finish (serial_print (str '' failed ---'' @ [0x0A, 0x0A]) s8)))))))))"

section \<open>The suites\<close>

subsection \<open>\<open>test_pmm.c\<close>\<close>

definition test_pmm_alloc_not_null :: "'a ktest_fn" where
  "test_pmm_alloc_not_null s =
     (case pmm_alloc s of (frame, s1) \<Rightarrow>
        obind (ktest_assert (frame \<noteq> NULL) ''(frame) != NULL'' 7 s1) (\<lambda>_ s2. finish (pmm_free frame s2)))"

definition test_pmm_alloc_aligned :: "'a ktest_fn" where
  "test_pmm_alloc_aligned s =
     (case pmm_alloc s of (frame, s1) \<Rightarrow>
        obind (ktest_assert (frame \<noteq> NULL) ''(frame) != NULL'' 13 s1) (\<lambda>_ s2.
        obind (ktest_assert (frame AND 0xFFF = 0) ''((uint64_t)frame & 0xFFF) == 0'' 15 s2) (\<lambda>_ s3.
        finish (pmm_free frame s3))))"

definition test_pmm_free_reclaims :: "'a ktest_fn" where
  "test_pmm_free_reclaims s =
     (let before = pmm_free_frames s in
      case pmm_alloc s of (frame, s1) \<Rightarrow>
        obind (ktest_assert (pmm_free_frames s1 = before - 1) ''pmm_free_frames() == before - 1'' 22 s1) (\<lambda>_ s2.
        obind (pmm_free frame s2) (\<lambda>_ s3.
        finish (ktest_assert (pmm_free_frames s3 = before) ''(pmm_free_frames()) == (before)'' 24 s3))))"

definition test_pmm_multiple_allocs_unique :: "'a ktest_fn" where
  "test_pmm_multiple_allocs_unique s =
     (case pmm_alloc s of (a, s1) \<Rightarrow> case pmm_alloc s1 of (b, s2) \<Rightarrow>
        obind (ktest_assert (a \<noteq> NULL) ''(a) != NULL'' 30 s2) (\<lambda>_ s3.
        obind (ktest_assert (b \<noteq> NULL) ''(b) != NULL'' 31 s3) (\<lambda>_ s4.
        obind (ktest_assert (a \<noteq> b) ''(a) != (b)'' 33 s4) (\<lambda>_ s5.
        obind (pmm_free a s5) (\<lambda>_ s6. finish (pmm_free b s6))))))"

definition pmm_tests :: "(string \<times> 'a ktest_fn) list" where
  "pmm_tests =
     [(''alloc returns non-null'', test_pmm_alloc_not_null),
      (''alloc returns aligned address'', test_pmm_alloc_aligned),
      (''free reclaims frame'', test_pmm_free_reclaims),
      (''multiple allocs are unique'', test_pmm_multiple_allocs_unique)]"

subsection \<open>\<open>test_heap.c\<close>\<close>

definition test_kmalloc_not_null :: "'a ktest_fn" where
  "test_kmalloc_not_null s =
     obind (kmalloc 64 s) (\<lambda>p s1.
     obind (ktest_assert (p \<noteq> NULL) ''(p) != NULL'' 8 s1) (\<lambda>_ s2. finish (kfree p s2)))"

definition test_kmalloc_unique :: "'a ktest_fn" where
  "test_kmalloc_unique s =
     obind (kmalloc 64 s) (\<lambda>a s1.
     obind (kmalloc 64 s1) (\<lambda>b s2.
     obind (ktest_assert (a \<noteq> NULL) ''(a) != NULL'' 15 s2) (\<lambda>_ s3.
     obind (ktest_assert (b \<noteq> NULL) ''(b) != NULL'' 16 s3) (\<lambda>_ s4.
     obind (ktest_assert (a \<noteq> b) ''(a) != (b)'' 18 s4) (\<lambda>_ s5.
     obind (kfree a s5) (\<lambda>_ s6. finish (kfree b s6)))))))"

definition test_kmalloc_write_read :: "'a ktest_fn" where
  "test_kmalloc_write_read s =
     obind (kmalloc 256 s) (\<lambda>p s1.
     obind (ktest_assert (p \<noteq> NULL) ''(p) != NULL'' 25 s1) (\<lambda>_ s2.
     let s3 = s2\<lparr>mem := for_upd 256 0 (\<lambda>i m. m(p + of_nat i := of_nat i)) (mem s2)\<rparr>
     in obind (for_loop 256 0 (\<lambda>i t. ktest_assert (mem t (p + of_nat i) = of_nat i) ''(p[i]) == ((uint8_t)i)'' 28 t) s3) (\<lambda>_ s4.
     finish (kfree p s4))))"

definition test_kcalloc_zeroed :: "'a ktest_fn" where
  "test_kcalloc_zeroed s =
     obind (kcalloc 1 256 s) (\<lambda>p s1.
     obind (ktest_assert (p \<noteq> NULL) ''(p) != NULL'' 36 s1) (\<lambda>_ s2.
     obind (for_loop 256 0 (\<lambda>i t. ktest_assert (mem t (p + of_nat i) = 0) ''(p[i]) == (0)'' 37 t) s2) (\<lambda>_ s3.
     finish (kfree p s3))))"

definition test_kfree_then_realloc :: "'a ktest_fn" where
  "test_kfree_then_realloc s =
     obind (kmalloc 64 s) (\<lambda>a s1.
     obind (kfree a s1) (\<lambda>_ s2.
     obind (kmalloc 64 s2) (\<lambda>b s3.
     obind (ktest_assert (b \<noteq> NULL) ''(b) != NULL'' 45 s3) (\<lambda>_ s4. finish (kfree b s4)))))"

definition heap_tests :: "(string \<times> 'a ktest_fn) list" where
  "heap_tests =
     [(''kmalloc returns non-null'', test_kmalloc_not_null),
      (''kmalloc returns unique pointers'', test_kmalloc_unique),
      (''read/write allocated memory'', test_kmalloc_write_read),
      (''kcalloc is zeroed'', test_kcalloc_zeroed),
      (''free then realloc memory'', test_kfree_then_realloc)]"

subsection \<open>\<open>test_process.c\<close>\<close>

definition test_process_create_not_null :: "test_env \<Rightarrow> 'a ktest_fn" where
  "test_process_create_not_null e s =
     obind (process_create (env_syms e) (dummy_entry e) s) (\<lambda>p s1.
     obind (ktest_assert (p \<noteq> NULL) ''(p) != NULL'' 17 s1) (\<lambda>_ s2. finish (process_destroy p s2)))"

definition test_process_valid_pid :: "test_env \<Rightarrow> 'a ktest_fn" where
  "test_process_valid_pid e s =
     obind (process_create (env_syms e) (dummy_entry e) s) (\<lambda>p s1.
     obind (ktest_assert (p \<noteq> NULL) ''(p) != NULL'' 23 s1) (\<lambda>_ s2.
     obind (deref p s2 (\<lambda>pr. ktest_assert (0 < pid pr) ''p->pid > 0'' 24 s2)) (\<lambda>_ s3.
     finish (process_destroy p s3))))"

definition test_process_inital_state_ready :: "test_env \<Rightarrow> 'a ktest_fn" where
  "test_process_inital_state_ready e s =
     obind (process_create (env_syms e) (dummy_entry e) s) (\<lambda>p s1.
     obind (ktest_assert (p \<noteq> NULL) ''(p) != NULL'' 30 s1) (\<lambda>_ s2.
     obind (deref p s2 (\<lambda>pr. ktest_assert (pstate pr = PROCESS_READY) ''(p->state) == (PROCESS_READY)'' 31 s2)) (\<lambda>_ s3.
     finish (process_destroy p s3))))"

definition test_process_pid_unique :: "test_env \<Rightarrow> 'a ktest_fn" where
  "test_process_pid_unique e s =
     obind (process_create (env_syms e) (dummy_entry e) s) (\<lambda>a s1.
     obind (process_create (env_syms e) (dummy_entry e) s1) (\<lambda>b s2.
     obind (ktest_assert (a \<noteq> NULL) ''(a) != NULL'' 38 s2) (\<lambda>_ s3.
     obind (ktest_assert (b \<noteq> NULL) ''(b) != NULL'' 39 s3) (\<lambda>_ s4.
     obind (deref a s4 (\<lambda>pa. deref b s4 (\<lambda>pb. ktest_assert (pid pa \<noteq> pid pb) ''(a->pid) != (b->pid)'' 40 s4))) (\<lambda>_ s5.
     obind (process_destroy a s5) (\<lambda>_ s6. finish (process_destroy b s6)))))))"

definition test_process_has_stack :: "test_env \<Rightarrow> 'a ktest_fn" where
  "test_process_has_stack e s =
     obind (process_create (env_syms e) (dummy_entry e) s) (\<lambda>p s1.
     obind (ktest_assert (p \<noteq> NULL) ''(p) != NULL'' 47 s1) (\<lambda>_ s2.
     obind (deref p s2 (\<lambda>pr. ktest_assert (kernel_stack pr \<noteq> 0) ''(p->kernel_stack) != (0)'' 48 s2)) (\<lambda>_ s3.
     obind (deref p s3 (\<lambda>pr. ktest_assert (ctx_rsp (pcontext pr) \<noteq> 0) ''(p->context.rsp) != (0)'' 49 s3)) (\<lambda>_ s4.
     finish (process_destroy p s4)))))"

definition process_tests :: "test_env \<Rightarrow> (string \<times> 'a ktest_fn) list" where
  "process_tests e =
     [(''create process is non-null'', test_process_create_not_null e),
      (''process has valid pid'', test_process_valid_pid e),
      (''process state is READY'', test_process_inital_state_ready e),
      (''process IDs are unique'', test_process_pid_unique e),
      (''process has kernel stack'', test_process_has_stack e)]"

subsection \<open>\<open>test_gdt.c\<close>\<close>

definition test_gdt_cs_is_kernel_code :: "'a ktest_fn" where
  "test_gdt_cs_is_kernel_code s = finish (ktest_assert (seg_cs s = 0x08) ''(cs) == (0x08)'' 17 s)"

definition test_gdt_ds_is_kernel_data :: "'a ktest_fn" where
  "test_gdt_ds_is_kernel_data s = finish (ktest_assert (seg_ds s = 0x10) ''(ds) == (0x10)'' 24 s)"

definition test_gdt_ss_is_kernel_data :: "'a ktest_fn" where
  "test_gdt_ss_is_kernel_data s = finish (ktest_assert (seg_ss s = 0x10) ''(ss) == (0x10)'' 30 s)"

definition test_gdt_limit_correct :: "'a ktest_fn" where
  "test_gdt_limit_correct s = finish (ktest_assert (fst (gdtr s) = 7 * 8 - 1) ''(gdtr.limit) == ((7 * 8) - 1)'' 40 s)"

definition test_gdt_syscall_enabled :: "'a ktest_fn" where
  "test_gdt_syscall_enabled s =
     (let low = (ucast (msr s 0xC0000080) :: u32) in finish (ktest_assert (low AND 1 \<noteq> 0) ''low & 1'' 50 s))"

definition test_gdt_lstar_set :: "'a ktest_fn" where
  "test_gdt_lstar_set s =
     (let low = (ucast (msr s 0xC0000082) :: u32); high = (ucast (drop_bit 32 (msr s 0xC0000082)) :: u32);
          lstar = push_bit 32 (ucast high :: u64) OR ucast low
      in finish (ktest_assert (lstar \<noteq> 0) ''lstar != 0'' 60 s))"

definition gdt_tests :: "(string \<times> 'a ktest_fn) list" where
  "gdt_tests =
     [(''CS is kernel code selector'', test_gdt_cs_is_kernel_code),
      (''DS is kernel data selector'', test_gdt_ds_is_kernel_data),
      (''SS is kernel data selector'', test_gdt_ss_is_kernel_data),
      (''GDTR limit is correct'', test_gdt_limit_correct),
      (''EFER.SCE is set'', test_gdt_syscall_enabled),
      (''LSTAR MSR is non-zero'', test_gdt_lstar_set)]"

subsection \<open>\<open>test_idt.c\<close>\<close>

definition test_idt_limit_correct :: "'a ktest_fn" where
  "test_idt_limit_correct s = finish (ktest_assert (fst (idtr s) = 256 * 16 - 1) ''(idtr.limit) == ((256 * 16) - 1)'' 32 s)"

definition test_idt_base_nonzero :: "'a ktest_fn" where
  "test_idt_base_nonzero s = finish (ktest_assert (snd (idtr s) \<noteq> 0) ''(idtr.base) != (0)'' 38 s)"

text \<open>The breakpoint instruction: the stub of vector 3 pushes 0 for the error code and 3 for the number.\<close>

definition int3 :: "registers \<Rightarrow> 'a ktest_fn" where
  "int3 regs s = isr_common_handler run_handler (regs\<lparr>int_no := 3, err_code := 0\<rparr>) s"

definition test_idt_register_handler :: "test_env \<Rightarrow> 'a ktest_fn" where
  "test_idt_register_handler e s =
     (let s1 = (idt_register_handler 3 (Some Test_Breakpoint_Handler) s)\<lparr>breakpoint_caught := 0\<rparr>
      in cbind (int3 (brk_regs e) s1) (\<lambda>s2.
         obind (ktest_assert (breakpoint_caught s2 = 1) ''(breakpoint_caught) == (1)'' 46 s2) (\<lambda>_ s3.
         Ret Returned (idt_register_handler 3 None s3))))"

definition test_idt_null_handler :: "'a ktest_fn" where
  "test_idt_null_handler s = finish (ktest_assert True ''1'' 60 (idt_register_handler 48 None s))"

definition idt_tests :: "test_env \<Rightarrow> (string \<times> 'a ktest_fn) list" where
  "idt_tests e =
     [(''IDTR limit is correct'', test_idt_limit_correct),
      (''IDTR base is non-zero'', test_idt_base_nonzero),
      (''register and trigger handler'', test_idt_register_handler e),
      (''NULL handler registration safe'', test_idt_null_handler)]"

subsection \<open>\<open>test_pic.c\<close>\<close>

definition test_pic_irq0_unmasked :: "'a ktest_fn" where
  "test_pic_irq0_unmasked s =
     (case inb PIC1_DATA s of (msk, s1) \<Rightarrow> finish (ktest_assert (msk AND 0x01 = 0) ''(mask & 0x01) == (0)'' 22 s1))"

definition test_pic_irq1_unmasked :: "'a ktest_fn" where
  "test_pic_irq1_unmasked s =
     (case inb PIC1_DATA s of (msk, s1) \<Rightarrow> finish (ktest_assert (msk AND 0x02 = 0) ''(mask & 0x02) == (0)'' 27 s1))"

definition test_pic_mask_unmask :: "'a ktest_fn" where
  "test_pic_mask_unmask s =
     (case inb PIC1_DATA (pic_unmask 5 s) of (before, s1) \<Rightarrow>
      case inb PIC1_DATA (pic_mask 5 s1) of (masked, s2) \<Rightarrow>
        obind (ktest_assert (masked AND push_bit 5 1 \<noteq> 0) ''masked & (1 << 5)'' 35 s2) (\<lambda>_ s3.
        case inb PIC1_DATA (pic_unmask 5 s3) of (unmasked, s4) \<Rightarrow>
        finish (ktest_assert (before = unmasked) ''(before) == (after)'' 38 s4)))"

definition test_pic_slave_accessible :: "'a ktest_fn" where
  "test_pic_slave_accessible s = (case inb PIC2_DATA s of (msk, s1) \<Rightarrow> finish (ktest_assert True ''1'' 45 s1))"

definition pic_tests :: "(string \<times> 'a ktest_fn) list" where
  "pic_tests =
     [(''IRQ0 (timer) is unmasked'', test_pic_irq0_unmasked),
      (''IRQ1 (keyboard) is unmasked'', test_pic_irq1_unmasked),
      (''mask/unmask IRQ works'', test_pic_mask_unmask),
      (''slave PIC is accessible'', test_pic_slave_accessible)]"

subsection \<open>\<open>test_timer.c\<close>\<close>

definition test_timer_ticks_start_zero :: "'a ktest_fn" where
  "test_timer_ticks_start_zero s = (let t = timer_ticks s in finish (ktest_assert True ''1'' 21 s))"

text \<open>The interrupts that come between \<open>sti\<close> and \<open>cli\<close>.\<close>

primrec take_irqs :: "registers list \<Rightarrow> 'a ktest_fn" where
  "take_irqs [] s = Ret Returned s"
| "take_irqs (r # rs) s = cbind (irq_common_handler run_handler r s) (take_irqs rs)"

definition test_timer_ticks_advance :: "test_env \<Rightarrow> 'a ktest_fn" where
  "test_timer_ticks_advance e s =
     (let before = timer_ticks s
      in cbind (take_irqs (spin_irqs e) s) (\<lambda>s1. finish (ktest_assert (before < timer_ticks s1) ''after > before'' 31 s1)))"

definition test_timer_ticks_monotonic :: "'a ktest_fn" where
  "test_timer_ticks_monotonic s = (let a = timer_ticks s; b = timer_ticks s in finish (ktest_assert (a \<le> b) ''a <= b'' 37 s))"

definition timer_tests :: "test_env \<Rightarrow> (string \<times> 'a ktest_fn) list" where
  "timer_tests e =
     [(''timer_ticks returns value'', test_timer_ticks_start_zero),
      (''ticks advance with interrupts'', test_timer_ticks_advance e),
      (''ticks are monotonic'', test_timer_ticks_monotonic)]"

section \<open>Running them all\<close>

definition run_all_tests :: "test_env \<Rightarrow> 'a ktest_fn" where
  "run_all_tests e s =
     obind (serial_print ([0x0A] @ str ''=== RUNNING KERNEL TESTS ==='' @ [0x0A]) s) (\<lambda>_ s1.
     cbind (ktest_run ''PMM'' pmm_tests s1) (\<lambda>s2.
     cbind (ktest_run ''HEAP'' heap_tests s2) (\<lambda>s3.
     cbind (ktest_run ''PROCESS'' (process_tests e) s3) (\<lambda>s4.
     cbind (ktest_run ''GDT'' gdt_tests s4) (\<lambda>s5.
     cbind (ktest_run ''IDT'' (idt_tests e) s5) (\<lambda>s6.
     cbind (ktest_run ''PIC'' pic_tests s6) (\<lambda>s7.
     cbind (ktest_run ''TIMER'' (timer_tests e) s7) (\<lambda>s8.
     finish (serial_print (str ''=== TESTS COMPLETE ==='' @ [0x0A]) s8)))))))))"

text \<open>The block of \<open>kernel_main\<close> between the start-up code and the first process.\<close>

definition boot_self_tests :: "test_env \<Rightarrow> 'a ktest_fn" where
  "boot_self_tests e s =
     cbind (run_all_tests e (vga_print (str ''[RUNNING TESTS]'' @ [0x0A]) s)) (\<lambda>s1.
     Ret Returned (vga_print (str ''[TESTS DONE]'' @ [0x0A]) s1))"

end
