(* ===== verification/Spec2Isabelle.thy ===== *)
theory Spec2Isabelle
  imports User_Malloc_Heap Doom_Platform Kernel_Programs Self_Tests_Pass
begin

text \<open>
  A verification development of a small x86-64 kernel and of the programs it runs. Paths below are relative to \<open>src/src\<close>, those
  under \<open>user_programs/\<close> and \<open>tests/\<close> to \<open>src\<close>.

  \<^bold>\<open>The program.\<close> \<open>kernel.c\<close> brings up the devices, the memory managers and the scheduler, loads a program from
  an archive in the kernel image and starts the first process; from then on the kernel runs only
  when an interrupt, an exception or a system call enters it. The drivers write to ports and to the
  text screen. \<open>memory/pmm.c\<close> hands out 4 KB frames from a bitmap, \<open>memory/vmm.c\<close> builds
  four-level page tables from them, \<open>memory/heap.c\<close> is a first-fit allocator over pages mapped that way,
  and \<open>process/process.c\<close> puts descriptors and stacks on that heap. \<open>process/scheduler.c\<close> keeps the descriptors in a
  ring; the timer interrupt and the blocking system calls move control along it.
  \<open>filesystem/ramdisk.c\<close> reads files of a USTAR archive, \<open>filesystem/elf.c\<close> loads programs
  from it, and \<open>syscall/syscall.c\<close> offers all of this to user programs.

  \<^bold>\<open>State.\<close> The machine is one record that grows along the theories, each component adding its static variables and
  the hardware it drives: the port log and the devices' answers (\<open>Port_Io\<close>), the text screen (\<open>Vga\<close>),
  the frame bitmap (\<open>Pmm\<close>), memory and CR3 (\<open>Vmm\<close>), the heap's head (\<open>Kheap\<close>), segment tables and
  model-specific registers (\<open>Gdt\<close>), the process table (\<open>Kprocess\<close>), interrupt tables (\<open>Idt\<close>), ticks and the scheduler's
  pointers (\<open>Scheduler\<close>), keyboard buffers (\<open>Keyboard\<close>), file descriptors (\<open>Ramdisk\<close>) and the flag of the Linux
  dispatcher (\<open>Syscall\<close>). An operation takes the part of the record it needs and is polymorphic in the rest, so what
  it cannot touch is clear from its type. Memory is a byte per 64-bit address. Static variables and process descriptors
  are fields and records outside it (a descriptor is kept under its address), so a store through a pointer does not reach them
  there although it could in the machine. \<open>Kernel_Frame\<close> makes up for that: its theorems are about the bytes at which
  the machine has them, and say under which condition on its pointers a call writes none of these bytes. The properties of the
  running kernel (C1, C2) assume that condition; that the code does not enforce it is shown next to them.

  \<^bold>\<open>Outcomes.\<close> A routine returns (\<open>Ret\<close>), stops the processor (\<open>Halt\<close>), never returns (\<open>Hang\<close>) or makes an access that the
  processor refuses (\<open>Fault\<close>). Loops over data whose shape the code does not check (lists in memory,
  the wait for the serial port, strings of user programs) are \<open>partial_function (option)\<close>, so that a run without
  end is \<open>None\<close>; the theorems about them prove that they return. Loops with a fixed count are primitive
  recursive; nothing is bounded by fuel. Integers are words of the width the C types have.
  An operation that may give the processor to another process says so in its result
  (\<open>Returned\<close> or \<open>Switched\<close>, \<open>Done\<close> or \<open>Away\<close>).

  \<^bold>\<open>Theories.\<close>
  \<^item> \<open>Kernel_Prelude\<close>: word types, outcomes and their sequencing, loops, postconditions (\<open>yields\<close>), word lemmas.
  \<^item> \<open>Port_Io\<close>, \<open>Vga\<close>, \<open>Serial\<close>, \<open>Pic\<close>, \<open>Framebuffer\<close>: the drivers of \<open>drivers/\<close>. The screen invariant, what is sent on the
    serial line and that printed numbers read back to the value, masks of the controllers, rectangles that stay on the screen.
  \<^item> \<open>Pmm\<close>: the frame allocator as a set of free frames; allocation takes the lowest, two allocations never
    give the same frame, release undoes allocation.
  \<^item> \<open>Machine_Memory\<close>, \<open>Vmm\<close>, \<open>Vmm_Spaces\<close>: loads and stores; page tables as a tree of index paths; the effect of mapping
    and unmapping on the translation of every address, and separation of address spaces.
  \<^item> \<open>Kheap\<close>, \<open>Kheap_Alloc\<close>: the block list as an abstract list of sizes, which allocation and release refine;
    the locale \<open>block_allocator\<close> is what clients rely on, interpreted on \<open>kmalloc\<close> and \<open>kfree\<close>.
  \<^item> \<open>Gdt\<close>, \<open>Idt\<close>: descriptors and gates as the processor decodes them, the common interrupt handlers.
  \<^item> \<open>Kprocess\<close>: creation of kernel and user processes on the heap, and their destruction.
  \<^item> \<open>Scheduler\<close>, \<open>Scheduler_Ring\<close>, \<open>Timer\<close>: the ring as a list, a tick as a reference round robin, no starvation.
  \<^item> \<open>Ring_Buffer\<close>, \<open>Keyboard\<close>: circular buffers implement bounded queues (locale \<open>bounded_queue\<close>, interpreted for
    the character and for the event buffer).
  \<^item> \<open>User_Memory\<close>: accesses through a user pointer, resolved by the page tables at CR3, and buffers that stay mapped while they are written.
  \<^item> \<open>Ramdisk\<close>, \<open>Elf\<close>: opening, reading and positioning files of the archive, and the program loader.
  \<^item> \<open>Syscall\<close>, \<open>Syscall_Safety\<close>, \<open>Syscall_Effects\<close>: the system calls with both dispatchers; the locales \<open>upper_state\<close>,
    \<open>fd_state\<close> and \<open>file_state\<close> collect what the lower layers leave alone, interpreted for the kernel's invariant, and every call
    that comes back keeps that invariant; what the reading, writing and mapping calls do to the caller's memory.
  \<^item> \<open>Kernel_Frame\<close>: the bytes a system call may write. The same locales (\<open>quiet_state\<close>, \<open>paging_state\<close>, \<open>file_state\<close>) interpreted for the
    bytes of the kernel's image and of its process descriptors: no call whose pointers and page tables lead elsewhere changes them.
  \<^item> \<open>Interrupts\<close>: the handlers behind the interrupt table, the step relation of the running kernel, its invariant and the bytes of its
    data over all reachable states, and the time a sleeping process sleeps.
  \<^item> \<open>Loader\<close>, \<open>Boot\<close>: what loading a program does to the rest of the kernel, \<open>kernel_main\<close> from power-on to the first process,
    and that it establishes the invariant of the running kernel, the processor's tables and open interrupt lines.
  \<^item> \<open>User_Lib\<close>: the wrappers of \<open>user/user_lib.c\<close> around the system call instruction, under either numbering.
  \<^item> \<open>User_Malloc\<close>, \<open>User_Malloc_Heap\<close>: the allocator of \<open>user/malloc.c\<close> in a process's own memory. Its list of headers
    is a list of sizes and flags; allocation, release with merging, growth and moving act on that list. The locale
    \<open>program_break\<close> is what it relies on of \<open>sbrk\<close>, interpreted on the kernel's system call.
  \<^item> \<open>User_Screen\<close>, \<open>User_Drawing\<close>: the screen mapped into a process, and the programs \<open>pong\<close> of \<open>kernel.c\<close> and
    \<open>user_programs/hello/main.c\<close> drawing on it.
  \<^item> \<open>Kernel_Programs\<close>: the other programs that \<open>kernel.c\<close> carries (echoing a line, turns of the processes, reading a file).
  \<^item> \<open>Doom_Platform\<close>: the platform layer of the Doom port, \<open>user_programs/doom\<close>: keys, frames, time and the C library's calls.
  \<^item> \<open>Self_Tests\<close>, \<open>Self_Tests_Pass\<close>: the kernel's self-tests of \<open>tests/\<close> with their framework, and that all 31 pass. The locale
    \<open>test_suite\<close> is what the framework relies on of the state that the tests share, interpreted on the condition of
    the machine that each test needs and restores, which the initialisation of \<open>Boot\<close> establishes.

  \<^bold>\<open>Parameters.\<close> What the kernel does not contain is an argument: the addresses of assembly entry points and of
  static variables the compiler places, the answers of devices, the archive in the kernel image, the key codes of the
  game and what the game draws, in Doom's case; for the self-tests the interrupts that arrive while one waits.

  \<^bold>\<open>Not modelled.\<close> The boot code, the interrupt and system call entry stubs and the trampolines are assembly (\<open>boot/\<close>,
  \<open>cpu/isr.asm\<close>, \<open>syscall/syscall_entry.asm\<close>, \<open>process/process_asm.asm\<close>); their addresses are
  parameters. Of the assembly only \<open>context_switch\<close> and \<open>gdt_flush\<close> are modelled. Timing, caches, the translation buffer and the other
  processor flags are left out; interrupts come between steps, not inside one, since the kernel runs
  with them disabled. The game behind the Doom port is a submodule that the repository does not contain.
\<close>

end
